(* ===== verification/Prelude.thy ===== *)
theory Prelude
  imports Main "HOL-Library.Word"
begin

text \<open>
  Shared vocabulary of the development: the fixed-width integer types of the C code, the
  result type of a kernel operation (it returns, it halts the processor, or it never stops),
  the C \<open>while\<close> loop over that result type, byte-addressed physical memory with little-endian
  64-bit accesses, and the alignment and page arithmetic every component uses.
\<close>

unbundle bit_operations_syntax

named_theorems step_simps \<open>unfolding rules for the operations of the kernel\<close>
named_theorems frame_simps \<open>which state fields an operation leaves alone\<close>
named_theorems align_simps \<open>alignment facts\<close>

section \<open>Machine integers\<close>

type_synonym u8 = "8 word"
type_synonym u16 = "16 word"
type_synonym u32 = "32 word"
type_synonym u64 = "64 word"
type_synonym addr = "64 word"
type_synonym memory = "addr \<Rightarrow> u8"

section \<open>Results of kernel operations\<close>

text \<open>
  \<open>Ret v s\<close>: the C function returned \<open>v\<close> in state \<open>s\<close>. \<open>Halt s\<close>: it ended in an
  \<open>arch_halt_forever\<close> or \<open>cli; hlt\<close> loop, with what it had done to the state until then
  (its console message included). \<open>Diverge\<close>: a loop that never ends.
\<close>

datatype ('a, 's) outcome = Ret (result: 'a) (final: 's) | Halt (halted: 's) | Diverge

primrec chain :: "('a, 's) outcome \<Rightarrow> ('a \<Rightarrow> 's \<Rightarrow> ('b, 's) outcome) \<Rightarrow> ('b, 's) outcome" where
  "chain (Ret v s) k = k v s"
| "chain (Halt s) k = Halt s"
| "chain Diverge k = Diverge"

primrec returns :: "('a, 's) outcome \<Rightarrow> bool" where
  "returns (Ret v s) = True"
| "returns (Halt s) = False"
| "returns Diverge = False"

primrec halts :: "('a, 's) outcome \<Rightarrow> bool" where
  "halts (Ret v s) = False"
| "halts (Halt s) = True"
| "halts Diverge = False"

lemma chain_assoc: "chain (chain m f) g = chain m (\<lambda>v s. chain (f v s) g)"
  by (cases m) simp_all

lemma chain_Ret_iff:
  "chain m k = Ret v s \<longleftrightarrow> (\<exists>v1 s1. m = Ret v1 s1 \<and> k v1 s1 = Ret v s)"
  by (cases m) simp_all

lemma returns_iff: "returns m \<longleftrightarrow> (\<exists>v s. m = Ret v s)"
  by (cases m) simp_all

section \<open>C loops\<close>

text \<open>
  \<open>c_while b f x s\<close> is \<open>while (b) f\<close> over the loop variables \<open>x\<close> and the state \<open>s\<close>.
  The body may halt; a loop that never stops is \<open>Diverge\<close>.
\<close>

partial_function (option) c_loop ::
  "('x \<Rightarrow> 's \<Rightarrow> bool) \<Rightarrow> ('x \<Rightarrow> 's \<Rightarrow> ('x, 's) outcome) \<Rightarrow> 'x \<Rightarrow> 's \<Rightarrow> ('x, 's) outcome option" where
  "c_loop b f x s =
     (if b x s
      then (case f x s of
              Ret x' s' \<Rightarrow> c_loop b f x' s'
            | Halt s' \<Rightarrow> Some (Halt s')
            | Diverge \<Rightarrow> Some Diverge)
      else Some (Ret x s))"

definition c_while ::
  "('x \<Rightarrow> 's \<Rightarrow> bool) \<Rightarrow> ('x \<Rightarrow> 's \<Rightarrow> ('x, 's) outcome) \<Rightarrow> 'x \<Rightarrow> 's \<Rightarrow> ('x, 's) outcome" where
  "c_while b f x s = (case c_loop b f x s of None \<Rightarrow> Diverge | Some r \<Rightarrow> r)"

lemma c_while_step:
  "b x s \<Longrightarrow> c_while b f x s = chain (f x s) (c_while b f)"
  by (subst c_while_def, subst c_loop.simps, cases "f x s") (simp_all add: c_while_def)

lemma c_while_done: "\<not> b x s \<Longrightarrow> c_while b f x s = Ret x s"
  by (subst c_while_def, subst c_loop.simps) simp

lemma c_while_unfold:
  "c_while b f x s = (if b x s then chain (f x s) (c_while b f) else Ret x s)"
  by (simp add: c_while_step c_while_done)

text \<open>Total correctness of a loop: an invariant and a measure that every turn decreases.\<close>

lemma c_while_rule:
  assumes inv: "I x s"
    and body: "\<And>x s. I x s \<Longrightarrow> b x s \<Longrightarrow>
       \<exists>x' s'. f x s = Ret x' s' \<and> I x' s' \<and> (M x' s' :: nat) < M x s"
  shows "\<exists>x' s'. c_while b f x s = Ret x' s' \<and> I x' s' \<and> \<not> b x' s'"
  using inv
proof (induction "M x s" arbitrary: x s rule: less_induct)
  case less
  show ?case
  proof (cases "b x s")
    case True
    with body less.prems obtain x' s' where
      "f x s = Ret x' s'" "I x' s'" "M x' s' < M x s" by blast
    with less.hyps True show ?thesis by (simp add: c_while_step)
  next
    case False
    with less.prems show ?thesis by (simp add: c_while_done)
  qed
qed

text \<open>The same for a loop whose body may halt: an invariant up to there, and \<open>H\<close> where it halts.\<close>

lemma c_while_halt_rule:
  assumes inv: "I x s"
    and body: "\<And>x s. I x s \<Longrightarrow> b x s \<Longrightarrow>
       (\<exists>x' s'. f x s = Ret x' s' \<and> I x' s' \<and> (M x' s' :: nat) < M x s) \<or> (\<exists>s'. f x s = Halt s' \<and> H s')"
  shows "(\<exists>x' s'. c_while b f x s = Ret x' s' \<and> I x' s' \<and> \<not> b x' s') \<or> (\<exists>s'. c_while b f x s = Halt s' \<and> H s')"
  using inv
proof (induction "M x s" arbitrary: x s rule: less_induct)
  case less
  show ?case
  proof (cases "b x s")
    case True
    then consider x' s' where "f x s = Ret x' s'" "I x' s'" "M x' s' < M x s" | s' where "f x s = Halt s'" "H s'"
      using body less.prems by blast
    then show ?thesis
    proof cases
      case 1
      with less.hyps True show ?thesis by (simp add: c_while_step)
    next
      case 2
      with True show ?thesis by (simp add: c_while_step)
    qed
  next
    case False
    with less.prems show ?thesis by (simp add: c_while_done)
  qed
qed

section \<open>Bytes and little-endian 64-bit memory accesses\<close>

definition byte_of :: "u64 \<Rightarrow> nat \<Rightarrow> u8" where
  "byte_of v i = ucast (drop_bit (8 * i) v)"

primrec rd_le :: "memory \<Rightarrow> addr \<Rightarrow> nat \<Rightarrow> u64" where
  "rd_le m a 0 = 0"
| "rd_le m a (Suc k) = ucast (m a) OR push_bit 8 (rd_le m (a + 1) k)"

definition rd64 :: "memory \<Rightarrow> addr \<Rightarrow> u64" where
  "rd64 m a = rd_le m a 8"

definition wr64 :: "memory \<Rightarrow> addr \<Rightarrow> u64 \<Rightarrow> memory" where
  "wr64 m a v = (\<lambda>x. if x - a < 8 then byte_of v (unat (x - a)) else m x)"

lemma bit_byte_of: "bit (byte_of v i) n \<longleftrightarrow> n < 8 \<and> bit v (8 * i + n)"
  by (auto simp: byte_of_def bit_simps)

lemma bit_rd_le:
  "k \<le> 8 \<Longrightarrow> bit (rd_le m a k) n \<longleftrightarrow> n < 8 * k \<and> bit (m (a + of_nat (n div 8))) (n mod 8)"
proof (induction k arbitrary: a n)
  case 0
  then show ?case by simp
next
  case (Suc k)
  show ?case
  proof (cases "n < 8")
    case True
    then show ?thesis by (auto simp: bit_simps)
  next
    case False
    then have "n div 8 = Suc ((n - 8) div 8)" "n mod 8 = (n - 8) mod 8"
      by (auto simp: le_div_geq le_mod_geq)
    with False Suc show ?thesis
      by (auto simp: bit_simps add.assoc dest: bit_imp_le_length)
  qed
qed

lemma rd_le_take: "k \<le> 8 \<Longrightarrow> rd_le m a k = take_bit (8 * k) (rd64 m a)"
  by (rule bit_word_eqI) (auto simp: rd64_def bit_rd_le bit_simps)

lemma rd64_wr64_same [simp]: "rd64 (wr64 m a v) a = v"
proof (rule bit_word_eqI)
  fix n :: nat assume n: "n < LENGTH(64)"
  then have "n div 8 < 8" by simp
  then have u: "unat (of_nat (n div 8) :: addr) = n div 8" by (simp add: unat_of_nat)
  then have "(of_nat (n div 8) :: addr) < 8" using \<open>n div 8 < 8\<close> by (simp only: word_less_nat_alt) simp
  with n u show "bit (rd64 (wr64 m a v) a) n = bit v n"
    by (simp add: rd64_def bit_rd_le wr64_def bit_byte_of)
qed

lemma rd_le_cong: 
  "(\<And>i. i < k \<Longrightarrow> m (a + of_nat i) = m' (a + of_nat i)) \<Longrightarrow> rd_le m a k = rd_le m' a k"
proof (induction k arbitrary: a)
  case (Suc k)
  have "m (a + 1 + of_nat i) = m' (a + 1 + of_nat i)" if "i < k" for i
    using Suc.prems[of "Suc i"] that by (simp add: add.assoc)
  with Suc.IH Suc.prems[of 0] show ?case by simp
qed simp

lemma unat_offset:
  fixes a p :: u64
  assumes "unat p + unat (a - p) < 18446744073709551616"
  shows "unat a = unat p + unat (a - p)"
  using unat_word_ariths(1)[of p "a - p"] assms by simp

section \<open>Alignment and page arithmetic\<close>

text \<open>
  Alignment is divisibility of the unsigned value. \<open>unat_entry\<close> and \<open>entry_eq_iff\<close> are about
  \<open>table[i]\<close> for an array of 64-bit entries that starts on a page boundary: the entries of two
  such tables share an address only when table and index agree.
\<close>

definition word_aligned :: "addr \<Rightarrow> bool" where
  "word_aligned a \<longleftrightarrow> 8 dvd unat a"

definition page_aligned :: "addr \<Rightarrow> bool" where
  "page_aligned a \<longleftrightarrow> 4096 dvd unat a"

lemma unat_less64 [simp]: "unat (a::u64) < 18446744073709551616"
  using unsigned_less[of a] by simp

lemma word_alignedE:
  assumes "word_aligned a"
  obtains k where "unat a = 8 * k" "k < 2305843009213693952"
  using assms unat_less64[of a] unfolding word_aligned_def dvd_def by (auto simp del: unat_less64)

lemma page_alignedE:
  assumes "page_aligned a"
  obtains k where "unat a = 4096 * k" "k < 4503599627370496"
  using assms unat_less64[of a] unfolding page_aligned_def dvd_def by (auto simp del: unat_less64)

lemma unat_and_4095: "unat ((a::addr) AND 4095) = unat a mod 4096"
proof -
  have "a AND 4095 = take_bit 12 a" by (simp add: take_bit_eq_mask mask_eq_exp_minus_1)
  then show "unat (a AND 4095) = unat a mod 4096"
    by (simp only: unsigned_take_bit_eq) (simp add: take_bit_eq_mod)
qed

lemma page_aligned_iff_and: "page_aligned a \<longleftrightarrow> a AND 4095 = 0"
  by (simp add: page_aligned_def unat_eq_0[symmetric] unat_and_4095 mod_eq_0_iff_dvd)

lemma page_word_aligned [simp]: "page_aligned a \<Longrightarrow> word_aligned a"
  unfolding page_aligned_def word_aligned_def by (rule dvd_trans[of _ 4096]) simp_all

lemma word_in_cell:
  assumes "word_aligned a" "x - a < (8::addr)"
  shows "unat x div 8 = unat a div 8"
proof -
  obtain k where k: "unat a = 8 * k" "k < 2305843009213693952" using assms(1) by (rule word_alignedE)
  define d where "d = unat (x - a)"
  have d: "d < 8" using assms(2) by (simp add: d_def word_less_nat_alt)
  have "x = a + (x - a)" by simp
  then have "unat x = (unat a + d) mod 18446744073709551616"
    unfolding d_def using unat_word_ariths(1)[of a "x - a"] by simp
  with k d have "unat x = 8 * k + d" by simp
  with k d show ?thesis by simp
qed

lemma word_aligned_div_eq:
  "word_aligned a \<Longrightarrow> word_aligned b \<Longrightarrow> unat a div 8 = unat b div 8 \<Longrightarrow> a = b"
  by (auto elim!: word_alignedE simp: word_unat_eq_iff)

lemma wr64_other:
  assumes "word_aligned a" "word_aligned b" "a \<noteq> b" "x - b < 8"
  shows "wr64 m a v x = m x"
  using assms word_in_cell[of a x] word_in_cell[of b x] word_aligned_div_eq[of a b]
  by (auto simp: wr64_def)

lemma rd64_wr64_other [simp]:
  assumes "word_aligned a" "word_aligned b" "a \<noteq> b"
  shows "rd64 (wr64 m a v) b = rd64 m b"
proof -
  have "wr64 m a v (b + i) = m (b + i)" if "i < 8" for i
    using wr64_other[OF assms, of "b + i"] that by simp
  moreover have "(of_nat i :: addr) < 8" if "i < 8" for i
    using that by (simp add: word_less_nat_alt unat_of_nat)
  ultimately show ?thesis unfolding rd64_def by (intro rd_le_cong) simp
qed

lemma unat_entry: 
  assumes "page_aligned t" "i < 512"
  shows "unat (t + 8 * i) = unat t + 8 * unat i"
proof -
  obtain k where k: "unat t = 4096 * k" "k < 4503599627370496" using assms(1) by (rule page_alignedE)
  have i: "unat i < 512" using assms(2) by (simp add: word_less_nat_alt)
  have "unat (8 * i) = 8 * unat i" using i by (simp add: unat_word_ariths)
  with k i show ?thesis by (simp add: unat_word_ariths)
qed

lemma entry_aligned [simp]: "page_aligned t \<Longrightarrow> i < 512 \<Longrightarrow> word_aligned (t + 8 * i)"
  by (auto simp add: word_aligned_def unat_entry dest: page_word_aligned)

lemma entry_eq_iff [simp]: 
  assumes "page_aligned t" "page_aligned u" "i < 512" "j < 512"
  shows "t + 8 * i = u + 8 * j \<longleftrightarrow> t = u \<and> i = j"
proof
  assume "t + 8 * i = u + 8 * j"
  then have e: "unat t + 8 * unat i = unat u + 8 * unat j" using assms by (metis unat_entry)
  obtain k l where k: "unat t = 4096 * k" "unat u = 4096 * l" using assms(1,2) by (auto elim!: page_alignedE)
  have "unat i < 512" "unat j < 512" using assms by (simp_all add: word_less_nat_alt)
  then have "(4096 * k + 8 * unat i) div 4096 = k" "(4096 * l + 8 * unat j) div 4096 = l" by simp_all
  with e k have "k = l \<and> unat i = unat j" by simp
  with k show "t = u \<and> i = j" by (simp add: word_unat_eq_iff)
qed auto

lemma page_floor: "(a::addr) AND NOT 4095 = of_nat (4096 * (unat a div 4096))"
proof -
  have "(a AND NOT 4095) + (a AND 4095) = a"
    by (subst disjunctive_add) (auto simp: bit_simps bit_eq_iff)
  then have "a AND NOT 4095 = a - (a AND 4095)" by (simp add: eq_diff_eq)
  also have "\<dots> = of_nat (unat a) - of_nat (unat a mod 4096)" by (simp flip: unat_and_4095)
  also have "\<dots> = of_nat (unat a - unat a mod 4096)" by (simp add: of_nat_diff)
  finally show ?thesis by (simp add: minus_mod_eq_mult_div)
qed

lemma unat_page_floor: "unat ((a::addr) AND NOT 4095) = 4096 * (unat a div 4096)"
proof -
  have "4096 * (unat a div 4096) < 18446744073709551616" 
   using unat_less64[of a] by (meson le_less_trans times_div_less_eq_dividend)
  then show ?thesis unfolding page_floor by (simp only: unat_of_nat) simp
qed

text \<open>The simplifier writes \<open>NOT 4095\<close> as \<open>- 4096\<close>; the facts in that form.\<close>

lemmas unat_page_floor_minus = unat_page_floor [simplified]

lemma page_aligned_0 [simp]: "page_aligned 0"
  by (simp add: page_aligned_def)

lemma page_aligned_floor [simp]: "page_aligned (a AND - 4096)"
  by (simp add: page_aligned_def unat_page_floor_minus)

lemma page_floor_le: "(a::addr) AND NOT 4095 \<le> a"
  by (simp add: word_le_nat_alt unat_page_floor_minus)

lemma page_floor_id: "page_aligned a \<Longrightarrow> a AND NOT 4095 = a"
  by (auto simp: word_unat_eq_iff unat_page_floor_minus elim!: page_alignedE)

text \<open>Rounding up to a page, as the code writes it.\<close>

lemma unat_page_ceil:
  assumes "unat (a::addr) + 4095 < 18446744073709551616"
  shows "unat ((a + 4095) AND NOT 4095) = 4096 * ((unat a + 4095) div 4096)"
  using assms by (simp add: unat_page_floor_minus unat_word_ariths)

lemma page_aligned_add:
  assumes "page_aligned a" "page_aligned b"
  shows "page_aligned (a + b)"
proof -
  have "(4096::nat) dvd 18446744073709551616" by simp
  with assms show ?thesis
    unfolding page_aligned_def unat_word_ariths by (simp add: dvd_mod)
qed

lemma page_aligned_4096 [simp]: "page_aligned 4096"
  by (simp add: page_aligned_def)

end
