(* ===== verification/Console.thy ===== *)
theory Console
  imports Prelude
begin

text \<open>
  The machine state every component shares, and the serial console: \<open>string_length\<close>,
  \<open>write_text\<close>, \<open>write_line\<close>, \<open>write_decimal_u32\<close>, \<open>write_decimal_u64\<close> and the two
  hexadecimal printers, which \<open>core.c\<close>, \<open>palloc.c\<close>, \<open>memmap.c\<close>, \<open>heap.c\<close>, \<open>vfs.c\<close>,
  \<open>fd.c\<close> and \<open>sched.c\<close> repeat as file-local functions.
\<close>

section \<open>Machine state\<close>

text \<open>
  \<open>mem\<close> is physical memory, byte by byte; the kernel runs identity mapped, so a kernel pointer
  is a physical address. \<open>serial_out\<close> is what COM1 has sent, \<open>cr3\<close> the active address space.
\<close>

record machine =
  mem :: memory
  serial_out :: string
  cr3 :: u64

definition load64 :: "'a machine_scheme \<Rightarrow> addr \<Rightarrow> u64" where
  "load64 s a = rd64 (mem s) a"

definition store64 :: "addr \<Rightarrow> u64 \<Rightarrow> 'a machine_scheme \<Rightarrow> 'a machine_scheme" where
  "store64 a v s = s\<lparr>mem := wr64 (mem s) a v\<rparr>"

definition arch_load_cr3 :: "u64 \<Rightarrow> 'a machine_scheme \<Rightarrow> 'a machine_scheme" where
  "arch_load_cr3 v s = s\<lparr>cr3 := v\<rparr>"

definition arch_halt_forever :: "'a machine_scheme \<Rightarrow> ('v, 'a machine_scheme) outcome" where
  "arch_halt_forever s = Halt s"

section \<open>Console output\<close>

definition serial_write :: "string \<Rightarrow> 'a machine_scheme \<Rightarrow> 'a machine_scheme" where
  "serial_write buffer s = s\<lparr>serial_out := serial_out s @ buffer\<rparr>"

text \<open>A C string is read up to its first NUL; the end of the list stands for the terminator.\<close>

fun string_length :: "string \<Rightarrow> nat" where
  "string_length [] = 0"
| "string_length (c # cs) = (if c = CHR 0x00 then 0 else Suc (string_length cs))"

definition write_text :: "string \<Rightarrow> 'a machine_scheme \<Rightarrow> 'a machine_scheme" where
  "write_text text s = serial_write (take (string_length text) text) s"

definition write_line :: "string \<Rightarrow> 'a machine_scheme \<Rightarrow> 'a machine_scheme" where
  "write_line text s = serial_write [CHR 0x0D, CHR 0x0A] (write_text text s)"

text \<open>
  The first loop of the decimal printers fills \<open>digits\<close> with the least significant digit first;
  the second prints them from the last to the first.
\<close>

fun decimal_digits :: "nat \<Rightarrow> string" where
  "decimal_digits current =
     (if current = 0 then [] else char_of (48 + current mod 10) # decimal_digits (current div 10))"

declare decimal_digits.simps [simp del]

definition write_decimal_u64 :: "u64 \<Rightarrow> 'a machine_scheme \<Rightarrow> 'a machine_scheme" where
  "write_decimal_u64 value s =
     (if value = 0 then serial_write ''0'' s
      else fold (\<lambda>d s. serial_write [d] s) (rev (decimal_digits (unat value))) s)"

definition write_decimal_u32 :: "u32 \<Rightarrow> 'a machine_scheme \<Rightarrow> 'a machine_scheme" where
  "write_decimal_u32 value s =
     (if value = 0 then serial_write ''0'' s
      else fold (\<lambda>d s. serial_write [d] s) (rev (decimal_digits (unat value))) s)"

definition hex_digit :: "u64 \<Rightarrow> char" where
  "hex_digit nibble = ''0123456789abcdef'' ! unat nibble"

definition hex_output :: "u64 \<Rightarrow> string" where
  "hex_output value =
     [CHR ''0'', CHR ''x''] @
     map (\<lambda>index. hex_digit (drop_bit ((15 - index) * 4) value AND 0xF)) [0..<16]"

definition write_hex_u64 :: "u64 \<Rightarrow> 'a machine_scheme \<Rightarrow> 'a machine_scheme" where
  "write_hex_u64 value s = serial_write (hex_output value) s"

section \<open>What the printers print\<close>

text \<open>Readers, to state that the printed text determines the value.\<close>

definition decimal_numeral :: "string \<Rightarrow> bool" where
  "decimal_numeral ds \<longleftrightarrow> ds \<noteq> [] \<and> (\<forall>d \<in> set ds. of_char d \<in> {48..57::nat}) \<and> (hd ds = CHR ''0'' \<longrightarrow> ds = ''0'')"

definition decimal_value :: "string \<Rightarrow> nat option" where
  "decimal_value ds = (if decimal_numeral ds then Some (fold (\<lambda>d n. 10 * n + (of_char d - 48)) ds 0) else None)"

definition hex_value :: "string \<Rightarrow> nat" where
  "hex_value ds = fold (\<lambda>d n. 16 * n + (if of_char d < (58::nat) then of_char d - 48 else of_char d - 87)) ds 0"

definition decimal_text :: "nat \<Rightarrow> string" where
  "decimal_text n = (if n = 0 then ''0'' else rev (decimal_digits n))"

lemma fold_serial_write: "fold (\<lambda>d s. serial_write [d] s) ds s = s\<lparr>serial_out := serial_out s @ ds\<rparr>"
  by (induction ds arbitrary: s) (simp_all add: serial_write_def)

lemma write_decimal_u64_text:
  "write_decimal_u64 v s = s\<lparr>serial_out := serial_out s @ decimal_text (unat v)\<rparr>"
  by (simp add: write_decimal_u64_def decimal_text_def fold_serial_write serial_write_def unat_eq_0)

lemma write_decimal_u32_text:
  "write_decimal_u32 v s = s\<lparr>serial_out := serial_out s @ decimal_text (unat v)\<rparr>"
  by (simp add: write_decimal_u32_def decimal_text_def fold_serial_write serial_write_def unat_eq_0)

lemma fold_decimal_digits:
  "fold (\<lambda>d n. 10 * n + (of_char d - 48)) (rev (decimal_digits n)) 0 = n"
proof (induction n rule: decimal_digits.induct)
  case (1 n)
  show ?case
  proof (cases "n = 0")
    case True
    then show ?thesis by (simp add: decimal_digits.simps)
  next
    case False
    have "48 + n mod 10 < 256" by (rule le_less_trans[of _ "48 + 10"]) simp_all
    then have "of_char (char_of (48 + n mod 10)) = 48 + n mod 10"
      by (simp only: of_char_of) simp
    with False 1 show ?thesis by (simp add: decimal_digits.simps[of n])
  qed
qed

lemma decimal_digits_numeral:
  "n \<noteq> 0 \<Longrightarrow> decimal_digits n \<noteq> [] \<and> (\<forall>d \<in> set (decimal_digits n). of_char d \<in> {48..57::nat}) \<and> last (decimal_digits n) \<noteq> CHR ''0''"
proof (induction n rule: decimal_digits.induct)
  case (1 n)
  have lt: "n mod 10 < 10" by simp
  have c: "of_char (char_of (48 + n mod 10) :: char) = 48 + n mod 10" unfolding of_char_of using lt by simp
  then have d: "of_char (char_of (48 + n mod 10) :: char) \<in> {48..57::nat}" using lt by simp
  show ?case
  proof (cases "n div 10 = 0")
    case True
    then have "n mod 10 = n" by (simp add: div_eq_0_iff)
    have "of_char (CHR ''0'') = (48 :: nat)" by simp
    then have "char_of (48 + n mod 10) \<noteq> CHR ''0''" using c "1.prems" \<open>n mod 10 = n\<close> by (metis add_cancel_left_right)
    then show ?thesis using d True "1.prems" by (simp add: decimal_digits.simps[of n] decimal_digits.simps[of 0])
  next
    case False
    then show ?thesis using d "1.IH" "1.prems" by (simp add: decimal_digits.simps[of n])
  qed
qed

lemma decimal_value_text: "decimal_value (decimal_text n) = Some n"
proof (cases "n = 0")
  case True
  then show ?thesis by (simp add: decimal_text_def decimal_value_def decimal_numeral_def)
next
  case False
  then have "decimal_numeral (rev (decimal_digits n))"
    using decimal_digits_numeral[OF False] by (simp add: decimal_numeral_def hd_rev)
  then show ?thesis using False by (simp add: decimal_text_def decimal_value_def fold_decimal_digits)
qed

lemma length_decimal_digits: "n < 10 ^ k \<Longrightarrow> length (decimal_digits n) \<le> k"
proof (induction n arbitrary: k rule: decimal_digits.induct)
  case (1 n)
  show ?case
  proof (cases "n = 0")
    case True
    then show ?thesis by (simp add: decimal_digits.simps)
  next
    case False
    with "1.prems" obtain j where k: "k = Suc j" by (cases k) auto
    with "1.prems" have "n div 10 < 10 ^ j" by (simp add: less_mult_imp_div_less mult.commute)
    with False k 1 show ?thesis by (simp add: decimal_digits.simps[of n])
  qed
qed

lemma hex_digit_value:
  assumes "unat n < 16"
  shows "(if of_char (hex_digit n) < (58::nat) then of_char (hex_digit n) - 48 else of_char (hex_digit n) - 87)
    = unat n"
proof -
  have "\<forall>k \<in> set [0..<16]. (if of_char (''0123456789abcdef'' ! k) < (58::nat)
      then of_char (''0123456789abcdef'' ! k) - 48 else of_char (''0123456789abcdef'' ! k) - 87) = k"
    by code_simp
  then show ?thesis unfolding hex_digit_def by (rule bspec) (simp add: assms)
qed

lemma unat_nibble: "unat ((v::u64) AND 15) = unat v mod 16"
proof -
  have "v AND 15 = take_bit 4 v" by (simp add: take_bit_eq_mask mask_eq_exp_minus_1)
  then show ?thesis by (simp only: unsigned_take_bit_eq) (simp add: take_bit_eq_mod)
qed

lemma unat_drop_bit_div: "unat (drop_bit n (v::u64)) = unat v div 2 ^ n"
  by (subst unsigned_drop_bit_eq) (simp add: drop_bit_eq_div take_bit_nat_eq_self)

lemma hex_prefix_value:
  "k \<le> 16 \<Longrightarrow>
   fold (\<lambda>d n. 16 * n + (if of_char d < (58::nat) then of_char d - 48 else of_char d - 87))
     (map (\<lambda>index. hex_digit (drop_bit ((15 - index) * 4) v AND 0xF)) [0..<k]) 0
   = unat v div 2 ^ (64 - 4 * k)"
proof (induction k)
  case 0
  then show ?case by simp
next
  case (Suc k)
  let ?d = "unat v div 2 ^ ((15 - k) * 4)"
  have e: "64 - 4 * k = (15 - k) * 4 + 4" "64 - 4 * Suc k = (15 - k) * 4" using Suc.prems by auto
  have "unat v div 2 ^ (64 - 4 * k) = ?d div 16"
    unfolding e(1) by (simp add: power_add div_mult2_eq)
  moreover have "unat (drop_bit ((15 - k) * 4) v AND 15) = ?d mod 16"
    by (simp add: unat_nibble unat_drop_bit_div)
  moreover have "?d mod 16 < 16" by simp
  ultimately show ?case using Suc e(2) by (simp add: hex_digit_value)
qed

text \<open>
  C40: The decimal printers (\<open>write_decimal_u64\<close>, and \<open>write_decimal_u32\<close> alike) append to the
  console the decimal numeral of the value, for every value: at least one digit, nothing but digits, no leading
  zero, and they read back as the value. They never fill more than 20 of the 32 bytes (10 of the 10 bytes) of their
  digit buffer.
\<close>

theorem write_decimal_roundtrip:
  "\<exists>t. serial_out (write_decimal_u64 v s) = serial_out s @ t \<and> decimal_value t = Some (unat v)
     \<and> length (decimal_digits (unat v)) \<le> 20
     \<and> (\<exists>t'. serial_out (write_decimal_u32 w s) = serial_out s @ t' \<and> decimal_value t' = Some (unat w)
           \<and> length (decimal_digits (unat w)) \<le> 10)"
proof -
  have v: "unat v < 10 ^ 20" by (rule less_trans[OF unat_less64]) simp
  have w: "unat w < 10 ^ 10" by (rule less_trans[OF unsigned_less]) simp
  from v w show ?thesis
    by (simp add: write_decimal_u64_text write_decimal_u32_text decimal_value_text
        length_decimal_digits del: power_numeral)
qed

text \<open>
  \<open>write_hex_u64\<close> prints \<open>0x\<close> and sixteen digits that read back as the value.
\<close>

lemma write_hex_roundtrip:
  "\<exists>ds. serial_out (write_hex_u64 v s) = serial_out s @ ''0x'' @ ds
     \<and> length ds = 16 \<and> hex_value ds = unat v"
  using hex_prefix_value[of 16 v]
  by (simp add: write_hex_u64_def serial_write_def hex_output_def hex_value_def)

end
