(* ===== verification/Memmap.thy ===== *)
theory Memmap
  imports Console
begin

text \<open>
  \<open>src/kernel/memmap.c\<close>: the UEFI memory map the kernel captured before it left boot services,
  the walk over its descriptors, and the search for the largest conventional region that the page
  allocator manages. The firmware is a parameter: what \<open>GetMemoryMap\<close> and \<open>ExitBootServices\<close>
  answer is an argument of \<open>memmap_capture_and_exit\<close>.
\<close>

section \<open>State\<close>

text \<open>
  \<open>memory_map_buffer\<close> is the static 16384-byte buffer, as bytes by offset.
\<close>

record memmap_state = machine +
  memory_map_buffer :: memory
  memory_map_size_used :: u64
  memory_map_descriptor_size :: u64
  memory_map_descriptor_version :: u32
  memory_map_descriptor_count :: u64
  memory_map_conventional_region_count :: u64
  memory_map_conventional_page_count :: u64

record efi_memory_descriptor =
  efi_type :: u32
  physical_start :: u64
  virtual_start :: u64
  number_of_pages :: u64
  attribute :: u64

definition efi_conventional_memory :: u32 where
  "efi_conventional_memory = 7"

definition descriptor_at :: "memory \<Rightarrow> u64 \<Rightarrow> efi_memory_descriptor" where
  "descriptor_at buffer offset =
     \<lparr>efi_type = ucast (rd_le buffer offset 4),
      physical_start = rd64 buffer (offset + 8),
      virtual_start = rd64 buffer (offset + 16),
      number_of_pages = rd64 buffer (offset + 24),
      attribute = rd64 buffer (offset + 32)\<rparr>"

section \<open>Parsing and reading the map\<close>

definition memmap_parse_body ::
  "u64 \<Rightarrow> u64 \<Rightarrow> 'a memmap_state_scheme \<Rightarrow> (u64, 'a memmap_state_scheme) outcome" where
  "memmap_parse_body descriptor_size offset s =
    (let descriptor = descriptor_at (memory_map_buffer s) offset;
         s = (if efi_type descriptor = efi_conventional_memory
              then s\<lparr>memory_map_conventional_region_count := memory_map_conventional_region_count s + 1,
                     memory_map_conventional_page_count :=
                       memory_map_conventional_page_count s + number_of_pages descriptor\<rparr>
              else s)
     in Ret (offset + descriptor_size) s)"

definition memmap_parse ::
  "u64 \<Rightarrow> u64 \<Rightarrow> u32 \<Rightarrow> 'a memmap_state_scheme \<Rightarrow> (unit, 'a memmap_state_scheme) outcome" where
  "memmap_parse memory_map_size descriptor_size descriptor_version s =
    (let s = s\<lparr>memory_map_size_used := memory_map_size,
               memory_map_descriptor_size := descriptor_size,
               memory_map_descriptor_version := descriptor_version,
               memory_map_descriptor_count := 0,
               memory_map_conventional_region_count := 0,
               memory_map_conventional_page_count := 0\<rparr>
     in if descriptor_size = 0 then Ret () s
     else
       let s = s\<lparr>memory_map_descriptor_count := memory_map_size div descriptor_size\<rparr>
       in chain
         (c_while (\<lambda>offset s. offset + descriptor_size \<le> memory_map_size)
            (memmap_parse_body descriptor_size) 0 s)
         (\<lambda>_ s. Ret () s))"

definition memmap_get_descriptor_count :: "'a memmap_state_scheme \<Rightarrow> u64" where
  "memmap_get_descriptor_count s = memory_map_descriptor_count s"

definition memmap_get_descriptor_size :: "'a memmap_state_scheme \<Rightarrow> u64" where
  "memmap_get_descriptor_size s = memory_map_descriptor_size s"

definition memmap_get_descriptor :: "u64 \<Rightarrow> 'a memmap_state_scheme \<Rightarrow> efi_memory_descriptor option" where
  "memmap_get_descriptor index s =
     (if memory_map_descriptor_size s = 0 then None
      else if memory_map_descriptor_count s \<le> index then None
      else Some (descriptor_at (memory_map_buffer s) (index * memory_map_descriptor_size s)))"

section \<open>Leaving boot services\<close>

text \<open>
  One answer of \<open>GetMemoryMap\<close>: the status, the bytes it wrote into the buffer, and the values it
  left in its four out-parameters. \<open>get_memory_map\<close> and \<open>exit_boot_services\<close> of the firmware state
  \<open>'fw\<close> are parameters.
\<close>

record efi_map_answer =
  map_status :: u64
  map_bytes :: memory
  map_size :: u64
  map_key :: u64
  map_descriptor_size :: u64
  map_descriptor_version :: u32

definition memmap_capture_and_exit ::
  "('fw \<Rightarrow> u64 \<Rightarrow> efi_map_answer \<times> 'fw) \<Rightarrow> ('fw \<Rightarrow> u64 \<Rightarrow> u64 \<Rightarrow> u64 \<times> 'fw) \<Rightarrow> u64 \<Rightarrow> 'fw \<Rightarrow>
   'a memmap_state_scheme \<Rightarrow> (bool \<times> 'fw, 'a memmap_state_scheme) outcome" where
  "memmap_capture_and_exit get_memory_map exit_boot_services image_handle fw s =
    (let (a, fw) = get_memory_map fw 16384;
         s = s\<lparr>memory_map_buffer := map_bytes a\<rparr>
     in if map_status a \<noteq> 0 then Ret (False, fw) s
     else chain (memmap_parse (map_size a) (map_descriptor_size a) (map_descriptor_version a) s)
      (\<lambda>_ s.
        let (status, fw) = exit_boot_services fw image_handle (map_key a)
        in if status = 0 then Ret (True, fw) s
        else
          let (a, fw) = get_memory_map fw 16384;
              s = s\<lparr>memory_map_buffer := map_bytes a\<rparr>
          in if map_status a \<noteq> 0 then Ret (False, fw) s
          else chain (memmap_parse (map_size a) (map_descriptor_size a) (map_descriptor_version a) s)
            (\<lambda>_ s.
              let (status, fw) = exit_boot_services fw image_handle (map_key a)
              in if status \<noteq> 0 then Ret (False, fw) s else Ret (True, fw) s)))"

definition memmap_print_summary :: "'a memmap_state_scheme \<Rightarrow> 'a memmap_state_scheme" where
  "memmap_print_summary s =
    (let nl = [CHR 0x0D, CHR 0x0A];
         s = write_line ''memmap ok'' s;
         s = write_text nl (write_decimal_u64 (memory_map_descriptor_count s) (write_text ''mem desc '' s));
         s = write_text nl (write_decimal_u64 (memory_map_conventional_region_count s)
               (write_text ''mem conv regions '' s));
         s = write_text nl (write_decimal_u64 (memory_map_conventional_page_count s)
               (write_text ''mem conv pages '' s));
         s = write_text nl (write_decimal_u64 (memory_map_descriptor_size s) (write_text ''mem desc size '' s));
         s = write_text nl (write_decimal_u64 (ucast (memory_map_descriptor_version s))
               (write_text ''mem desc ver '' s));
         s = write_text nl (write_decimal_u64 (memory_map_size_used s) (write_text ''mem bytes '' s))
     in s)"

section \<open>The largest conventional region\<close>

text \<open>
  The body of the search loop for one descriptor: the region it offers after clipping to
  \<open>[minimum_start, maximum_end)\<close> and rounding inwards to pages, \<open>None\<close> where the code says
  \<open>continue\<close>.
\<close>

definition clip_region :: "addr \<Rightarrow> addr \<Rightarrow> efi_memory_descriptor \<Rightarrow> (addr \<times> addr) option" where
  "clip_region minimum_start maximum_end descriptor =
    (if efi_type descriptor \<noteq> efi_conventional_memory then None
     else
       let begin = physical_start descriptor;
           stop = physical_start descriptor + number_of_pages descriptor * 4096;
           begin = (if begin < minimum_start then minimum_start else begin);
           stop = (if maximum_end < stop then maximum_end else stop);
           begin = (begin + 4095) AND NOT 4095;
           stop = stop AND NOT 4095
       in if stop \<le> begin then None else Some (begin, stop))"

definition region_step ::
  "addr \<Rightarrow> addr \<Rightarrow> 'a memmap_state_scheme \<Rightarrow> u64 \<Rightarrow> addr \<times> addr \<times> u64 \<Rightarrow> addr \<times> addr \<times> u64" where
  "region_step minimum_start maximum_end s index best =
    (case memmap_get_descriptor index s of
       None \<Rightarrow> best
     | Some descriptor \<Rightarrow>
        (case clip_region minimum_start maximum_end descriptor of
           None \<Rightarrow> best
         | Some (begin, stop) \<Rightarrow>
            (let (best_begin, best_end, best_pages) = best;
                 pages = (stop - begin) div 4096
             in if best_pages < pages then (begin, stop, pages) else best)))"

definition memmap_find_largest_conventional_region ::
  "addr \<Rightarrow> addr \<Rightarrow> 'a memmap_state_scheme \<Rightarrow> bool \<times> addr \<times> addr" where
  "memmap_find_largest_conventional_region minimum_start maximum_end s =
    (let (best_begin, best_end, best_pages) =
       fold (\<lambda>index. region_step minimum_start maximum_end s (of_nat index))
         [0..<unat (memory_map_descriptor_count s)] (0, 0, 0)
     in if best_pages = 0 then (False, 0, 0) else (True, best_begin, best_end))"

section \<open>What the search finds\<close>

text \<open>
  \<open>clip_region_Some\<close> and \<open>clip_region_inside\<close> place a clipped region inside its descriptor and the
  requested bounds; \<open>best_of\<close> is the loop invariant of the search over the first \<open>n\<close> descriptors.
\<close>

lemma clip_region_Some:
  assumes "clip_region lo hi d = Some (b, e)"
  shows "efi_type d = efi_conventional_memory" "page_aligned b" "page_aligned e" "b < e" "e \<le> hi"
proof -
  from assms have *: "efi_type d = efi_conventional_memory"
    "b = ((if physical_start d < lo then lo else physical_start d) + 4095) AND NOT 4095"
    "e = (if hi < physical_start d + number_of_pages d * 4096 then hi
          else physical_start d + number_of_pages d * 4096) AND NOT 4095" "b < e"
    by (auto simp: clip_region_def Let_def not_le split: if_splits)
  show "efi_type d = efi_conventional_memory" "b < e" by fact+
  show "page_aligned b" "page_aligned e" unfolding * by simp_all
  have "e \<le> (if hi < physical_start d + number_of_pages d * 4096 then hi
          else physical_start d + number_of_pages d * 4096)" unfolding *(3) by (rule page_floor_le)
  then show "e \<le> hi" by (auto split: if_splits)
qed

lemma clip_region_inside:
  assumes "clip_region lo hi d = Some (b, e)"
    and "unat lo + 4095 < 18446744073709551616"
    and "unat (physical_start d) + unat (number_of_pages d) * 4096 + 4095 < 18446744073709551616"
  shows "lo \<le> b" "physical_start d \<le> b" "unat e \<le> unat (physical_start d) + unat (number_of_pages d) * 4096"
proof -
  let ?b = "if physical_start d < lo then lo else physical_start d"
  from assms have b: "b = (?b + 4095) AND NOT 4095"
    and e: "e = (if hi < physical_start d + number_of_pages d * 4096 then hi
          else physical_start d + number_of_pages d * 4096) AND NOT 4095"
    by (auto simp: clip_region_def Let_def not_le split: if_splits)
  have "unat ?b + 4095 < 18446744073709551616" using assms(2,3) by auto
  then have "unat b = 4096 * ((unat ?b + 4095) div 4096)" unfolding b by (rule unat_page_ceil)
  then have "unat ?b \<le> unat b" by linarith
  then have "?b \<le> b" by (simp add: word_le_nat_alt)
  then show "lo \<le> b" "physical_start d \<le> b" by (auto split: if_splits)
  have "unat (physical_start d + number_of_pages d * 4096)
      = unat (physical_start d) + unat (number_of_pages d) * 4096"
    using assms(3) by (simp add: unat_word_ariths)
  moreover have "unat e \<le> unat (physical_start d + number_of_pages d * 4096)"
    unfolding e by (simp add: unat_page_floor_minus word_less_nat_alt) linarith
  ultimately show "unat e \<le> unat (physical_start d) + unat (number_of_pages d) * 4096" by simp
qed

lemma page_count_exact:
  assumes "page_aligned b" "page_aligned e" "b < e"
  shows "unat (e - b) = 4096 * unat ((e - b) div 4096)" "(e - b) div 4096 \<noteq> 0"
proof -
  from assms obtain k l where kl: "unat b = 4096 * k" "unat e = 4096 * l"
    by (auto elim!: page_alignedE)
  with assms(3) have "k < l" by (simp add: word_less_nat_alt)
  have "unat (e - b) = unat e - unat b" using assms(3) by (simp add: unat_sub word_less_nat_alt word_le_nat_alt)
  with kl have d: "unat (e - b) = 4096 * (l - k)" by (simp add: right_diff_distrib')
  then have q: "unat ((e - b) div 4096) = l - k" by (simp add: unat_div)
  with d show "unat (e - b) = 4096 * unat ((e - b) div 4096)" by simp
  show "(e - b) div 4096 \<noteq> 0" using q \<open>k < l\<close> by (metis unat_0 zero_less_diff less_irrefl)
qed

definition region_at :: "addr \<Rightarrow> addr \<Rightarrow> 'a memmap_state_scheme \<Rightarrow> nat \<Rightarrow> (addr \<times> addr) option" where
  "region_at lo hi s i = Option.bind (memmap_get_descriptor (of_nat i) s) (clip_region lo hi)"

lemma region_step_at:
  "region_step lo hi s (of_nat i) best =
    (case region_at lo hi s i of None \<Rightarrow> best
     | Some (b, e) \<Rightarrow> if snd (snd best) < (e - b) div 4096 then (b, e, (e - b) div 4096) else best)"
  by (auto simp: region_step_def region_at_def split: option.splits prod.splits)

lemma region_at_Some:
  assumes "region_at lo hi s i = Some (b, e)"
  shows "page_aligned b" "page_aligned e" "b < e" "e \<le> hi" "(e - b) div 4096 \<noteq> 0"
  using assms by (auto simp: region_at_def bind_eq_Some_conv clip_region_Some dest: clip_region_Some page_count_exact)

definition best_of :: "addr \<Rightarrow> addr \<Rightarrow> 'a memmap_state_scheme \<Rightarrow> nat \<Rightarrow> addr \<times> addr \<times> u64 \<Rightarrow> bool" where
  "best_of lo hi s n best \<longleftrightarrow> (case best of (b, e, p) \<Rightarrow>
     (if p = 0 then \<forall>i<n. region_at lo hi s i = None
      else p = (e - b) div 4096 \<and> (\<exists>i<n. region_at lo hi s i = Some (b, e)))
     \<and> (\<forall>i<n. \<forall>b' e'. region_at lo hi s i = Some (b', e') \<longrightarrow> (e' - b') div 4096 \<le> p))"

lemma best_of_step:
  assumes "best_of lo hi s n best"
  shows "best_of lo hi s (Suc n) (region_step lo hi s (of_nat n) best)"
proof -
  obtain b e p where best: "best = (b, e, p)" by (cases best)
  show ?thesis
  proof (cases "region_at lo hi s n")
    case None
    with assms best show ?thesis by (auto simp: best_of_def region_step_at less_Suc_eq)
  next
    case (Some r)
    then obtain b' e' where r: "region_at lo hi s n = Some (b', e')" by (cases r) auto
    note nz = region_at_Some(5)[OF r]
    show ?thesis
    proof (cases "p < (e' - b') div 4096")
      case True
      with assms best r nz show ?thesis
        by (auto simp: best_of_def region_step_at less_Suc_eq intro: le_less_trans order.strict_implies_order)
    next
      case False
      with nz have "p \<noteq> 0" by (auto simp: not_less)
      with False assms best r nz show ?thesis
        by (auto simp: best_of_def region_step_at less_Suc_eq not_less)
    qed
  qed
qed

lemma best_of_fold:
  "best_of lo hi s n (fold (\<lambda>index. region_step lo hi s (of_nat index)) [0..<n] (0, 0, 0))"
proof (induction n)
  case 0
  then show ?case by (simp add: best_of_def)
next
  case (Suc n)
  then show ?case by (simp add: best_of_step)
qed

text \<open>No descriptor of the firmware's map runs past the end of the address space.\<close>

definition descriptors_fit :: "'a memmap_state_scheme \<Rightarrow> bool" where
  "descriptors_fit s \<longleftrightarrow> (\<forall>i d. memmap_get_descriptor i s = Some d \<longrightarrow>
     unat (physical_start d) + unat (number_of_pages d) * 4096 + 4095 < 18446744073709551616)"

lemma descriptors_fitD:
  "descriptors_fit s \<Longrightarrow> memmap_get_descriptor i s = Some d \<Longrightarrow>
     unat (physical_start d) + unat (number_of_pages d) * 4096 + 4095 < 18446744073709551616"
  by (auto simp: descriptors_fit_def)

lemma find_largest_cases:
  assumes "memmap_find_largest_conventional_region lo hi s = (ok, b, e)"
  shows "if ok then \<exists>p. p \<noteq> 0 \<and> best_of lo hi s (unat (memory_map_descriptor_count s)) (b, e, p)
         else \<forall>i < unat (memory_map_descriptor_count s). region_at lo hi s i = None"
  using assms best_of_fold[of lo hi s "unat (memory_map_descriptor_count s)"]
  by (auto simp: memmap_find_largest_conventional_region_def best_of_def Let_def
      split: prod.splits if_splits)

lemma largest_region_spec:
  assumes res: "memmap_find_largest_conventional_region lo hi s = (ok, b, e)"
    and lo: "unat lo + 4095 < 18446744073709551616"
    and fits: "descriptors_fit s"
  shows "if ok then
      page_aligned b \<and> page_aligned e \<and> lo \<le> b \<and> b < e \<and> e \<le> hi
      \<and> (\<exists>i d. memmap_get_descriptor i s = Some d \<and> efi_type d = efi_conventional_memory
           \<and> physical_start d \<le> b
           \<and> unat e \<le> unat (physical_start d) + unat (number_of_pages d) * 4096)
      \<and> (\<forall>i b' e'. i < unat (memory_map_descriptor_count s) \<longrightarrow> region_at lo hi s i = Some (b', e')
           \<longrightarrow> e' - b' \<le> e - b)
    else \<forall>i < unat (memory_map_descriptor_count s). region_at lo hi s i = None"
proof (cases ok)
  case False
  with find_largest_cases[OF res] show ?thesis by simp
next
  case True
  with find_largest_cases[OF res] obtain p where
    p: "p \<noteq> 0" "best_of lo hi s (unat (memory_map_descriptor_count s)) (b, e, p)" by auto
  then obtain i where i: "region_at lo hi s i = Some (b, e)" and pe: "p = (e - b) div 4096"
    by (auto simp: best_of_def)
  note r = region_at_Some[OF i]
  from i obtain d where d: "memmap_get_descriptor (of_nat i) s = Some d" "clip_region lo hi d = Some (b, e)"
    by (auto simp: region_at_def bind_eq_Some_conv)
  note c = clip_region_inside[OF d(2) lo descriptors_fitD[OF fits d(1)]]
  have "e' - b' \<le> e - b"
    if j: "j < unat (memory_map_descriptor_count s)" "region_at lo hi s j = Some (b', e')" for j b' e'
  proof -
    from p(2) j pe have "(e' - b') div 4096 \<le> (e - b) div 4096" by (simp add: best_of_def)
    then have "4096 * unat ((e' - b') div 4096) \<le> 4096 * unat ((e - b) div 4096)"
      by (simp add: word_le_nat_alt)
    then have "unat (e' - b') \<le> unat (e - b)"
      using page_count_exact(1)[OF region_at_Some(1,2,3)[OF j(2)]] page_count_exact(1)[OF r(1,2,3)] by simp
    then show ?thesis by (simp add: word_le_nat_alt)
  qed
  with True r c d(1) clip_region_Some(1)[OF d(2)] show ?thesis by auto
qed

text \<open>
  The page numbers descriptor \<open>d\<close> offers: all of the page lies in the bounds and in the descriptor's memory, which is
  conventional. This is stated on natural numbers, without the clipping and rounding of the code.
\<close>

definition offered_pages :: "addr \<Rightarrow> addr \<Rightarrow> efi_memory_descriptor \<Rightarrow> nat set" where
  "offered_pages lo hi d = {p. efi_type d = efi_conventional_memory
     \<and> unat lo \<le> 4096 * p \<and> 4096 * p + 4096 \<le> unat hi
     \<and> unat (physical_start d) \<le> 4096 * p
     \<and> 4096 * p + 4096 \<le> unat (physical_start d) + 4096 * unat (number_of_pages d)}"

lemma pages_between:
  "{p. a \<le> 4096 * p \<and> 4096 * p + 4096 \<le> c} = {(a + 4095) div 4096 ..< c div 4096}" for a c :: nat
proof (rule set_eqI)
  fix p
  have "a \<le> 4096 * p \<longleftrightarrow> (a + 4095) div 4096 \<le> p" by linarith
  moreover have "4096 * p + 4096 \<le> c \<longleftrightarrow> p < c div 4096" by linarith
  ultimately show "p \<in> {p. a \<le> 4096 * p \<and> 4096 * p + 4096 \<le> c} \<longleftrightarrow> p \<in> {(a + 4095) div 4096 ..< c div 4096}" by simp
qed

lemma clip_region_pages:
  assumes lo: "unat lo + 4095 < 18446744073709551616"
    and fit: "unat (physical_start d) + unat (number_of_pages d) * 4096 + 4095 < 18446744073709551616"
  shows "offered_pages lo hi d = (case clip_region lo hi d of None \<Rightarrow> {} | Some (b, e) \<Rightarrow> {unat b div 4096 ..< unat e div 4096})"
proof (cases "efi_type d = efi_conventional_memory")
  case False
  then show ?thesis by (simp add: offered_pages_def clip_region_def)
next
  case True
  let ?b = "if physical_start d < lo then lo else physical_start d"
  let ?e = "if hi < physical_start d + number_of_pages d * 4096 then hi else physical_start d + number_of_pages d * 4096"
  have s: "unat (physical_start d + number_of_pages d * 4096) = unat (physical_start d) + 4096 * unat (number_of_pages d)"
    using fit by (simp add: unat_word_ariths)
  have ub: "unat ?b = max (unat lo) (unat (physical_start d))" by (simp add: word_less_nat_alt)
  have ue: "unat ?e = min (unat hi) (unat (physical_start d) + 4096 * unat (number_of_pages d))"
    using s by (simp add: word_less_nat_alt)
  have "unat ?b + 4095 < 18446744073709551616" using lo fit by (simp add: word_less_nat_alt)
  then have b: "unat ((?b + 4095) AND NOT 4095) = 4096 * ((unat ?b + 4095) div 4096)" by (rule unat_page_ceil)
  have e: "unat (?e AND NOT 4095) = 4096 * (unat ?e div 4096)" by (rule unat_page_floor)
  have "offered_pages lo hi d = {p. unat ?b \<le> 4096 * p \<and> 4096 * p + 4096 \<le> unat ?e}"
    unfolding offered_pages_def ub ue using True by auto
  also have "\<dots> = {unat ((?b + 4095) AND NOT 4095) div 4096 ..< unat (?e AND NOT 4095) div 4096}"
    unfolding pages_between b e by simp
  finally have o: "offered_pages lo hi d = {unat ((?b + 4095) AND NOT 4095) div 4096 ..< unat (?e AND NOT 4095) div 4096}" .
  show ?thesis
  proof (cases "?e AND NOT 4095 \<le> (?b + 4095) AND NOT 4095")
    case le: True
    then have "unat (?e AND NOT 4095) div 4096 \<le> unat ((?b + 4095) AND NOT 4095) div 4096"
      by (intro div_le_mono) (simp only: word_le_nat_alt)
    then have "offered_pages lo hi d = {}" unfolding o by simp
    moreover have "clip_region lo hi d = None" using True le by (simp only: clip_region_def Let_def) simp
    ultimately show ?thesis by simp
  next
    case False
    then have "clip_region lo hi d = Some ((?b + 4095) AND NOT 4095, ?e AND NOT 4095)"
      using True by (simp only: clip_region_def Let_def if_False if_True simp_thms)
    then show ?thesis using o by simp
  qed
qed

lemma region_size:
  assumes "page_aligned b" "page_aligned e" "b < e"
  shows "unat (e - b) = 4096 * card {unat b div 4096 ..< unat e div 4096}"
proof -
  from assms obtain k l where kl: "unat b = 4096 * k" "unat e = 4096 * l" by (auto elim!: page_alignedE)
  have "unat (e - b) = unat e - unat b" using assms(3) by (simp add: unat_sub word_less_nat_alt word_le_nat_alt)
  then show ?thesis using kl by (simp add: right_diff_distrib')
qed

text \<open>
  C38: \<open>memmap_find_largest_conventional_region\<close> answers no exactly when no descriptor of the map offers a whole page
  of conventional memory in the bounds. Otherwise it returns a page-aligned region, not empty and inside the bounds, that is exactly the pages
  one descriptor offers, and no descriptor offers more. The hypotheses: the lower bound and every descriptor end at least a page below the
  end of the address space.
\<close>

theorem largest_region:
  assumes res: "memmap_find_largest_conventional_region lo hi s = (ok, b, e)"
    and lo: "unat lo + 4095 < 18446744073709551616"
    and fits: "descriptors_fit s"
  shows "(ok \<longleftrightarrow> (\<exists>i d. i < unat (memory_map_descriptor_count s) \<and> memmap_get_descriptor (of_nat i) s = Some d
        \<and> offered_pages lo hi d \<noteq> {}))
    \<and> (ok \<longrightarrow> page_aligned b \<and> page_aligned e \<and> lo \<le> b \<and> b < e \<and> e \<le> hi
      \<and> (\<exists>i d. i < unat (memory_map_descriptor_count s) \<and> memmap_get_descriptor (of_nat i) s = Some d
           \<and> offered_pages lo hi d = {unat b div 4096 ..< unat e div 4096}
           \<and> (\<forall>j d'. j < unat (memory_map_descriptor_count s) \<longrightarrow> memmap_get_descriptor (of_nat j) s = Some d' \<longrightarrow>
                card (offered_pages lo hi d') \<le> card (offered_pages lo hi d))))"
proof -
  let ?n = "unat (memory_map_descriptor_count s)"
  have pages: "offered_pages lo hi d = (case region_at lo hi s i of None \<Rightarrow> {} | Some (b, e) \<Rightarrow> {unat b div 4096 ..< unat e div 4096})"
    if d: "memmap_get_descriptor (of_nat i) s = Some d" for i d
    using clip_region_pages[OF lo descriptors_fitD[OF fits d]] d by (simp add: region_at_def)
  have some: "offered_pages lo hi d \<noteq> {}" if d: "memmap_get_descriptor (of_nat i) s = Some d" "region_at lo hi s i = Some (b', e')" for i d b' e'
    using pages[OF d(1)] d(2) region_size[OF region_at_Some(1-3)[OF d(2)]] region_at_Some(3)[OF d(2)] by (auto simp: word_less_nat_alt unat_eq_0)
  have bind: "\<exists>d. memmap_get_descriptor (of_nat i) s = Some d" if "region_at lo hi s i = Some r" for i r
    using that by (auto simp: region_at_def bind_eq_Some_conv)
  show ?thesis
  proof (cases ok)
    case False
    then have "\<forall>i < ?n. region_at lo hi s i = None" using find_largest_cases[OF res] by simp
    then show ?thesis using False pages by fastforce
  next
    case True
    from find_largest_cases[OF res] True obtain p where p: "p \<noteq> 0" "best_of lo hi s ?n (b, e, p)" by auto
    then obtain i where i: "i < ?n" "region_at lo hi s i = Some (b, e)" by (auto simp: best_of_def)
    obtain d where d: "memmap_get_descriptor (of_nat i) s = Some d" using bind[OF i(2)] by blast
    have r: "page_aligned b \<and> page_aligned e \<and> lo \<le> b \<and> b < e \<and> e \<le> hi"
      and big: "\<And>j b' e'. j < ?n \<Longrightarrow> region_at lo hi s j = Some (b', e') \<Longrightarrow> e' - b' \<le> e - b"
      using largest_region_spec[OF res lo fits] True by auto
    have o: "offered_pages lo hi d = {unat b div 4096 ..< unat e div 4096}" using pages[OF d] i(2) by simp
    have "card (offered_pages lo hi d') \<le> card (offered_pages lo hi d)"
      if j: "j < ?n" "memmap_get_descriptor (of_nat j) s = Some d'" for j d'
    proof (cases "region_at lo hi s j")
      case None
      then show ?thesis using pages[OF j(2)] by simp
    next
      case (Some be)
      then obtain b' e' where be: "region_at lo hi s j = Some (b', e')" by (cases be) simp
      have "unat (e' - b') \<le> unat (e - b)" using big[OF j(1) be] by (simp add: word_le_nat_alt)
      then show ?thesis using pages[OF j(2)] be o region_size[OF region_at_Some(1-3)[OF be]] region_size[of b e] r by simp
    qed
    then show ?thesis using True i(1) d r o some[OF d i(2)] by blast
  qed
qed

definition conventional_upto :: "memory \<Rightarrow> u64 \<Rightarrow> nat \<Rightarrow> efi_memory_descriptor list" where
  "conventional_upto buffer descriptor_size k =
     filter (\<lambda>d. efi_type d = efi_conventional_memory)
       (map (\<lambda>i. descriptor_at buffer (of_nat i * descriptor_size)) [0..<k])"

lemma conventional_upto_Suc:
  "conventional_upto buffer dsize (Suc k) = conventional_upto buffer dsize k @
    (if efi_type (descriptor_at buffer (of_nat k * dsize)) = efi_conventional_memory
     then [descriptor_at buffer (of_nat k * dsize)] else [])"
  by (simp add: conventional_upto_def)

definition parse_inv ::
  "memory \<Rightarrow> u64 \<Rightarrow> u64 \<Rightarrow> u64 \<Rightarrow> 'a memmap_state_scheme \<Rightarrow> bool" where
  "parse_inv buffer sz dsize offset t \<longleftrightarrow> (\<exists>k. unat offset = k * unat dsize \<and> k * unat dsize \<le> unat sz
     \<and> offset = of_nat k * dsize
     \<and> memory_map_buffer t = buffer \<and> memory_map_descriptor_count t = sz div dsize
     \<and> memory_map_conventional_region_count t = of_nat (length (conventional_upto buffer dsize k))
     \<and> memory_map_conventional_page_count t =
         sum_list (map number_of_pages (conventional_upto buffer dsize k)))"

lemma parse_inv_step:
  assumes inv: "parse_inv buffer sz dsize offset t" and more: "offset + dsize \<le> sz"
    and nowrap: "unat sz + unat dsize < 18446744073709551616" and nz: "dsize \<noteq> 0"
  shows "\<exists>offset' t'. memmap_parse_body dsize offset t = Ret offset' t' \<and> parse_inv buffer sz dsize offset' t'
    \<and> unat sz + unat dsize - unat offset' < unat sz + unat dsize - unat offset"
proof -
  from inv obtain k where k: "unat offset = k * unat dsize" "k * unat dsize \<le> unat sz"
    "offset = of_nat k * dsize"
    "memory_map_buffer t = buffer" "memory_map_descriptor_count t = sz div dsize"
    "memory_map_conventional_region_count t = of_nat (length (conventional_upto buffer dsize k))"
    "memory_map_conventional_page_count t = sum_list (map number_of_pages (conventional_upto buffer dsize k))"
    by (auto simp: parse_inv_def)
  have off: "unat (offset + dsize) = Suc k * unat dsize"
    using k(1,2) nowrap by (simp add: unat_word_ariths)
  with more have le: "Suc k * unat dsize \<le> unat sz" by (simp add: word_le_nat_alt)
  have "offset + dsize = of_nat (Suc k) * dsize" using k(3) by (simp add: algebra_simps)
  with k off le have "\<exists>t'. memmap_parse_body dsize offset t = Ret (offset + dsize) t'
      \<and> parse_inv buffer sz dsize (offset + dsize) t'"
    by (auto simp: memmap_parse_body_def parse_inv_def Let_def conventional_upto_Suc intro!: exI[of _ "Suc k"])
  moreover have "unat sz + unat dsize - unat (offset + dsize) < unat sz + unat dsize - unat offset"
    using off k(1) le unat_gt_0[of dsize] nz by (simp del: unat_gt_0)
  ultimately show ?thesis by blast
qed

lemma parse_inv_end:
  assumes "parse_inv buffer sz dsize offset t" "\<not> offset + dsize \<le> sz"
    and nowrap: "unat sz + unat dsize < 18446744073709551616"
  shows "memory_map_descriptor_count t = sz div dsize
    \<and> memory_map_conventional_region_count t =
        of_nat (length (conventional_upto buffer dsize (unat (sz div dsize))))
    \<and> memory_map_conventional_page_count t =
        sum_list (map number_of_pages (conventional_upto buffer dsize (unat (sz div dsize))))"
proof -
  from assms(1) obtain k where k: "unat offset = k * unat dsize" "k * unat dsize \<le> unat sz"
    "memory_map_descriptor_count t = sz div dsize"
    "memory_map_conventional_region_count t = of_nat (length (conventional_upto buffer dsize k))"
    "memory_map_conventional_page_count t = sum_list (map number_of_pages (conventional_upto buffer dsize k))"
    by (auto simp: parse_inv_def)
  have "unat (offset + dsize) = k * unat dsize + unat dsize"
    using k(1,2) nowrap by (simp add: unat_word_ariths)
  with assms(2) have "unat sz < k * unat dsize + unat dsize" by (simp add: word_le_nat_alt)
  with k(2) have "unat sz div unat dsize = k" by (intro div_nat_eqI) (simp_all add: mult.commute)
  with k show ?thesis by (simp add: unat_div)
qed

text \<open>
  C39: \<open>memmap_parse\<close> returns for every map the firmware can hand over (size and descriptor size do not
  overflow together), having visited exactly the \<open>size / descriptor_size\<close> descriptors of the buffer: it
  counts the conventional ones and adds up their pages.
\<close>

theorem memmap_parse_counts:
  assumes nowrap: "unat sz + unat dsize < 18446744073709551616" and nz: "dsize \<noteq> 0"
  shows "\<exists>s'. memmap_parse sz dsize ver s = Ret () s'
    \<and> memory_map_descriptor_count s' = sz div dsize
    \<and> memory_map_conventional_region_count s' =
        of_nat (length (conventional_upto (memory_map_buffer s) dsize (unat (sz div dsize))))
    \<and> memory_map_conventional_page_count s' =
        sum_list (map number_of_pages (conventional_upto (memory_map_buffer s) dsize (unat (sz div dsize))))"
proof -
  define s0 where "s0 = s\<lparr>memory_map_size_used := sz, memory_map_descriptor_size := dsize,
     memory_map_descriptor_version := ver, memory_map_conventional_region_count := 0,
     memory_map_conventional_page_count := 0, memory_map_descriptor_count := sz div dsize\<rparr>"
  have "parse_inv (memory_map_buffer s) sz dsize 0 s0"
    by (auto simp: parse_inv_def s0_def conventional_upto_def intro!: exI[of _ 0])
  then have "\<exists>offset t. c_while (\<lambda>offset s. offset + dsize \<le> sz) (memmap_parse_body dsize) 0 s0 = Ret offset t
      \<and> parse_inv (memory_map_buffer s) sz dsize offset t \<and> \<not> offset + dsize \<le> sz"
    by (rule c_while_rule[where M = "\<lambda>offset t. unat sz + unat dsize - unat offset"])
      (use parse_inv_step nowrap nz in blast)
  with parse_inv_end[OF _ _ nowrap] show ?thesis
    by (fastforce simp: memmap_parse_def Let_def nz chain_Ret_iff s0_def)
qed

end
