(* ===== verification/Palloc.thy ===== *)
theory Palloc
  imports Memmap
begin

text \<open>
  \<open>src/kernel/palloc.c\<close>: the physical page allocator. Free pages are linked through their own
  first eight bytes; \<open>free_list_head\<close> is the first of them. The list is part of physical memory
  (\<open>load64 s node\<close> is \<open>node->next\<close>), so a component that writes to a free page breaks it.
\<close>

section \<open>State and operations\<close>

record palloc_state = memmap_state +
  free_list_head :: addr
  alloc_region_begin :: addr
  alloc_region_end :: addr
  free_page_count :: u64

definition page_size :: addr where
  "page_size = 4096"

definition palloc_low_cutoff :: addr where
  "palloc_low_cutoff = 0x02000000"

definition palloc_high_limit :: addr where
  "palloc_high_limit = 0x100000000"

definition palloc_free :: "addr \<Rightarrow> 'a palloc_state_scheme \<Rightarrow> 'a palloc_state_scheme" where
  "palloc_free page s =
     (if page = 0 then s
      else
        let s = store64 page (free_list_head s) s
        in s\<lparr>free_list_head := page, free_page_count := free_page_count s + 1\<rparr>)"

definition palloc_alloc :: "'a palloc_state_scheme \<Rightarrow> addr \<times> 'a palloc_state_scheme" where
  "palloc_alloc s =
     (if free_list_head s = 0 then (0, s)
      else
        let node = free_list_head s
        in (node, s\<lparr>free_list_head := load64 s node, free_page_count := free_page_count s - 1\<rparr>))"

text \<open>
  \<open>palloc_take\<close> walks with \<open>link\<close>, the address of the pointer under inspection: \<open>None\<close> is
  \<open>&free_list_head\<close>, \<open>Some node\<close> is \<open>&node->next\<close>.
\<close>

definition read_link :: "addr option \<Rightarrow> 'a palloc_state_scheme \<Rightarrow> addr" where
  "read_link link s = (case link of None \<Rightarrow> free_list_head s | Some node \<Rightarrow> load64 s node)"

definition write_link :: "addr option \<Rightarrow> addr \<Rightarrow> 'a palloc_state_scheme \<Rightarrow> 'a palloc_state_scheme" where
  "write_link link v s =
     (case link of None \<Rightarrow> s\<lparr>free_list_head := v\<rparr> | Some node \<Rightarrow> store64 node v s)"

definition palloc_take :: "addr \<Rightarrow> 'a palloc_state_scheme \<Rightarrow> (bool, 'a palloc_state_scheme) outcome" where
  "palloc_take page s =
    (let page = page AND NOT (page_size - 1)
     in chain
       (c_while (\<lambda>link s. read_link link s \<noteq> 0 \<and> read_link link s \<noteq> page)
          (\<lambda>link s. Ret (Some (read_link link s)) s) None s)
       (\<lambda>link s.
          if read_link link s \<noteq> 0
          then
            let node = read_link link s;
                s = write_link link (load64 s node) s
            in Ret True (s\<lparr>free_page_count := free_page_count s - 1\<rparr>)
          else Ret False s))"

definition palloc_init_body :: "addr \<Rightarrow> 'a palloc_state_scheme \<Rightarrow> (addr, 'a palloc_state_scheme) outcome" where
  "palloc_init_body page s =
     (let s = store64 page (free_list_head s) s;
          s = s\<lparr>free_list_head := page, free_page_count := free_page_count s + 1\<rparr>
      in Ret (page + page_size) s)"

definition palloc_initialize :: "'a palloc_state_scheme \<Rightarrow> (unit, 'a palloc_state_scheme) outcome" where
  "palloc_initialize s =
    (let s = s\<lparr>free_list_head := 0, alloc_region_begin := 0, alloc_region_end := 0, free_page_count := 0\<rparr>
     in case memmap_find_largest_conventional_region palloc_low_cutoff palloc_high_limit s of
          (found, region_begin, region_end) \<Rightarrow>
            if \<not> found then Ret () s
            else
              let s = s\<lparr>alloc_region_begin := region_begin, alloc_region_end := region_end\<rparr>
              in chain (c_while (\<lambda>page s. page + page_size \<le> region_end) palloc_init_body region_begin s)
                   (\<lambda>_ s. Ret () s))"

definition palloc_self_test :: "'a palloc_state_scheme \<Rightarrow> 'a palloc_state_scheme" where
  "palloc_self_test s =
    (let nl = [CHR 0x0D, CHR 0x0A];
         s = write_text ''palloc region '' s;
         s = write_hex_u64 (alloc_region_begin s) s;
         s = write_text '' '' s;
         s = write_hex_u64 (alloc_region_end s) s;
         s = write_text nl s;
         s = write_text ''palloc pages '' s;
         s = write_decimal_u64 (free_page_count s) s;
         s = write_text nl s;
         (first, s) = palloc_alloc s;
         (second, s) = palloc_alloc s
     in if first = 0 \<or> second = 0 then write_line ''palloc fail'' s
     else
       let s = write_line ''palloc ok'' s;
           s = write_text nl (write_hex_u64 first (write_text ''page '' s));
           s = write_text nl (write_hex_u64 second (write_text ''page '' s));
           s = palloc_free second s;
           s = palloc_free first s
       in write_line ''free ok'' s)"

section \<open>The free list as a list of pages\<close>

text \<open>
  \<open>chain_list m p xs\<close>: following the links in memory \<open>m\<close> from \<open>p\<close> visits exactly the pages
  \<open>xs\<close> and ends with a null link. \<open>palloc_inv s xs\<close> is the allocator's invariant, \<open>xs\<close> its
  abstract value.
\<close>

fun chain_list :: "memory \<Rightarrow> addr \<Rightarrow> addr list \<Rightarrow> bool" where
  "chain_list m p [] \<longleftrightarrow> p = 0"
| "chain_list m p (x # xs) \<longleftrightarrow> p = x \<and> x \<noteq> 0 \<and> page_aligned x \<and> chain_list m (rd64 m x) xs"

definition palloc_inv :: "'a palloc_state_scheme \<Rightarrow> addr list \<Rightarrow> bool" where
  "palloc_inv s xs \<longleftrightarrow> chain_list (mem s) (free_list_head s) xs \<and> distinct xs
     \<and> free_page_count s = of_nat (length xs)"

lemma chain_list_pages: "chain_list m p xs \<Longrightarrow> x \<in> set xs \<Longrightarrow> x \<noteq> 0 \<and> page_aligned x"
  by (induction xs arbitrary: p) auto

lemma chain_list_unique: "chain_list m p xs \<Longrightarrow> chain_list m p ys \<Longrightarrow> xs = ys"
proof (induction xs arbitrary: p ys)
  case Nil
  then show ?case by (cases ys) auto
next
  case (Cons x xs)
  then show ?case by (cases ys) auto
qed

lemma chain_list_cong:
  "chain_list m p xs \<Longrightarrow> (\<And>x. x \<in> set xs \<Longrightarrow> rd64 m' x = rd64 m x) \<Longrightarrow> chain_list m' p xs"
  by (induction xs arbitrary: p) auto

lemma chain_list_wr64:
  "chain_list m p xs \<Longrightarrow> a \<notin> set xs \<Longrightarrow> word_aligned a \<Longrightarrow> chain_list (wr64 m a v) p xs"
  using chain_list_pages [of m p xs] by (auto intro!: chain_list_cong [of m p xs] rd64_wr64_other)

lemma palloc_inv_page: "palloc_inv s xs \<Longrightarrow> x \<in> set xs \<Longrightarrow> x \<noteq> 0 \<and> page_aligned x"
  by (auto simp: palloc_inv_def dest: chain_list_pages)

lemma palloc_inv_distinct: "palloc_inv s xs \<Longrightarrow> distinct xs"
  by (simp add: palloc_inv_def)

lemma palloc_inv_head: "palloc_inv s xs \<Longrightarrow> free_list_head s = (case xs of [] \<Rightarrow> 0 | x # _ \<Rightarrow> x)"
  by (cases xs) (auto simp: palloc_inv_def)

section \<open>Allocating and freeing\<close>

lemma palloc_alloc_empty: "palloc_inv s [] \<Longrightarrow> palloc_alloc s = (0, s)"
  by (simp add: palloc_inv_def palloc_alloc_def)

lemma palloc_alloc_Cons:
  assumes "palloc_inv s (x # xs)"
  shows "palloc_alloc s = (x, s\<lparr>free_list_head := rd64 (mem s) x, free_page_count := of_nat (length xs)\<rparr>)"
    and "palloc_inv (snd (palloc_alloc s)) xs"
  using assms by (auto simp: palloc_inv_def palloc_alloc_def Let_def load64_def)

lemma palloc_alloc_mem [simp]: "mem (snd (palloc_alloc s)) = mem s"
  by (simp add: palloc_alloc_def Let_def)

lemma palloc_free_inv:
  assumes inv: "palloc_inv s xs" and page: "page \<noteq> 0" "page_aligned page" "page \<notin> set xs"
  shows "palloc_inv (palloc_free page s) (page # xs)"
  using assms by (auto simp: palloc_inv_def palloc_free_def Let_def store64_def intro: chain_list_wr64)

lemma palloc_free_null [simp]: "palloc_free 0 s = s"
  by (simp add: palloc_free_def)

section \<open>Taking a given page\<close>

lemma chain_unlink:
  "chain_list m p (ps @ y # zs) \<Longrightarrow> distinct (ps @ y # zs) \<Longrightarrow> ps \<noteq> [] \<Longrightarrow>
   chain_list (wr64 m (last ps) (rd64 m y)) p (ps @ zs)"
proof (induction ps arbitrary: p)
  case Nil
  then show ?case by simp
next
  case (Cons x ps)
  then have x: "page_aligned x" "x \<noteq> 0" "p = x" by auto
  show ?case
  proof (cases "ps = []")
    case True
    with Cons.prems show ?thesis by (auto intro: chain_list_wr64)
  next
    case False
    with Cons have "chain_list (wr64 m (last ps) (rd64 m y)) (rd64 m x) (ps @ zs)" by simp
    moreover have "last ps \<in> set ps" using False by simp
    then have "last ps \<noteq> x" "page_aligned (last ps)"
      using Cons.prems chain_list_pages[of m p "(x # ps) @ y # zs" "last ps"] by auto
    ultimately show ?thesis using x False by simp
  qed
qed

definition take_inv :: "addr \<Rightarrow> 'a palloc_state_scheme \<Rightarrow> addr list \<Rightarrow> addr option \<Rightarrow> 'a palloc_state_scheme \<Rightarrow> bool" where
  "take_inv page s xs link t \<longleftrightarrow> t = s \<and> (\<exists>ps ys. xs = ps @ ys \<and> page \<notin> set ps
     \<and> link = (if ps = [] then None else Some (last ps)) \<and> chain_list (mem s) (read_link link s) ys)"


lemma take_loop:
  assumes "xs = ps @ ys" "page \<notin> set ps" "link0 = (if ps = [] then None else Some (last ps))"
    "chain_list (mem s) (read_link link0 s) ys"
  shows "\<exists>link. c_while (\<lambda>link s. read_link link s \<noteq> 0 \<and> read_link link s \<noteq> page)
      (\<lambda>link s. Ret (Some (read_link link s)) s) link0 s = Ret link s
    \<and> take_inv page s xs link s \<and> (read_link link s = 0 \<or> read_link link s = page)"
  using assms
proof (induction ys arbitrary: ps link0)
  case Nil
  then show ?case by (force simp: c_while_done take_inv_def)
next
  case (Cons y ys)
  show ?case
  proof (cases "y = page")
    case True
    from Cons.prems have "take_inv page s xs link0 s" unfolding take_inv_def by blast
    with True Cons.prems show ?thesis by (auto simp: c_while_done)
  next
    case False
    with Cons.prems have "read_link link0 s \<noteq> 0 \<and> read_link link0 s \<noteq> page" "read_link link0 s = y" by auto
    moreover have "\<exists>link. c_while (\<lambda>link s. read_link link s \<noteq> 0 \<and> read_link link s \<noteq> page)
        (\<lambda>link s. Ret (Some (read_link link s)) s) (Some y) s = Ret link s
      \<and> take_inv page s xs link s \<and> (read_link link s = 0 \<or> read_link link s = page)"
      using Cons.prems False
      by (intro Cons.IH[of "ps @ [y]"]) (auto simp: read_link_def load64_def)
    ultimately show ?thesis by (simp add: c_while_step)
  qed
qed

lemma take_unlink:
  assumes "take_inv page s xs link s" "read_link link s = page" "page \<noteq> 0" "palloc_inv s xs"
  shows "page \<in> set xs"
    and "palloc_inv ((write_link link (load64 s page) s)\<lparr>free_page_count := free_page_count s - 1\<rparr>) (remove1 page xs)"
    and "(\<forall>x \<in> set xs. \<not> a - x < 8) \<Longrightarrow> mem (write_link link (load64 s page) s) a = mem s a"
proof -
  from assms obtain ps zs where xs: "xs = ps @ page # zs" and notin: "page \<notin> set ps"
    and link: "link = (if ps = [] then None else Some (last ps))"
    and ch: "chain_list (mem s) page (page # zs)"
    unfolding take_inv_def by (metis chain_list.elims(2) list.inject)
  show "page \<in> set xs" using xs by simp
  have r: "remove1 page xs = ps @ zs" using notin xs by (simp add: remove1_append)
  from assms(4) have c: "chain_list (mem s) (free_list_head s) (ps @ page # zs)"
    and d: "distinct (ps @ page # zs)" and n: "free_page_count s = of_nat (length ps + length zs) + 1"
    by (auto simp: palloc_inv_def xs)
  show "palloc_inv ((write_link link (load64 s page) s)\<lparr>free_page_count := free_page_count s - 1\<rparr>) (remove1 page xs)"
    using ch d n r link chain_unlink[OF c d]
    by (cases "ps = []") (auto simp: palloc_inv_def write_link_def load64_def store64_def)
  assume "\<forall>x \<in> set xs. \<not> a - x < 8"
  then show "mem (write_link link (load64 s page) s) a = mem s a"
    using link xs by (auto simp: write_link_def store64_def wr64_def)
qed

lemma palloc_take_spec:
  assumes inv: "palloc_inv s xs"
  shows "\<exists>s'. palloc_take page s = Ret (page AND NOT 4095 \<in> set xs) s'
    \<and> palloc_inv s' (remove1 (page AND NOT 4095) xs)
    \<and> (\<forall>a. (\<forall>x \<in> set xs. \<not> a - x < 8) \<longrightarrow> mem s' a = mem s a)
    \<and> (page AND NOT 4095 \<notin> set xs \<longrightarrow> s' = s)"
proof -
  define p where "p = page AND NOT 4095"
  from inv have "chain_list (mem s) (read_link None s) xs" by (simp add: palloc_inv_def read_link_def)
  then obtain link where loop: "c_while (\<lambda>link s. read_link link s \<noteq> 0 \<and> read_link link s \<noteq> p)
      (\<lambda>link s. Ret (Some (read_link link s)) s) None s = Ret link s"
    and t: "take_inv p s xs link s" and e: "read_link link s = 0 \<or> read_link link s = p"
    using take_loop[of xs "[]" xs p None s] by auto
  have pt: "palloc_take page s = (if read_link link s \<noteq> 0 then
      Ret True ((write_link link (load64 s (read_link link s)) s)\<lparr>free_page_count := free_page_count s - 1\<rparr>)
    else Ret False s)"
    using loop by (simp add: palloc_take_def page_size_def p_def Let_def write_link_def store64_def split: option.split)
  show ?thesis
  proof (cases "read_link link s = 0")
    case True
    with t have "p \<notin> set xs" by (auto simp: take_inv_def elim: chain_list.elims)
    with True pt inv show ?thesis by (simp add: p_def remove1_idem)
  next
    case False
    with e have "read_link link s = p" "p \<noteq> 0" by auto
    with take_unlink[OF t this inv] pt show ?thesis by (auto simp: p_def)
  qed
qed

section \<open>Setting the allocator up\<close>

definition region_pages :: "addr \<Rightarrow> nat \<Rightarrow> addr list" where
  "region_pages begin n = map (\<lambda>i. begin + of_nat i * 4096) [0..<n]"

lemma region_pages_Suc: "region_pages b (Suc n) = region_pages b n @ [b + of_nat n * 4096]"
  by (simp add: region_pages_def)

lemma unat_region_page:
  fixes b :: addr
  assumes "unat b + 4096 * i < 18446744073709551616"
  shows "unat (b + of_nat i * 4096) = unat b + 4096 * i"
proof -
  have "unat (of_nat i * (4096::addr)) = 4096 * i"
    using assms by (simp add: unat_word_ariths unat_of_nat)
  with assms show ?thesis by (simp add: unat_word_ariths)
qed

lemma set_region_pages:
  assumes "page_aligned b" "page_aligned e" "b \<le> e"
  shows "set (region_pages b ((unat e - unat b) div 4096)) = {p. page_aligned p \<and> b \<le> p \<and> p < e}" (is "set (region_pages b ?n) = ?R")
proof -
  obtain k l where kl: "unat b = 4096 * k" "unat e = 4096 * l" using assms by (auto elim!: page_alignedE)
  have bound: "4096 * l < 18446744073709551616" using unat_less64[of e] kl(2) by simp
  have n: "?n = l - k" using kl by (simp flip: right_diff_distrib')
  have el: "unat (b + of_nat i * 4096) = 4096 * (k + i)" if "i < l - k" for i
    using that bound kl by (subst unat_region_page) auto
  show ?thesis
  proof (intro set_eqI iffI)
    fix p assume "p \<in> set (region_pages b ?n)"
    then obtain i where "i < l - k" "p = b + of_nat i * 4096" unfolding n region_pages_def by auto
    with el kl show "p \<in> ?R" by (simp add: page_aligned_def word_le_nat_alt word_less_nat_alt)
  next
    fix p assume p: "p \<in> ?R"
    then obtain j where j: "unat p = 4096 * j" by (auto elim!: page_alignedE)
    with p kl have "k \<le> j" "j < l" by (auto simp: word_le_nat_alt word_less_nat_alt)
    then have "unat p = unat (b + of_nat (j - k) * 4096)" using el[of "j - k"] j by simp
    then have "p = b + of_nat (j - k) * 4096" by (simp only: word_unat_eq_iff)
    moreover have "j - k \<in> {0..<l - k}" using \<open>k \<le> j\<close> \<open>j < l\<close> by auto
    ultimately show "p \<in> set (region_pages b ?n)"
      unfolding n region_pages_def set_map set_upt by (rule image_eqI)
  qed
qed

definition init_inv :: "addr \<Rightarrow> addr \<Rightarrow> addr \<Rightarrow> 'a palloc_state_scheme \<Rightarrow> bool" where
  "init_inv b e page s \<longleftrightarrow> (\<exists>i. unat page = unat b + 4096 * i \<and> unat b + 4096 * i \<le> unat e
     \<and> page = b + of_nat i * 4096 \<and> palloc_inv s (rev (region_pages b i)))"

lemma palloc_init_body_free:
  "page \<noteq> 0 \<Longrightarrow> palloc_init_body page s = Ret (page + 4096) (palloc_free page s)"
  by (simp add: palloc_init_body_def palloc_free_def page_size_def Let_def)

lemma init_inv_step:
  assumes inv: "init_inv b e page s" and more: "page + 4096 \<le> e"
    and b: "page_aligned b" "b \<noteq> 0" and e: "unat e + 4096 < 18446744073709551616"
  shows "\<exists>page' s'. palloc_init_body page s = Ret page' s' \<and> init_inv b e page' s'
    \<and> unat e + 4096 - unat page' < unat e + 4096 - unat page"
proof -
  from inv obtain i where i: "unat page = unat b + 4096 * i" "unat b + 4096 * i \<le> unat e"
    "page = b + of_nat i * 4096" "palloc_inv s (rev (region_pages b i))" by (auto simp: init_inv_def)
  have nz: "page \<noteq> 0" using i(1) b(2) unat_gt_0[of b] by (metis add_is_0 unat_0 unat_eq_0)
  have al: "page_aligned page" using b(1) i(1) by (simp add: page_aligned_def)
  have next_page: "unat (page + 4096) = unat b + 4096 * Suc i" using i(1,2) e by (simp add: unat_word_ariths)
  have "page \<notin> set (region_pages b i)"
  proof
    assume "page \<in> set (region_pages b i)"
    then obtain j where "j < i" "page = b + of_nat j * 4096" by (auto simp: region_pages_def)
    with i(1,2) e unat_region_page[of b j] show False by simp
  qed
  then have "palloc_inv (palloc_free page s) (page # rev (region_pages b i))"
    using palloc_free_inv[OF i(4) nz al] by simp
  moreover have "unat (page + 4096) \<le> unat e" using more by (simp add: word_le_nat_alt)
  ultimately have "init_inv b e (page + 4096) (palloc_free page s)"
    using next_page i(3) unfolding init_inv_def
    by (intro exI[of _ "Suc i"]) (simp add: region_pages_Suc algebra_simps)
  with nz next_page i(1) \<open>unat (page + 4096) \<le> unat e\<close> show ?thesis by (simp add: palloc_init_body_free)
qed

lemma init_inv_end:
  assumes "init_inv b e page s" "\<not> page + 4096 \<le> e" "page_aligned b" "page_aligned e"
    and e: "unat e + 4096 < 18446744073709551616"
  shows "palloc_inv s (rev (region_pages b ((unat e - unat b) div 4096)))"
proof -
  from assms obtain i where i: "unat page = unat b + 4096 * i" "unat b + 4096 * i \<le> unat e"
    "palloc_inv s (rev (region_pages b i))" by (auto simp: init_inv_def)
  obtain k l where kl: "unat b = 4096 * k" "unat e = 4096 * l" using assms by (auto elim!: page_alignedE)
  have "unat (page + 4096) = unat b + 4096 * Suc i" using i(1,2) e by (simp add: unat_word_ariths)
  with assms(2) have "unat e < unat b + 4096 * Suc i" by (simp add: word_le_nat_alt)
  with i(2) kl have "l = k + i" by simp
  with kl i(3) show ?thesis by simp
qed

lemma init_loop:
  assumes b: "page_aligned b" "b \<noteq> 0" "b \<le> e" and e: "page_aligned e" "unat e + 4096 < 18446744073709551616"
    and inv: "palloc_inv s []"
  shows "\<exists>page s'. c_while (\<lambda>page s. page + page_size \<le> e) palloc_init_body b s = Ret page s'
     \<and> palloc_inv s' (rev (region_pages b ((unat e - unat b) div 4096)))"
proof -
  have "init_inv b e b s"
    using inv b(3) by (auto simp: init_inv_def region_pages_def word_le_nat_alt intro!: exI[of _ 0])
  then have "\<exists>page s'. c_while (\<lambda>page s. page + page_size \<le> e) palloc_init_body b s = Ret page s'
     \<and> init_inv b e page s' \<and> \<not> page + page_size \<le> e"
    by (rule c_while_rule[where M = "\<lambda>page s. unat e + 4096 - unat page"])
      (use init_inv_step[OF _ _ b(1,2) e(2)] in \<open>auto simp: page_size_def\<close>)
  then show ?thesis using init_inv_end[OF _ _ b(1) e(1,2)] by (auto simp: page_size_def)
qed

text \<open>
  C36: At boot, \<open>palloc_initialize\<close> returns with a well-formed free list: every page of the largest
  conventional region between the low cutoff and 4 GiB, each exactly once, and nothing else; the list
  is empty when the map has no such region.
\<close>

theorem palloc_initialize_spec:
  assumes fits: "descriptors_fit s"
    and region: "memmap_find_largest_conventional_region palloc_low_cutoff palloc_high_limit s = (ok, b, e)"
  shows "\<exists>s' xs. palloc_initialize s = Ret () s' \<and> palloc_inv s' xs
    \<and> set xs = (if ok then {p. page_aligned p \<and> b \<le> p \<and> p < e} else {})"
proof -
  let ?s0 = "s\<lparr>free_list_head := 0, alloc_region_begin := 0, alloc_region_end := 0, free_page_count := 0\<rparr>"
  have same: "memmap_find_largest_conventional_region palloc_low_cutoff palloc_high_limit ?s0 = (ok, b, e)"
  proof -
    have "region_step lo hi ?s0 = region_step lo hi s" for lo hi
      by (intro ext) (simp add: region_step_def memmap_get_descriptor_def)
    with region show ?thesis by (simp add: memmap_find_largest_conventional_region_def)
  qed
  show ?thesis
  proof (cases ok)
    case False
    with same show ?thesis by (auto simp: palloc_initialize_def Let_def palloc_inv_def intro!: exI[of _ "[]"])
  next
    case True
    with largest_region_spec[OF region _ fits] have r: "page_aligned b" "page_aligned e" "palloc_low_cutoff \<le> b"
      "b < e" "e \<le> palloc_high_limit" by (auto simp: palloc_low_cutoff_def)
    have nz: "b \<noteq> 0" using r(3) by (auto simp: palloc_low_cutoff_def)
    have "unat e \<le> 4294967296" using r(5) by (simp add: palloc_high_limit_def word_le_nat_alt)
    then have e: "unat e + 4096 < 18446744073709551616" by simp
    let ?s1 = "?s0\<lparr>alloc_region_begin := b, alloc_region_end := e\<rparr>"
    have "palloc_inv ?s1 []" by (simp add: palloc_inv_def)
    from init_loop[OF r(1) nz order.strict_implies_order[OF r(4)] r(2) e this] obtain page s' where
      l: "c_while (\<lambda>page s. page + page_size \<le> e) palloc_init_body b ?s1 = Ret page s'"
         "palloc_inv s' (rev (region_pages b ((unat e - unat b) div 4096)))" by blast
    then have "palloc_initialize s = Ret () s'"
      using same True by (simp add: palloc_initialize_def Let_def)
    moreover have "set (rev (region_pages b ((unat e - unat b) div 4096)))
        = {p. page_aligned p \<and> b \<le> p \<and> p < e}"
      unfolding set_rev by (rule set_region_pages[OF r(1,2) order.strict_implies_order[OF r(4)]])
    ultimately show ?thesis using l(2) True by (simp only: if_True) blast
  qed
qed

section \<open>The allocator interface\<close>

text \<open>
  What the heap, the page tables and the loader rely on: an allocator whose invariant exposes the list
  of free pages. \<open>take_pages\<close> is a client that allocates \<open>n\<close> pages in a row.
\<close>

primrec take_pages :: "('s \<Rightarrow> addr \<times> 's) \<Rightarrow> nat \<Rightarrow> 's \<Rightarrow> addr list \<times> 's" where
  "take_pages alloc 0 s = ([], s)"
| "take_pages alloc (Suc n) s =
     (let (p, s) = alloc s; (ps, s) = take_pages alloc n s in (p # ps, s))"

locale page_pool =
  fixes inv :: "'s \<Rightarrow> addr list \<Rightarrow> bool"
    and alloc :: "'s \<Rightarrow> addr \<times> 's"
    and release :: "addr \<Rightarrow> 's \<Rightarrow> 's"
  assumes page_ok: "inv s xs \<Longrightarrow> x \<in> set xs \<Longrightarrow> x \<noteq> 0 \<and> page_aligned x"
    and distinct_pages: "inv s xs \<Longrightarrow> distinct xs"
    and alloc_none: "inv s [] \<Longrightarrow> alloc s = (0, s)"
    and alloc_some: "inv s (x # xs) \<Longrightarrow> fst (alloc s) = x \<and> inv (snd (alloc s)) xs"
    and release_inv: "inv s xs \<Longrightarrow> p \<noteq> 0 \<Longrightarrow> page_aligned p \<Longrightarrow> p \<notin> set xs \<Longrightarrow> inv (release p s) (p # xs)"
begin

lemma alloc_zero_iff: "inv s xs \<Longrightarrow> fst (alloc s) = 0 \<longleftrightarrow> xs = []"
proof (cases xs)
  case (Cons x ys)
  moreover assume "inv s xs"
  ultimately show ?thesis using alloc_some[of s x ys] page_ok[of s xs x] by simp
qed (simp add: alloc_none)

lemma alloc_member:
  assumes "inv s xs" "xs \<noteq> []"
  shows "fst (alloc s) = hd xs \<and> inv (snd (alloc s)) (tl xs) \<and> fst (alloc s) \<notin> set (tl xs)"
  using assms alloc_some[of s "hd xs" "tl xs"] distinct_pages[of s xs] by (cases xs) auto

lemma release_then_alloc:
  assumes "inv s xs" "p \<noteq> 0" "page_aligned p" "p \<notin> set xs"
  shows "fst (alloc (release p s)) = p \<and> inv (snd (alloc (release p s))) xs"
  using release_inv[OF assms] alloc_some by blast

lemma take_pages_spec:
  "inv s xs \<Longrightarrow> n \<le> length xs \<Longrightarrow>
   fst (take_pages alloc n s) = take n xs \<and> inv (snd (take_pages alloc n s)) (drop n xs)"
proof (induction n arbitrary: s xs)
  case 0
  then show ?case by simp
next
  case (Suc n)
  then obtain x ys where xs: "xs = x # ys" by (cases xs) auto
  with Suc.prems have "fst (alloc s) = x" "inv (snd (alloc s)) ys" using alloc_some by blast+
  with Suc xs show ?case by (fastforce simp: Let_def split: prod.split)
qed

lemma take_pages_distinct:
  "inv s xs \<Longrightarrow> n \<le> length xs \<Longrightarrow> distinct (fst (take_pages alloc n s)) \<and> 0 \<notin> set (fst (take_pages alloc n s))"
  using take_pages_spec[of s xs n] distinct_pages[of s xs] page_ok[of s xs 0]
  by (auto dest: in_set_takeD)

end

interpretation palloc_pool: page_pool palloc_inv palloc_alloc palloc_free
proof (unfold_locales, goal_cases)
  case (1 s xs x)
  then show ?case by (rule palloc_inv_page)
next
  case (2 s xs)
  then show ?case by (rule palloc_inv_distinct)
next
  case (3 s)
  then show ?case by (rule palloc_alloc_empty)
next
  case (4 s x xs)
  then show ?case by (metis fst_conv palloc_alloc_Cons)
next
  case (5 s xs p)
  then show ?case by (rule palloc_free_inv)
qed

section \<open>Properties of the allocator\<close>

text \<open>
  C37: Allocating \<open>n\<close> pages in a row, while at least \<open>n\<close> are free, yields \<open>n\<close> different non-null
  pages, the first \<open>n\<close> of the free list, and leaves the others free; with no page left \<open>palloc_alloc\<close>
  returns 0 and changes nothing.
\<close>

theorem palloc_alloc_distinct:
  assumes "palloc_inv s xs"
  shows "if n \<le> length xs then
      fst (take_pages palloc_alloc n s) = take n xs \<and> distinct (take n xs) \<and> 0 \<notin> set (take n xs)
      \<and> palloc_inv (snd (take_pages palloc_alloc n s)) (drop n xs)
    else xs = [] \<longrightarrow> palloc_alloc s = (0, s)"
  using palloc_pool.take_pages_spec [OF assms] palloc_pool.take_pages_distinct [OF assms, of n]
    palloc_alloc_empty [of s] assms by auto

text \<open>
  C29: \<open>palloc_take\<close> always returns on a well-formed free list. It answers 1 exactly when the page
  that holds the given address is free, and then that page and no other leaves the list; memory
  outside the link words of free pages is untouched, and a failed take changes nothing.
\<close>

theorem palloc_take_exact:
  assumes inv: "palloc_inv s xs"
  shows "\<exists>s'. palloc_take page s = Ret (page AND NOT 4095 \<in> set xs) s'
    \<and> palloc_inv s' (remove1 (page AND NOT 4095) xs)
    \<and> (\<forall>a. (\<forall>x \<in> set xs. \<not> a - x < 8) \<longrightarrow> mem s' a = mem s a)
    \<and> (page AND NOT 4095 \<notin> set xs \<longrightarrow> s' = s)"
  using assms by (rule palloc_take_spec)

text \<open>
  A page given back with \<open>palloc_free\<close> is the next one \<open>palloc_alloc\<close> hands out, and the free
  list is then as before; freeing page 0 does nothing.
\<close>

lemma palloc_free_alloc:
  assumes "palloc_inv s xs" "page_aligned p" "p \<notin> set xs"
  shows "if p = 0 then palloc_free p s = s
    else fst (palloc_alloc (palloc_free p s)) = p \<and> palloc_inv (snd (palloc_alloc (palloc_free p s))) xs"
  using assms palloc_pool.release_then_alloc [of s xs p] by simp

section \<open>Witnesses\<close>

text \<open>A state with two free pages at 32 MiB, and a one-descriptor memory map that offers them.\<close>

definition boot_map :: memory where
  "boot_map = wr64 (wr64 (wr64 (\<lambda>_. 0) 0 7) 8 0x02000000) 24 2"

definition boot_state :: palloc_state where
  "boot_state = \<lparr>mem = (\<lambda>_. 0), serial_out = [], cr3 = 0, memory_map_buffer = boot_map,
     memory_map_size_used = 48, memory_map_descriptor_size = 48, memory_map_descriptor_version = 1,
     memory_map_descriptor_count = 1, memory_map_conventional_region_count = 1,
     memory_map_conventional_page_count = 2, free_list_head = 0, alloc_region_begin = 0,
     alloc_region_end = 0, free_page_count = 0\<rparr>"

definition two_pages :: palloc_state where
  "two_pages = palloc_free 0x02001000 (palloc_free 0x02000000 boot_state)"

lemma two_pages_inv: "palloc_inv two_pages [0x02001000, 0x02000000]"
  unfolding two_pages_def
  by (intro palloc_free_inv) (simp_all add: palloc_inv_def boot_state_def page_aligned_def)

lemma boot_descriptor:
  "memmap_get_descriptor i boot_state = (if i = 0 then Some (descriptor_at boot_map 0) else None)"
  "efi_type (descriptor_at boot_map 0) = 7"
  "physical_start (descriptor_at boot_map 0) = 0x02000000"
  "number_of_pages (descriptor_at boot_map 0) = 2"
proof -
  have w: "word_aligned 0" "word_aligned 8" "word_aligned 24" by (simp_all add: word_aligned_def)
  show "physical_start (descriptor_at boot_map 0) = 0x02000000"
    "number_of_pages (descriptor_at boot_map 0) = 2"
    using w by (simp_all add: descriptor_at_def boot_map_def)
  show "efi_type (descriptor_at boot_map 0) = 7"
    using w by (simp add: descriptor_at_def boot_map_def rd_le_take)
  have "1 \<le> i \<longleftrightarrow> i \<noteq> 0" by (metis not_less word_less_1)
  then show "memmap_get_descriptor i boot_state = (if i = 0 then Some (descriptor_at boot_map 0) else None)"
    by (simp add: memmap_get_descriptor_def boot_state_def)
qed

lemma boot_fit: "descriptors_fit boot_state"
  by (auto simp: descriptors_fit_def boot_descriptor split: if_splits)

lemma boot_region:
  "memmap_find_largest_conventional_region palloc_low_cutoff palloc_high_limit boot_state
    = (True, 0x02000000, 0x02002000)"
proof -
  have "clip_region palloc_low_cutoff palloc_high_limit (descriptor_at boot_map 0) = Some (0x02000000, 0x02002000)"
    by (simp add: clip_region_def boot_descriptor efi_conventional_memory_def palloc_low_cutoff_def
        palloc_high_limit_def)
  moreover have "memory_map_descriptor_count boot_state = 1" by (simp add: boot_state_def)
  ultimately show ?thesis
    by (simp add: memmap_find_largest_conventional_region_def region_step_def boot_descriptor)
qed

theorem largest_region_witness:
  "\<exists>d. memmap_get_descriptor 0 boot_state = Some d \<and> offered_pages palloc_low_cutoff palloc_high_limit d = {0x2000 ..< 0x2002}"
proof -
  have "memory_map_descriptor_count boot_state = 1" by (simp add: boot_state_def)
  then show ?thesis using largest_region [OF boot_region _ boot_fit] by (auto simp: palloc_low_cutoff_def)
qed

theorem memmap_parse_counts_witness:
  "\<exists>s'. memmap_parse 96 48 1 boot_state = Ret () s' \<and> memory_map_descriptor_count s' = 2"
  using memmap_parse_counts [where sz = 96 and dsize = 48 and ver = 1 and s = boot_state] by auto

theorem palloc_initialize_spec_witness:
  "\<exists>s' xs. palloc_initialize boot_state = Ret () s' \<and> palloc_inv s' xs
     \<and> set xs = {p. page_aligned p \<and> 0x02000000 \<le> p \<and> p < 0x02002000}"
  using palloc_initialize_spec [OF boot_fit boot_region] by simp

theorem palloc_alloc_distinct_witness:
  "fst (take_pages palloc_alloc 2 two_pages) = [0x02001000, 0x02000000]"
  using palloc_alloc_distinct [OF two_pages_inv, where n = 2] by simp

theorem palloc_take_exact_witness:
  "\<exists>s'. palloc_take 0x02000123 two_pages = Ret True s' \<and> palloc_inv s' [0x02001000]"
  using palloc_take_exact [OF two_pages_inv, where page = "0x02000123"] by auto

end
