(* ===== verification/Heap.thy ===== *)
theory Heap
  imports Palloc
begin

text \<open>
  \<open>src/kernel/heap.c\<close>: the kernel heap, a doubly linked list of blocks sorted by address over pages
  of the page allocator, with first fit, splitting and coalescing. The block headers live in the typed
  store \<open>blocks\<close>, keyed by their address (the code keeps each in the 32 bytes before the payload);
  the payload bytes are in \<open>mem\<close>.
\<close>

section \<open>State and operations\<close>

record heap_block =
  blk_magic :: u32
  blk_free :: u32
  blk_size :: u64
  blk_next :: addr
  blk_prev :: addr

record heap_state = palloc_state +
  heap_head :: addr
  blocks :: "addr \<Rightarrow> heap_block"

definition heap_page_size :: u64 where "heap_page_size = 4096"
definition heap_align :: u64 where "heap_align = 16"
definition heap_magic :: u32 where "heap_magic = 0x48454150"
definition sizeof_block :: u64 where "sizeof_block = 32"

abbreviation block_at :: "'a heap_state_scheme \<Rightarrow> addr \<Rightarrow> heap_block" where
  "block_at s b \<equiv> blocks s b"

definition put_block :: "addr \<Rightarrow> heap_block \<Rightarrow> 'a heap_state_scheme \<Rightarrow> 'a heap_state_scheme" where
  "put_block b v s = s\<lparr>blocks := (blocks s)(b := v)\<rparr>"

definition heap_fail :: "string \<Rightarrow> 'a heap_state_scheme \<Rightarrow> ('v, 'a heap_state_scheme) outcome" where
  "heap_fail text s = arch_halt_forever (write_line text s)"

text \<open>
  \<open>heap_align - 1u\<close> is an \<open>unsigned int\<close>, so its complement is taken at 32 bits and then widened:
  the mask is \<open>0xFFFFFFF0\<close>, and \<open>align_up\<close> also clears the upper half of the size.
\<close>

definition heap_align_up :: "u64 \<Rightarrow> u64" where
  "heap_align_up value = (value + (heap_align - 1)) AND ucast (NOT (ucast (heap_align - 1) :: u32))"

definition block_end :: "'a heap_state_scheme \<Rightarrow> addr \<Rightarrow> addr" where
  "block_end s block = block + sizeof_block + blk_size (block_at s block)"

definition blocks_touch :: "'a heap_state_scheme \<Rightarrow> addr \<Rightarrow> addr \<Rightarrow> bool" where
  "blocks_touch s left right \<longleftrightarrow> block_end s left = right"

definition split_block :: "addr \<Rightarrow> u64 \<Rightarrow> 'a heap_state_scheme \<Rightarrow> 'a heap_state_scheme" where
  "split_block block sz s =
    (if blk_size (block_at s block) \<le> sz + sizeof_block + heap_align then s
     else
       let remaining = blk_size (block_at s block) - sz - sizeof_block;
           next = block + sizeof_block + sz;
           s = put_block next
                 \<lparr>blk_magic = heap_magic, blk_free = 1, blk_size = remaining,
                  blk_next = blk_next (block_at s block), blk_prev = block\<rparr> s;
           s = (if blk_next (block_at s next) \<noteq> 0
                then put_block (blk_next (block_at s next))
                       ((block_at s (blk_next (block_at s next)))\<lparr>blk_prev := next\<rparr>) s
                else s)
       in put_block block ((block_at s block)\<lparr>blk_size := sz, blk_next := next\<rparr>) s)"

definition can_merge :: "'a heap_state_scheme \<Rightarrow> addr \<Rightarrow> bool" where
  "can_merge s block \<longleftrightarrow>
     (let next = blk_next (block_at s block)
      in next \<noteq> 0 \<and> blk_magic (block_at s next) = heap_magic \<and> blk_free (block_at s next) \<noteq> 0
         \<and> blocks_touch s block next)"

definition merge_next :: "addr \<Rightarrow> 'a heap_state_scheme \<Rightarrow> 'a heap_state_scheme" where
  "merge_next block s =
    (let next = blk_next (block_at s block);
         s = put_block block
               ((block_at s block)\<lparr>blk_size := blk_size (block_at s block) + (sizeof_block + blk_size (block_at s next)),
                                   blk_next := blk_next (block_at s next)\<rparr>) s
     in if blk_next (block_at s block) \<noteq> 0
        then put_block (blk_next (block_at s block))
               ((block_at s (blk_next (block_at s block)))\<lparr>blk_prev := block\<rparr>) s
        else s)"

definition coalesce_forward :: "addr \<Rightarrow> 'a heap_state_scheme \<Rightarrow> (unit, 'a heap_state_scheme) outcome" where
  "coalesce_forward block s =
     c_while (\<lambda>_ s. can_merge s block) (\<lambda>_ s. Ret () (merge_next block s)) () s"

definition link_block :: "addr \<Rightarrow> addr \<Rightarrow> addr \<Rightarrow> 'a heap_state_scheme \<Rightarrow> 'a heap_state_scheme" where
  "link_block previous block current s =
    (let s = put_block block ((block_at s block)\<lparr>blk_prev := previous, blk_next := current\<rparr>) s;
         s = (if previous \<noteq> 0
              then put_block previous ((block_at s previous)\<lparr>blk_next := block\<rparr>) s
              else s\<lparr>heap_head := block\<rparr>)
     in if current \<noteq> 0
        then put_block current ((block_at s current)\<lparr>blk_prev := block\<rparr>) s
        else s)"

definition insert_block_sorted :: "addr \<Rightarrow> 'a heap_state_scheme \<Rightarrow> (addr, 'a heap_state_scheme) outcome" where
  "insert_block_sorted block s =
    chain
      (c_while (\<lambda>(previous, current) s. current \<noteq> 0 \<and> current < block)
         (\<lambda>(previous, current) s. Ret (current, blk_next (block_at s current)) s) (0, heap_head s) s)
      (\<lambda>(previous, current) s.
        let s = link_block previous block current s;
            before = blk_prev (block_at s block)
        in if before \<noteq> 0 \<and> blk_magic (block_at s before) = heap_magic
              \<and> blk_free (block_at s before) \<noteq> 0 \<and> blocks_touch s before block
           then chain (coalesce_forward before s) (\<lambda>_ s. Ret before s)
           else chain (coalesce_forward block s) (\<lambda>_ s. Ret block s))"

definition grow_heap :: "u64 \<Rightarrow> 'a heap_state_scheme \<Rightarrow> (addr, 'a heap_state_scheme) outcome" where
  "grow_heap sz s =
    (let capacity = heap_page_size - sizeof_block
     in if capacity < sz then Ret 0 s
     else
       let (page, s) = palloc_alloc s
       in if page = 0 then Ret 0 s
       else
         let block = page;
             s = put_block block
                   \<lparr>blk_magic = heap_magic, blk_free = 1, blk_size = capacity, blk_next = 0, blk_prev = 0\<rparr> s
         in insert_block_sorted block s)"

definition find_block :: "u64 \<Rightarrow> 'a heap_state_scheme \<Rightarrow> (addr, 'a heap_state_scheme) outcome" where
  "find_block sz s =
    chain
      (c_while (\<lambda>block s. block \<noteq> 0 \<and>
            (blk_magic (block_at s block) = heap_magic \<longrightarrow>
               \<not> (blk_free (block_at s block) \<noteq> 0 \<and> sz \<le> blk_size (block_at s block))))
         (\<lambda>block s. if blk_magic (block_at s block) \<noteq> heap_magic then heap_fail ''heap corrupt'' s
                     else Ret (blk_next (block_at s block)) s)
         (heap_head s) s)
      (\<lambda>block s. Ret block s)"

definition heap_initialize :: "'a heap_state_scheme \<Rightarrow> 'a heap_state_scheme" where
  "heap_initialize s = s\<lparr>heap_head := 0\<rparr>"

definition kmalloc :: "u64 \<Rightarrow> 'a heap_state_scheme \<Rightarrow> (addr, 'a heap_state_scheme) outcome" where
  "kmalloc sz s =
    (if sz = 0 then Ret 0 s
     else
       let sz = heap_align_up sz
       in chain (find_block sz s) (\<lambda>block s.
            chain (if block = 0 then grow_heap sz s else Ret block s) (\<lambda>block s.
              if block = 0 then Ret 0 s
              else
                let s = split_block block sz s;
                    s = put_block block ((block_at s block)\<lparr>blk_free := 0\<rparr>) s
                in Ret (block + sizeof_block) s)))"

definition zero_bytes :: "addr \<Rightarrow> u64 \<Rightarrow> 'a machine_scheme \<Rightarrow> 'a machine_scheme" where
  "zero_bytes ptr n s =
     s\<lparr>mem := fold (\<lambda>index m. m(ptr + of_nat index := 0)) [0..<unat n] (mem s)\<rparr>"

definition kzalloc :: "u64 \<Rightarrow> 'a heap_state_scheme \<Rightarrow> (addr, 'a heap_state_scheme) outcome" where
  "kzalloc sz s =
    chain (kmalloc sz s) (\<lambda>ptr s. if ptr = 0 then Ret 0 s else Ret ptr (zero_bytes ptr sz s))"

definition kfree :: "addr \<Rightarrow> 'a heap_state_scheme \<Rightarrow> (unit, 'a heap_state_scheme) outcome" where
  "kfree ptr s =
    (if ptr = 0 then Ret () s
     else
       let block = ptr - sizeof_block
       in if blk_magic (block_at s block) \<noteq> heap_magic \<or> blk_free (block_at s block) \<noteq> 0
          then heap_fail ''heap free fail'' s
          else
            let s = put_block block ((block_at s block)\<lparr>blk_free := 1\<rparr>) s
            in chain (coalesce_forward block s) (\<lambda>_ s.
                 let before = blk_prev (block_at s block)
                 in if before \<noteq> 0 \<and> blk_magic (block_at s before) = heap_magic
                       \<and> blk_free (block_at s before) \<noteq> 0 \<and> blocks_touch s before block
                    then coalesce_forward before s
                    else Ret () s))"

definition heap_self_test :: "'a heap_state_scheme \<Rightarrow> (unit, 'a heap_state_scheme) outcome" where
  "heap_self_test s =
    chain (kmalloc 32 s) (\<lambda>first s.
    chain (kmalloc 64 s) (\<lambda>second s.
    chain (kzalloc 24 s) (\<lambda>third s.
      if first = 0 \<or> second = 0 \<or> third = 0 then Ret () (write_line ''heap fail'' s)
      else if \<exists>index \<in> set [0..<24]. mem s (third + of_nat index) \<noteq> 0
      then Ret () (write_line ''heap fail'' s)
      else
        chain (kfree second s) (\<lambda>_ s.
        chain (kfree first s) (\<lambda>_ s.
        chain (kmalloc 80 s) (\<lambda>merged s.
          if merged = 0 then Ret () (write_line ''heap fail'' s)
          else
            chain (kfree merged s) (\<lambda>_ s.
            chain (kfree third s) (\<lambda>_ s.
              Ret () (write_line ''heap ok'' s)))))))))"

section \<open>Well-formed block lists\<close>

definition block_hi :: "(addr \<Rightarrow> heap_block) \<Rightarrow> addr \<Rightarrow> nat" where
  "block_hi h x = unat x + 32 + unat (blk_size (h x))"

primrec links :: "(addr \<Rightarrow> heap_block) \<Rightarrow> addr \<Rightarrow> addr \<Rightarrow> addr list \<Rightarrow> addr \<Rightarrow> bool" where
  "links h pr b [] nxt \<longleftrightarrow> b = nxt"
| "links h pr b (x # xs) nxt \<longleftrightarrow> b = x \<and> blk_prev (h x) = pr \<and> links h x (blk_next (h x)) xs nxt"

definition block_ok :: "(addr \<Rightarrow> heap_block) \<Rightarrow> addr \<Rightarrow> bool" where
  "block_ok h x \<longleftrightarrow> x \<noteq> 0 \<and> blk_magic (h x) = heap_magic \<and> 16 dvd unat x
     \<and> 16 dvd unat (blk_size (h x)) \<and> block_hi h x < 18446744073709551616"

definition before :: "(addr \<Rightarrow> heap_block) \<Rightarrow> addr \<Rightarrow> addr \<Rightarrow> bool" where
  "before h x y \<longleftrightarrow> block_hi h x \<le> unat y"

definition mergeable :: "(addr \<Rightarrow> heap_block) \<Rightarrow> addr \<Rightarrow> addr \<Rightarrow> bool" where
  "mergeable h x y \<longleftrightarrow> blk_free (h x) \<noteq> 0 \<and> blk_free (h y) \<noteq> 0 \<and> block_hi h x = unat y"

definition heap_list :: "(addr \<Rightarrow> heap_block) \<Rightarrow> addr \<Rightarrow> addr list \<Rightarrow> bool" where
  "heap_list h head xs \<longleftrightarrow> links h 0 head xs 0 \<and> (\<forall>x \<in> set xs. block_ok h x) \<and> sorted_wrt (before h) xs"

definition coalesced :: "(addr \<Rightarrow> heap_block) \<Rightarrow> addr list \<Rightarrow> bool" where
  "coalesced h xs \<longleftrightarrow> successively (\<lambda>x y. \<not> mergeable h x y) xs"

lemma links_append:
  "links h pr b (xs @ ys) nxt \<longleftrightarrow>
    (\<exists>m. links h pr b xs m \<and> links h (if xs = [] then pr else last xs) m ys nxt)"
  by (induction xs arbitrary: pr b) auto

lemma links_cong:
  "(\<And>x. x \<in> set xs \<Longrightarrow> blk_next (h' x) = blk_next (h x) \<and> blk_prev (h' x) = blk_prev (h x)) \<Longrightarrow>
   links h' pr b xs nxt = links h pr b xs nxt"
  by (induction xs arbitrary: pr b) auto

lemma sorted_before_cong:
  "(\<And>x. x \<in> set xs \<Longrightarrow> blk_size (h' x) = blk_size (h x)) \<Longrightarrow>
   sorted_wrt (before h') xs = sorted_wrt (before h) xs"
  by (induction xs) (auto simp: before_def block_hi_def)

lemma coalesced_cong:
  "(\<And>x. x \<in> set xs \<Longrightarrow> blk_size (h' x) = blk_size (h x) \<and> blk_free (h' x) = blk_free (h x)) \<Longrightarrow>
   coalesced h' xs = coalesced h xs"
  unfolding coalesced_def by (rule successively_cong) (auto simp: mergeable_def block_hi_def)

lemma before_less: "before h x y \<Longrightarrow> unat x < unat y"
  by (simp add: before_def block_hi_def)

lemma heap_list_distinct: "heap_list h head xs \<Longrightarrow> distinct xs"
proof -
  assume "heap_list h head xs"
  then have "sorted_wrt (before h) xs" by (simp add: heap_list_def)
  then show ?thesis by (induction xs) (auto dest: before_less)
qed

lemma heap_list_split:
  assumes "heap_list h head (us @ x # vs)"
  shows "links h 0 head us x" "blk_prev (h x) = (if us = [] then 0 else last us)"
    "links h x (blk_next (h x)) vs 0" "block_ok h x" "x \<notin> set us" "x \<notin> set vs"
    "set us \<inter> set vs = {}" "blk_next (h x) = (case vs of [] \<Rightarrow> 0 | v # _ \<Rightarrow> v)"
  using assms heap_list_distinct[OF assms]
  by (auto simp: heap_list_def links_append split: list.split)

lemma block_end_word:
  assumes "block_ok (blocks s) x"
  shows "unat (block_end s x) = block_hi (blocks s) x"
  using assms by (simp add: block_ok_def block_end_def block_hi_def sizeof_block_def unat_word_ariths)

lemma blocks_touch_iff:
  "block_ok (blocks s) x \<Longrightarrow> blocks_touch s x y \<longleftrightarrow> block_hi (blocks s) x = unat y"
  by (simp add: blocks_touch_def word_unat_eq_iff block_end_word)

section \<open>Merging a block with its successor\<close>

lemma can_merge_iff:
  assumes "heap_list (blocks s) head (us @ x # vs)"
  shows "can_merge s x \<longleftrightarrow> (\<exists>y ws. vs = y # ws \<and> blk_free (blocks s y) \<noteq> 0 \<and> block_hi (blocks s) x = unat y)"
proof -
  note sp = heap_list_split[OF assms]
  show ?thesis
  proof (cases vs)
    case Nil
    with sp(8) show ?thesis by (simp add: can_merge_def)
  next
    case (Cons y ws)
    with assms have "block_ok (blocks s) y" by (simp add: heap_list_def)
    with Cons sp(4,8) show ?thesis by (auto simp: can_merge_def blocks_touch_iff block_ok_def[of _ y])
  qed
qed

lemma merge_next_heap_list:
  assumes inv: "heap_list (blocks s) head (us @ x # y # vs)" and touch: "block_hi (blocks s) x = unat y"
  shows "heap_list (blocks (merge_next x s)) head (us @ x # vs)"
    and "block_hi (blocks (merge_next x s)) x = block_hi (blocks s) y"
    and "blk_free (blocks (merge_next x s) z) = blk_free (blocks s z)"
    and "z \<noteq> x \<Longrightarrow> blk_size (blocks (merge_next x s) z) = blk_size (blocks s z)"
    and "merge_next x s = s\<lparr>blocks := blocks (merge_next x s)\<rparr>"
proof -
  let ?h = "blocks s" and ?h' = "blocks (merge_next x s)"
  note sx = heap_list_split[OF inv]
  have inv2: "heap_list ?h head ((us @ [x]) @ y # vs)" using inv by simp
  note sy = heap_list_split[OF inv2]
  have y: "blk_next (?h x) = y" using sx(8) by simp
  let ?n = "blk_next (?h y)"
  have n: "?n \<noteq> x" using sy(5-8) inv by (auto split: list.splits simp: heap_list_def block_ok_def)
  have h': "?h' = (let g = ?h(x := ?h x\<lparr>blk_size := blk_size (?h x) + (32 + blk_size (?h y)), blk_next := ?n\<rparr>)
      in if ?n \<noteq> 0 then g(?n := ?h ?n\<lparr>blk_prev := x\<rparr>) else g)"
    using y n by (auto simp: merge_next_def put_block_def Let_def sizeof_block_def)
  show fr: "blk_free (?h' z) = blk_free (?h z)" for z using n by (simp add: h' Let_def)
  show sz: "z \<noteq> x \<Longrightarrow> blk_size (?h' z) = blk_size (?h z)" for z by (simp add: h' Let_def)
  show "merge_next x s = s\<lparr>blocks := ?h'\<rparr>" by (simp add: merge_next_def put_block_def Let_def)
  have bx: "block_ok ?h x" and by': "block_ok ?h y" using inv by (auto simp: heap_list_def)
  have "unat (blk_size (?h x) + (32 + blk_size (?h y))) = unat (blk_size (?h x)) + (32 + unat (blk_size (?h y)))"
    using bx by' touch by (simp add: block_ok_def block_hi_def unat_word_ariths)
  then have sizex: "unat (blk_size (?h' x)) = unat (blk_size (?h x)) + (32 + unat (blk_size (?h y)))"
    using n by (simp add: h' Let_def)
  then show hix: "block_hi ?h' x = block_hi ?h y" using touch by (simp add: block_hi_def)
  have magic: "blk_magic (?h' z) = blk_magic (?h z)" for z using n by (simp add: h' Let_def)
  have ok: "block_ok ?h' z" if "z \<in> set (us @ x # vs)" for z
  proof (cases "z = x")
    case True
    then show ?thesis using bx by' sizex hix magic by (auto simp: block_ok_def)
  next
    case False
    then have "block_ok ?h z" using that inv by (auto simp: heap_list_def)
    then show ?thesis using sz[OF False] magic by (simp add: block_ok_def block_hi_def)
  qed
  have "links ?h' 0 head us x"
    using sx(1,5,7) sy(5-8) n
    by (subst links_cong[where h = ?h]) (auto simp: h' Let_def split: list.splits)
  moreover have x': "blk_prev (?h' x) = blk_prev (?h x)" "blk_next (?h' x) = ?n" using n by (auto simp: h' Let_def)
  moreover have "links ?h' x ?n vs 0"
  proof (cases vs)
    case Nil
    with sy(8) show ?thesis by simp
  next
    case (Cons v ws)
    with sy(8) inv have v: "?n = v" "v \<noteq> 0" "v \<notin> set ws" "x \<notin> set ws"
      using heap_list_distinct[OF inv] by (auto simp: heap_list_def block_ok_def)
    have "links ?h' v (blk_next (?h' v)) ws 0 = links ?h v (blk_next (?h v)) ws 0"
      using v n by (subst links_cong[where h = ?h]) (auto simp: h' Let_def)
    moreover have "links ?h v (blk_next (?h v)) ws 0" "blk_prev (?h' v) = x"
      using sy(3) Cons v n by (auto simp: h' Let_def)
    ultimately show ?thesis using Cons v(1) by simp
  qed
  ultimately have "links ?h' 0 head (us @ x # vs) 0"
    unfolding links_append links.simps x' sx(2) by blast
  moreover have "sorted_wrt (before ?h') (us @ x # vs)"
  proof -
    have sorted: "sorted_wrt (before ?h) (us @ x # y # vs)" using inv by (simp add: heap_list_def)
    have hi: "block_hi ?h' u = block_hi ?h u" if "u \<in> set us \<union> set vs" for u
      using that sx(5,6) sz[of u] by (cases "u = x") (auto simp: block_hi_def)
    have "sorted_wrt (before ?h') us = sorted_wrt (before ?h) us"
      by (rule sorted_before_cong, rule sz) (use sx(5) in auto)
    moreover have "sorted_wrt (before ?h') vs = sorted_wrt (before ?h) vs"
      by (rule sorted_before_cong, rule sz) (use sx(6) in auto)
    ultimately show ?thesis using sorted hi by (auto simp: sorted_wrt_append before_def hix)
  qed
  ultimately show "heap_list ?h' head (us @ x # vs)" using ok by (simp add: heap_list_def)
qed

section \<open>Coalescing\<close>

text \<open>What the heap operations leave alone: everything but the block store.\<close>

abbreviation only_blocks :: "'a heap_state_scheme \<Rightarrow> 'a heap_state_scheme \<Rightarrow> bool" where
  "only_blocks s t \<equiv> t = s\<lparr>blocks := blocks t\<rparr>"

definition merge_frame :: "addr \<Rightarrow> 'a heap_state_scheme \<Rightarrow> 'a heap_state_scheme \<Rightarrow> bool" where
  "merge_frame x s t \<longleftrightarrow> only_blocks s t
     \<and> (\<forall>z. blk_free (blocks t z) = blk_free (blocks s z) \<and> blk_magic (blocks t z) = blk_magic (blocks s z))
     \<and> (\<forall>z. z \<noteq> x \<longrightarrow> blk_size (blocks t z) = blk_size (blocks s z))"

lemma merge_frame_refl [simp]: "merge_frame x s s"
  by (simp add: merge_frame_def)

lemma merge_frame_trans: "merge_frame x s t \<Longrightarrow> merge_frame x t u \<Longrightarrow> merge_frame x s u"
  unfolding merge_frame_def by (metis (no_types, lifting) heap_state.update_convs(2) heap_state.surjective)

lemma merge_next_frame: "blk_next (blocks s x) \<noteq> x \<Longrightarrow> merge_frame x s (merge_next x s)"
  by (auto simp: merge_frame_def merge_next_def put_block_def Let_def)

text \<open>The bytes (headers included) that the blocks of the list cover.\<close>

definition span :: "(addr \<Rightarrow> heap_block) \<Rightarrow> addr list \<Rightarrow> nat set" where
  "span h xs = (\<Union>x \<in> set xs. {unat x ..< block_hi h x})"

lemma span_cong: "(\<And>x. x \<in> set xs \<Longrightarrow> blk_size (h' x) = blk_size (h x)) \<Longrightarrow> span h' xs = span h xs"
  by (simp add: span_def block_hi_def)

lemma merge_next_span:
  assumes inv: "heap_list (blocks s) head (us @ x # y # vs)" and touch: "block_hi (blocks s) x = unat y"
  shows "span (blocks (merge_next x s)) (us @ x # vs) = span (blocks s) (us @ x # y # vs)"
proof -
  let ?h = "blocks s" and ?h' = "blocks (merge_next x s)"
  note m = merge_next_heap_list[OF inv touch]
  have "x \<notin> set us \<union> set vs" using heap_list_distinct[OF inv] by auto
  then have "span ?h' us = span ?h us" "span ?h' vs = span ?h vs"
    using m(4) by (metis UnCI span_cong)+
  moreover have "{unat x ..< block_hi ?h x} \<union> {unat y ..< block_hi ?h y} = {unat x ..< block_hi ?h y}"
    using touch by (auto simp: block_hi_def)
  ultimately show ?thesis using m(2) unfolding span_def by auto
qed

lemma coalesce_forward_spec:
  "heap_list (blocks s) head (us @ x # vs) \<Longrightarrow> 
   \<exists>t ds ws. coalesce_forward x s = Ret () t \<and> vs = ds @ ws
     \<and> heap_list (blocks t) head (us @ x # ws) \<and> \<not> can_merge t x \<and> merge_frame x s t
     \<and> (\<forall>d \<in> set ds. blk_free (blocks s d) \<noteq> 0)
     \<and> span (blocks t) (us @ x # ws) = span (blocks s) (us @ x # vs)
     \<and> (\<forall>d \<in> set (x # ds). block_hi (blocks s) d \<le> block_hi (blocks t) x)
     \<and> (can_merge s x \<longrightarrow> ds \<noteq> [])"
proof (induction vs arbitrary: s)
  case Nil
  then have "\<not> can_merge s x" by (simp add: can_merge_iff)
  with Nil show ?case by (auto simp: coalesce_forward_def c_while_done intro!: exI[of _ s])
next
  case (Cons y vs)
  show ?case
  proof (cases "can_merge s x")
    case False
    with Cons.prems show ?thesis
      by (intro exI[of _ s] exI[of _ "[]"] exI[of _ "y # vs"]) (simp add: coalesce_forward_def c_while_done)
  next
    case True
    let ?s = "merge_next x s"
    from True Cons.prems have y: "blk_free (blocks s y) \<noteq> 0" and touch: "block_hi (blocks s) x = unat y"
      by (simp_all add: can_merge_iff)
    note m = merge_next_heap_list[OF Cons.prems touch]
    from Cons.IH[OF m(1)] obtain t ds ws where t: "coalesce_forward x ?s = Ret () t" "vs = ds @ ws"
      "heap_list (blocks t) head (us @ x # ws)" "\<not> can_merge t x" "merge_frame x ?s t"
      "\<forall>d \<in> set ds. blk_free (blocks ?s d) \<noteq> 0"
      "span (blocks t) (us @ x # ws) = span (blocks ?s) (us @ x # vs)"
      "\<forall>d \<in> set (x # ds). block_hi (blocks ?s) d \<le> block_hi (blocks t) x" by blast
    have d: "x \<noteq> y" "x \<notin> set vs" using heap_list_distinct[OF Cons.prems] by auto
    have "blk_next (blocks s x) \<noteq> x" using heap_list_split(8)[OF Cons.prems] d by simp
    then have f: "merge_frame x s ?s" by (rule merge_next_frame)
    have "block_hi (blocks ?s) d = block_hi (blocks s) d" if "d \<in> set ds" for d
    proof -
      have "d \<noteq> x" using that d t(2) by auto
      then show ?thesis using m(4)[of d] by (simp add: block_hi_def)
    qed
    then have hi: "\<forall>d \<in> set (x # y # ds). block_hi (blocks s) d \<le> block_hi (blocks t) x"
      using t(8) m(2) touch by (auto simp: block_hi_def)
    have "coalesce_forward x s = coalesce_forward x ?s"
      using True by (simp add: coalesce_forward_def c_while_step)
    then show ?thesis
      using t(1-7) hi y merge_frame_trans[OF f t(5)] m(3) merge_next_span[OF Cons.prems touch]
      by (intro exI[of _ t] exI[of _ "y # ds"] exI[of _ ws]) auto
  qed
qed


section \<open>What is allocated\<close>

text \<open>
  The client's view of the heap: payload address to usable size, for the blocks in use.
\<close>

definition allocs :: "(addr \<Rightarrow> heap_block) \<Rightarrow> addr list \<Rightarrow> addr \<rightharpoonup> nat" where
  "allocs h xs p = (if p - 32 \<in> set xs \<and> blk_free (h (p - 32)) = 0
                    then Some (unat (blk_size (h (p - 32)))) else None)"

lemma allocs_merge:
  assumes "merge_frame x s t" "blk_free (blocks s x) \<noteq> 0" "\<forall>d \<in> set ds. blk_free (blocks s d) \<noteq> 0"
  shows "allocs (blocks t) (us @ x # ws) = allocs (blocks s) (us @ x # ds @ ws)"
  using assms by (auto simp: allocs_def fun_eq_iff merge_frame_def)

lemma coalesced_mid:
  "coalesced h (us @ x # vs) \<longleftrightarrow> coalesced h us \<and> coalesced h vs
     \<and> (us \<noteq> [] \<longrightarrow> \<not> mergeable h (last us) x) \<and> (vs \<noteq> [] \<longrightarrow> \<not> mergeable h x (hd vs))"
  by (auto simp: coalesced_def successively_append_iff successively_Cons)

lemma coalesced_append_right: "coalesced h (us @ vs) \<Longrightarrow> coalesced h vs"
  by (simp add: coalesced_def successively_append_iff)

lemma not_can_merge:
  assumes "heap_list (blocks t) head (us @ x # ws)" "\<not> can_merge t x" "ws \<noteq> []"
  shows "\<not> mergeable (blocks t) x (hd ws)"
  using assms by (cases ws) (auto simp: can_merge_iff mergeable_def)

lemma coalesce_at:
  assumes inv: "heap_list (blocks s) head (us @ x # vs)" and free: "blk_free (blocks s x) \<noteq> 0"
    and co: "coalesced (blocks s) us" "coalesced (blocks s) (tl vs)" "coalesced (blocks s) vs \<or> can_merge s x"
  shows "\<exists>t ws. coalesce_forward x s = Ret () t \<and> heap_list (blocks t) head (us @ x # ws)
     \<and> coalesced (blocks t) us \<and> coalesced (blocks t) (x # ws) \<and> merge_frame x s t
     \<and> allocs (blocks t) (us @ x # ws) = allocs (blocks s) (us @ x # vs)
     \<and> span (blocks t) (us @ x # ws) = span (blocks s) (us @ x # vs)
     \<and> block_hi (blocks s) x \<le> block_hi (blocks t) x
     \<and> (can_merge s x \<longrightarrow> block_hi (blocks s) (hd vs) \<le> block_hi (blocks t) x)"
proof -
  from coalesce_forward_spec[OF inv] obtain t ds ws where t: "coalesce_forward x s = Ret () t" "vs = ds @ ws"
     "heap_list (blocks t) head (us @ x # ws)" "\<not> can_merge t x" "merge_frame x s t"
     "\<forall>d \<in> set ds. blk_free (blocks s d) \<noteq> 0"
     "span (blocks t) (us @ x # ws) = span (blocks s) (us @ x # vs)" "can_merge s x \<longrightarrow> ds \<noteq> []"
     "\<forall>d \<in> set (x # ds). block_hi (blocks s) d \<le> block_hi (blocks t) x" by blast
  have d: "x \<notin> set us" "x \<notin> set ws" using heap_list_distinct[OF t(3)] by auto
  have "coalesced (blocks s) ws"
  proof (cases "ds = []")
    case True
    with t(2,8) co(3) show ?thesis by simp
  next
    case False
    with t(2) have "tl vs = tl ds @ ws" by simp
    with co(2) coalesced_append_right show ?thesis by metis
  qed
  then have "coalesced (blocks t) ws" using t(5) d
    by (subst coalesced_cong[where h = "blocks s"]) (auto simp: merge_frame_def)
  then have "coalesced (blocks t) (x # ws)"
    using not_can_merge[OF t(3,4)] coalesced_mid[of _ "[]" x ws] by (simp add: coalesced_def)
  moreover have "coalesced (blocks t) us" using t(5) d co(1)
    by (subst coalesced_cong[where h = "blocks s"]) (auto simp: merge_frame_def)
  moreover have "can_merge s x \<longrightarrow> block_hi (blocks s) (hd vs) \<le> block_hi (blocks t) x"
    using t(2,8,9) by (cases ds) auto
  ultimately show ?thesis using t(1-3,5,7,9) allocs_merge[OF t(5) free t(6), of us ws] t(2)
    by (intro exI[of _ t] exI[of _ ws]) simp
qed

lemma merge_back:
  assumes inv: "heap_list (blocks s) head ((us @ [q]) @ x # vs)"
    and free: "blk_free (blocks s q) \<noteq> 0" "blk_free (blocks s x) \<noteq> 0" "block_hi (blocks s) q = unat x"
    and co: "coalesced (blocks s) (us @ [q])" "coalesced (blocks s) vs"
  shows "\<exists>t ys. coalesce_forward q s = Ret () t \<and> heap_list (blocks t) head ys \<and> coalesced (blocks t) ys
     \<and> merge_frame q s t \<and> q \<in> set ys
     \<and> allocs (blocks t) ys = allocs (blocks s) ((us @ [q]) @ x # vs)
     \<and> span (blocks t) ys = span (blocks s) ((us @ [q]) @ x # vs)
     \<and> block_hi (blocks s) x \<le> block_hi (blocks t) q"
proof -
  have inv': "heap_list (blocks s) head (us @ q # x # vs)" using inv by simp
  have cu: "coalesced (blocks s) us" "us \<noteq> [] \<longrightarrow> \<not> mergeable (blocks s) (last us) q"
    using co(1) by (simp_all add: coalesced_mid)
  have cm: "can_merge s q" using can_merge_iff[OF inv'] free by simp
  from coalesce_at[OF inv' free(1) cu(1)] co(2) cm obtain t ws where t:
     "coalesce_forward q s = Ret () t" "heap_list (blocks t) head (us @ q # ws)"
     "coalesced (blocks t) us" "coalesced (blocks t) (q # ws)" "merge_frame q s t"
     "allocs (blocks t) (us @ q # ws) = allocs (blocks s) (us @ q # x # vs)"
     "span (blocks t) (us @ q # ws) = span (blocks s) (us @ q # x # vs)"
     "block_hi (blocks s) x \<le> block_hi (blocks t) q" by auto
  have "us \<noteq> [] \<longrightarrow> last us \<noteq> q" using heap_list_distinct[OF inv'] last_in_set[of us] by auto
  then have "us \<noteq> [] \<longrightarrow> \<not> mergeable (blocks t) (last us) q"
    using cu(2) t(5) by (auto simp: mergeable_def merge_frame_def block_hi_def)
  then have "coalesced (blocks t) (us @ q # ws)"
    using t(3,4) coalesced_mid[of _ "[]" q ws] by (simp add: coalesced_mid)
  with t show ?thesis by (intro exI[of _ t] exI[of _ "us @ q # ws"]) simp
qed

end
