(* ===== verification/HeapOps.thy ===== *)
theory HeapOps
  imports Heap
begin

text \<open>
  The invariant of the heap (\<open>heap_inv\<close>) and, for each operation of \<open>src/kernel/heap.c\<close>, what it does to the
  block list: \<open>kfree\<close>, first fit, splitting, inserting a page, growing, \<open>kmalloc\<close> and \<open>kzalloc\<close>.
  \<open>allocs\<close> (from \<open>Heap\<close>) is the abstract value, \<open>span\<close> the bytes the heap covers, \<open>heap_frame\<close> the
  fields it may touch.
\<close>

section \<open>The heap invariant\<close>

text \<open>
  \<open>heap_inv s xs ps\<close>: the block list is \<open>xs\<close>, sorted by address, doubly linked, with no two
  adjacent free blocks left unmerged; the free page list is \<open>ps\<close>; no block covers a byte of a free page.
\<close>

definition pages_apart :: "addr list \<Rightarrow> nat set \<Rightarrow> bool" where
  "pages_apart ps bytes \<longleftrightarrow> (\<forall>p \<in> set ps. unat p + 4096 < 18446744073709551616
     \<and> {unat p ..< unat p + 4096} \<inter> bytes = {})"

definition heap_inv :: "'a heap_state_scheme \<Rightarrow> addr list \<Rightarrow> addr list \<Rightarrow> bool" where
  "heap_inv s xs ps \<longleftrightarrow> heap_list (blocks s) (heap_head s) xs \<and> coalesced (blocks s) xs
     \<and> palloc_inv s ps \<and> pages_apart ps (span (blocks s) xs)"

text \<open>
  The fields the heap and the allocator below it own; everything else is the same in \<open>s\<close> and \<open>t\<close>.
\<close>

definition heap_frame :: "'a heap_state_scheme \<Rightarrow> 'a heap_state_scheme \<Rightarrow> bool" where
  "heap_frame s t \<longleftrightarrow> (\<exists>m f c h b.
     t = s\<lparr>mem := m, free_list_head := f, free_page_count := c, heap_head := h, blocks := b\<rparr>)"

lemma heap_frameI:
  "heap_frame s (s\<lparr>mem := m, free_list_head := f, free_page_count := c, heap_head := h, blocks := b\<rparr>)"
  unfolding heap_frame_def by (intro exI, rule refl)

lemma heap_frame_refl [simp]: "heap_frame s s"
  using heap_frameI[where s = s and m = "mem s" and f = "free_list_head s" and c = "free_page_count s"
      and h = "heap_head s" and b = "blocks s"] by simp

lemma heap_frame_trans: "heap_frame s t \<Longrightarrow> heap_frame t u \<Longrightarrow> heap_frame s u"
  unfolding heap_frame_def by (elim exE, simp, intro exI, rule refl)

lemma heap_frame_blocks [simp]: "heap_frame s (s\<lparr>blocks := b\<rparr>)"
  using heap_frameI[where s = s and m = "mem s" and f = "free_list_head s" and c = "free_page_count s"
      and h = "heap_head s" and b = b] by simp

lemma heap_frame_head [simp]: "heap_frame s (s\<lparr>heap_head := b\<rparr>)"
  using heap_frameI[where s = s and m = "mem s" and f = "free_list_head s" and c = "free_page_count s"
      and h = b and b = "blocks s"] by simp

lemma heap_frame_mem [simp]: "heap_frame s (s\<lparr>mem := b\<rparr>)"
  using heap_frameI[where s = s and m = b and f = "free_list_head s" and c = "free_page_count s"
      and h = "heap_head s" and b = "blocks s"] by simp

lemma heap_frame_palloc [simp]: "heap_frame s (snd (palloc_alloc s))"
  using heap_frameI[where s = s and m = "mem s" and f = "load64 s (free_list_head s)" and c = "free_page_count s - 1"
      and h = "heap_head s" and b = "blocks s"] by (simp add: palloc_alloc_def Let_def)

lemma only_blocks_frame: "only_blocks s t \<Longrightarrow> heap_frame s t"
  by (metis heap_frame_blocks)

lemma heap_frameD:
  assumes "heap_frame s t"
  shows "serial_out t = serial_out s" "cr3 t = cr3 s" "alloc_region_begin t = alloc_region_begin s"
    "alloc_region_end t = alloc_region_end s" "heap_state.more t = heap_state.more s"
  using assms by (auto simp: heap_frame_def)

lemma palloc_inv_blocks [simp]: "palloc_inv (s\<lparr>blocks := h\<rparr>) ps = palloc_inv s ps"
  by (simp add: palloc_inv_def)

lemma palloc_inv_only_blocks: "only_blocks s t \<Longrightarrow> palloc_inv t ps = palloc_inv s ps"
  by (drule arg_cong[where f = "\<lambda>t. palloc_inv t ps"]) simp

lemma heap_head_only_blocks: "only_blocks s t \<Longrightarrow> heap_head t = heap_head s"
  by (drule arg_cong[where f = heap_head]) simp

lemma only_blocks_trans:
  assumes "only_blocks s t" "only_blocks t u"
  shows "only_blocks s u"
proof -
  obtain g h where "t = s\<lparr>blocks := g\<rparr>" "u = t\<lparr>blocks := h\<rparr>" using assms by blast
  then show ?thesis by simp
qed

lemma only_blocks_update: "only_blocks (s\<lparr>blocks := h\<rparr>) t \<Longrightarrow> only_blocks s t"
  by (rule only_blocks_trans[where s = s and t = "s\<lparr>blocks := h\<rparr>"]) simp_all

lemma heap_invI:
  assumes "heap_inv s xs ps" "only_blocks s t" "heap_list (blocks t) (heap_head s) ys" "coalesced (blocks t) ys"
    "span (blocks t) ys = span (blocks s) xs"
  shows "heap_inv t ys ps"
  using assms palloc_inv_only_blocks[OF assms(2), of ps] heap_head_only_blocks[OF assms(2)] by (simp add: heap_inv_def)

lemma heap_list_set_free:
  "heap_list (h(x := (h x)\<lparr>blk_free := v\<rparr>)) head xs = heap_list h head xs"
proof -
  let ?h = "h(x := (h x)\<lparr>blk_free := v\<rparr>)"
  have "links ?h 0 head xs 0 = links h 0 head xs 0" by (rule links_cong) simp
  moreover have "sorted_wrt (before ?h) xs = sorted_wrt (before h) xs" by (rule sorted_before_cong) simp
  moreover have "block_ok ?h y = block_ok h y" for y by (simp add: block_ok_def block_hi_def)
  ultimately show ?thesis by (simp add: heap_list_def)
qed

lemma span_set_free: "span (h(x := (h x)\<lparr>blk_free := v\<rparr>)) xs = span h xs"
  by (rule span_cong) simp

lemma coalesced_set_free: "x \<notin> set xs \<Longrightarrow> coalesced (h(x := (h x)\<lparr>blk_free := v\<rparr>)) xs = coalesced h xs"
  by (rule coalesced_cong) auto

text \<open>The test on the previous block that \<open>kfree\<close> and \<open>insert_block_sorted\<close> share.\<close>

lemma back_test:
  assumes "heap_list (blocks s) head (us @ x # vs)"
  shows "(blk_prev (blocks s x) \<noteq> 0 \<and> blk_magic (blocks s (blk_prev (blocks s x))) = heap_magic
      \<and> blk_free (blocks s (blk_prev (blocks s x))) \<noteq> 0 \<and> blocks_touch s (blk_prev (blocks s x)) x)
    \<longleftrightarrow> (us \<noteq> [] \<and> blk_free (blocks s (last us)) \<noteq> 0 \<and> block_hi (blocks s) (last us) = unat x)"
proof (cases "us = []")
  case True
  with heap_list_split(2)[OF assms] show ?thesis by simp
next
  case False
  then have "block_ok (blocks s) (last us)" using assms by (simp add: heap_list_def)
  with False heap_list_split(2)[OF assms] show ?thesis by (auto simp: blocks_touch_iff block_ok_def[of _ "last us"])
qed

lemma alloc_block:
  assumes inv: "heap_list (blocks s) head xs" and a: "allocs (blocks s) xs p = Some n"
  shows "p - 32 \<in> set xs" "blk_free (blocks s (p - 32)) = 0" "n = unat (blk_size (blocks s (p - 32)))"
    "blk_magic (blocks s (p - 32)) = heap_magic" "p \<noteq> 0"
proof -
  show b: "p - 32 \<in> set xs" "blk_free (blocks s (p - 32)) = 0" "n = unat (blk_size (blocks s (p - 32)))"
    using a by (auto simp: allocs_def split: if_splits)
  then have ok: "block_ok (blocks s) (p - 32)" using inv by (simp add: heap_list_def)
  then show "blk_magic (blocks s (p - 32)) = heap_magic" by (simp add: block_ok_def)
  show "p \<noteq> 0"
  proof
    assume "p = 0"
    then have "unat (p - 32) = 18446744073709551584" by simp
    with ok show False by (simp add: block_ok_def block_hi_def)
  qed
qed

lemma kfree_spec:
  assumes inv: "heap_inv s xs ps" and a: "allocs (blocks s) xs p = Some n"
  shows "\<exists>t ys. kfree p s = Ret () t \<and> heap_inv t ys ps \<and> allocs (blocks t) ys = (allocs (blocks s) xs)(p := None)
     \<and> only_blocks s t \<and> span (blocks t) ys = span (blocks s) xs \<and> blk_free (blocks t (p - 32)) \<noteq> 0"
proof -
  define x where "x = p - 32"
  let ?h = "blocks s" and ?head = "heap_head s"
  from inv have l: "heap_list ?h ?head xs" and co: "coalesced ?h xs" by (simp_all add: heap_inv_def)
  note b = alloc_block[OF l a, folded x_def]
  from b(1) obtain us vs where xs: "xs = us @ x # vs" by (meson split_list)
  define h1 where "h1 = ?h(x := (?h x)\<lparr>blk_free := 1\<rparr>)"
  let ?s = "s\<lparr>blocks := h1\<rparr>"
  have d: "x \<notin> set us" "x \<notin> set vs" using heap_list_distinct[OF l] xs by auto
  have l1: "heap_list h1 ?head (us @ x # vs)" using l by (simp add: h1_def heap_list_set_free xs)
  have co1: "coalesced h1 us" "coalesced h1 vs"
    using co d by (simp_all add: h1_def coalesced_set_free xs coalesced_mid)
  have al1: "allocs h1 xs = (allocs ?h xs)(p := None)"
    using b(1) by (auto simp: allocs_def h1_def x_def fun_eq_iff)
  have sp1: "span h1 xs = span ?h xs" by (simp add: h1_def span_set_free)
  have f1: "blk_free (h1 x) = 1" by (simp add: h1_def)
  have tl: "coalesced h1 (tl vs)" using co1(2) by (cases vs) (auto simp: coalesced_def successively_Cons)
  obtain t ws where t: "coalesce_forward x ?s = Ret () t" "heap_list (blocks t) ?head (us @ x # ws)"
     "coalesced (blocks t) us" "coalesced (blocks t) (x # ws)" "merge_frame x ?s t"
     "allocs (blocks t) (us @ x # ws) = allocs h1 xs" "span (blocks t) (us @ x # ws) = span h1 xs"
    using coalesce_at[of ?s ?head us x vs] l1 co1 tl f1 by (auto simp: xs)
  have ft: "blk_free (blocks t x) \<noteq> 0" using t(5) f1 by (simp add: merge_frame_def)
  have fo: "only_blocks s t" using t(5) by (intro only_blocks_update[where s = s and h = h1]) (simp only: merge_frame_def)
  have kf: "kfree p s = (if us \<noteq> [] \<and> blk_free (blocks t (last us)) \<noteq> 0 \<and> block_hi (blocks t) (last us) = unat x
      then coalesce_forward (last us) t else Ret () t)"
    using b(2,4,5) t(1) back_test[OF t(2)] heap_list_split(2)[OF t(2)]
    by (simp add: kfree_def sizeof_block_def put_block_def h1_def flip: x_def)
  show ?thesis
  proof (cases "us \<noteq> [] \<and> blk_free (blocks t (last us)) \<noteq> 0 \<and> block_hi (blocks t) (last us) = unat x")
    case False
    then have "coalesced (blocks t) (us @ x # ws)" using t(3,4) coalesced_mid[of _ "[]" x ws]
      by (auto simp: coalesced_mid mergeable_def)
    with kf False t ft fo al1 sp1 heap_invI[OF inv fo t(2)] show ?thesis 
      by (intro exI[of _ t] exI[of _ "us @ x # ws"]) (auto simp: x_def)
  next
    case True
    then obtain us' q where us: "us = us' @ [q]" by (cases us rule: rev_cases) auto
    have w: "coalesced (blocks t) ws" using t(4) by (cases ws) (auto simp: coalesced_def successively_Cons)
    from True us t(2,3) ft w merge_back[of t ?head us' q x ws] obtain u ys where u:
      "coalesce_forward q t = Ret () u" "heap_list (blocks u) ?head ys" "coalesced (blocks u) ys"
      "merge_frame q t u" "allocs (blocks u) ys = allocs (blocks t) (us @ x # ws)"
      "span (blocks u) ys = span (blocks t) (us @ x # ws)" by auto
    have fu: "only_blocks s u" "blk_free (blocks u x) \<noteq> 0"
      using only_blocks_trans[OF fo, where u = u] u(4) ft unfolding merge_frame_def by (blast, simp)
    have "kfree p s = Ret () u" using kf True u(1) us by simp
    with u t fu al1 sp1 heap_invI[OF inv fu(1) u(2,3)] show ?thesis
      by (intro exI[of _ u] exI[of _ ys]) (simp add: x_def)
  qed
qed

section \<open>Finding a block\<close>

definition fits :: "(addr \<Rightarrow> heap_block) \<Rightarrow> u64 \<Rightarrow> addr \<Rightarrow> bool" where
  "fits h sz x \<longleftrightarrow> blk_free (h x) \<noteq> 0 \<and> sz \<le> blk_size (h x)"

definition first_fit :: "(addr \<Rightarrow> heap_block) \<Rightarrow> u64 \<Rightarrow> addr list \<Rightarrow> addr" where
  "first_fit h sz xs = (case List.find (fits h sz) xs of None \<Rightarrow> 0 | Some x \<Rightarrow> x)"

lemma find_block_links:
  "links (blocks s) pr b xs 0 \<Longrightarrow> \<forall>x \<in> set xs. block_ok (blocks s) x \<Longrightarrow>
   c_while (\<lambda>block s. block \<noteq> 0 \<and> (blk_magic (block_at s block) = heap_magic \<longrightarrow>
               \<not> (blk_free (block_at s block) \<noteq> 0 \<and> sz \<le> blk_size (block_at s block))))
         (\<lambda>block s. if blk_magic (block_at s block) \<noteq> heap_magic then heap_fail ''heap corrupt'' s
                     else Ret (blk_next (block_at s block)) s) b s = Ret (first_fit (blocks s) sz xs) s"
proof (induction xs arbitrary: pr b)
  case Nil
  then show ?case by (simp add: c_while_done first_fit_def)
next
  case (Cons x xs)
  then have x: "b = x" "x \<noteq> 0" "blk_magic (blocks s x) = heap_magic" by (auto simp: block_ok_def)
  show ?case
  proof (cases "fits (blocks s) sz x")
    case True
    with x show ?thesis by (simp add: c_while_done first_fit_def fits_def)
  next
    case False
    with Cons x show ?thesis by (subst c_while_step) (auto simp: first_fit_def fits_def)
  qed
qed

lemma find_block_spec:
  "heap_list (blocks s) (heap_head s) xs \<Longrightarrow> find_block sz s = Ret (first_fit (blocks s) sz xs) s"
  unfolding find_block_def by (subst find_block_links) (auto simp: heap_list_def)

lemma first_fit_cases:
  assumes "\<forall>x \<in> set xs. block_ok h x"
  shows "if first_fit h sz xs = 0 then \<forall>x \<in> set xs. \<not> fits h sz x
    else first_fit h sz xs \<in> set xs \<and> fits h sz (first_fit h sz xs)"
  using assms by (auto simp: first_fit_def find_None_iff find_Some_iff block_ok_def split: option.splits)

section \<open>Carving a block\<close>

lemma heap_list_update:
  assumes "heap_list h head (us @ x # vs)"
    and "\<And>z. z \<in> set us \<Longrightarrow> blk_next (h' z) = blk_next (h z) \<and> blk_prev (h' z) = blk_prev (h z)
        \<and> blk_size (h' z) = blk_size (h z) \<and> blk_magic (h' z) = blk_magic (h z)"
  shows "links h' 0 head us x" "sorted_wrt (before h') us" "\<forall>z \<in> set us. block_ok h' z"
    "\<forall>u \<in> set us. \<forall>v \<in> set (x # vs). before h' u v"
proof -
  have "links h 0 head us x" using heap_list_split(1)[OF assms(1)] .
  then show "links h' 0 head us x" using assms(2) by (subst links_cong[where h = h]) auto
  have s: "sorted_wrt (before h) (us @ x # vs)" using assms(1) by (simp add: heap_list_def)
  have "sorted_wrt (before h') us = sorted_wrt (before h) us" using assms(2) by (intro sorted_before_cong) simp
  with s show "sorted_wrt (before h') us" by (simp add: sorted_wrt_append)
  show "\<forall>z \<in> set us. block_ok h' z" using assms by (auto simp: heap_list_def block_ok_def block_hi_def)
  show "\<forall>u \<in> set us. \<forall>v \<in> set (x # vs). before h' u v"
    using s assms(2) by (auto simp: sorted_wrt_append before_def block_hi_def)
qed

text \<open>The right part of a list, after its first element got a new predecessor \<open>n\<close>.\<close>

lemma heap_list_right:
  assumes "heap_list h head (us @ x # vs)"
    and "\<And>z. z \<in> set vs \<Longrightarrow> blk_next (h' z) = blk_next (h z) \<and> blk_size (h' z) = blk_size (h z)
      \<and> blk_magic (h' z) = blk_magic (h z)"
    and "\<And>z. z \<in> set (tl vs) \<Longrightarrow> blk_prev (h' z) = blk_prev (h z)"
    and "vs \<noteq> [] \<Longrightarrow> blk_prev (h' (hd vs)) = n"
  shows "links h' n (blk_next (h x)) vs 0" "sorted_wrt (before h') vs" "\<forall>z \<in> set vs. block_ok h' z"
proof -
  have l: "links h x (blk_next (h x)) vs 0" using heap_list_split(3)[OF assms(1)] .
  show "links h' n (blk_next (h x)) vs 0"
  proof (cases vs)
    case (Cons v ws)
    have "links h' v (blk_next (h v)) ws 0" using l Cons assms(2,3)
      by (subst links_cong[where h = h]) auto
    with Cons l assms(2)[of v] assms(4) show ?thesis by simp
  qed (use l in simp)
  have s: "sorted_wrt (before h) vs" using assms(1) by (simp add: heap_list_def sorted_wrt_append)
  then show "sorted_wrt (before h') vs" using assms(2) by (subst sorted_before_cong[where h = h]) auto
  show "\<forall>z \<in> set vs. block_ok h' z" using assms(1,2) by (auto simp: heap_list_def block_ok_def block_hi_def)
qed

lemma split_limit:
  assumes "block_ok h x" "sz \<le> blk_size (h x)" "16 dvd unat sz"
  shows "blk_size (h x) \<le> sz + sizeof_block + heap_align \<longleftrightarrow> unat (blk_size (h x)) \<le> unat sz + 48"
proof -
  have x: "16 \<le> unat x"
    using assms(1) dvd_imp_le[of 16 "unat x"] unat_eq_zero[of x] by (auto simp: block_ok_def)
  have le: "unat sz \<le> unat (blk_size (h x))" using assms(2) by (simp add: word_le_nat_alt)
  have "unat x + 32 + unat (blk_size (h x)) < 18446744073709551616"
    using assms(1) by (simp add: block_ok_def block_hi_def)
  with x le have "unat sz + 48 < 18446744073709551616" by linarith
  then have "unat (sz + sizeof_block + heap_align) = unat sz + 48"
    by (simp add: sizeof_block_def heap_align_def unat_word_ariths)
  then show ?thesis by (simp add: word_le_nat_alt)
qed

lemma split_block_spec:
  assumes inv: "heap_list (blocks s) head (us @ x # vs)"
    and sz: "sz \<le> blk_size (blocks s x)" "16 dvd unat sz" "unat sz + 48 < unat (blk_size (blocks s x))"
  defines "n \<equiv> x + 32 + sz" and "t \<equiv> split_block x sz s"
  shows "heap_list (blocks t) head (us @ x # n # vs)" and "blk_size (blocks t x) = sz"
    and "blk_free (blocks t n) = 1" and "block_hi (blocks t) n = block_hi (blocks s) x"
    and "block_hi (blocks t) x = unat n" and "only_blocks s t"
    and "z \<noteq> n \<Longrightarrow> blk_free (blocks t z) = blk_free (blocks s z)"
    and "z \<noteq> n \<Longrightarrow> z \<noteq> x \<Longrightarrow> blk_size (blocks t z) = blk_size (blocks s z)"
    and "n \<notin> set (us @ x # vs)"
proof -
  let ?h = "blocks s" and ?h' = "blocks t"
  have okx: "block_ok ?h x" and sorted: "sorted_wrt (before ?h) (us @ x # vs)" using inv by (auto simp: heap_list_def)
  have hi: "unat x + 32 + unat (blk_size (?h x)) < 18446744073709551616" using okx by (simp add: block_ok_def block_hi_def)
  have un: "unat n = unat x + 32 + unat sz" using hi sz(3) by (simp add: n_def unat_word_ariths)
  have beyond: "block_hi ?h x \<le> unat v" if "v \<in> set vs" for v
    using sorted that by (auto simp: sorted_wrt_append before_def)
  have behind: "unat u < unat x" if "u \<in> set us" for u
    using sorted that by (auto simp: sorted_wrt_append dest: before_less)
  have n: "n \<noteq> x" "n \<notin> set us" "n \<notin> set vs" "n \<noteq> 0"
    using un sz(3) beyond behind by (force simp: block_hi_def)+
  then show "n \<notin> set (us @ x # vs)" by simp
  let ?v = "blk_next (?h x)"
  have sp: "?v = (case vs of [] \<Rightarrow> 0 | v # _ \<Rightarrow> v)" "x \<notin> set us" "x \<notin> set vs" "set us \<inter> set vs = {}"
    using heap_list_split[OF inv] by auto
  have v: "?v = 0 \<or> ?v \<in> set vs" using sp(1) by (cases vs) auto
  with n sp have vx: "?v \<noteq> n" "?v \<noteq> x" using okx by (auto simp: block_ok_def)
  have "\<not> blk_size (?h x) \<le> sz + sizeof_block + heap_align" using split_limit[OF okx sz(1,2)] sz(3) by simp
  then have h': "?h' = (let g = ?h(n := \<lparr>blk_magic = heap_magic, blk_free = 1, blk_size = blk_size (?h x) - sz - 32,
                    blk_next = ?v, blk_prev = x\<rparr>, x := ?h x\<lparr>blk_size := sz, blk_next := n\<rparr>)
             in if ?v \<noteq> 0 then g(?v := ?h ?v\<lparr>blk_prev := n\<rparr>) else g)"
    and o: "only_blocks s t"
    using n(1) vx by (auto simp: t_def split_block_def n_def sizeof_block_def put_block_def Let_def fun_upd_twist)
  show "only_blocks s t" by (rule o)
  show fx: "blk_size (?h' x) = sz" and fn: "blk_free (?h' n) = 1"
    using n vx by (auto simp: h' Let_def)
  show fr: "z \<noteq> n \<Longrightarrow> blk_free (?h' z) = blk_free (?h z)" for z using vx by (auto simp: h' Let_def)
  show fs: "z \<noteq> n \<Longrightarrow> z \<noteq> x \<Longrightarrow> blk_size (?h' z) = blk_size (?h z)" for z by (auto simp: h' Let_def)
  have "unat (blk_size (?h x) - sz - 32) = unat (blk_size (?h x)) - unat sz - 32"
    using sz(3) by (simp add: unat_sub word_le_nat_alt)
  then have sn: "unat (blk_size (?h' n)) = unat (blk_size (?h x)) - unat sz - 32" using n vx by (simp add: h' Let_def)
  then show hn: "block_hi ?h' n = block_hi ?h x" using un sz(3) by (simp add: block_hi_def)
  show hx: "block_hi ?h' x = unat n" using un fx by (simp add: block_hi_def)
  have d16: "16 dvd unat x" "16 dvd unat (blk_size (?h x))" using okx by (auto simp: block_ok_def)
  have "blk_magic (?h' n) = heap_magic" "blk_magic (?h' x) = heap_magic"
    using n vx okx by (auto simp: h' Let_def block_ok_def)
  then have "block_ok ?h' n" "block_ok ?h' x"
    using okx n(4) un sn hn hx fx d16 sz(2) hi by (auto simp: block_ok_def block_hi_def)
  have vu: "?v \<notin> set us" using v sp(4) inv by (auto simp: heap_list_def block_ok_def)
  have L: "blk_next (?h' z) = blk_next (?h z) \<and> blk_prev (?h' z) = blk_prev (?h z)
        \<and> blk_size (?h' z) = blk_size (?h z) \<and> blk_magic (?h' z) = blk_magic (?h z)" if "z \<in> set us" for z
    using that n(2) sp(2) vu by (auto simp: h' Let_def)
  have R: "blk_next (?h' z) = blk_next (?h z) \<and> blk_size (?h' z) = blk_size (?h z)
      \<and> blk_magic (?h' z) = blk_magic (?h z)" if "z \<in> set vs" for z
    using that n(3) sp(3) by (auto simp: h' Let_def)
  have R2: "blk_prev (?h' z) = blk_prev (?h z)" if "z \<in> set (tl vs)" for z
    using that n(3) sp(1,3) heap_list_distinct[OF inv] by (cases vs) (auto simp: h' Let_def)
  have R3: "vs \<noteq> [] \<Longrightarrow> blk_prev (?h' (hd vs)) = n"
    using sp(1) inv by (cases vs) (auto simp: h' Let_def heap_list_def block_ok_def)
  note left = heap_list_update[OF inv, where h' = ?h', OF L] and right = heap_list_right[OF inv, where h' = ?h', OF R R2 R3]
  have px: "blk_prev (?h' x) = blk_prev (?h x)" "blk_next (?h' x) = n" "blk_prev (?h' n) = x" "blk_next (?h' n) = ?v"
    using n vx by (auto simp: h' Let_def)
  have "links ?h' 0 head (us @ x # n # vs) 0"
    unfolding links_append links.simps px heap_list_split(2)[OF inv] using left(1) right(1) by blast
  moreover have nv: "unat n \<le> unat v" if "v \<in> set vs" for v
    using beyond[OF that] un sz(3) by (simp add: block_hi_def)
  have "sorted_wrt (before ?h') (us @ x # n # vs)"
    using left(2,4) right(2) beyond nv un hx hn by (auto simp: sorted_wrt_append before_def)
  ultimately show "heap_list ?h' head (us @ x # n # vs)"
    using left(3) right(3) \<open>block_ok ?h' n\<close> \<open>block_ok ?h' x\<close> by (auto simp: heap_list_def)
qed


text \<open>Splitting and marking in use, the last steps of \<open>kmalloc\<close>.\<close>

definition carve :: "addr \<Rightarrow> u64 \<Rightarrow> 'a heap_state_scheme \<Rightarrow> 'a heap_state_scheme" where
  "carve block sz s =
     (let s = split_block block sz s in put_block block ((block_at s block)\<lparr>blk_free := 0\<rparr>) s)"

lemma carve_spec:
  assumes inv: "heap_list (blocks s) head xs" and co: "coalesced (blocks s) xs"
    and x: "x \<in> set xs" "fits (blocks s) sz x" and sz: "16 dvd unat sz"
  shows "\<exists>ys n. heap_list (blocks (carve x sz s)) head ys \<and> coalesced (blocks (carve x sz s)) ys
     \<and> only_blocks s (carve x sz s) \<and> span (blocks (carve x sz s)) ys = span (blocks s) xs
     \<and> allocs (blocks (carve x sz s)) ys = (allocs (blocks s) xs)(x + 32 \<mapsto> n)
     \<and> allocs (blocks s) xs (x + 32) = None \<and> unat sz \<le> n \<and> n \<le> unat sz + 48"
proof -
  let ?h = "blocks s"
  from x(1) obtain us vs where xs: "xs = us @ x # vs" by (meson split_list)
  note inv' = inv[unfolded xs]
  have d: "x \<notin> set us" "x \<notin> set vs" using heap_list_distinct[OF inv'] by auto
  have fx: "blk_free (?h x) \<noteq> 0" "sz \<le> blk_size (?h x)" using x(2) by (auto simp: fits_def)
  have okx: "block_ok ?h x" using inv x(1) by (simp add: heap_list_def)
  have none: "allocs ?h xs (x + 32) = None" using fx by (simp add: allocs_def)
  note cm = co[unfolded xs coalesced_mid]
  show ?thesis
  proof (cases "unat (blk_size (?h x)) \<le> unat sz + 48")
    case True
    then have c: "blocks (carve x sz s) = ?h(x := (?h x)\<lparr>blk_free := 0\<rparr>)" "only_blocks s (carve x sz s)"
      using split_limit[OF okx fx(2) sz] by (auto simp: carve_def split_block_def put_block_def)
    have "coalesced (blocks (carve x sz s)) xs"
      using cm d unfolding c(1) xs coalesced_mid by (auto simp: coalesced_set_free mergeable_def)
    moreover have "allocs (blocks (carve x sz s)) xs = (allocs ?h xs)(x + 32 \<mapsto> unat (blk_size (?h x)))"
      using x(1) by (auto simp: allocs_def fun_eq_iff c(1))
    ultimately show ?thesis using c inv none fx(2) True
      by (intro exI[of _ xs] exI[of _ "unat (blk_size (?h x))"])
        (simp add: heap_list_set_free span_set_free word_le_nat_alt)
  next
    case False
    define n where "n = x + 32 + sz"
    define t where "t = split_block x sz s"
    note sp = split_block_spec[OF inv' fx(2) sz, folded n_def t_def]
    have big: "unat sz + 48 < unat (blk_size (?h x))" using False by simp
    note sp = sp[OF big]
    let ?ys = "us @ x # n # vs" and ?g = "(blocks t)(x := (blocks t x)\<lparr>blk_free := 0\<rparr>)"
    have c: "blocks (carve x sz s) = ?g" "only_blocks t (carve x sz s)"
      by (auto simp: carve_def put_block_def t_def Let_def)
    have nx: "n \<noteq> x" "n \<notin> set us" "n \<notin> set vs" using sp(9) by auto
    have same: "blk_free (?g z) = blk_free (?h z)" "blk_size (?g z) = blk_size (?h z)" if "z \<noteq> x" "z \<noteq> n" for z
      using that sp(7,8) by auto
    have "coalesced ?g us" "coalesced ?g vs"
      using cm d nx same coalesced_cong[of us ?g ?h] coalesced_cong[of vs ?g ?h] by metis+
    moreover have "\<not> mergeable ?g n (hd vs)" if "vs \<noteq> []"
    proof -
      have "hd vs \<noteq> x" "hd vs \<noteq> n" using that d nx hd_in_set by metis+
      then show ?thesis using cm that same[of "hd vs"] sp(4) fx(1) nx(1) by (auto simp: mergeable_def block_hi_def)
    qed
    ultimately have co': "coalesced ?g ?ys"
      using coalesced_mid[of ?g "[]" n vs] by (simp add: coalesced_mid mergeable_def) (simp add: coalesced_def)
    have "span (blocks t) ?ys = span ?h xs"
    proof -
      have "span (blocks t) us = span ?h us" "span (blocks t) vs = span ?h vs"
        using sp(8) d nx by (metis span_cong)+
      moreover have "{unat x ..< block_hi (blocks t) x} \<union> {unat n ..< block_hi (blocks t) n} = {unat x ..< block_hi ?h x}"
        using sp(4,5) sp(2) big by (auto simp: block_hi_def)
      ultimately show ?thesis unfolding span_def xs by auto
    qed
    moreover have "allocs ?g ?ys = (allocs ?h xs)(x + 32 \<mapsto> unat sz)"
    proof
      fix p show "allocs ?g ?ys p = ((allocs ?h xs)(x + 32 \<mapsto> unat sz)) p"
        using sp(2,3) nx same[of "p - 32"] by (auto simp: allocs_def xs)
    qed
    moreover have "only_blocks s (carve x sz s)" using only_blocks_trans[OF sp(6) c(2)] .
    ultimately show ?thesis using sp(1) co' none
      by (intro exI[of _ ?ys] exI[of _ "unat sz"]) (simp add: c(1) heap_list_set_free span_set_free)
  qed
qed

section \<open>Adding a page\<close>

lemma links_set_last:
  "links h pr b us m \<Longrightarrow> us \<noteq> [] \<Longrightarrow> distinct us \<Longrightarrow>
   links (h(last us := (h (last us))\<lparr>blk_next := p\<rparr>)) pr b us p"
  by (induction us arbitrary: pr b) auto

text \<open>Where the insertion loop stops.\<close>

definition last_or_null :: "addr list \<Rightarrow> addr" where
  "last_or_null us = (if us = [] then 0 else last us)"

definition hd_or_null :: "addr list \<Rightarrow> addr" where
  "hd_or_null vs = (case vs of [] \<Rightarrow> 0 | v # _ \<Rightarrow> v)"

lemma insert_loop:
  assumes "links h pr b vs 0" "\<forall>v \<in> set vs. v \<noteq> 0" "sorted_wrt (\<lambda>x y. unat x < unat y) vs" "h = blocks s"
  shows "c_while (\<lambda>(previous, current) s. current \<noteq> 0 \<and> current < block)
      (\<lambda>(previous, current) s. Ret (current, blk_next (block_at s current)) s) (pr, b) s =
    Ret (if takeWhile (\<lambda>v. v < block) vs = [] then pr else last (takeWhile (\<lambda>v. v < block) vs),
         hd_or_null (dropWhile (\<lambda>v. v < block) vs)) s"
  using assms
proof (induction vs arbitrary: pr b)
  case Nil
  then show ?case by (simp add: c_while_done hd_or_null_def)
next
  case (Cons v vs)
  then have b: "b = v" "v \<noteq> 0" by auto
  show ?case
  proof (cases "v < block")
    case False
    with b show ?thesis by (simp add: c_while_done hd_or_null_def)
  next
    case True
    with b Cons show ?thesis by (subst c_while_step) auto
  qed
qed

lemma link_block_eq:
  assumes "q \<noteq> p" "c \<noteq> p" "q \<noteq> c \<or> c = 0"
  shows "link_block q p c s = s\<lparr>blocks :=
      (let k = (blocks s)(p := (blocks s p)\<lparr>blk_prev := q, blk_next := c\<rparr>);
           g = (if q = 0 then k else k(q := (blocks s q)\<lparr>blk_next := p\<rparr>))
       in if c = 0 then g else g(c := (blocks s c)\<lparr>blk_prev := p\<rparr>)),
     heap_head := (if q = 0 then p else heap_head s)\<rparr>"
proof (cases "q = 0"; cases "c = 0")
qed (use assms in \<open>simp_all add: link_block_def put_block_def Let_def\<close>)

lemma link_block_fields:
  assumes "q \<noteq> p" "c \<noteq> p" "q \<noteq> c \<or> c = 0"
  shows "blk_free (blocks (link_block q p c s) z) = blk_free (blocks s z)"
    "blk_size (blocks (link_block q p c s) z) = blk_size (blocks s z)"
    "blk_magic (blocks (link_block q p c s) z) = blk_magic (blocks s z)"
  unfolding link_block_eq[OF assms] by (simp_all add: Let_def)

lemma link_block_spec:
  assumes us: "links (blocks s) 0 (heap_head s) us (hd_or_null vs)"
    and vs: "links (blocks s) (last_or_null us) (hd_or_null vs) vs 0"
    and d: "distinct (us @ p # vs)" "0 \<notin> set (us @ p # vs)"
  defines "t \<equiv> link_block (last_or_null us) p (hd_or_null vs) s"
  shows "links (blocks t) 0 (heap_head t) (us @ p # vs) 0"
    and "blk_free (blocks t z) = blk_free (blocks s z)" "blk_size (blocks t z) = blk_size (blocks s z)"
    and "blk_magic (blocks t z) = blk_magic (blocks s z)"
    and "t = s\<lparr>blocks := blocks t, heap_head := heap_head t\<rparr>"
proof -
  let ?h = "blocks s" and ?q = "last_or_null us" and ?c = "hd_or_null vs"
  have q1: "us \<noteq> [] \<Longrightarrow> ?q = last us" "us \<noteq> [] \<Longrightarrow> ?q \<in> set us" "us = [] \<Longrightarrow> ?q = 0"
    by (simp_all add: last_or_null_def)
  have q2: "vs \<noteq> [] \<Longrightarrow> ?c \<in> set vs" "vs = [] \<Longrightarrow> ?c = 0"
    by (cases vs; simp add: hd_or_null_def)+
  have q: "?q \<noteq> p" "?q \<noteq> ?c \<or> ?c = 0" "?q = 0 \<longleftrightarrow> us = []" "?c \<noteq> p" "?c = 0 \<longleftrightarrow> vs = []"
    using d q1(2,3) q2 by (cases "us = []"; cases "vs = []"; auto)+
  note q = q q1(1,2) q2(1)
  define k where "k = ?h(p := (?h p)\<lparr>blk_prev := ?q, blk_next := ?c\<rparr>)"
  define g where "g = (if us = [] then k else k(?q := (?h ?q)\<lparr>blk_next := p\<rparr>))"
  define f where "f = (if vs = [] then g else g(?c := (?h ?c)\<lparr>blk_prev := p\<rparr>))"
  have "t = s\<lparr>blocks := f, heap_head := (if us = [] then p else heap_head s)\<rparr>"
    using link_block_eq[OF q(1,4,2), of s] unfolding t_def f_def g_def k_def q(3,5) Let_def .
  then have T: "t = s\<lparr>blocks := f, heap_head := (if us = [] then p else heap_head s)\<rparr>" .
  have t: "blocks t = f" "heap_head t = (if us = [] then p else heap_head s)" unfolding T by simp_all
  show "t = s\<lparr>blocks := blocks t, heap_head := heap_head t\<rparr>" unfolding t using T .
  show "blk_free (blocks t z) = blk_free (?h z)" "blk_size (blocks t z) = blk_size (?h z)"
    "blk_magic (blocks t z) = blk_magic (?h z)"
    unfolding t_def by (rule link_block_fields[OF q(1,4,2)])+
  have "links (blocks t) 0 (heap_head t) us p"
  proof (cases "us = []")
    case False
    then have "links (?h(?q := (?h ?q)\<lparr>blk_next := p\<rparr>)) 0 (heap_head s) us p"
      using links_set_last[OF us, of p] d q(6) by simp
    moreover have "links (blocks t) 0 (heap_head s) us p = links (?h(?q := (?h ?q)\<lparr>blk_next := p\<rparr>)) 0 (heap_head s) us p"
      using d q(8) False by (intro links_cong) (auto simp: t(1) f_def g_def k_def)
    ultimately show ?thesis using False t(2) by simp
  qed (simp add: t(2))
  moreover have "blk_prev (blocks t p) = ?q" "blk_next (blocks t p) = ?c" using q(1-5) by (auto simp: t(1) f_def g_def k_def)
  moreover have "links (blocks t) p ?c vs 0"
  proof (cases vs)
    case (Cons v ws)
    have c: "?c = v" by (simp add: hd_or_null_def Cons)
    have nq: "?q \<noteq> v" "?q \<notin> set ws" using d q1(2,3) Cons by (cases "us = []"; auto)+
    have np: "p \<noteq> v" "p \<notin> set ws" "v \<notin> set ws" using d Cons by auto
    have h': "blocks t z = (if z = v then (?h v)\<lparr>blk_prev := p\<rparr> else ?h z)" if "z \<in> set vs" for z
    proof -
      have z: "z \<noteq> p" "z \<noteq> ?q" using that nq np Cons by auto
      have "g z = ?h z" unfolding g_def k_def using z by simp
      moreover have "f z = (if z = v then (?h v)\<lparr>blk_prev := p\<rparr> else g z)" unfolding f_def c using Cons by simp
      ultimately show ?thesis unfolding t(1) by simp
    qed
    then have "links (blocks t) v (blk_next (blocks t v)) ws 0 = links ?h v (blk_next (blocks t v)) ws 0"
      using np Cons by (intro links_cong) auto
    moreover have "blk_next (blocks t v) = blk_next (?h v)" "blk_prev (blocks t v) = p"
      using h'[of v] Cons by simp_all
    ultimately show ?thesis using vs Cons by (simp add: hd_or_null_def)
  qed (simp add: hd_or_null_def)
  ultimately show "links (blocks t) 0 (heap_head t) (us @ p # vs) 0"
    unfolding links_append links.simps by (auto simp: last_or_null_def)
qed


lemma heap_list_page:
  assumes inv: "heap_list (blocks s) (heap_head s) xs" and co: "coalesced (blocks s) xs"
    and p: "p \<noteq> 0" "page_aligned p" "unat p + 4096 < 18446744073709551616"
    and apart: "{unat p ..< unat p + 4096} \<inter> span (blocks s) xs = {}"
    and hdr: "blocks s p = \<lparr>blk_magic = heap_magic, blk_free = 1, blk_size = 4064, blk_next = n, blk_prev = q\<rparr>"
  defines "us \<equiv> takeWhile (\<lambda>v. v < p) xs" and "vs \<equiv> dropWhile (\<lambda>v. v < p) xs"
  defines "t \<equiv> link_block (last_or_null us) p (hd_or_null vs) s"
  shows "heap_list (blocks t) (heap_head t) (us @ p # vs)"
    and "coalesced (blocks t) us" "coalesced (blocks t) vs"
    and "span (blocks t) (us @ p # vs) = span (blocks s) xs \<union> {unat p ..< unat p + 4096}"
    and "allocs (blocks t) (us @ p # vs) = allocs (blocks s) xs"
    and "blk_free (blocks t p) = 1" "t = s\<lparr>blocks := blocks t, heap_head := heap_head t\<rparr>"
    and "block_hi (blocks t) p = unat p + 4096"
proof -
  let ?h = "blocks s" and ?h' = "blocks t"
  have xs: "xs = us @ vs" by (simp add: us_def vs_def)
  have l: "links ?h 0 (heap_head s) xs 0" and ok: "\<forall>x \<in> set xs. block_ok ?h x" and so: "sorted_wrt (before ?h) xs"
    using inv by (auto simp: heap_list_def)
  obtain m where m: "links ?h 0 (heap_head s) us m" "links ?h (last_or_null us) m vs 0"
    using l by (auto simp: xs links_append last_or_null_def)
  then have mh: "m = hd_or_null vs" by (cases vs) (auto simp: hd_or_null_def)
  have "0 < 32 + unat (blk_size (?h x))" for x by simp
  then have notin: "p \<notin> set xs" using apart by (force simp: span_def block_hi_def)
  have d: "distinct (us @ p # vs)" "0 \<notin> set (us @ p # vs)"
    using heap_list_distinct[OF inv] notin ok p(1) by (auto simp: xs block_ok_def)
  note lb = link_block_spec[OF m(1)[unfolded mh] m(2)[unfolded mh] d, folded t_def]
  show "blk_free (?h' p) = 1" "t = s\<lparr>blocks := ?h', heap_head := heap_head t\<rparr>" using lb(2,5) hdr by auto
  have hi: "block_hi ?h' z = block_hi ?h z" for z using lb(3) by (simp add: block_hi_def)
  have hip: "block_hi ?h p = unat p + 4096" using hdr by (simp add: block_hi_def)
  then show "block_hi ?h' p = unat p + 4096" using hi by simp
  have gap: "block_hi ?h x \<le> unat p \<or> unat p + 4096 \<le> unat x" if "x \<in> set xs" for x
  proof (rule ccontr)
    assume "\<not> ?thesis"
    then have "max (unat x) (unat p) \<in> {unat p ..< unat p + 4096} \<inter> {unat x ..< block_hi ?h x}"
      by (auto simp: block_hi_def)
    then show False using apart that unfolding span_def by blast
  qed
  have left: "block_hi ?h u \<le> unat p" if "u \<in> set us" for u
    using gap[of u] that set_takeWhileD[of u "\<lambda>v. v < p" xs] by (auto simp: us_def word_less_nat_alt)
  have sx: "sorted_wrt (\<lambda>x y. unat x < unat y) xs" using so by (rule sorted_wrt_mono_rel[rotated]) (rule before_less)
  have right: "unat p + 4096 \<le> unat v" if "v \<in> set vs" for v
  proof -
    have "unat p \<le> unat v"
    proof (cases vs)
      case (Cons w ws)
      then have "\<not> w < p" using hd_dropWhile[of "\<lambda>v. v < p" xs] by (simp add: vs_def)
      moreover have "unat w \<le> unat v" using sx that by (auto simp: xs Cons sorted_wrt_append)
      ultimately show ?thesis by (simp add: word_less_nat_alt)
    qed (use that in simp)
    with gap[of v] that show ?thesis by (auto simp: xs block_hi_def)
  qed
  have "16 dvd unat p" using p(2) dvd_trans[of 16 4096 "unat p"] by (simp add: page_aligned_def)
  then have "block_ok ?h' p" using p hip hdr lb(3,4) hi by (simp add: block_ok_def)
  moreover have "block_ok ?h' x" if "x \<in> set xs" for x using ok that lb(3,4) hi by (simp add: block_ok_def)
  moreover have "sorted_wrt (before ?h') (us @ p # vs)"
  proof -
    have "sorted_wrt (before ?h') xs" using so lb(3) sorted_before_cong[of xs ?h' ?h] by simp
    then show ?thesis using left right hi hip by (auto simp: xs sorted_wrt_append before_def)
  qed
  ultimately show "heap_list ?h' (heap_head t) (us @ p # vs)" using lb(1) by (auto simp: heap_list_def xs)
  have "coalesced ?h us" "coalesced ?h vs"
    using co by (simp_all add: xs coalesced_def successively_append_iff)
  then show "coalesced ?h' us" "coalesced ?h' vs" using lb(2,3) coalesced_cong[of us ?h' ?h] coalesced_cong[of vs ?h' ?h] by auto
  show "span ?h' (us @ p # vs) = span ?h xs \<union> {unat p ..< unat p + 4096}"
    using hi hip by (auto simp: span_def xs)
  show "allocs ?h' (us @ p # vs) = allocs ?h xs"
    using lb(2,3) hdr by (auto simp: allocs_def fun_eq_iff xs)
qed

lemma insert_block_sorted_spec:
  assumes inv: "heap_list (blocks s) (heap_head s) xs" and co: "coalesced (blocks s) xs"
    and p: "p \<noteq> 0" "page_aligned p" "unat p + 4096 < 18446744073709551616"
    and apart: "{unat p ..< unat p + 4096} \<inter> span (blocks s) xs = {}"
    and hdr: "blocks s p = \<lparr>blk_magic = heap_magic, blk_free = 1, blk_size = 4064, blk_next = n, blk_prev = q\<rparr>"
  shows "\<exists>x t ys. insert_block_sorted p s = Ret x t \<and> heap_list (blocks t) (heap_head t) ys \<and> coalesced (blocks t) ys
     \<and> t = s\<lparr>blocks := blocks t, heap_head := heap_head t\<rparr>
     \<and> span (blocks t) ys = span (blocks s) xs \<union> {unat p ..< unat p + 4096}
     \<and> allocs (blocks t) ys = allocs (blocks s) xs \<and> x \<in> set ys \<and> fits (blocks t) 4064 x"
proof -
  define us where "us = takeWhile (\<lambda>v. v < p) xs"
  define vs where "vs = dropWhile (\<lambda>v. v < p) xs"
  define r where "r = link_block (last_or_null us) p (hd_or_null vs) s"
  note hp = heap_list_page[OF inv co p apart hdr, folded us_def vs_def, folded r_def]
  have "sorted_wrt (before (blocks s)) xs" using inv by (simp add: heap_list_def)
  then have sx: "sorted_wrt (\<lambda>x y. unat x < unat y) xs" by (rule sorted_wrt_mono_rel[rotated]) (rule before_less)
  have nz: "\<forall>v \<in> set xs. v \<noteq> 0" using inv by (auto simp: heap_list_def block_ok_def)
  have "links (blocks s) 0 (heap_head s) xs 0" using inv by (simp add: heap_list_def)
  note loop = insert_loop[OF this nz sx refl, of p, folded us_def vs_def, folded last_or_null_def]
  have isb: "insert_block_sorted p s = (if us \<noteq> [] \<and> blk_free (blocks r (last us)) \<noteq> 0 \<and> block_hi (blocks r) (last us) = unat p
      then chain (coalesce_forward (last us) r) (\<lambda>_ s. Ret (last us) s)
      else chain (coalesce_forward p r) (\<lambda>_ s. Ret p s))"
    using back_test[OF hp(1)] heap_list_split(2)[OF hp(1)] by (simp add: insert_block_sorted_def loop r_def Let_def)
  have tov: "only_blocks r t \<Longrightarrow> t = s\<lparr>blocks := blocks t, heap_head := heap_head t\<rparr>" for t
  proof -
    assume "only_blocks r t"
    then obtain k where "t = r\<lparr>blocks := k\<rparr>" by blast
    moreover obtain g h where "r = s\<lparr>blocks := g, heap_head := h\<rparr>" using hp(7) by blast
    ultimately show ?thesis by simp
  qed
  have fit: "fits (blocks t) 4064 x" if "merge_frame y r t" "blk_free (blocks r x) \<noteq> 0" "4064 \<le> unat (blk_size (blocks t x))" for t x y
    using that by (auto simp: fits_def merge_frame_def word_le_nat_alt)
  note hip = hp(8)
  show ?thesis
  proof (cases "us \<noteq> [] \<and> blk_free (blocks r (last us)) \<noteq> 0 \<and> block_hi (blocks r) (last us) = unat p")
    case False
    have tl: "coalesced (blocks r) (tl vs)" using hp(3) by (cases vs) (auto simp: coalesced_def successively_Cons)
    from coalesce_at[OF hp(1) _ hp(2) tl] hp(3,6) obtain t ws where t: "coalesce_forward p r = Ret () t"
      "heap_list (blocks t) (heap_head r) (us @ p # ws)" "coalesced (blocks t) us" "coalesced (blocks t) (p # ws)"
      "merge_frame p r t" "allocs (blocks t) (us @ p # ws) = allocs (blocks r) (us @ p # vs)"
      "span (blocks t) (us @ p # ws) = span (blocks r) (us @ p # vs)" "block_hi (blocks r) p \<le> block_hi (blocks t) p" by auto
    have "us \<noteq> [] \<longrightarrow> last us \<noteq> p" using heap_list_distinct[OF hp(1)] last_in_set[of us] by auto
    then have "us \<noteq> [] \<longrightarrow> \<not> mergeable (blocks t) (last us) p" using False t(5)
      by (auto simp: mergeable_def merge_frame_def block_hi_def)
    then have "coalesced (blocks t) (us @ p # ws)" using t(3,4) coalesced_mid[of _ "[]" p ws] by (simp add: coalesced_mid)
    moreover have "fits (blocks t) 4064 p" using t(8) hip hp(6) by (intro fit[OF t(5)]) (auto simp: block_hi_def)
    moreover have "only_blocks r t" using t(5) by (simp only: merge_frame_def)
    ultimately show ?thesis using t hp isb False tov[of t] heap_head_only_blocks[of t r]
      by (intro exI[of _ p] exI[of _ t] exI[of _ "us @ p # ws"]) simp
  next
    case True
    then obtain us' y where us: "us = us' @ [y]" by (cases us rule: rev_cases) auto
    from True us hp(1-3,6) merge_back[of r "heap_head r" us' y p vs] obtain t ys where t:
      "coalesce_forward y r = Ret () t" "heap_list (blocks t) (heap_head r) ys" "coalesced (blocks t) ys"
      "merge_frame y r t" "y \<in> set ys" "allocs (blocks t) ys = allocs (blocks r) (us @ p # vs)"
      "span (blocks t) ys = span (blocks r) (us @ p # vs)" "block_hi (blocks r) p \<le> block_hi (blocks t) y" by auto
    have "unat y < unat p" using True us by (simp add: block_hi_def)
    then have "fits (blocks t) 4064 y" using t(8) hip True us by (intro fit[OF t(4)]) (auto simp: block_hi_def)
    moreover have "only_blocks r t" using t(4) by (simp only: merge_frame_def)
    ultimately show ?thesis using t hp isb True us tov[of t] heap_head_only_blocks[of t r]
      by (intro exI[of _ y] exI[of _ t] exI[of _ ys]) simp
  qed
qed

lemma fits_mono: "fits h a x \<Longrightarrow> b \<le> a \<Longrightarrow> fits h b x"
  by (auto simp: fits_def)

lemma heap_update_same:
  "palloc_inv (s\<lparr>blocks := h, heap_head := b\<rparr>) ps = palloc_inv s ps"
  "mem (s\<lparr>blocks := h, heap_head := b\<rparr>) = mem s"
  by (simp_all add: palloc_inv_def)

text \<open>Growing: one page moves from the free list into the block list.\<close>

lemma grow_heap_spec:
  assumes inv: "heap_inv s xs ps"
  shows "if sz \<le> 4064 \<and> ps \<noteq> [] then
      \<exists>x t ys. grow_heap sz s = Ret x t \<and> heap_inv t ys (tl ps) \<and> x \<in> set ys \<and> fits (blocks t) 4064 x
        \<and> allocs (blocks t) ys = allocs (blocks s) xs \<and> mem t = mem s \<and> heap_frame s t
    else grow_heap sz s = Ret 0 s"
proof (cases "sz \<le> 4064 \<and> ps \<noteq> []")
  case False
  have pi: "palloc_inv s ps" using inv by (simp add: heap_inv_def)
  from False show ?thesis
  proof (cases "sz \<le> 4064")
    case True
    with False pi have "palloc_alloc s = (0, s)" by (auto intro: palloc_alloc_empty)
    with False True show ?thesis by (auto simp: grow_heap_def heap_page_size_def sizeof_block_def)
  qed (auto simp: grow_heap_def heap_page_size_def sizeof_block_def)
next
  case True
  then obtain p qs where ps: "ps = p # qs" by (cases ps) auto
  from inv have l: "heap_list (blocks s) (heap_head s) xs" "coalesced (blocks s) xs" and pi: "palloc_inv s (p # qs)"
    and ap: "pages_apart (p # qs) (span (blocks s) xs)" by (auto simp: heap_inv_def ps)
  define s1 where "s1 = snd (palloc_alloc s)"
  have a: "palloc_alloc s = (p, s1)" "palloc_inv s1 qs"
    using palloc_alloc_Cons[OF pi] by (auto simp: s1_def)
  have s1: "mem s1 = mem s" "blocks s1 = blocks s" "heap_head s1 = heap_head s"
    using palloc_alloc_Cons(1)[OF pi] by (simp_all add: s1_def)
  have p: "p \<noteq> 0" "page_aligned p" "p \<notin> set qs" using palloc_inv_page[OF pi] palloc_inv_distinct[OF pi] by auto
  let ?b = "\<lparr>blk_magic = heap_magic, blk_free = 1, blk_size = 4064, blk_next = 0, blk_prev = 0\<rparr>"
  define s2 where "s2 = put_block p ?b s1"
  have s2: "mem s2 = mem s" "heap_head s2 = heap_head s" "blocks s2 = (blocks s)(p := ?b)" "palloc_inv s2 qs"
    using s1 a(2) by (simp_all add: s2_def put_block_def)
  have pn: "unat p + 4096 < 18446744073709551616" and dis: "{unat p ..< unat p + 4096} \<inter> span (blocks s) xs = {}"
    using ap by (auto simp: pages_apart_def)
  have nin: "p \<notin> set xs" using dis by (force simp: span_def block_hi_def)
  have same: "blocks s2 z = blocks s z" if "z \<in> set xs" for z using that nin s2(3) by auto
  have l2: "heap_list (blocks s2) (heap_head s2) xs" "coalesced (blocks s2) xs" "span (blocks s2) xs = span (blocks s) xs"
    "allocs (blocks s2) xs = allocs (blocks s) xs"
    using l same links_cong[of xs "blocks s2" "blocks s"] sorted_before_cong[of xs "blocks s2" "blocks s"]
      coalesced_cong[of xs "blocks s2" "blocks s"] span_cong[of xs "blocks s2" "blocks s"]
    by (auto simp: heap_list_def s2(2) block_ok_def block_hi_def allocs_def fun_eq_iff)
  from insert_block_sorted_spec[OF l2(1,2) p(1,2) pn, of 0 0] obtain x t ys where t:
    "insert_block_sorted p s2 = Ret x t" "heap_list (blocks t) (heap_head t) ys" "coalesced (blocks t) ys"
    "t = s2\<lparr>blocks := blocks t, heap_head := heap_head t\<rparr>"
    "span (blocks t) ys = span (blocks s) xs \<union> {unat p ..< unat p + 4096}"
    "allocs (blocks t) ys = allocs (blocks s) xs" "x \<in> set ys" "fits (blocks t) 4064 x"
    using dis l2(3,4) s2(3) by auto
  have "grow_heap sz s = Ret x t"
    using True[THEN conjunct1, THEN leD] a(1) p(1) t(1)
    by (simp add: grow_heap_def heap_page_size_def sizeof_block_def s2_def)
  moreover have "palloc_inv t qs" "mem t = mem s"
    using s2(1,4) by (subst t(4), simp only: heap_update_same)+
  moreover have "heap_frame s t"
  proof -
    have "heap_frame s s1" unfolding s1_def by simp
    moreover have "heap_frame s1 s2" by (simp add: s2_def put_block_def)
    moreover have "heap_frame s2 t" by (subst t(4), rule heap_frame_trans[where t = "s2\<lparr>blocks := blocks t\<rparr>"]) simp_all
    ultimately show ?thesis using heap_frame_trans by blast
  qed
  moreover have "pages_apart qs (span (blocks t) ys)"
  proof -
    have "{unat q ..< unat q + 4096} \<inter> {unat p ..< unat p + 4096} = {}" if "q \<in> set qs" for q
    proof -
      have "page_aligned q" "q \<noteq> p" using that palloc_inv_page[OF pi, of q] p(3) by auto
      then show ?thesis using p(2) by (auto elim!: page_alignedE simp: word_unat_eq_iff)
    qed
    then show ?thesis using ap unfolding pages_apart_def t(5) Int_Un_distrib by simp
  qed
  ultimately show ?thesis using True t by (auto simp: heap_inv_def ps)
qed


section \<open>Rounding the size\<close>

lemma and_not_15: "unat ((a::u64) AND NOT 15) = 16 * (unat a div 16)"
proof -
  have m: "a AND 15 = take_bit 4 a" by (simp add: take_bit_eq_mask mask_eq_exp_minus_1)
  have l: "unat (a AND 15) = unat a mod 16"
    unfolding m by (simp only: unsigned_take_bit_eq) (simp add: take_bit_eq_mod)
  have "(a AND NOT 15) + (a AND 15) = a"
    by (subst disjunctive_add) (auto simp: bit_simps bit_eq_iff)
  then have e: "a AND NOT 15 = a - (a AND 15)" by (rule eq_diff_eq[THEN iffD2])
  have "unat (a AND NOT 15) = unat a - unat (a AND 15)"
    unfolding e by (rule unat_sub) (rule word_and_le2)
  then show ?thesis unfolding l by (simp only: minus_mod_eq_mult_div)
qed

lemma heap_align_up_exact:
  "unat (heap_align_up v) = (16 * (((unat v + 15) mod 18446744073709551616) div 16)) mod 4294967296"
proof -
  have m: "ucast (NOT (ucast (15 :: u64) :: u32)) = (NOT 15 AND mask 32 :: u64)"
    by (simp add: mask_eq_exp_minus_1)
  have f: "heap_align - 1 = 15" by (simp add: heap_align_def)
  have "heap_align_up v = take_bit 32 ((v + 15) AND NOT 15)"
    unfolding heap_align_up_def f m take_bit_eq_mask and.assoc ..
  then have "unat (heap_align_up v) = take_bit 32 (unat ((v + 15) AND NOT 15))"
    by (simp only: unsigned_take_bit_eq)
  then show ?thesis by (simp only: and_not_15 unat_word_ariths) (simp add: take_bit_eq_mod)
qed

lemma heap_align_up_small:
  assumes "unat v \<le> 0xFFFFFFF0"
  shows "unat (heap_align_up v) = 16 * ((unat v + 15) div 16)" "v \<le> heap_align_up v" "16 dvd unat (heap_align_up v)"
    "v \<noteq> 0 \<Longrightarrow> heap_align_up v \<noteq> 0"
proof -
  have "16 * ((unat v + 15) div 16) < 4294967296" using assms times_div_less_eq_dividend[of 16 "unat v + 15"] by linarith
  with assms show u: "unat (heap_align_up v) = 16 * ((unat v + 15) div 16)" unfolding heap_align_up_exact by simp
  then show le: "v \<le> heap_align_up v" "16 dvd unat (heap_align_up v)" by (simp_all add: word_le_nat_alt)
  then show "v \<noteq> 0 \<Longrightarrow> heap_align_up v \<noteq> 0" by (metis word_le_0_iff)
qed

lemma heap_align_up_dvd: "16 dvd unat (heap_align_up v)"
  unfolding heap_align_up_exact by (simp add: dvd_mod)

section \<open>Allocating\<close>

lemma kmalloc_unfold:
  assumes inv: "heap_inv s xs ps" and "sz \<noteq> 0"
  shows "kmalloc sz s = chain (if first_fit (blocks s) (heap_align_up sz) xs = 0 then grow_heap (heap_align_up sz) s
        else Ret (first_fit (blocks s) (heap_align_up sz) xs) s)
      (\<lambda>block s. if block = 0 then Ret 0 s else Ret (block + 32) (carve block (heap_align_up sz) s))"
proof -
  have "find_block (heap_align_up sz) s = Ret (first_fit (blocks s) (heap_align_up sz) xs) s"
    using inv by (intro find_block_spec) (simp add: heap_inv_def)
  with assms(2) show ?thesis unfolding kmalloc_def carve_def sizeof_block_def Let_def by simp
qed

lemma carve_inv:
  assumes inv: "heap_inv s xs ps" and x: "x \<in> set xs" "fits (blocks s) sz x" and sz: "16 dvd unat sz"
  shows "\<exists>ys n. heap_inv (carve x sz s) ys ps \<and> allocs (blocks (carve x sz s)) ys = (allocs (blocks s) xs)(x + 32 \<mapsto> n)
     \<and> allocs (blocks s) xs (x + 32) = None \<and> unat sz \<le> n \<and> n \<le> unat sz + 48 \<and> mem (carve x sz s) = mem s
     \<and> heap_frame s (carve x sz s) \<and> x + 32 \<noteq> 0"
proof -
  from inv have l: "heap_list (blocks s) (heap_head s) xs" "coalesced (blocks s) xs" by (simp_all add: heap_inv_def)
  from carve_spec[OF l x sz] obtain ys n where c: "heap_list (blocks (carve x sz s)) (heap_head s) ys"
    "coalesced (blocks (carve x sz s)) ys" "only_blocks s (carve x sz s)"
    "span (blocks (carve x sz s)) ys = span (blocks s) xs"
    "allocs (blocks (carve x sz s)) ys = (allocs (blocks s) xs)(x + 32 \<mapsto> n)"
    "allocs (blocks s) xs (x + 32) = None" "unat sz \<le> n" "n \<le> unat sz + 48" by blast
  have "allocs (blocks (carve x sz s)) ys (x + 32) = Some n" using c(5) by simp
  then have "x + 32 \<noteq> 0" by (rule alloc_block(5)[OF c(1)])
  moreover have "mem (carve x sz s) = mem s" using arg_cong[OF c(3), of mem] by simp
  ultimately show ?thesis using c heap_invI[OF inv c(3) c(1,2,4)] only_blocks_frame[OF c(3)] by blast
qed

lemma kmalloc_spec:
  assumes inv: "heap_inv s xs ps" and sz: "sz \<noteq> 0"
  defines "n0 \<equiv> heap_align_up sz"
  shows "\<exists>p t ys qs. kmalloc sz s = Ret p t \<and> heap_inv t ys qs \<and> mem t = mem s \<and> heap_frame s t
    \<and> (if p = 0 then t = s \<and> ys = xs \<and> qs = ps \<and> (\<forall>x \<in> set xs. \<not> fits (blocks s) n0 x) \<and> (4064 < n0 \<or> ps = [])
       else qs = (if \<exists>x \<in> set xs. fits (blocks s) n0 x then ps else tl ps)
         \<and> allocs (blocks s) xs p = None
         \<and> (\<exists>n. allocs (blocks t) ys = (allocs (blocks s) xs)(p \<mapsto> n) \<and> unat n0 \<le> n \<and> n \<le> unat n0 + 48))"
proof -
  have l: "heap_list (blocks s) (heap_head s) xs" using inv by (simp add: heap_inv_def)
  have d: "16 dvd unat n0" unfolding n0_def by (rule heap_align_up_dvd)
  have ff: "if first_fit (blocks s) n0 xs = 0 then \<forall>x \<in> set xs. \<not> fits (blocks s) n0 x
    else first_fit (blocks s) n0 xs \<in> set xs \<and> fits (blocks s) n0 (first_fit (blocks s) n0 xs)"
    using l by (intro first_fit_cases) (simp add: heap_list_def)
  note ku = kmalloc_unfold[OF inv sz, folded n0_def]
  show ?thesis
  proof (cases "first_fit (blocks s) n0 xs = 0")
    case False
    with ff have x: "first_fit (blocks s) n0 xs \<in> set xs" "fits (blocks s) n0 (first_fit (blocks s) n0 xs)" by auto
    with False carve_inv[OF inv x d] ku show ?thesis by fastforce
  next
    case True
    with ff have no: "\<forall>x \<in> set xs. \<not> fits (blocks s) n0 x" by simp
    show ?thesis
    proof (cases "n0 \<le> 4064 \<and> ps \<noteq> []")
      case False
      then have "grow_heap n0 s = Ret 0 s" using grow_heap_spec[OF inv, of n0] by simp
      then have "kmalloc sz s = Ret 0 s" using ku True by simp
      then show ?thesis using no inv False by auto
    next
      case room: True
      then obtain x t ys where t: "grow_heap n0 s = Ret x t" "heap_inv t ys (tl ps)" "x \<in> set ys"
        "fits (blocks t) 4064 x" "allocs (blocks t) ys = allocs (blocks s) xs" "mem t = mem s" "heap_frame s t"
        using grow_heap_spec[OF inv, of n0] by auto
      have f: "fits (blocks t) n0 x" using fits_mono[OF t(4)] room by simp
      have "x \<noteq> 0" using t(2,3) by (auto simp: heap_inv_def heap_list_def block_ok_def)
      then have k: "kmalloc sz s = Ret (x + 32) (carve x n0 t)" using ku True t(1) by simp
      from carve_inv[OF t(2,3) f d] obtain zs n where z: "heap_inv (carve x n0 t) zs (tl ps)"
        "allocs (blocks (carve x n0 t)) zs = (allocs (blocks t) ys)(x + 32 \<mapsto> n)"
        "allocs (blocks t) ys (x + 32) = None" "unat n0 \<le> n" "n \<le> unat n0 + 48" "mem (carve x n0 t) = mem t"
        "heap_frame t (carve x n0 t)" "x + 32 \<noteq> 0" by blast
      show ?thesis using k z t(5,6) no heap_frame_trans[OF t(7) z(7)]
        by (intro exI[of _ "x + 32"] exI[of _ "carve x n0 t"] exI[of _ zs] exI[of _ "tl ps"]) auto
    qed
  qed
qed

section \<open>Zeroing\<close>

lemma zero_fold:
  "n \<le> 18446744073709551616 \<Longrightarrow>
   fold (\<lambda>i m. m(p + of_nat i := 0)) [0..<n] m = (\<lambda>a::addr. if unat (a - p) < n then 0 else (m a :: u8))"
proof (induction n)
  case (Suc n)
  show ?case
  proof
    fix a :: addr
    have "a = p + of_nat n \<longleftrightarrow> a - p = of_nat n" by (metis add_diff_cancel_left' diff_add_cancel add.commute)
    also have "\<dots> \<longleftrightarrow> unat (a - p) = n"
    proof
      assume "a - p = of_nat n"
      then have "unat (a - p) = unat (of_nat n :: addr)" by simp
      also have "\<dots> = n" unfolding unat_of_nat using Suc.prems by simp
      finally show "unat (a - p) = n" .
    next
      assume "unat (a - p) = n"
      then show "a - p = of_nat n" by auto
    qed
    finally show "fold (\<lambda>i m. m(p + of_nat i := 0)) [0..<Suc n] m a = (if unat (a - p) < Suc n then 0 else m a)"
      using Suc.IH Suc.prems by (simp add: less_Suc_eq fun_upd_def)
  qed
qed simp

lemma zero_bytes_mem: "mem (zero_bytes p n s) a = (if a - p < n then 0 else mem s a)"
  using unat_less64[of n] by (simp add: zero_bytes_def zero_fold word_less_nat_alt del: unat_less64)

lemma zero_bytes_blocks [simp]: "blocks (zero_bytes p n s) = blocks s"
  by (simp add: zero_bytes_def)

lemma chain_list_bytes:
  "chain_list m b ps \<Longrightarrow> (\<And>p a. p \<in> set ps \<Longrightarrow> a - p < 8 \<Longrightarrow> m' a = m a) \<Longrightarrow> chain_list m' b ps"
proof (rule chain_list_cong)
  fix x
  assume same: "\<And>p a. p \<in> set ps \<Longrightarrow> a - p < 8 \<Longrightarrow> m' a = m a" and x: "x \<in> set ps"
  have "(of_nat i :: addr) < 8" if "i < 8" for i using that by (simp add: word_less_nat_alt unat_of_nat)
  then have "m' (x + of_nat i) = m (x + of_nat i)" if "i < 8" for i
    using same[OF x, of "x + of_nat i"] that by simp
  then show "rd64 m' x = rd64 m x" unfolding rd64_def by (intro rd_le_cong)
qed

text \<open>Writing inside the heap does not disturb the allocators.\<close>

lemma heap_inv_write:
  assumes inv: "heap_inv s xs ps"
    and same: "\<And>a. unat a \<notin> span (blocks s) xs \<Longrightarrow> m' a = mem s a"
  shows "heap_inv (s\<lparr>mem := m'\<rparr>) xs ps"
proof -
  from inv have pi: "palloc_inv s ps" and ap: "pages_apart ps (span (blocks s) xs)" by (auto simp: heap_inv_def)
  have "m' a = mem s a" if p: "p \<in> set ps" "a - p < 8" for p a
  proof (rule same)
    have hi: "unat p + 4096 < 18446744073709551616" and dis: "{unat p ..< unat p + 4096} \<inter> span (blocks s) xs = {}"
      using ap p(1) by (auto simp: pages_apart_def)
    have "unat a = unat p + unat (a - p)" using hi p(2) by (intro unat_offset) (simp add: word_less_nat_alt)
    then have "unat a \<in> {unat p ..< unat p + 4096}" using p(2) by (simp add: word_less_nat_alt)
    then show "unat a \<notin> span (blocks s) xs" using dis by blast
  qed
  moreover have "chain_list (mem s) (free_list_head s) ps" using pi by (simp add: palloc_inv_def)
  ultimately have "chain_list m' (free_list_head s) ps" by (rule chain_list_bytes[rotated]) auto
  then show ?thesis using inv by (simp add: heap_inv_def palloc_inv_def)
qed

section \<open>Allocations as intervals\<close>

lemma alloc_interval:
  assumes inv: "heap_list (blocks s) head xs" and a: "allocs (blocks s) xs p = Some n"
  shows "unat p = unat (p - 32) + 32" "unat p + n = block_hi (blocks s) (p - 32)" "16 dvd unat p" "16 dvd n"
    "unat p + n < 18446744073709551616" "{unat p ..< unat p + n} \<subseteq> span (blocks s) xs"
proof -
  note b = alloc_block[OF inv a]
  have ok: "block_ok (blocks s) (p - 32)" using inv b(1) by (simp add: heap_list_def)
  then have lt: "unat (p - 32) + 32 + unat (blk_size (blocks s (p - 32))) < 18446744073709551616"
    by (simp add: block_ok_def block_hi_def)
  have "unat ((p - 32) + 32) = unat (p - 32) + 32" using lt by (simp only: unat_word_ariths) simp
  then show u: "unat p = unat (p - 32) + 32" by simp
  then show hi: "unat p + n = block_hi (blocks s) (p - 32)" using b(3) by (simp add: block_hi_def)
  show "16 dvd unat p" "16 dvd n" using ok u b(3) by (auto simp: block_ok_def)
  show "unat p + n < 18446744073709551616" using lt hi by (simp add: block_hi_def)
  show "{unat p ..< unat p + n} \<subseteq> span (blocks s) xs" using b(1) u hi by (force simp: span_def)
qed

lemma allocs_disjoint:
  assumes inv: "heap_list (blocks s) head xs"
    and p: "allocs (blocks s) xs p = Some n" and q: "allocs (blocks s) xs q = Some k" and ne: "p \<noteq> q"
  shows "unat p + n \<le> unat q \<or> unat q + k \<le> unat p"
proof -
  have "sorted_wrt (before (blocks s)) xs" using inv by (simp add: heap_list_def)
  moreover have "p - 32 \<in> set xs" "q - 32 \<in> set xs" "p - 32 \<noteq> q - 32"
    using alloc_block(1)[OF inv] p q ne by auto
  ultimately have "before (blocks s) (p - 32) (q - 32) \<or> before (blocks s) (q - 32) (p - 32)"
    by (induction xs) auto
  then show ?thesis using alloc_interval(1,2)[OF inv p] alloc_interval(1,2)[OF inv q] by (auto simp: before_def)
qed

lemma kzalloc_spec:
  assumes inv: "heap_inv s xs ps" and sz: "sz \<noteq> 0" "unat sz \<le> 0xFFFFFFF0"
  shows "\<exists>p t ys qs. kzalloc sz s = Ret p t \<and> heap_inv t ys qs \<and> heap_frame s t
    \<and> (if p = 0 then t = s \<and> ys = xs \<and> qs = ps \<and> (4064 < unat sz + 15 \<or> ps = [])
       else qs = (if \<exists>x \<in> set xs. fits (blocks s) (heap_align_up sz) x then ps else tl ps)
         \<and> allocs (blocks s) xs p = None
         \<and> (\<exists>n. allocs (blocks t) ys = (allocs (blocks s) xs)(p \<mapsto> n) \<and> unat sz \<le> n \<and> n < unat sz + 64)
         \<and> (\<forall>a. mem t a = (if a - p < sz then 0 else mem s a)))"
proof -
  note al = heap_align_up_small[OF sz(2)]
  from kmalloc_spec[OF inv sz(1)] obtain p t ys qs where k: "kmalloc sz s = Ret p t" "heap_inv t ys qs" "mem t = mem s" "heap_frame s t"
    and c: "if p = 0 then t = s \<and> ys = xs \<and> qs = ps \<and> (\<forall>x \<in> set xs. \<not> fits (blocks s) (heap_align_up sz) x)
        \<and> (4064 < heap_align_up sz \<or> ps = [])
       else qs = (if \<exists>x \<in> set xs. fits (blocks s) (heap_align_up sz) x then ps else tl ps)
         \<and> allocs (blocks s) xs p = None
         \<and> (\<exists>n. allocs (blocks t) ys = (allocs (blocks s) xs)(p \<mapsto> n) \<and> unat (heap_align_up sz) \<le> n
             \<and> n \<le> unat (heap_align_up sz) + 48)" by blast
  show ?thesis
  proof (cases "p = 0")
    case True
    have "4064 < heap_align_up sz \<Longrightarrow> 4064 < unat sz + 15" using al(1) by (simp add: word_less_nat_alt)
    with True k c show ?thesis by (intro exI[of _ p] exI[of _ t]) (auto simp: kzalloc_def)
  next
    case False
    with c obtain n where n: "allocs (blocks t) ys = (allocs (blocks s) xs)(p \<mapsto> n)"
      "unat (heap_align_up sz) \<le> n" "n \<le> unat (heap_align_up sz) + 48" by auto
    have lt: "heap_list (blocks t) (heap_head t) ys" using k(2) by (simp add: heap_inv_def)
    have "allocs (blocks t) ys p = Some n" using n(1) by simp
    note iv = alloc_interval[OF lt this]
    have "unat sz \<le> n" using n(2) al(2) by (simp add: word_le_nat_alt)
    let ?m = "mem (zero_bytes p sz t)"
    have "?m a = mem t a" if "unat a \<notin> span (blocks t) ys" for a
    proof (rule ccontr)
      assume "?m a \<noteq> mem t a"
      then have d: "unat (a - p) < unat sz" by (auto simp: zero_bytes_mem word_less_nat_alt split: if_splits)
      have "unat a = unat p + unat (a - p)" using d \<open>unat sz \<le> n\<close> iv(5) by (intro unat_offset) simp
      then have "unat a \<in> {unat p ..< unat p + n}" using d \<open>unat sz \<le> n\<close> by simp
      then show False using iv(6) that by blast
    qed
    from heap_inv_write[OF k(2) this] have "heap_inv (zero_bytes p sz t) ys qs" by (simp add: zero_bytes_def)
    moreover have "kzalloc sz s = Ret p (zero_bytes p sz t)" using k(1) False by (simp add: kzalloc_def)
    moreover have "n < unat sz + 64" using n(3) al(1) by linarith
    moreover have "heap_frame s (zero_bytes p sz t)"
      using heap_frame_trans[OF k(4), of "zero_bytes p sz t"] by (simp add: zero_bytes_def)
    moreover have "mem (zero_bytes p sz t) a = (if a - p < sz then 0 else mem s a)" for a
      using k(3) by (simp add: zero_bytes_mem)
    moreover have "qs = (if \<exists>x \<in> set xs. fits (blocks s) (heap_align_up sz) x then ps else tl ps)"
      "allocs (blocks s) xs p = None" using False c by simp_all
    ultimately show ?thesis using False n(1) \<open>unat sz \<le> n\<close>
      by - (rule exI[of _ p], rule exI[of _ "zero_bytes p sz t"], rule exI[of _ ys], rule exI[of _ qs],
        simp only: zero_bytes_blocks simp_thms if_False, blast)
  qed
qed

end
