(* ===== verification/HeapSpec.thy ===== *)
theory HeapSpec
  imports HeapOps
begin

text \<open>
  The heap as an allocator: the contract the kernel's object code relies on as the locale \<open>allocator\<close>, its
  interpretation on \<open>kmalloc\<close> and \<open>kfree\<close>, and the properties of the heap.
\<close>

section \<open>The heap as an allocator\<close>

text \<open>
  The contract the node, file and descriptor code relies on: \<open>rep s a\<close> says that \<open>s\<close> represents the
  set \<open>a\<close> of live allocations (payload address to usable size).
\<close>

locale allocator =
  fixes rep :: "'s \<Rightarrow> (addr \<rightharpoonup> nat) \<Rightarrow> bool"
    and alloc :: "u64 \<Rightarrow> 's \<Rightarrow> (addr, 's) outcome"
    and dealloc :: "addr \<Rightarrow> 's \<Rightarrow> (unit, 's) outcome"
  assumes alloc_law: "rep s a \<Longrightarrow> sz \<noteq> 0 \<Longrightarrow> unat sz \<le> 0xFFFFFFF0 \<Longrightarrow>
      \<exists>p t. alloc sz s = Ret p t \<and> (if p = 0 then rep t a
        else a p = None \<and> (\<exists>n \<ge> unat sz. rep t (a(p \<mapsto> n))))"
    and dealloc_law: "rep s a \<Longrightarrow> a p = Some n \<Longrightarrow> \<exists>t. dealloc p s = Ret () t \<and> rep t (a(p := None))"
    and interval_law: "rep s a \<Longrightarrow> a p = Some n \<Longrightarrow> p \<noteq> 0 \<and> 16 dvd unat p \<and> unat p + n < 18446744073709551616"
    and disjoint_law: "rep s a \<Longrightarrow> a p = Some n \<Longrightarrow> a q = Some k \<Longrightarrow> p \<noteq> q \<Longrightarrow>
      unat p + n \<le> unat q \<or> unat q + k \<le> unat p"
begin

lemma alloc_then_dealloc:
  assumes "rep s a" "sz \<noteq> 0" "unat sz \<le> 0xFFFFFFF0"
  shows "\<exists>p t. alloc sz s = Ret p t \<and> (p \<noteq> 0 \<longrightarrow> (\<exists>u. dealloc p t = Ret () u \<and> rep u a))"
proof -
  obtain p t where p: "alloc sz s = Ret p t" "if p = 0 then rep t a
      else a p = None \<and> (\<exists>n \<ge> unat sz. rep t (a(p \<mapsto> n)))" using alloc_law[OF assms] by blast
  show ?thesis
  proof (cases "p = 0")
    case False
    with p obtain n where n: "rep t (a(p \<mapsto> n))" "a p = None" by auto
    then obtain u where "dealloc p t = Ret () u" "rep u ((a(p \<mapsto> n))(p := None))"
      using dealloc_law[of t "a(p \<mapsto> n)" p n] by auto
    moreover have "(a(p \<mapsto> n))(p := None) = a" using n(2) by auto
    ultimately show ?thesis using p(1) by auto
  qed (use p in auto)
qed

text \<open>A fresh allocation shares no byte with any earlier one.\<close>

lemma alloc_fresh:
  assumes "rep s a" "sz \<noteq> 0" "unat sz \<le> 0xFFFFFFF0" "alloc sz s = Ret p t" "p \<noteq> 0" "a q = Some k"
  shows "unat p + unat sz \<le> unat q \<or> unat q + k \<le> unat p"
proof -
  from alloc_law[OF assms(1-3)] assms(4,5) obtain n where n: "a p = None" "unat sz \<le> n" "rep t (a(p \<mapsto> n))" by auto
  then have "p \<noteq> q" using assms(6) by auto
  with disjoint_law[OF n(3), of p n q k] assms(6) n(2) show ?thesis by auto
qed

end

definition heap_rep :: "'a heap_state_scheme \<Rightarrow> (addr \<rightharpoonup> nat) \<Rightarrow> bool" where
  "heap_rep s a \<longleftrightarrow> (\<exists>xs ps. heap_inv s xs ps \<and> a = allocs (blocks s) xs)"

lemma heap_inv_list: "heap_inv s xs ps \<Longrightarrow> heap_list (blocks s) (heap_head s) xs"
  by (simp add: heap_inv_def)

interpretation kernel_heap: allocator heap_rep kmalloc kfree
proof (unfold_locales, goal_cases)
  case (1 s a sz)
  then obtain xs ps where inv: "heap_inv s xs ps" and a: "a = allocs (blocks s) xs" by (auto simp: heap_rep_def)
  from kmalloc_spec[OF inv 1(2)] obtain p t ys qs where k: "kmalloc sz s = Ret p t" "heap_inv t ys qs"
    and c: "if p = 0 then t = s \<and> ys = xs else allocs (blocks s) xs p = None
         \<and> (\<exists>n. allocs (blocks t) ys = (allocs (blocks s) xs)(p \<mapsto> n) \<and> unat (heap_align_up sz) \<le> n)"
    by (metis (no_types, lifting))
  have "unat sz \<le> unat (heap_align_up sz)" using heap_align_up_small(2)[OF 1(3)] by (simp add: word_le_nat_alt)
  moreover have "heap_rep t (allocs (blocks t) ys)" using k(2) by (auto simp: heap_rep_def)
  ultimately have "if p = 0 then heap_rep t a else a p = None \<and> (\<exists>n \<ge> unat sz. heap_rep t (a(p \<mapsto> n)))"
    using c a by (auto split: if_splits) (metis le_trans)
  with k(1) show ?case by blast
next
  case (2 s a p n)
  then obtain xs ps where "heap_inv s xs ps" and a: "a = allocs (blocks s) xs" "allocs (blocks s) xs p = Some n"
    by (auto simp: heap_rep_def)
  then obtain t ys where "kfree p s = Ret () t" "heap_inv t ys ps"
    "allocs (blocks t) ys = (allocs (blocks s) xs)(p := None)" using kfree_spec by blast
  then show ?case using a(1) unfolding heap_rep_def by metis
next
  case (3 s a p n)
  then show ?case unfolding heap_rep_def using alloc_interval(3,5) alloc_block(5) heap_inv_list by metis
next
  case (4 s a p n q k)
  then show ?case unfolding heap_rep_def using allocs_disjoint heap_inv_list by metis
qed


section \<open>Properties of the heap\<close>

text \<open>
  C28: For every request of 1 to \<open>0xFFFFFFF0\<close> bytes on a well-formed heap, \<open>kmalloc\<close> returns and keeps
  the heap well formed (list sorted and doubly linked, no two adjacent free blocks, no block on a free
  page). A non-null answer is a new 16-aligned area of at least the requested size, with at most 63 spare
  bytes; all other allocations and all memory are as before. The answer is null only when no free block fits
  and the request exceeds a page or no page is left, and then nothing changed; a page is taken only when no block fits.
\<close>

theorem kmalloc_correct:
  assumes inv: "heap_inv s xs ps" and sz: "sz \<noteq> 0" "unat sz \<le> 0xFFFFFFF0"
  shows "\<exists>p t ys qs. kmalloc sz s = Ret p t \<and> heap_inv t ys qs \<and> heap_frame s t \<and> mem t = mem s
    \<and> (if p = 0 then t = s \<and> ys = xs \<and> qs = ps \<and> (\<forall>x \<in> set xs. \<not> fits (blocks s) (heap_align_up sz) x)
         \<and> (4064 < unat sz + 15 \<or> ps = [])
       else qs = (if \<exists>x \<in> set xs. fits (blocks s) (heap_align_up sz) x then ps else tl ps)
         \<and> allocs (blocks s) xs p = None \<and> 16 dvd unat p
         \<and> (\<exists>n. allocs (blocks t) ys = (allocs (blocks s) xs)(p \<mapsto> n) \<and> unat sz \<le> n \<and> n < unat sz + 64))"
proof -
  note al = heap_align_up_small[OF sz(2)]
  have up: "unat sz \<le> unat (heap_align_up sz)" "unat (heap_align_up sz) < unat sz + 16"
    "4064 < heap_align_up sz \<Longrightarrow> 4064 < unat sz + 15"
    using al(1) by (auto simp: word_less_nat_alt)
  from kmalloc_spec[OF inv sz(1)] obtain p t ys qs where k: "kmalloc sz s = Ret p t" "heap_inv t ys qs"
      "mem t = mem s" "heap_frame s t"
    and c: "if p = 0 then t = s \<and> ys = xs \<and> qs = ps \<and> (\<forall>x \<in> set xs. \<not> fits (blocks s) (heap_align_up sz) x)
        \<and> (4064 < heap_align_up sz \<or> ps = [])
       else qs = (if \<exists>x \<in> set xs. fits (blocks s) (heap_align_up sz) x then ps else tl ps)
         \<and> allocs (blocks s) xs p = None
         \<and> (\<exists>n. allocs (blocks t) ys = (allocs (blocks s) xs)(p \<mapsto> n) \<and> unat (heap_align_up sz) \<le> n
             \<and> n \<le> unat (heap_align_up sz) + 48)" by blast
  have "p \<noteq> 0 \<Longrightarrow> 16 dvd unat p"
    using c alloc_interval(3)[OF heap_inv_list[OF k(2)], of p] by auto
  moreover have "p \<noteq> 0 \<Longrightarrow> \<exists>n. allocs (blocks t) ys = (allocs (blocks s) xs)(p \<mapsto> n) \<and> unat sz \<le> n \<and> n < unat sz + 64"
    using c up(1,2) by (simp only: if_False simp_thms) (elim conjE exE, intro exI conjI, assumption, linarith+)
  ultimately show ?thesis using k c up(3)
    by - (rule exI[of _ p], rule exI[of _ t], rule exI[of _ ys], rule exI[of _ qs], cases "p = 0"; auto)
qed

text \<open>
  C30: Freeing a live allocation always returns, removes exactly that allocation, merges it with its free
  neighbours so that the heap is well formed again, takes no page and writes nothing but block headers.
\<close>

theorem kfree_correct:
  assumes "heap_inv s xs ps" "allocs (blocks s) xs p = Some n"
  shows "\<exists>t ys. kfree p s = Ret () t \<and> heap_inv t ys ps \<and> allocs (blocks t) ys = (allocs (blocks s) xs)(p := None)
     \<and> t = s\<lparr>blocks := blocks t\<rparr> \<and> span (blocks t) ys = span (blocks s) xs"
  using kfree_spec[OF assms] by blast

text \<open>
  C32: A double free is caught: once an allocation has been freed, a second \<open>kfree\<close> of the same address
  prints \<open>heap free fail\<close> and halts the processor.
\<close>

theorem kfree_twice_halts:
  assumes "heap_inv s xs ps" "allocs (blocks s) xs p = Some n"
  shows "\<exists>t. kfree p s = Ret () t \<and> kfree p t = Halt (write_line ''heap free fail'' t)"
proof -
  from kfree_spec[OF assms] obtain t where t: "kfree p s = Ret () t" "blk_free (blocks t (p - 32)) \<noteq> 0" by blast
  have "p \<noteq> 0" using alloc_block(5)[OF heap_inv_list[OF assms(1)] assms(2)] .
  with t(2) have "kfree p t = Halt (write_line ''heap free fail'' t)"
    by (simp add: kfree_def sizeof_block_def heap_fail_def arch_halt_forever_def)
  with t(1) show ?thesis by blast
qed

text \<open>
  C31: \<open>kmalloc\<close> and \<open>kfree\<close> implement an allocator over a set of disjoint address ranges: what is
  allocated shares no byte with an earlier allocation, and freeing it gives the former set back.
\<close>

theorem heap_refines_allocator:
  assumes "heap_rep s a" "sz \<noteq> 0" "unat sz \<le> 0xFFFFFFF0"
  shows "\<exists>p t. kmalloc sz s = Ret p t
    \<and> (p \<noteq> 0 \<longrightarrow> (\<forall>q k. a q = Some k \<longrightarrow> unat p + unat sz \<le> unat q \<or> unat q + k \<le> unat p)
        \<and> (\<exists>u. kfree p t = Ret () u \<and> heap_rep u a))"
  using kernel_heap.alloc_then_dealloc[OF assms] kernel_heap.alloc_fresh[OF assms] by blast

text \<open>
  C35: The rounding of \<open>kmalloc\<close> is done with a 32-bit mask. A request of a non-zero multiple of 4 GiB is rounded
  to 0, and as soon as a free block exists \<open>kmalloc\<close> answers it with an area of at most 48 bytes
  instead of refusing it.
\<close>

theorem kmalloc_huge_request:
  assumes inv: "heap_inv s xs ps" and sz: "sz \<noteq> 0" "4294967296 dvd unat sz" and room: "\<exists>x \<in> set xs. blk_free (blocks s x) \<noteq> 0"
  shows "\<exists>p t ys n. kmalloc sz s = Ret p t \<and> p \<noteq> 0 \<and> heap_inv t ys ps
    \<and> allocs (blocks t) ys = (allocs (blocks s) xs)(p \<mapsto> n) \<and> n \<le> 48"
proof -
  obtain k where k: "unat sz = 4294967296 * k" using sz(2) by auto
  have "16 * (((unat sz + 15) mod 18446744073709551616) div 16) mod 4294967296 = 0"
  proof -
    have "k < 4294967296" using k unat_less64[of sz] by (simp del: unat_less64)
    moreover have "(4294967296 * k + 15) div 16 = 268435456 * k" by (rule div_nat_eqI) simp_all
    ultimately show ?thesis using k by simp
  qed
  then have z: "heap_align_up sz = 0" using heap_align_up_exact[of sz] by (simp add: unat_eq_zero)
  with room have e: "\<exists>x \<in> set xs. fits (blocks s) (heap_align_up sz) x" by (simp add: fits_def)
  from kmalloc_spec[OF inv sz(1)] obtain p t ys qs where q: "kmalloc sz s = Ret p t" "heap_inv t ys qs"
    "if p = 0 then \<forall>x \<in> set xs. \<not> fits (blocks s) (heap_align_up sz) x
     else qs = (if \<exists>x \<in> set xs. fits (blocks s) (heap_align_up sz) x then ps else tl ps)
       \<and> (\<exists>n. allocs (blocks t) ys = (allocs (blocks s) xs)(p \<mapsto> n) \<and> n \<le> unat (heap_align_up sz) + 48)"
    by metis
  with e have nz: "p \<noteq> 0" by auto
  with q e have "qs = ps" by simp
  with nz q z show ?thesis by auto
qed


text \<open>
  C33: \<open>kzalloc\<close> hands out an area whose requested bytes are all zero and changes no other byte of memory; the
  free page list, which lives in memory too, survives the zeroing.
\<close>

theorem kzalloc_correct:
  assumes "heap_inv s xs ps" "sz \<noteq> 0" "unat sz \<le> 0xFFFFFFF0" "4080 \<le> unat sz \<or> ps \<noteq> []"
  shows "\<exists>p t ys qs. kzalloc sz s = Ret p t \<and> heap_inv t ys qs
    \<and> (if p = 0 then t = s \<and> 4064 < unat sz + 15
       else allocs (blocks s) xs p = None
         \<and> (\<exists>n \<ge> unat sz. allocs (blocks t) ys = (allocs (blocks s) xs)(p \<mapsto> n))
         \<and> (\<forall>a. mem t a = (if a - p < sz then 0 else mem s a)))"
proof -
  from kzalloc_spec[OF assms(1-3)] obtain p t ys qs where q: "kzalloc sz s = Ret p t" "heap_inv t ys qs"
    "if p = 0 then t = s \<and> ys = xs \<and> qs = ps \<and> (4064 < unat sz + 15 \<or> ps = [])
       else qs = (if \<exists>x \<in> set xs. fits (blocks s) (heap_align_up sz) x then ps else tl ps)
         \<and> allocs (blocks s) xs p = None
         \<and> (\<exists>n. allocs (blocks t) ys = (allocs (blocks s) xs)(p \<mapsto> n) \<and> unat sz \<le> n \<and> n < unat sz + 64)
         \<and> (\<forall>a. mem t a = (if a - p < sz then 0 else mem s a))" by blast
  show ?thesis
  proof (cases "p = 0")
    case True
    with q assms(4) show ?thesis by auto
  next
    case False
    with q(3) obtain n where "allocs (blocks t) ys = (allocs (blocks s) xs)(p \<mapsto> n)" "unat sz \<le> n" by auto
    with False q show ?thesis
      by - (rule exI[of _ p], rule exI[of _ t], rule exI[of _ ys], rule exI[of _ qs], simp only: if_False simp_thms, blast)
  qed
qed

lemma small_room:
  assumes "heap_inv s xs ps" "0 < length ps" "sz \<noteq> 0" "unat sz \<le> 4000"
  shows "\<exists>p t ys qs n. kmalloc sz s = Ret p t \<and> heap_inv t ys qs \<and> heap_frame s t \<and> mem t = mem s \<and> p \<noteq> 0
    \<and> length ps \<le> length qs + 1 \<and> allocs (blocks s) xs p = None
    \<and> allocs (blocks t) ys = (allocs (blocks s) xs)(p \<mapsto> n) \<and> unat sz \<le> n"
proof -
  have n: "unat sz \<le> 0xFFFFFFF0" using assms(4) by simp
  have up: "unat (heap_align_up sz) < unat sz + 16" "unat sz \<le> unat (heap_align_up sz)"
    using heap_align_up_small(1)[OF n] by auto
  then have "\<not> 4064 < heap_align_up sz" using assms(4) by (simp add: word_less_nat_alt)
  moreover have "length ps \<le> length (tl ps) + 1" by simp
  ultimately have no: "\<not> (4064 < heap_align_up sz \<or> ps = [])" and tl: "length ps \<le> length (tl ps) + 1"
    using assms(2) by auto
  from kmalloc_spec[OF assms(1,3)] obtain p t ys qs where q: "kmalloc sz s = Ret p t" "heap_inv t ys qs"
    "mem t = mem s" "heap_frame s t"
    "if p = 0 then 4064 < heap_align_up sz \<or> ps = []
     else qs = (if \<exists>x \<in> set xs. fits (blocks s) (heap_align_up sz) x then ps else tl ps)
       \<and> allocs (blocks s) xs p = None
       \<and> (\<exists>n. allocs (blocks t) ys = (allocs (blocks s) xs)(p \<mapsto> n) \<and> unat (heap_align_up sz) \<le> n)"
    by metis
  with no have nz: "p \<noteq> 0" by auto
  with q(5) obtain n where n: "allocs (blocks t) ys = (allocs (blocks s) xs)(p \<mapsto> n)" "unat sz \<le> n"
    "allocs (blocks s) xs p = None" using up(2) by auto
  have "length ps \<le> length qs + 1" using q(5) nz tl by (auto split: if_splits)
  with q(1-4) nz n show ?thesis by blast
qed

lemma small_kzalloc:
  assumes "heap_inv s xs ps" "0 < length ps" "sz \<noteq> 0" "unat sz \<le> 4000"
  shows "\<exists>p t ys qs n. kzalloc sz s = Ret p t \<and> heap_inv t ys qs \<and> heap_frame s t \<and> p \<noteq> 0
    \<and> length ps \<le> length qs + 1 \<and> allocs (blocks s) xs p = None
    \<and> allocs (blocks t) ys = (allocs (blocks s) xs)(p \<mapsto> n) \<and> unat sz \<le> n
    \<and> (\<forall>a. mem t a = (if a - p < sz then 0 else mem s a))"
proof -
  have "unat sz \<le> 0xFFFFFFF0" using assms(4) by simp
  from kzalloc_spec[OF assms(1,3) this] obtain p t ys qs where q: "kzalloc sz s = Ret p t" "heap_inv t ys qs"
    "heap_frame s t"
    and c: "if p = 0 then t = s \<and> ys = xs \<and> qs = ps \<and> (4064 < unat sz + 15 \<or> ps = [])
       else qs = (if \<exists>x \<in> set xs. fits (blocks s) (heap_align_up sz) x then ps else tl ps)
         \<and> allocs (blocks s) xs p = None
         \<and> (\<exists>n. allocs (blocks t) ys = (allocs (blocks s) xs)(p \<mapsto> n) \<and> unat sz \<le> n \<and> n < unat sz + 64)
         \<and> (\<forall>a. mem t a = (if a - p < sz then 0 else mem s a))" by blast
  from c assms(2,4) have nz: "p \<noteq> 0" by auto
  have "length ps \<le> length (tl ps) + 1" by simp
  with c nz have "length ps \<le> length qs + 1" by (auto split: if_splits)
  with q c nz show ?thesis by (simp only: if_False simp_thms) blast
qed

lemma kfree_frame:
  assumes "heap_inv s xs ps" "allocs (blocks s) xs p = Some n"
  shows "\<exists>t ys. kfree p s = Ret () t \<and> heap_inv t ys ps \<and> allocs (blocks t) ys = (allocs (blocks s) xs)(p := None)
    \<and> heap_frame s t"
  using kfree_spec[OF assms] only_blocks_frame by blast

text \<open>
  C34: The boot-time self test passes: on a well-formed heap with four free pages left it ends with the line \<open>heap ok\<close>,
  and every allocation it made is freed again.
\<close>

theorem heap_self_test_passes:
  assumes inv: "heap_inv s xs ps" and pages: "4 \<le> length ps"
  shows "\<exists>t ys qs. heap_self_test s = Ret () t \<and> serial_out t = serial_out s @ ''heap ok'' @ [CHR 0x0D, CHR 0x0A]
    \<and> heap_inv t ys qs \<and> allocs (blocks t) ys = allocs (blocks s) xs"
proof -
  let ?a = "allocs (blocks s) xs"
  obtain p1 t1 y1 q1 n1 where 1: "kmalloc 32 s = Ret p1 t1" "heap_inv t1 y1 q1" "heap_frame s t1" "p1 \<noteq> 0"
    "length ps \<le> length q1 + 1" "?a p1 = None" "allocs (blocks t1) y1 = ?a(p1 \<mapsto> n1)"
    using small_room[OF inv _, of 32] pages by fastforce
  obtain p2 t2 y2 q2 n2 where 2: "kmalloc 64 t1 = Ret p2 t2" "heap_inv t2 y2 q2" "heap_frame t1 t2" "p2 \<noteq> 0"
    "length q1 \<le> length q2 + 1" "(?a(p1 \<mapsto> n1)) p2 = None" "allocs (blocks t2) y2 = ?a(p1 \<mapsto> n1, p2 \<mapsto> n2)"
    using small_room[OF 1(2) _, of 64] pages 1(5,7) by fastforce
  obtain p3 t3 y3 q3 n3 where 3: "kzalloc 24 t2 = Ret p3 t3" "heap_inv t3 y3 q3" "heap_frame t2 t3" "p3 \<noteq> 0"
    "length q2 \<le> length q3 + 1" "(?a(p1 \<mapsto> n1, p2 \<mapsto> n2)) p3 = None"
    "allocs (blocks t3) y3 = ?a(p1 \<mapsto> n1, p2 \<mapsto> n2, p3 \<mapsto> n3)"
    "\<forall>a. mem t3 a = (if a - p3 < 24 then 0 else mem t2 a)"
    using small_kzalloc[OF 2(2) _, of 24] pages 1(5) 2(5,7) by fastforce
  have ne: "p1 \<noteq> p2" "p1 \<noteq> p3" "p2 \<noteq> p3" "?a p2 = None" "?a p3 = None"
    using 1(6) 2(6) 3(6) by (auto split: if_splits)
  have "(of_nat i :: addr) < 24" if "i < 24" for i using that by (simp add: word_less_nat_alt unat_of_nat)
  then have zero: "\<not> (\<exists>i \<in> set [0..<24]. mem t3 (p3 + of_nat i) \<noteq> 0)" using 3(8) by simp
  obtain t4 y4 where 4: "kfree p2 t3 = Ret () t4" "heap_inv t4 y4 q3" "heap_frame t3 t4"
    "allocs (blocks t4) y4 = ?a(p1 \<mapsto> n1, p3 \<mapsto> n3)"
    using kfree_frame[OF 3(2), of p2 n2] 3(7) ne by (fastforce simp: fun_upd_twist)
  obtain t5 y5 where 5: "kfree p1 t4 = Ret () t5" "heap_inv t5 y5 q3" "heap_frame t4 t5"
    "allocs (blocks t5) y5 = ?a(p3 \<mapsto> n3)"
    using kfree_frame[OF 4(2), of p1 n1] 4(4) ne 1(6) by (fastforce simp: fun_upd_twist)
  obtain p6 t6 y6 q6 n6 where 6: "kmalloc 80 t5 = Ret p6 t6" "heap_inv t6 y6 q6" "heap_frame t5 t6" "p6 \<noteq> 0"
    "(?a(p3 \<mapsto> n3)) p6 = None" "allocs (blocks t6) y6 = ?a(p3 \<mapsto> n3, p6 \<mapsto> n6)"
    using small_room[OF 5(2) _, of 80] pages 1(5) 2(5) 3(5) 5(4) by fastforce
  obtain t7 y7 where 7: "kfree p6 t6 = Ret () t7" "heap_inv t7 y7 q6" "heap_frame t6 t7"
    "allocs (blocks t7) y7 = ?a(p3 \<mapsto> n3)"
    using kfree_frame[OF 6(2), of p6 n6] 6(5,6) by fastforce
  obtain t8 y8 where 8: "kfree p3 t7 = Ret () t8" "heap_inv t8 y8 q6" "heap_frame t7 t8"
    "allocs (blocks t8) y8 = ?a"
    using kfree_frame[OF 7(2), of p3 n3] 7(4) ne(5) by fastforce
  have "heap_frame s t8"
    using 1(3) 2(3) 3(3) 4(3) 5(3) 6(3) 7(3) 8(3) by (meson heap_frame_trans)
  then have so: "serial_out t8 = serial_out s" by (rule heap_frameD)
  have "heap_self_test s = Ret () (write_line ''heap ok'' t8)"
    unfolding heap_self_test_def using 1(1,4) 2(1,4) 3(1,4) 4(1) 5(1) 6(1,4) 7(1) 8(1) zero by simp
  moreover have "write_line ''heap ok'' t8 = t8\<lparr>serial_out := serial_out s @ ''heap ok'' @ [CHR 0x0D, CHR 0x0A]\<rparr>"
    using so by (simp add: write_line_def write_text_def serial_write_def)
  moreover have "heap_inv (t8\<lparr>serial_out := o'\<rparr>) y8 q6" for o'
    using 8(2) by (simp add: heap_inv_def palloc_inv_def)
  ultimately show ?thesis using 8(4) by fastforce
qed

section \<open>Witnesses\<close>

text \<open>An empty heap over four pages, and a heap of one page whose only block is in use, or free.\<close>

definition four_pages :: palloc_state where
  "four_pages = palloc_free 0x02003000 (palloc_free 0x02002000 two_pages)"

definition empty_heap :: heap_state where
  "empty_heap = palloc_state.extend four_pages \<lparr>heap_head = 0, blocks = (\<lambda>_. \<lparr>blk_magic = 0, blk_free = 0,
     blk_size = 0, blk_next = 0, blk_prev = 0\<rparr>)\<rparr>"

definition one_block :: "u32 \<Rightarrow> heap_state" where
  "one_block fr = empty_heap\<lparr>heap_head := 0x03000000, blocks := (\<lambda>_. \<lparr>blk_magic = heap_magic, blk_free = fr,
     blk_size = 4064, blk_next = 0, blk_prev = 0\<rparr>)\<rparr>"

lemma empty_heap_inv: "heap_inv empty_heap [] [0x02003000, 0x02002000, 0x02001000, 0x02000000]"
proof -
  have "palloc_inv (palloc_free 0x02002000 two_pages) [0x02002000, 0x02001000, 0x02000000]"
    by (rule palloc_free_inv[OF two_pages_inv]) (simp_all add: page_aligned_def)
  then have "palloc_inv four_pages [0x02003000, 0x02002000, 0x02001000, 0x02000000]"
    unfolding four_pages_def by (rule palloc_free_inv) (simp_all add: page_aligned_def)
  then have "palloc_inv empty_heap [0x02003000, 0x02002000, 0x02001000, 0x02000000]"
    by (simp add: palloc_inv_def empty_heap_def palloc_state.defs)
  then show ?thesis
    by (simp add: heap_inv_def heap_list_def coalesced_def span_def pages_apart_def)
      (simp add: empty_heap_def palloc_state.defs)
qed

lemma one_block_inv: "heap_inv (one_block fr) [0x03000000] [0x02003000, 0x02002000, 0x02001000, 0x02000000]"
proof -
  have "palloc_inv (one_block fr) [0x02003000, 0x02002000, 0x02001000, 0x02000000]"
    using empty_heap_inv by (simp add: heap_inv_def one_block_def palloc_inv_def)
  then show ?thesis
    by (simp add: heap_inv_def heap_list_def coalesced_def span_def pages_apart_def block_ok_def block_hi_def)
      (simp add: one_block_def)
qed

lemma one_block_allocs: "allocs (blocks (one_block 0)) [0x03000000] 0x03000020 = Some 4064"
  by (simp add: allocs_def one_block_def)

theorem kmalloc_correct_witness:
  "\<exists>p t ys qs. kmalloc 100 empty_heap = Ret p t \<and> heap_inv t ys qs \<and> p \<noteq> 0"
  using kmalloc_correct [OF empty_heap_inv, where sz = 100] by force

theorem kfree_correct_witness:
  "\<exists>t ys. kfree 0x03000020 (one_block 0) = Ret () t
     \<and> heap_inv t ys [0x02003000, 0x02002000, 0x02001000, 0x02000000]"
  using kfree_correct [OF one_block_inv one_block_allocs] by blast

theorem kfree_twice_halts_witness:
  "\<exists>t. kfree 0x03000020 (one_block 0) = Ret () t \<and> kfree 0x03000020 t = Halt (write_line ''heap free fail'' t)"
  using kfree_twice_halts [OF one_block_inv one_block_allocs] .

theorem heap_refines_allocator_witness:
  "\<exists>p t. kmalloc 16 (one_block 0) = Ret p t"
proof -
  have "heap_rep (one_block 0) (allocs (blocks (one_block 0)) [0x03000000])"
    unfolding heap_rep_def using one_block_inv by blast
  from heap_refines_allocator [OF this, where sz = 16] show ?thesis by auto
qed

theorem kmalloc_huge_request_witness:
  "\<exists>p t. kmalloc 0x100000000 (one_block 1) = Ret p t \<and> p \<noteq> 0"
  using kmalloc_huge_request [OF one_block_inv, where sz = "0x100000000" and fr1 = 1]
  by (auto simp: one_block_def)

theorem kzalloc_correct_witness:
  "\<exists>p t. kzalloc 48 empty_heap = Ret p t \<and> p \<noteq> 0 \<and> (\<forall>a. a - p < 48 \<longrightarrow> mem t a = 0)"
  using kzalloc_correct [OF empty_heap_inv, where sz = 48] by (auto split: if_splits)

theorem heap_self_test_passes_witness:
  "\<exists>t. heap_self_test empty_heap = Ret () t \<and> serial_out t = ''heap ok'' @ [CHR 0x0D, CHR 0x0A]"
proof -
  have "serial_out empty_heap = []"
    by (simp add: empty_heap_def palloc_state.defs four_pages_def two_pages_def boot_state_def palloc_free_def Let_def store64_def)
  with heap_self_test_passes [OF empty_heap_inv] show ?thesis by auto
qed

end
