(* ===== verification/Paging.thy ===== *)
theory Paging
  imports HeapSpec
begin

text \<open>
  \<open>src/kernel/paging.c\<close>: four-level page tables. A table is a page of 512 entries in physical memory,
  \<open>table[index]\<close> is \<open>entry_at s table index\<close>. The kernel runs on an identity map, so a table's
  address is the pointer the code dereferences. \<open>paging_kernel_pml4\<close> is the root of the kernel's tree; a
  user address space starts as a copy of that root and gets private tables where user pages are mapped.
\<close>

record paging_state = heap_state +
  paging_kernel_pml4 :: addr

section \<open>Entries\<close>

definition paging_present :: u64 where "paging_present = 0x001"
definition paging_writable :: u64 where "paging_writable = 0x002"
definition paging_user :: u64 where "paging_user = 0x004"
definition paging_flags_table :: u64 where "paging_flags_table = 0x003"
definition paging_flags_page :: u64 where "paging_flags_page = 0x003"
definition paging_page_size :: u64 where "paging_page_size = 4096"
definition paging_max_address :: u64 where "paging_max_address = 0x100000000"
definition paging_address_mask :: u64 where "paging_address_mask = 0x000FFFFFFFFFF000"

definition paging_user_trampoline_base :: addr where "paging_user_trampoline_base = 0x0000000040000000"
definition paging_user_image_base :: addr where "paging_user_image_base = 0x0000000040001000"
definition paging_user_stack_top :: addr where "paging_user_stack_top = 0x0000000040200000"

definition entry_at :: "'a machine_scheme \<Rightarrow> addr \<Rightarrow> u64 \<Rightarrow> u64" where
  "entry_at s table index = load64 s (table + 8 * index)"

definition set_entry :: "addr \<Rightarrow> u64 \<Rightarrow> u64 \<Rightarrow> 'a machine_scheme \<Rightarrow> 'a machine_scheme" where
  "set_entry table index entry s = store64 (table + 8 * index) entry s"

definition is_present :: "u64 \<Rightarrow> bool" where
  "is_present entry \<longleftrightarrow> entry AND paging_present \<noteq> 0"

definition entry_table :: "u64 \<Rightarrow> addr" where
  "entry_table entry = entry AND paging_address_mask"

definition entry_address :: "u64 \<Rightarrow> addr" where
  "entry_address entry = entry AND paging_address_mask"

definition pml4_index :: "addr \<Rightarrow> u64" where "pml4_index virtual = drop_bit 39 virtual AND 0x1FF"
definition pdpt_index :: "addr \<Rightarrow> u64" where "pdpt_index virtual = drop_bit 30 virtual AND 0x1FF"
definition pd_index :: "addr \<Rightarrow> u64" where "pd_index virtual = drop_bit 21 virtual AND 0x1FF"
definition pt_index :: "addr \<Rightarrow> u64" where "pt_index virtual = drop_bit 12 virtual AND 0x1FF"

section \<open>Tables\<close>

definition zero_page :: "addr \<Rightarrow> 'a machine_scheme \<Rightarrow> 'a machine_scheme" where
  "zero_page page s = fold (\<lambda>index s. set_entry page (of_nat index) 0 s) [0..<512] s"

definition alloc_table :: "'a palloc_state_scheme \<Rightarrow> addr \<times> 'a palloc_state_scheme" where
  "alloc_table s =
    (let (page, s) = palloc_alloc s
     in if page = 0 then (0, s) else (page, zero_page page s))"

definition copy_entries :: "addr \<Rightarrow> addr \<Rightarrow> 'a machine_scheme \<Rightarrow> 'a machine_scheme" where
  "copy_entries table src s =
     fold (\<lambda>index s. set_entry table (of_nat index) (entry_at s src (of_nat index)) s) [0..<512] s"

definition copy_table :: "addr \<Rightarrow> 'a palloc_state_scheme \<Rightarrow> addr \<times> 'a palloc_state_scheme" where
  "copy_table src s =
    (let (table, s) = alloc_table s
     in if table = 0 then (0, s) else (table, copy_entries table src s))"

definition get_or_create_next :: "addr \<Rightarrow> u64 \<Rightarrow> u64 \<Rightarrow> 'a palloc_state_scheme \<Rightarrow> addr \<times> 'a palloc_state_scheme" where
  "get_or_create_next table index flags s =
    (if is_present (entry_at s table index) then
       let s = (if flags AND paging_user \<noteq> 0
                then set_entry table index (entry_at s table index OR paging_user) s else s)
       in (entry_table (entry_at s table index), s)
     else
       let (next, s) = alloc_table s
       in if next = 0 then (0, s)
          else (next, set_entry table index (next OR paging_flags_table OR (flags AND paging_user)) s))"

definition map_page_4k :: "addr \<Rightarrow> addr \<Rightarrow> addr \<Rightarrow> u64 \<Rightarrow> 'a palloc_state_scheme \<Rightarrow> bool \<times> 'a palloc_state_scheme" where
  "map_page_4k pml4 virtual physical flags s =
    (let (pdpt, s) = get_or_create_next pml4 (pml4_index virtual) flags s
     in if pdpt = 0 then (False, s)
     else let (pd, s) = get_or_create_next pdpt (pdpt_index virtual) flags s
     in if pd = 0 then (False, s)
     else let (pt, s) = get_or_create_next pd (pd_index virtual) flags s
     in if pt = 0 then (False, s)
     else (True, set_entry pt (pt_index virtual) (physical OR flags) s))"

definition walk_to_pt :: "addr \<Rightarrow> addr \<Rightarrow> 'a machine_scheme \<Rightarrow> addr" where
  "walk_to_pt pml4 virtual s =
    (if \<not> is_present (entry_at s pml4 (pml4_index virtual)) then 0
     else let pdpt = entry_table (entry_at s pml4 (pml4_index virtual))
     in if \<not> is_present (entry_at s pdpt (pdpt_index virtual)) then 0
     else let pd = entry_table (entry_at s pdpt (pdpt_index virtual))
     in if \<not> is_present (entry_at s pd (pd_index virtual)) then 0
     else entry_table (entry_at s pd (pd_index virtual)))"

text \<open>
  The step \<open>ensure_private_user_path\<close> takes at each of the three levels: an entry that still points to the
  kernel's table gets a private copy of it, another present one gets the user bit.
\<close>

definition privatise_entry :: "addr \<Rightarrow> u64 \<Rightarrow> u64 \<Rightarrow> 'a palloc_state_scheme \<Rightarrow> bool \<times> 'a palloc_state_scheme" where
  "privatise_entry table index kernel_entry s =
    (let entry = entry_at s table index
     in if is_present entry \<and> entry_address entry = entry_address kernel_entry then
          let (clone, s) = copy_table (entry_table entry) s
          in if clone = 0 then (False, s)
             else (True, set_entry table index (clone OR paging_flags_table OR paging_user) s)
        else if is_present entry then (True, set_entry table index (entry OR paging_user) s)
        else (True, s))"

definition ensure_private_user_path :: "addr \<Rightarrow> addr \<Rightarrow> 'a paging_state_scheme \<Rightarrow> bool \<times> 'a paging_state_scheme" where
  "ensure_private_user_path pml4 virtual s =
    (let kernel_pml4_entry = entry_at s (paging_kernel_pml4 s) (pml4_index virtual);
         (ok, s) = privatise_entry pml4 (pml4_index virtual) kernel_pml4_entry s
     in if \<not> ok then (False, s)
     else
       let pdpt = entry_table (entry_at s pml4 (pml4_index virtual));
           kernel_pdpt = (if \<not> is_present kernel_pml4_entry then 0 else entry_table kernel_pml4_entry);
           kernel_pdpt_entry = (if kernel_pdpt = 0 then 0 else entry_at s kernel_pdpt (pdpt_index virtual));
           (ok, s) = privatise_entry pdpt (pdpt_index virtual) kernel_pdpt_entry s
     in if \<not> ok then (False, s)
     else if \<not> is_present (entry_at s pdpt (pdpt_index virtual)) then (True, s)
     else
       let pd = entry_table (entry_at s pdpt (pdpt_index virtual));
           kernel_pd = (if \<not> is_present kernel_pdpt_entry then 0 else entry_table kernel_pdpt_entry);
           kernel_pd_entry = (if kernel_pd = 0 then 0 else entry_at s kernel_pd (pd_index virtual))
       in privatise_entry pd (pd_index virtual) kernel_pd_entry s)"

section \<open>Setting up the kernel's map\<close>

definition highest_end_step :: "'a memmap_state_scheme \<Rightarrow> nat \<Rightarrow> addr \<Rightarrow> addr" where
  "highest_end_step s index highest =
    (case memmap_get_descriptor (of_nat index) s of
       None \<Rightarrow> highest
     | Some descriptor \<Rightarrow>
         let end64 = physical_start descriptor + number_of_pages descriptor * paging_page_size;
             end64 = (if paging_max_address < end64 then paging_max_address else end64)
         in if highest < end64 then end64 else highest)"

definition highest_physical_end :: "'a memmap_state_scheme \<Rightarrow> addr" where
  "highest_physical_end s =
    (let highest = fold (highest_end_step s) [0..<unat (memmap_get_descriptor_count s)] 0
     in if highest = 0 then 0
        else (highest + (paging_page_size - 1)) AND NOT (paging_page_size - 1))"

definition identity_body :: "addr \<Rightarrow> 'a paging_state_scheme \<Rightarrow> (addr, 'a paging_state_scheme) outcome" where
  "identity_body address s =
    (let (ok, s) = map_page_4k (paging_kernel_pml4 s) address address paging_flags_page s
     in if \<not> ok then arch_halt_forever s else Ret (address + paging_page_size) s)"

definition paging_initialize :: "'a paging_state_scheme \<Rightarrow> (unit, 'a paging_state_scheme) outcome" where
  "paging_initialize s =
    (let (table, s) = alloc_table s;
         s = s\<lparr>paging_kernel_pml4 := table\<rparr>
     in if paging_kernel_pml4 s = 0 then arch_halt_forever s
     else
       let limit = highest_physical_end s
       in if limit = 0 then arch_halt_forever s
          else chain (c_while (\<lambda>address s. address < limit) identity_body 0 s)
                 (\<lambda>_ s. Ret () (arch_load_cr3 (paging_kernel_pml4 s) s)))"

definition paging_kernel_address_space :: "'a paging_state_scheme \<Rightarrow> addr" where
  "paging_kernel_address_space s = paging_kernel_pml4 s"

section \<open>User address spaces\<close>

definition paging_create_user_address_space :: "'a paging_state_scheme \<Rightarrow> addr \<times> 'a paging_state_scheme" where
  "paging_create_user_address_space s =
    (let (pml4, s) = alloc_table s
     in if pml4 = 0 then (0, s) else (pml4, copy_entries pml4 (paging_kernel_pml4 s) s))"

definition paging_map_user_page ::
  "addr \<Rightarrow> addr \<Rightarrow> addr \<Rightarrow> 'a paging_state_scheme \<Rightarrow> (unit, 'a paging_state_scheme) outcome" where
  "paging_map_user_page address_space virtual physical s =
    (let virtual = virtual AND NOT (paging_page_size - 1);
         physical = physical AND NOT (paging_page_size - 1);
         pml4 = address_space;
         (ok, s) = (if address_space \<noteq> paging_kernel_pml4 s then ensure_private_user_path pml4 virtual s else (True, s))
     in if \<not> ok then arch_halt_forever s
     else
       let (ok, s) = map_page_4k pml4 virtual physical (paging_present OR paging_writable OR paging_user) s
       in if \<not> ok then arch_halt_forever s else Ret () s)"

definition paging_activate :: "addr \<Rightarrow> 'a machine_scheme \<Rightarrow> 'a machine_scheme" where
  "paging_activate address_space s = arch_load_cr3 address_space s"

definition paging_address_space_valid :: "addr \<Rightarrow> 'a paging_state_scheme \<Rightarrow> bool" where
  "paging_address_space_valid address_space s \<longleftrightarrow>
     address_space \<noteq> 0 \<and>
     (\<forall>index \<in> set [0..<512].
        entry_at s address_space (of_nat index) AND paging_present
          = entry_at s (paging_kernel_pml4 s) (of_nat index) AND paging_present)"

definition paging_mapping_matches :: "addr \<Rightarrow> addr \<Rightarrow> addr \<Rightarrow> bool \<Rightarrow> 'a machine_scheme \<Rightarrow> bool" where
  "paging_mapping_matches address_space virtual physical user_accessible s \<longleftrightarrow>
    (if address_space = 0 then False
     else
       let virtual = virtual AND NOT (paging_page_size - 1);
           physical = physical AND NOT (paging_page_size - 1);
           pt = walk_to_pt address_space virtual s
       in if pt = 0 then False
       else
         let entry = entry_at s pt (pt_index virtual)
         in if \<not> is_present entry then False
            else if entry AND 0x000FFFFFFFFFF000 \<noteq> physical then False
            else if user_accessible then entry AND paging_user \<noteq> 0
            else entry AND paging_user = 0)"

definition paging_mapping_is_supervisor_only :: "addr \<Rightarrow> addr \<Rightarrow> 'a machine_scheme \<Rightarrow> bool" where
  "paging_mapping_is_supervisor_only address_space virtual s =
     paging_mapping_matches address_space virtual virtual False s"

text \<open>
  The page loop of \<open>paging_user_range_mapped\<close>. It runs as long as \<open>user_page_ok\<close> holds and the last page is
  not reached; the answer is the check on the page it stops at.
\<close>

definition user_page_ok :: "addr \<Rightarrow> addr \<Rightarrow> 'a machine_scheme \<Rightarrow> bool" where
  "user_page_ok address_space page s \<longleftrightarrow>
    (let pt = walk_to_pt address_space page s
     in if pt = 0 then False
        else let entry = entry_at s pt (pt_index page)
             in \<not> (\<not> is_present entry \<or> entry AND paging_user = 0))"

definition paging_user_range_mapped :: "addr \<Rightarrow> addr \<Rightarrow> u64 \<Rightarrow> 'a machine_scheme \<Rightarrow> (bool, 'a machine_scheme) outcome" where
  "paging_user_range_mapped address_space virtual count s =
    (if address_space = 0 then Ret False s
     else if count = 0 then Ret True s
     else
       let start = virtual AND NOT (paging_page_size - 1);
           last = virtual + (count - 1)
       in if last < virtual then Ret False s
       else
         let last = last AND NOT (paging_page_size - 1)
         in chain (c_while (\<lambda>page s. user_page_ok address_space page s \<and> page \<noteq> last)
                     (\<lambda>page s. Ret (page + paging_page_size) s) start s)
              (\<lambda>page s. Ret (user_page_ok address_space page s) s))"

text \<open>\<open>struct user_virtual_layout\<close> from \<open>src/kernel/sched.h\<close>; \<open>None\<close> is the null pointer.\<close>

record user_virtual_layout =
  trampoline_base :: addr
  image_base :: addr
  stack_top :: addr

definition paging_release_user_address_space ::
  "addr \<Rightarrow> user_virtual_layout option \<Rightarrow> 'a paging_state_scheme \<Rightarrow> 'a paging_state_scheme" where
  "paging_release_user_address_space address_space layout_ptr s =
    (case layout_ptr of None \<Rightarrow> s | Some layout \<Rightarrow>
     if address_space = 0 \<or> address_space = paging_kernel_pml4 s then s
     else
       let base = trampoline_base layout;
           kernel_pml4_entry = entry_at s (paging_kernel_pml4 s) (pml4_index base);
           kernel_pdpt_address = entry_address kernel_pml4_entry
       in if \<not> is_present (entry_at s address_space (pml4_index base)) then palloc_free address_space s
       else
         let pdpt = entry_table (entry_at s address_space (pml4_index base));
             kernel_pdpt = kernel_pdpt_address;
             kernel_pd_address = (if kernel_pdpt = 0 then 0 else entry_address (entry_at s kernel_pdpt (pdpt_index base)));
             s = (if is_present (entry_at s pdpt (pdpt_index base)) then
                    let pd = entry_table (entry_at s pdpt (pdpt_index base));
                        kernel_pd = kernel_pd_address;
                        kernel_pt_address = (if kernel_pd = 0 then 0 else entry_address (entry_at s kernel_pd (pd_index base)));
                        s = (if is_present (entry_at s pd (pd_index base)) then
                               let pt = entry_table (entry_at s pd (pd_index base))
                               in if pt \<noteq> kernel_pt_address then palloc_free pt s else s
                             else s)
                    in if pd \<noteq> kernel_pd_address then palloc_free pd s else s
                  else s);
             s = (if pdpt \<noteq> kernel_pdpt_address then palloc_free pdpt s else s)
         in palloc_free address_space s)"

end
