(* ===== verification/PagingTree.thy ===== *)
theory PagingTree
  imports Paging
begin

text \<open>
  Page tables as trees. \<open>leaf s t is\<close> follows the indices \<open>is\<close> from table \<open>t\<close> and yields the last entry, 0 where
  the walk meets an absent entry. \<open>table_inv\<close> says which pages are tables (\<open>ow\<close>: the root of the tree
  a table belongs to, and its path from there), that no table is shared inside a tree, and that a user tree
  shares with the kernel's only at the same path. The lemmas show what each change of an entry does to every walk.
\<close>

section \<open>Reading entries after a write\<close>

lemma entry_set_entry [simp]:
  assumes "page_aligned t" "page_aligned u" "i < 512" "j < 512"
  shows "entry_at (set_entry t i v s) u j = (if u = t \<and> j = i then v else entry_at s u j)"
  using assms by (auto simp: entry_at_def set_entry_def load64_def store64_def)

definition mem_frame :: "'a machine_scheme \<Rightarrow> 'a machine_scheme \<Rightarrow> bool" where
  "mem_frame s t \<longleftrightarrow> (\<exists>m. t = s\<lparr>mem := m\<rparr>)"

lemma mem_frame_set_entry [simp]: "mem_frame s (set_entry t i v s)"
  by (auto simp: mem_frame_def set_entry_def store64_def)

lemma mem_frame_refl [simp]: "mem_frame s s"
  unfolding mem_frame_def by (rule exI[of _ "mem s"]) simp

lemma mem_frame_trans: "mem_frame s t \<Longrightarrow> mem_frame t u \<Longrightarrow> mem_frame s u"
  by (auto simp: mem_frame_def)

lemma index_nat: "n < 512 \<Longrightarrow> (of_nat n :: u64) < 512 \<and> unat (of_nat n :: u64) = n"
  by (simp add: word_less_nat_alt unat_of_nat)

text \<open>A loop that fills table \<open>t\<close>, from values that do not depend on \<open>t\<close>.\<close>

lemma fill_table:
  assumes t: "page_aligned t" and n: "n \<le> 512"
    and f: "\<And>k s1. k < n \<Longrightarrow> (\<forall>u j. page_aligned u \<longrightarrow> u \<noteq> t \<longrightarrow> j < 512 \<longrightarrow> entry_at s1 u j = entry_at s u j) \<Longrightarrow> f k s1 = g k"
  shows "\<forall>u j. page_aligned u \<longrightarrow> j < 512 \<longrightarrow>
    entry_at (fold (\<lambda>k s. set_entry t (of_nat k) (f k s) s) [0..<n] s) u j =
      (if u = t \<and> unat j < n then g (unat j) else entry_at s u j)"
  using n f
proof (induction n)
  case (Suc n)
  let ?s = "fold (\<lambda>k s. set_entry t (of_nat k) (f k s) s) [0..<n] s"
  have ih: "\<forall>u j. page_aligned u \<longrightarrow> j < 512 \<longrightarrow> entry_at ?s u j = (if u = t \<and> unat j < n then g (unat j) else entry_at s u j)"
    using Suc by simp
  then have fn: "f n ?s = g n" using Suc.prems(2)[of n ?s] by simp
  have nn: "(of_nat n :: u64) < 512" "unat (of_nat n :: u64) = n" using index_nat[of n] Suc.prems(1) by simp_all
  have "j = of_nat n \<longleftrightarrow> unat j = n" if "j < 512" for j :: u64 using nn(2) by auto
  then show ?case using ih nn t fn by (auto simp: less_Suc_eq)
qed simp

lemma fill_table_frame: "mem_frame s (fold (\<lambda>k s. set_entry t (of_nat k) (f k s) s) ks s)"
proof (induction ks arbitrary: s)
  case (Cons k ks)
  then show ?case using mem_frame_trans[OF mem_frame_set_entry Cons.IH] by simp
qed simp

lemma palloc_inv_set_entry:
  assumes "palloc_inv s ps" "t \<notin> set ps" "page_aligned t" "i < 512"
  shows "palloc_inv (set_entry t i v s) ps"
proof -
  have "t + 8 * i \<notin> set ps"
  proof
    assume a: "t + 8 * i \<in> set ps"
    then have "page_aligned (t + 8 * i + 8 * 0)" using palloc_inv_page[OF assms(1)] by simp
    then have "t + 8 * i + 8 * 0 = t + 8 * i \<longleftrightarrow> t + 8 * i = t \<and> 0 = i"
      using entry_eq_iff[of "t + 8 * i" t 0 i] assms(3,4) by simp
    with a assms(2) show False by simp
  qed
  then show ?thesis using assms by (simp add: palloc_inv_def set_entry_def store64_def chain_list_wr64)
qed

lemma palloc_inv_fill:
  assumes "palloc_inv s ps" "t \<notin> set ps" "page_aligned t" "n \<le> 512"
  shows "palloc_inv (fold (\<lambda>k s. set_entry t (of_nat k) (f k s) s) [0..<n] s) ps"
  using assms(4)
proof (induction n)
  case (Suc n)
  then show ?case using index_nat[of n] assms(2,3) by (simp add: palloc_inv_set_entry)
qed (use assms(1) in simp)

lemma zero_page_entries:
  assumes "page_aligned t" "page_aligned u" "j < 512"
  shows "entry_at (zero_page t s) u j = (if u = t then 0 else entry_at s u j)"
  using fill_table[of t 512 s "\<lambda>_ _. 0" "\<lambda>_. 0"] assms unfolding zero_page_def
  by (auto simp: word_less_nat_alt)

lemma copy_entries_entries:
  assumes "page_aligned t" "page_aligned src" "src \<noteq> t" "page_aligned u" "j < 512"
  shows "entry_at (copy_entries t src s) u j = (if u = t then entry_at s src j else entry_at s u j)"
  using fill_table[of t 512 s "\<lambda>k s. entry_at s src (of_nat k)" "\<lambda>k. entry_at s src (of_nat k)"] assms
  unfolding copy_entries_def by (auto simp: word_less_nat_alt index_nat)

section \<open>Memory outside the tables\<close>

text \<open>Only bytes of the pages \<open>P\<close> may differ.\<close>

definition same_outside :: "addr set \<Rightarrow> 'a machine_scheme \<Rightarrow> 'a machine_scheme \<Rightarrow> bool" where
  "same_outside P s t \<longleftrightarrow> (\<forall>a. a AND NOT 4095 \<notin> P \<longrightarrow> mem t a = mem s a)"

lemma same_outside_refl [simp]: "same_outside P s s"
  by (simp add: same_outside_def)

lemma same_outside_trans: "same_outside P s t \<Longrightarrow> same_outside Q t u \<Longrightarrow> Q \<subseteq> P \<Longrightarrow> same_outside P s u"
  unfolding same_outside_def by (metis subsetD)

lemma same_outside_mono: "same_outside P s t \<Longrightarrow> P \<subseteq> Q \<Longrightarrow> same_outside Q s t"
  unfolding same_outside_def by blast

lemma same_page_offset:
  assumes "page_aligned p" "k < 4096"
  shows "(p + of_nat k) AND NOT 4095 = p" "unat (p + of_nat k) = unat p + k"
proof -
  obtain j where j: "unat p = 4096 * j" "j < 4503599627370496" using assms(1) by (rule page_alignedE)
  then have "unat p + k < 18446744073709551616" using assms(2) by linarith
  then show u: "unat (p + of_nat k) = unat p + k" using assms(2) by (simp add: unat_word_ariths unat_of_nat)
  have "(unat p + k) div 4096 = j" using j assms(2) by simp
  then have "unat ((p + of_nat k) AND NOT 4095) = unat p" using j u by (simp add: unat_page_floor_minus)
  then show "(p + of_nat k) AND NOT 4095 = p" by (simp add: word_unat_eq_iff)
qed

lemma same_outside_set_entry:
  assumes "page_aligned t" "t \<in> P" "i < 512"
  shows "same_outside P s (set_entry t i v s)"
  unfolding same_outside_def
proof (intro allI impI)
  fix a :: addr assume a: "a AND NOT 4095 \<notin> P"
  have "\<not> a - (t + 8 * i) < 8"
  proof
    assume l: "a - (t + 8 * i) < 8"
    define k where "k = unat (a - (t + 8 * i))"
    have "8 * unat i + k < 4096" using l assms(3) by (simp add: k_def word_less_nat_alt)
    moreover have "a = t + of_nat (8 * unat i + k)" by (simp add: k_def)
    ultimately show False using same_page_offset(1)[OF assms(1)] a assms(2) by metis
  qed
  then show "mem (set_entry t i v s) a = mem s a" by (simp add: set_entry_def store64_def wr64_def)
qed

lemma same_outside_fill:
  assumes "page_aligned t" "t \<in> P" "n \<le> 512"
  shows "same_outside P s (fold (\<lambda>k s. set_entry t (of_nat k) (f k s) s) [0..<n] s)"
  using assms(3)
proof (induction n)
  case (Suc n)
  then show ?case using index_nat[of n] by (auto intro: same_outside_trans same_outside_set_entry[OF assms(1,2)])
qed simp

section \<open>Allocating tables\<close>

definition pages_frame :: "'a palloc_state_scheme \<Rightarrow> 'a palloc_state_scheme \<Rightarrow> bool" where
  "pages_frame s t \<longleftrightarrow> (\<exists>m f c. t = s\<lparr>mem := m, free_list_head := f, free_page_count := c\<rparr>)"

lemma pages_frameI: "pages_frame s (s\<lparr>mem := m, free_list_head := f, free_page_count := c\<rparr>)"
  unfolding pages_frame_def by (intro exI, rule refl)

lemma mem_pages_frame: "mem_frame s t \<Longrightarrow> pages_frame (s :: 'a palloc_state_scheme) t"
  using pages_frameI[where s = s and m = "mem t" and f = "free_list_head s" and c = "free_page_count s"]
  by (auto simp: mem_frame_def)

lemma pages_frame_refl [simp]: "pages_frame s s"
  by (rule mem_pages_frame) simp

lemma pages_frame_trans: "pages_frame s t \<Longrightarrow> pages_frame t u \<Longrightarrow> pages_frame s u"
  unfolding pages_frame_def by (elim exE, simp, intro exI, rule refl)

lemma alloc_table_spec:
  assumes inv: "palloc_inv s (t # ps)"
  shows "\<exists>s'. alloc_table s = (t, s') \<and> palloc_inv s' ps \<and> pages_frame s s' \<and> t \<noteq> 0 \<and> page_aligned t \<and> t \<notin> set ps
    \<and> (\<forall>u j. page_aligned u \<longrightarrow> j < 512 \<longrightarrow> entry_at s' u j = (if u = t then 0 else entry_at s u j))
    \<and> same_outside {t} s s'"
proof -
  define s1 where "s1 = snd (palloc_alloc s)"
  have a: "palloc_alloc s = (t, s1)" "palloc_inv s1 ps" "mem s1 = mem s"
    using palloc_alloc_Cons[OF inv] by (auto simp: s1_def)
  have f1: "pages_frame s s1" using palloc_alloc_Cons(1)[OF inv] a(1)
      pages_frameI[where s = s and m = "mem s" and f = "rd64 (mem s) t" and c = "of_nat (length ps)"] by simp
  have t: "t \<noteq> 0" "page_aligned t" "t \<notin> set ps" using palloc_inv_page[OF inv] palloc_inv_distinct[OF inv] by auto
  have e1: "entry_at s1 u j = entry_at s u j" for u j using a(3) by (simp add: entry_at_def load64_def)
  have "alloc_table s = (t, zero_page t s1)" using a(1) t(1) by (simp add: alloc_table_def)
  moreover have "palloc_inv (zero_page t s1) ps"
    unfolding zero_page_def using palloc_inv_fill[OF a(2) t(3,2), of 512 "\<lambda>_ _. 0"] by simp
  moreover have "pages_frame s (zero_page t s1)"
    using pages_frame_trans[OF f1 mem_pages_frame] fill_table_frame[of s1 t "\<lambda>_ _. 0"] by (simp add: zero_page_def)
  moreover have "same_outside {t} s (zero_page t s1)"
    using same_outside_fill[OF t(2), of "{t}" 512 s1 "\<lambda>_ _. 0"] a(3) by (simp add: zero_page_def same_outside_def)
  ultimately show ?thesis using t e1 by (auto simp: zero_page_entries[OF t(2)])
qed

lemma alloc_table_none: "palloc_inv s [] \<Longrightarrow> alloc_table s = (0, s)"
  by (simp add: alloc_table_def palloc_alloc_empty)


section \<open>Walks\<close>

fun leaf :: "'a machine_scheme \<Rightarrow> addr \<Rightarrow> u64 list \<Rightarrow> u64" where
  "leaf s t [] = 0"
| "leaf s t [i] = entry_at s t i"
| "leaf s t (i # j # is) =
     (if is_present (entry_at s t i) then leaf s (entry_address (entry_at s t i)) (j # is) else 0)"

fun table_of :: "'a machine_scheme \<Rightarrow> addr \<Rightarrow> u64 list \<Rightarrow> addr option" where
  "table_of s t [] = Some t"
| "table_of s t (i # is) =
     (if is_present (entry_at s t i) then table_of s (entry_address (entry_at s t i)) is else None)"

lemma table_of_append:
  "table_of s t (is @ js) = (case table_of s t is of None \<Rightarrow> None | Some u \<Rightarrow> table_of s u js)"
  by (induction "is" arbitrary: t) auto

lemma leaf_table_of:
  "leaf s t (is @ [j]) = (case table_of s t is of None \<Rightarrow> 0 | Some u \<Rightarrow> entry_at s u j)"
proof (induction "is" arbitrary: t)
  case (Cons i ks)
  then show ?case by (cases ks) auto
qed simp

definition indices :: "addr \<Rightarrow> u64 list" where
  "indices v = [pml4_index v, pdpt_index v, pd_index v, pt_index v]"

text \<open>
  The entry of the page that a four-level walk from root \<open>r\<close> finds at the low 48 bits of the virtual address \<open>v\<close>. The
  processor's own view, with the rights of all levels and canonical addresses, is \<open>mmu\<close> in \<open>Mmu\<close>.
\<close>

definition translate :: "'a machine_scheme \<Rightarrow> addr \<Rightarrow> addr \<Rightarrow> u64 option" where
  "translate s r v = (let e = leaf s r (indices v) in if is_present e then Some e else None)"

lemma index_lt [simp]: "pml4_index v < 512" "pdpt_index v < 512" "pd_index v < 512" "pt_index v < 512"
  unfolding pml4_index_def pdpt_index_def pd_index_def pt_index_def
  by (rule le_less_trans[OF word_and_le1], simp)+

text \<open>Table pointers and flag bits.\<close>

lemma is_present_bit: "is_present e \<longleftrightarrow> bit e 0"
  by (simp add: is_present_def paging_present_def and_one_eq bit_0 odd_iff_mod_2_eq_one)

lemma and_or_distrib: "((a::u64) OR b) AND c = (a AND c) OR (b AND c)"
  by (rule bit_word_eqI) (auto simp: bit_simps)

definition pointer_ok :: "addr \<Rightarrow> bool" where
  "pointer_ok a \<longleftrightarrow> a AND paging_address_mask = a"

lemma table_entry:
  assumes "pointer_ok n"
  shows "is_present (n OR paging_flags_table OR (flags AND paging_user))"
    "entry_address (n OR paging_flags_table OR (flags AND paging_user)) = n"
    "is_present (n OR paging_flags_table OR paging_user)"
    "entry_address (n OR paging_flags_table OR paging_user) = n"
proof -
  have z: "(flags AND paging_user) AND paging_address_mask = 0" "paging_user AND paging_address_mask = 0"
    "paging_flags_table AND paging_address_mask = 0"
    unfolding and.assoc by (simp_all add: paging_user_def paging_address_mask_def paging_flags_table_def)
  show "is_present (n OR paging_flags_table OR (flags AND paging_user))"
    "is_present (n OR paging_flags_table OR paging_user)"
    by (simp_all add: is_present_bit bit_simps paging_flags_table_def)
  show "entry_address (n OR paging_flags_table OR (flags AND paging_user)) = n"
    "entry_address (n OR paging_flags_table OR paging_user) = n"
    using assms z by (simp_all add: entry_address_def and_or_distrib pointer_ok_def)
qed

lemma user_bit:
  "is_present (e OR paging_user) = is_present e" "entry_address (e OR paging_user) = entry_address e"
proof -
  have "paging_user AND paging_address_mask = 0" by (simp add: paging_user_def paging_address_mask_def)
  then show "entry_address (e OR paging_user) = entry_address e" by (simp add: entry_address_def and_or_distrib)
  show "is_present (e OR paging_user) = is_present e"
    by (simp add: is_present_bit bit_simps paging_user_def)
qed

section \<open>The invariant\<close>

type_synonym owners = "addr \<Rightarrow> (addr \<times> u64 list) option"

definition owned :: "owners \<Rightarrow> addr list \<Rightarrow> bool" where
  "owned ow ps \<longleftrightarrow> (\<forall>t r p. ow t = Some (r, p) \<longrightarrow>
     t \<noteq> 0 \<and> page_aligned t \<and> t \<notin> set ps \<and> length p \<le> 3 \<and> (p = [] \<longleftrightarrow> t = r) \<and> pointer_ok t)"

definition child_ok :: "'a machine_scheme \<Rightarrow> addr \<Rightarrow> owners \<Rightarrow> bool" where
  "child_ok s K ow \<longleftrightarrow> (\<forall>t r p i. ow t = Some (r, p) \<longrightarrow> length p < 3 \<longrightarrow> i < 512 \<longrightarrow>
     (if is_present (entry_at s t i)
      then ow (entry_address (entry_at s t i)) = Some (r, p @ [i]) \<or> ow (entry_address (entry_at s t i)) = Some (K, p @ [i])
      else entry_at s t i = 0))"

definition parent_ok :: "'a machine_scheme \<Rightarrow> owners \<Rightarrow> bool" where
  "parent_ok s ow \<longleftrightarrow> (\<forall>t r p i. ow t = Some (r, p @ [i]) \<longrightarrow>
     (\<exists>u. ow u = Some (r, p) \<and> i < 512 \<and> is_present (entry_at s u i) \<and> entry_address (entry_at s u i) = t))"

text \<open>
  The access rights an entry carries, in the processor's bits: 1 is write access, 2 is user access. A pointer to a
  table is present and writable and sets nothing else but perhaps the user bit, and it has the user bit wherever an
  entry of the table it points to has it, so that no upper level takes back what a page's entry grants.
\<close>

definition link_ok :: "u64 \<Rightarrow> bool" where
  "link_ok e \<longleftrightarrow> e = (e AND 0x000FFFFFFFFFF000) OR 3 OR (e AND 4)"

definition rights_ok :: "'a machine_scheme \<Rightarrow> owners \<Rightarrow> bool" where
  "rights_ok s ow \<longleftrightarrow> (\<forall>t r p i. ow t = Some (r, p) \<longrightarrow> length p < 3 \<longrightarrow> i < 512 \<longrightarrow> is_present (entry_at s t i) \<longrightarrow>
     link_ok (entry_at s t i)
     \<and> (\<forall>j < 512. bit (entry_at s (entry_address (entry_at s t i)) j) 2 \<longrightarrow> bit (entry_at s t i) 2))"

lemma bit_four: "bit (4 :: u64) n \<longleftrightarrow> n = 2"
proof
  assume b: "bit (4 :: u64) n"
  show "n = 2"
  proof (rule ccontr)
    assume "n \<noteq> 2"
    then consider "n = 0" | "n = 1" | m where "n = Suc (Suc (Suc m))" by (metis One_nat_def Suc_1 not0_implies_Suc)
    then show False using b by cases (simp_all add: bit_numeral_rec bit_Suc)
  qed
qed simp

lemma user_flag: "(e :: u64) AND paging_user = (if bit e 2 then 4 else 0)"
proof (rule bit_word_eqI)
  fix n
  have "bit (if bit e 2 then 4 else 0 :: u64) n \<longleftrightarrow> bit e 2 \<and> n = 2" using bit_four[of n] by (cases "bit e 2") simp_all
  moreover have "bit (e AND paging_user) n \<longleftrightarrow> bit e n \<and> n = 2" unfolding bit_and_iff paging_user_def bit_four ..
  ultimately show "bit (e AND paging_user) n \<longleftrightarrow> bit (if bit e 2 then 4 else 0 :: u64) n" by auto
qed

lemma pointer_user:
  assumes "pointer_ok n"
  shows "\<not> bit n 2"
proof -
  have "\<not> bit (n AND paging_address_mask) 2" by (simp add: bit_simps paging_address_mask_def)
  then show ?thesis using assms unfolding pointer_ok_def by simp
qed

lemma link_table:
  assumes "pointer_ok n"
  shows "link_ok (n OR paging_flags_table OR (flags AND paging_user))" "link_ok (n OR paging_flags_table OR paging_user)"
    "bit (n OR paging_flags_table OR (flags AND paging_user)) 2 \<longleftrightarrow> flags AND paging_user \<noteq> 0"
    "bit (n OR paging_flags_table OR paging_user) 2"
proof -
  have u: "bit (n OR paging_flags_table OR f) 2 \<longleftrightarrow> bit f 2" for f
    using pointer_user[OF assms] by (simp add: bit_simps paging_flags_table_def)
  have f: "f AND 4 = (if bit f 2 then 4 else 0)" for f :: u64 using user_flag[of f] by (simp add: paging_user_def)
  have l: "link_ok (n OR paging_flags_table OR f)" if "f = 0 \<or> f = 4" for f
  proof -
    have "(n OR paging_flags_table OR f) AND 0x000FFFFFFFFFF000 = n"
      using assms that by (auto simp: pointer_ok_def paging_address_mask_def paging_flags_table_def and_or_distrib)
    then show ?thesis unfolding link_ok_def f u using that by (auto simp: paging_flags_table_def)
  qed
  show "link_ok (n OR paging_flags_table OR (flags AND paging_user))" by (rule l) (simp add: user_flag)
  show "link_ok (n OR paging_flags_table OR paging_user)" by (rule l) (simp add: paging_user_def)
  show "bit (n OR paging_flags_table OR (flags AND paging_user)) 2 \<longleftrightarrow> flags AND paging_user \<noteq> 0"
    unfolding u by (simp add: user_flag)
  show "bit (n OR paging_flags_table OR paging_user) 2" unfolding u by (simp add: paging_user_def)
qed

lemma link_user:
  assumes "link_ok e"
  shows "link_ok (e OR paging_user)" "bit (e OR paging_user) 2"
proof -
  have z: "(e OR paging_user) AND 0x000FFFFFFFFFF000 = e AND 0x000FFFFFFFFFF000"
    by (simp add: and_or_distrib paging_user_def)
  have "(e OR paging_user) AND 4 = 4 OR (e AND 4)" by (rule bit_word_eqI) (auto simp: bit_simps paging_user_def)
  moreover have "e OR 4 = (e AND 0x000FFFFFFFFFF000) OR 3 OR (4 OR (e AND 4))"
    using arg_cong[OF assms[unfolded link_ok_def], of "\<lambda>x. x OR 4"] by (simp only: ac_simps)
  ultimately show "link_ok (e OR paging_user)" unfolding link_ok_def z by (simp only: paging_user_def)
  show "bit (e OR paging_user) 2" by (simp add: bit_simps paging_user_def)
qed

text \<open>Every pointer to table \<open>t\<close> has the user bit.\<close>

definition user_links :: "'a machine_scheme \<Rightarrow> owners \<Rightarrow> addr \<Rightarrow> bool" where
  "user_links s ow t \<longleftrightarrow> (\<forall>u r q i. ow u = Some (r, q) \<longrightarrow> length q < 3 \<longrightarrow> i < 512 \<longrightarrow> is_present (entry_at s u i) \<longrightarrow>
     entry_address (entry_at s u i) = t \<longrightarrow> bit (entry_at s u i) 2)"

definition table_inv :: "'a palloc_state_scheme \<Rightarrow> addr \<Rightarrow> owners \<Rightarrow> addr list \<Rightarrow> bool" where
  "table_inv s K ow ps \<longleftrightarrow> palloc_inv s ps \<and> (\<forall>p \<in> set ps. pointer_ok p)
     \<and> owned ow ps \<and> child_ok s K ow \<and> parent_ok s ow \<and> ow K = Some (K, []) \<and> rights_ok s ow"

lemma ownedD:
  "owned ow ps \<Longrightarrow> ow t = Some (r, p) \<Longrightarrow> t \<noteq> 0 \<and> page_aligned t \<and> t \<notin> set ps \<and> length p \<le> 3 \<and> (p = [] \<longleftrightarrow> t = r) \<and> pointer_ok t"
  by (simp add: owned_def)

lemma child_okD:
  assumes "child_ok s K ow" "ow t = Some (r, p)" "length p < 3" "i < 512" "is_present (entry_at s t i)"
  shows "\<exists>r'. (r' = r \<or> r' = K) \<and> ow (entry_address (entry_at s t i)) = Some (r', p @ [i])"
proof -
  have "if is_present (entry_at s t i)
      then ow (entry_address (entry_at s t i)) = Some (r, p @ [i]) \<or> ow (entry_address (entry_at s t i)) = Some (K, p @ [i])
      else entry_at s t i = 0" using assms(1-4) unfolding child_ok_def by blast
  with assms(5) show ?thesis by auto
qed

lemma child_absent:
  assumes "child_ok s K ow" "ow t = Some (r, p)" "length p < 3" "i < 512" "\<not> is_present (entry_at s t i)"
  shows "entry_at s t i = 0"
  using assms unfolding child_ok_def by meson

lemma rights_okD:
  assumes "rights_ok s ow" "ow t = Some (r, p)" "length p < 3" "i < 512" "is_present (entry_at s t i)"
  shows "link_ok (entry_at s t i)"
    "j < 512 \<Longrightarrow> bit (entry_at s (entry_address (entry_at s t i)) j) 2 \<Longrightarrow> bit (entry_at s t i) 2"
  using assms unfolding rights_ok_def by blast+

text \<open>Rights depend on the entries of the tables only.\<close>

lemma rights_ok_cong:
  assumes "rights_ok s ow" "child_ok s K ow"
    and e: "\<And>u r q j. ow u = Some (r, q) \<Longrightarrow> j < 512 \<Longrightarrow> entry_at s' u j = entry_at s u j"
  shows "rights_ok s' ow"
  unfolding rights_ok_def
proof (intro allI impI)
  fix t r p i assume t: "ow t = Some (r, p)" "length p < 3" "i < (512 :: u64)" "is_present (entry_at s' t i)"
  have eq: "entry_at s' t i = entry_at s t i" by (rule e[OF t(1,3)])
  then have pr: "is_present (entry_at s t i)" using t(4) by simp
  from child_okD[OF assms(2) t(1-3) pr] obtain r' where c: "ow (entry_address (entry_at s t i)) = Some (r', p @ [i])" by blast
  show "link_ok (entry_at s' t i) \<and> (\<forall>j < 512. bit (entry_at s' (entry_address (entry_at s' t i)) j) 2 \<longrightarrow> bit (entry_at s' t i) 2)"
    using rights_okD[OF assms(1) t(1-3) pr] e[OF c] unfolding eq by simp
qed

text \<open>Nothing points to a root.\<close>

lemma user_links_root:
  assumes "owned ow ps" "child_ok s K ow" "ow R = Some (R, [])"
  shows "user_links s ow R"
  unfolding user_links_def
proof (intro allI impI)
  fix u r q i assume u: "ow u = Some (r, q)" "length q < 3" "i < (512 :: u64)" "is_present (entry_at s u i)"
    "entry_address (entry_at s u i) = R"
  from child_okD[OF assms(2) u(1-4)] u(5) assms(3) show "bit (entry_at s u i) 2" by auto
qed

text \<open>Two tables of one tree at the same path are the same table.\<close>

lemma owner_unique:
  assumes "owned ow ps" "parent_ok s ow"
  shows "ow t = Some (r, p) \<Longrightarrow> ow u = Some (r, p) \<Longrightarrow> t = u"
proof (induction p arbitrary: t u rule: rev_induct)
  case Nil
  then show ?case using ownedD[OF assms(1)] by metis
next
  case (snoc i p)
  then show ?case using assms(2) unfolding parent_ok_def by metis
qed

lemma owner_table_of:
  assumes "owned ow ps" "parent_ok s ow"
  shows "ow t = Some (r, p) \<Longrightarrow> table_of s r p = Some t"
proof (induction p arbitrary: t rule: rev_induct)
  case Nil
  then show ?case using ownedD[OF assms(1)] by fastforce
next
  case (snoc i p)
  then obtain u where "ow u = Some (r, p)" "is_present (entry_at s u i)" "entry_address (entry_at s u i) = t"
    using assms(2) unfolding parent_ok_def by metis
  with snoc.IH show ?case by (simp add: table_of_append)
qed

lemma table_of_owner:
  assumes "child_ok s K ow"
  shows "ow x = Some (r, q) \<Longrightarrow> table_of s x is = Some t \<Longrightarrow> length q + length is \<le> 3 \<Longrightarrow> \<forall>i \<in> set is. i < 512 \<Longrightarrow>
    \<exists>r'. (r' = r \<or> r' = K) \<and> ow t = Some (r', q @ is)"
proof (induction "is" arbitrary: x r q)
  case (Cons i ks)
  then have p: "is_present (entry_at s x i)" "table_of s (entry_address (entry_at s x i)) ks = Some t" "i < 512"
    by (auto split: if_splits)
  obtain r1 where r1: "r1 = r \<or> r1 = K" "ow (entry_address (entry_at s x i)) = Some (r1, q @ [i])"
    using child_okD[OF assms Cons.prems(1) _ p(3,1)] Cons.prems(3) by auto
  from Cons.IH[OF r1(2) p(2)] Cons.prems(3,4) r1(1) show ?case by auto
qed auto

text \<open>One entry points to a private table: the one of its parent.\<close>

lemma user_links_child:
  assumes inv: "owned ow ps" "child_ok s K ow" "parent_ok s ow" and R: "R \<noteq> K"
    and t: "ow t = Some (R, p)" and c: "ow c = Some (R, p @ [i])" and b: "bit (entry_at s t i) 2"
  shows "user_links s ow c"
  unfolding user_links_def
proof (intro allI impI)
  fix u r q j assume u: "ow u = Some (r, q)" "length q < 3" "j < (512 :: u64)" "is_present (entry_at s u j)"
    "entry_address (entry_at s u j) = c"
  from child_okD[OF inv(2) u(1-4)] u(5) c R have "r = R" "q = p" "j = i" by auto
  then have "u = t" using owner_unique[OF inv(1,3)] u(1) t by blast
  then show "bit (entry_at s u j) 2" using b \<open>j = i\<close> by simp
qed

section \<open>Changes that no walk sees\<close>

text \<open>The entry \<open>(t, i)\<close> of an upper table changes its flags.\<close>

lemma leaf_flags:
  assumes inv: "owned ow ps" "child_ok s K ow" and t: "ow t = Some (rt, p)" "length p < 3" "i < 512"
    and v: "is_present (entry_at s t i)" "is_present v" "entry_address v = entry_address (entry_at s t i)"
  shows "ow x = Some (r, q) \<Longrightarrow> length q + length is = 4 \<Longrightarrow> \<forall>j \<in> set is. j < 512 \<Longrightarrow>
    leaf (set_entry t i v s) x is = leaf s x is"
proof (induction "is" arbitrary: x r q rule: induct_list012)
  case (2 j)
  then have "length q = 3" by simp
  with 2 t have "x \<noteq> t" by auto
  with 2 t show ?case using ownedD[OF inv(1)] by auto
next
  case (3 j k js)
  have e: "entry_at (set_entry t i v s) x j = (if x = t \<and> j = i then v else entry_at s x j)"
    using 3(3,5) t ownedD[OF inv(1)] by simp
  have l: "length q < 3" using 3(4) by simp
  show ?case
  proof (cases "is_present (entry_at s x j)")
    case True
    then obtain r1 where "ow (entry_address (entry_at s x j)) = Some (r1, q @ [j])"
      using child_okD[OF inv(2) 3(3) l] 3(5) by auto
    from 3(2)[OF this] 3(4,5) have "leaf (set_entry t i v s) (entry_address (entry_at s x j)) (k # js)
        = leaf s (entry_address (entry_at s x j)) (k # js)" by simp
    with True e v show ?thesis by auto
  next
    case False
    with e v show ?thesis by auto
  qed
qed auto


text \<open>
  The entry \<open>(t, i)\<close> is redirected to a fresh table \<open>n\<close> with the contents of the table it pointed to, or
  empty if it was absent.
\<close>

lemma leaf_redirect:
  assumes inv: "owned ow ps" "child_ok s K ow" and t: "ow t = Some (rt, p)" "length p < 3" "i < 512"
    and n: "ow n = None" "page_aligned n"
    and v: "is_present v" "entry_address v = n"
    and g: "\<And>j. j < 512 \<Longrightarrow> g j = (if is_present (entry_at s t i) then entry_at s (entry_address (entry_at s t i)) j else 0)"
    and e: "\<And>u j. page_aligned u \<Longrightarrow> j < 512 \<Longrightarrow>
        entry_at s' u j = (if u = t \<and> j = i then v else if u = n then g j else entry_at s u j)"
  shows "ow x = Some (r, q) \<Longrightarrow> length q + length is = 4 \<Longrightarrow> \<forall>j \<in> set is. j < 512 \<Longrightarrow> leaf s' x is = leaf s x is"
proof (induction "is" arbitrary: x r q rule: induct_list012)
  case (2 j)
  then have "length q = 3" by simp
  with 2 t n have "x \<noteq> t" "x \<noteq> n" by auto
  with 2 show ?case using ownedD[OF inv(1)] e by auto
next
  case (3 j k js)
  have x: "page_aligned x" "x \<noteq> n" "length q < 3" using 3(3,4) ownedD[OF inv(1)] n by auto
  have nt: "n \<noteq> t" using n t by auto
  have jk: "j < 512" "k < 512" "\<forall>i \<in> set (k # js). i < 512" using 3(5) by auto
  have ex: "entry_at s' x j = (if x = t \<and> j = i then v else entry_at s x j)" using e[OF x(1) jk(1)] x(2) by simp
  have ih: "leaf s' (entry_address (entry_at s x j)) (k # js) = leaf s (entry_address (entry_at s x j)) (k # js)"
    if pr: "is_present (entry_at s x j)"
  proof -
    obtain r1 where "ow (entry_address (entry_at s x j)) = Some (r1, q @ [j])"
      using child_okD[OF inv(2) 3(3) x(3) jk(1) pr] by blast
    from 3(2)[OF this _ jk(3)] 3(4) show ?thesis by simp
  qed
  show ?case
  proof (cases "x = t \<and> j = i")
    case False
    with ex ih show ?thesis by simp
  next
    case True
    with ex v have l: "leaf s' x (j # k # js) = leaf s' n (k # js)" by simp
    have en: "entry_at s' n k = g k" using e[OF n(2) jk(2)] nt by simp
    show ?thesis
    proof (cases "is_present (entry_at s t i)")
      case False
      with en g[OF jk(2)] have "entry_at s' n k = 0" by simp
      then have "leaf s' n (k # js) = 0" by (cases js) (simp_all add: is_present_def)
      with l True False show ?thesis by simp
    next
      case present: True
      let ?c = "entry_address (entry_at s t i)"
      obtain r1 where c: "ow ?c = Some (r1, p @ [i])" using child_okD[OF inv(2) t(1,2,3) present] by blast
      then have "?c \<noteq> t" "?c \<noteq> n" "page_aligned ?c" using t n ownedD[OF inv(1) c] by auto
      then have "entry_at s' ?c k = entry_at s ?c k" using e[OF _ jk(2), of ?c] by simp
      then have "entry_at s' n k = entry_at s' ?c k" using en g[OF jk(2)] present by simp
      then have "leaf s' n (k # js) = leaf s' ?c (k # js)" by (cases js) simp_all
      with l ih True present show ?thesis by simp
    qed
  qed
qed auto

section \<open>Setting a page's entry\<close>

lemma leaf_set_other:
  assumes inv: "owned ow ps" "child_ok s K ow" and t: "ow t = Some (R, p)" "length p = 3" "d < 512"
  shows "ow x = Some (r, q) \<Longrightarrow> length q + length is = 4 \<Longrightarrow> \<forall>j \<in> set is. j < 512 \<Longrightarrow>
    q @ is \<noteq> p @ [d] \<or> (r \<noteq> R \<and> K \<noteq> R) \<Longrightarrow> leaf (set_entry t d v s) x is = leaf s x is"
proof (induction "is" arbitrary: x r q rule: induct_list012)
  case (2 j)
  then have "x \<noteq> t \<or> j \<noteq> d" using t by auto
  with 2 t show ?case using ownedD[OF inv(1)] by auto
next
  case (3 j k js)
  have x: "page_aligned x" "length q < 3" "x \<noteq> t" using 3(3,4) ownedD[OF inv(1)] t by auto
  have jk: "j < 512" "\<forall>i \<in> set (k # js). i < 512" using 3(5) by auto
  have ex: "entry_at (set_entry t d v s) x j = entry_at s x j" using x jk t ownedD[OF inv(1) t(1)] by simp
  show ?case
  proof (cases "is_present (entry_at s x j)")
    case True
    then obtain r1 where r1: "r1 = r \<or> r1 = K" "ow (entry_address (entry_at s x j)) = Some (r1, q @ [j])"
      using child_okD[OF inv(2) 3(3) x(2) jk(1)] by blast
    have "(q @ [j]) @ (k # js) \<noteq> p @ [d] \<or> (r1 \<noteq> R \<and> K \<noteq> R)" using 3(6) r1(1) by auto
    from 3(2)[OF r1(2) _ jk(2) this] 3(4) True ex show ?thesis by simp
  qed (simp add: ex)
qed auto

lemma owner_prefix:
  "parent_ok s ow \<Longrightarrow> ow t = Some (r, p @ q) \<Longrightarrow> \<exists>u. ow u = Some (r, p)"
proof (induction q arbitrary: t rule: rev_induct)
  case (snoc i q)
  then show ?case unfolding parent_ok_def by (metis append.assoc)
qed auto

lemma leaf_set_same:
  assumes inv: "owned ow ps" "parent_ok s ow" and t: "ow t = Some (R, p)" "length p = 3" "d < 512" "\<forall>j \<in> set p. j < 512"
  shows "leaf (set_entry t d v s) R (p @ [d]) = v"
proof -
  have "table_of (set_entry t d v s) R q = table_of s R q" if "\<exists>q'. p = q @ q'" for q
    using that
  proof (induction q rule: rev_induct)
    case (snoc i q)
    then obtain q' where q': "p = q @ i # q'" by auto
    then obtain u where u: "ow u = Some (R, q)" using owner_prefix[OF inv(2), of t R q "i # q'"] t(1) by auto
    have "u \<noteq> t" using u t(1,2) q' by auto
    moreover have "table_of s R q = Some u" using owner_table_of[OF inv u] .
    moreover have "page_aligned u" "page_aligned t" using ownedD[OF inv(1)] u t(1) by blast+
    ultimately show ?case using snoc.IH q' t(3,4) by (simp add: table_of_append)
  qed simp
  then have "table_of (set_entry t d v s) R p = table_of s R p" by simp
  then show ?thesis using owner_table_of[OF inv t(1)] t ownedD[OF inv(1) t(1)] by (simp add: leaf_table_of)
qed


section \<open>One step of the mapping code\<close>

definition same_roots :: "'a machine_scheme \<Rightarrow> 'a machine_scheme \<Rightarrow> owners \<Rightarrow> bool" where
  "same_roots s s' ow \<longleftrightarrow> (\<forall>x is. ow x = Some (x, []) \<longrightarrow> length is = 4 \<longrightarrow> (\<forall>j \<in> set is. j < 512) \<longrightarrow> leaf s' x is = leaf s x is)"

text \<open>The first \<open>n\<close> links on the path \<open>is\<close> of tree \<open>R\<close> lead to tables of that tree only.\<close>

definition private_path :: "'a machine_scheme \<Rightarrow> owners \<Rightarrow> addr \<Rightarrow> u64 list \<Rightarrow> nat \<Rightarrow> bool" where
  "private_path s ow R is n \<longleftrightarrow> (\<forall>t p i q. ow t = Some (R, p) \<longrightarrow> length p < n \<longrightarrow> is = p @ i # q \<longrightarrow> i < 512 \<longrightarrow>
     is_present (entry_at s t i) \<longrightarrow> ow (entry_address (entry_at s t i)) = Some (R, p @ [i]))"

lemma private_kernel: "child_ok s K ow \<Longrightarrow> n \<le> 3 \<Longrightarrow> private_path s ow K is n"
  unfolding private_path_def using child_okD by fastforce


lemma table_invD:
  assumes "table_inv s K ow ps"
  shows "palloc_inv s ps" "\<forall>p \<in> set ps. pointer_ok p" "owned ow ps" "child_ok s K ow" "parent_ok s ow" "ow K = Some (K, [])"
    "rights_ok s ow"
  using assms by (simp_all add: table_inv_def)

text \<open>Changing only the flags of an entry keeps the invariant.\<close>

lemma flags_step:
  assumes inv: "table_inv s K ow ps" and t: "ow t = Some (R, p)" "length p < 3" "i < 512"
    and v: "is_present (entry_at s t i)" "is_present v" "entry_address v = entry_address (entry_at s t i)"
    and rights: "link_ok v" "bit (entry_at s t i) 2 \<Longrightarrow> bit v 2" "bit v 2 \<Longrightarrow> user_links s ow t"
  shows "table_inv (set_entry t i v s) K ow ps" "same_roots s (set_entry t i v s) ow"
    "private_path s ow R' is n \<Longrightarrow> private_path (set_entry t i v s) ow R' is n"
proof -
  let ?s = "set_entry t i v s"
  note d = table_invD[OF inv]
  have al: "page_aligned t" "t \<notin> set ps" using ownedD[OF d(3) t(1)] by auto
  have e: "entry_at ?s u j = (if u = t \<and> j = i then v else entry_at s u j)" if "ow u = Some rp" "j < 512" for u j rp
  proof -
    obtain r q where "rp = (r, q)" by (cases rp)
    with that al t(3) ownedD[OF d(3), of u r q] show ?thesis by simp
  qed
  have pe: "is_present (entry_at ?s u j) = is_present (entry_at s u j)"
    "entry_address (entry_at ?s u j) = entry_address (entry_at s u j)" if "ow u = Some rp" "j < 512" for u j rp
    using e[OF that] v by auto
  have "child_ok ?s K ow"
    unfolding child_ok_def
  proof (intro allI impI)
    fix u r q j assume u: "ow u = Some (r, q)" "length q < 3" "j < (512::u64)"
    show "if is_present (entry_at ?s u j) then ow (entry_address (entry_at ?s u j)) = Some (r, q @ [j])
        \<or> ow (entry_address (entry_at ?s u j)) = Some (K, q @ [j]) else entry_at ?s u j = 0"
      using child_okD[OF d(4) u] child_absent[OF d(4) u] pe[OF u(1,3)] e[OF u(1,3)] v by (auto split: if_splits)
  qed
  moreover have "parent_ok ?s ow"
    unfolding parent_ok_def
  proof (intro allI impI)
    fix u r q j assume "ow u = Some (r, q @ [j])"
    then obtain w where "ow w = Some (r, q)" "j < 512" "is_present (entry_at s w j)" "entry_address (entry_at s w j) = u"
      using d(5) unfolding parent_ok_def by blast
    then show "\<exists>w. ow w = Some (r, q) \<and> j < 512 \<and> is_present (entry_at ?s w j) \<and> entry_address (entry_at ?s w j) = u"
      using pe by auto
  qed
  moreover have "rights_ok ?s ow"
    unfolding rights_ok_def
  proof (intro allI impI)
    fix u r q j assume u: "ow u = Some (r, q)" "length q < 3" "j < (512 :: u64)" "is_present (entry_at ?s u j)"
    have pr: "is_present (entry_at s u j)" using u(4) pe(1)[OF u(1,3)] by simp
    note ro = rights_okD[OF d(7) u(1-3) pr]
    from child_okD[OF d(4) u(1-3) pr] obtain r' where c: "ow (entry_address (entry_at s u j)) = Some (r', q @ [j])" by blast
    have "bit (entry_at ?s u j) 2" if k: "k < 512" "bit (entry_at ?s (entry_address (entry_at s u j)) k) 2" for k
    proof (cases "entry_address (entry_at s u j) = t \<and> k = i")
      case True
      then have "bit v 2" using k e[OF t(1,3)] by simp
      then have "bit (entry_at s u j) 2" using rights(3) True u(1-3) pr unfolding user_links_def by blast
      then show ?thesis using e[OF u(1,3)] rights(2) by auto
    next
      case False
      then have "bit (entry_at s (entry_address (entry_at s u j)) k) 2" using k e[OF c k(1)] by auto
      then show ?thesis using ro(2)[OF k(1)] e[OF u(1,3)] rights(2) by auto
    qed
    then show "link_ok (entry_at ?s u j) \<and> (\<forall>k < 512. bit (entry_at ?s (entry_address (entry_at ?s u j)) k) 2 \<longrightarrow> bit (entry_at ?s u j) 2)"
      using ro(1) rights(1) e[OF u(1,3)] unfolding pe(2)[OF u(1,3)] by auto
  qed
  ultimately show "table_inv ?s K ow ps"
    using d palloc_inv_set_entry[OF d(1) al(2,1) t(3)] by (simp add: table_inv_def)
  show "same_roots s ?s ow"
    unfolding same_roots_def using leaf_flags[OF d(3,4) t v] by auto
  show "private_path ?s ow R' is n" if "private_path s ow R' is n"
    using that pe unfolding private_path_def by metis
qed

text \<open>Redirecting an absent or shared entry to a fresh table.\<close>

lemma redirect_step:
  assumes inv: "table_inv s K ow (n # ps)" and t: "ow t = Some (R, p)" "length p < 3" "i < 512"
    and shared: "is_present (entry_at s t i) \<Longrightarrow> R \<noteq> K \<and> ow (entry_address (entry_at s t i)) = Some (K, p @ [i])"
    and v: "is_present v" "entry_address v = n"
    and g: "\<And>j. j < 512 \<Longrightarrow> g j = (if is_present (entry_at s t i) then entry_at s (entry_address (entry_at s t i)) j else 0)"
    and e: "\<And>u j. page_aligned u \<Longrightarrow> j < 512 \<Longrightarrow>
        entry_at s' u j = (if u = t \<and> j = i then v else if u = n then g j else entry_at s u j)"
    and free: "palloc_inv s' ps"
    and rights: "link_ok v" "is_present (entry_at s t i) \<Longrightarrow> bit v 2" "bit v 2 \<Longrightarrow> user_links s ow t"
  defines "ow' \<equiv> ow(n \<mapsto> (R, p @ [i]))"
  shows "table_inv s' K ow' ps" "same_roots s s' ow"
    "private_path s ow R' is k \<Longrightarrow> k \<le> Suc (length p) \<or> \<not> is_present (entry_at s t i) \<Longrightarrow> private_path s' ow' R' is k"
proof -
  note d = table_invD[OF inv]
  have n: "n \<noteq> 0" "page_aligned n" "n \<notin> set ps" using palloc_inv_page[OF d(1)] palloc_inv_distinct[OF d(1)] by auto
  have nn: "ow n = None"
  proof (cases "ow n")
    case (Some rp)
    then show ?thesis using ownedD[OF d(3), of n "fst rp" "snd rp"] by simp
  qed
  have nt: "n \<noteq> t" using nn t(1) by auto
  have al: "page_aligned u" "u \<noteq> n" if "ow u = Some rp" for u rp
    using that ownedD[OF d(3), of u "fst rp" "snd rp"] nn by auto
  have eo: "entry_at s' u j = (if u = t \<and> j = i then v else entry_at s u j)" if "ow u = Some rp" "j < 512" for u j rp
    using e[OF al(1)[OF that(1)] that(2)] al(2)[OF that(1)] by simp
  have en: "entry_at s' n j = g j" if "j < 512" for j using e[OF n(2) that] nt by simp
  have "R \<noteq> n"
  proof -
    obtain w where w: "ow w = Some (R, [])" using owner_prefix[OF d(5), of t R "[]" p] t(1) by auto
    then have "w = R" using ownedD[OF d(3) w] by simp
    then show ?thesis using w nn by auto
  qed
  then have own': "owned ow' ps"
    using d(2,3) n t(2) ownedD[OF d(3) t(1)] nt unfolding owned_def ow'_def by auto
  have ch: "child_ok s' K ow'"
    unfolding child_ok_def
  proof (intro allI impI)
    fix u r q j assume u: "ow' u = Some (r, q)" "length q < 3" "j < (512::u64)"
    show "if is_present (entry_at s' u j) then ow' (entry_address (entry_at s' u j)) = Some (r, q @ [j])
        \<or> ow' (entry_address (entry_at s' u j)) = Some (K, q @ [j]) else entry_at s' u j = 0"
    proof (cases "u = n")
      case True
      then have rq: "r = R" "q = p @ [i]" using u(1) by (auto simp: ow'_def)
      show ?thesis
      proof (cases "is_present (entry_at s t i)")
        case False
        then have "entry_at s' u j = 0" using True en[OF u(3)] g[OF u(3)] by simp
        then show ?thesis by (simp add: is_present_def)
      next
        case pr: True
        let ?c = "entry_address (entry_at s t i)"
        have c: "ow ?c = Some (K, p @ [i])" using shared[OF pr] by simp
        have eq: "entry_at s' u j = entry_at s ?c j" using True en[OF u(3)] g[OF u(3)] pr by simp
        show ?thesis
        proof (cases "is_present (entry_at s ?c j)")
          case True
          then have "ow (entry_address (entry_at s ?c j)) = Some (K, (p @ [i]) @ [j])"
            using child_okD[OF d(4) c _ u(3)] u(2) rq by auto
          then show ?thesis using eq rq nn True by (auto simp: ow'_def)
        next
          case False
          then show ?thesis using child_absent[OF d(4) c _ u(3)] u(2) rq eq by auto
        qed
      qed
    next
      case False
      then have uo: "ow u = Some (r, q)" using u(1) by (simp add: ow'_def)
      show ?thesis
      proof (cases "u = t \<and> j = i")
        case True
        then show ?thesis using eo[OF uo u(3)] v uo t(1) by (simp add: ow'_def)
      next
        case False
        then have eq: "entry_at s' u j = entry_at s u j" using eo[OF uo u(3)] by auto
        show ?thesis
        proof (cases "is_present (entry_at s u j)")
          case True
          then show ?thesis using child_okD[OF d(4) uo u(2,3)] eq nn by (auto simp: ow'_def)
        next
          case False
          then show ?thesis using child_absent[OF d(4) uo u(2,3)] eq by simp
        qed
      qed
    qed
  qed
  have pa: "parent_ok s' ow'"
    unfolding parent_ok_def
  proof (intro allI impI)
    fix u r q j assume u: "ow' u = Some (r, q @ [j])"
    show "\<exists>w. ow' w = Some (r, q) \<and> j < 512 \<and> is_present (entry_at s' w j) \<and> entry_address (entry_at s' w j) = u"
    proof (cases "u = n")
      case True
      then have "r = R" "q = p" "j = i" using u by (auto simp: ow'_def)
      then show ?thesis using True t nt eo[OF t(1,3)] v by (intro exI[of _ t]) (simp add: ow'_def)
    next
      case False
      then have "ow u = Some (r, q @ [j])" using u by (simp add: ow'_def)
      then obtain w where w: "ow w = Some (r, q)" "j < 512" "is_present (entry_at s w j)" "entry_address (entry_at s w j) = u"
        and uo: "ow u = Some (r, q @ [j])"
        using d(5) unfolding parent_ok_def by blast
      have "\<not> (w = t \<and> j = i)" using w uo t(1) shared by auto
      then show ?thesis using w eo[OF w(1,2)] al(2)[OF w(1)] by (intro exI[of _ w]) (auto simp: ow'_def)
    qed
  qed
  have ri: "rights_ok s' ow'"
    unfolding rights_ok_def
  proof (intro allI impI)
    fix u r q j assume u: "ow' u = Some (r, q)" "length q < 3" "j < (512 :: u64)" "is_present (entry_at s' u j)"
    let ?P = "\<lambda>x. link_ok x \<and> (\<forall>k < 512. bit (entry_at s' (entry_address x) k) 2 \<longrightarrow> bit x 2)"
    have same: "?P (entry_at s w j)" if w: "ow w = Some (r1, q)" "is_present (entry_at s w j)" for w r1
    proof -
      note ro = rights_okD[OF d(7) w(1) u(2,3) w(2)]
      from child_okD[OF d(4) w(1) u(2,3) w(2)] obtain r' where c: "ow (entry_address (entry_at s w j)) = Some (r', q @ [j])" by blast
      have "bit (entry_at s w j) 2" if k: "k < 512" "bit (entry_at s' (entry_address (entry_at s w j)) k) 2" for k
      proof (cases "entry_address (entry_at s w j) = t \<and> k = i")
        case True
        then have "bit v 2" using k eo[OF t(1,3)] by simp
        then show ?thesis using rights(3) True w u(2,3) unfolding user_links_def by blast
      next
        case False
        then have "bit (entry_at s (entry_address (entry_at s w j)) k) 2" using k eo[OF c k(1)] by auto
        then show ?thesis by (rule ro(2)[OF k(1)])
      qed
      then show ?thesis using ro(1) by blast
    qed
    show "?P (entry_at s' u j)"
    proof (cases "u = n")
      case True
      then have rq: "q = p @ [i]" using u(1) by (auto simp: ow'_def)
      have gj: "entry_at s' u j = g j" using True en[OF u(3)] by simp
      have pr: "is_present (entry_at s t i)" using u(4) g[OF u(3)] gj by (auto simp: is_present_def)
      then have "entry_at s' u j = entry_at s (entry_address (entry_at s t i)) j" using gj g[OF u(3)] by simp
      then show ?thesis using same[of "entry_address (entry_at s t i)" K] shared[OF pr] u(4) rq by simp
    next
      case False
      then have uo: "ow u = Some (r, q)" using u(1) by (simp add: ow'_def)
      show ?thesis
      proof (cases "u = t \<and> j = i")
        case True
        have "bit v 2" if k: "k < 512" "bit (entry_at s' n k) 2" for k
        proof (cases "is_present (entry_at s t i)")
          case False
          then show ?thesis using k en[OF k(1)] g[OF k(1)] by simp
        qed (rule rights(2))
        then show ?thesis using True eo[OF t(1,3)] v(2) rights(1) by simp
      next
        case False
        then have "entry_at s' u j = entry_at s u j" using eo[OF uo u(3)] by auto
        then show ?thesis using same[OF uo] u(4) by simp
      qed
    qed
  qed
  show "table_inv s' K ow' ps"
    using d(2,6) own' ch pa ri free nn al(2)[OF d(6)] by (simp add: table_inv_def) (simp add: ow'_def)
  show "same_roots s s' ow"
    unfolding same_roots_def using leaf_redirect[OF d(3,4) t nn n(2) v g e] by auto
  assume priv: "private_path s ow R' is k" and k: "k \<le> Suc (length p) \<or> \<not> is_present (entry_at s t i)"
  show "private_path s' ow' R' is k"
    unfolding private_path_def
  proof (intro allI impI)
    fix u q j q' assume u: "ow' u = Some (R', q)" "length q < k" "is = q @ j # q'" "j < 512" "is_present (entry_at s' u j)"
    show "ow' (entry_address (entry_at s' u j)) = Some (R', q @ [j])"
    proof (cases "u = n")
      case True
      then have "q = p @ [i]" using u(1) by (simp add: ow'_def)
      then have "\<not> is_present (entry_at s t i)" using k u(2) by auto
      then have "entry_at s' u j = 0" using True en[OF u(4)] g[OF u(4)] by simp
      then show ?thesis using u(5) by (simp add: is_present_def)
    next
      case False
      then have uo: "ow u = Some (R', q)" using u(1) by (simp add: ow'_def)
      show ?thesis
      proof (cases "u = t \<and> j = i")
        case True
        then show ?thesis using eo[OF uo u(4)] v uo t(1) by (simp add: ow'_def)
      next
        case False
        then have eq: "entry_at s' u j = entry_at s u j" using eo[OF uo u(4)] by auto
        then have "ow (entry_address (entry_at s u j)) = Some (R', q @ [j])"
          using priv uo u(2-5) unfolding private_path_def by auto
        then show ?thesis using eq nn by (auto simp: ow'_def)
      qed
    qed
  qed
qed

end
