(* ===== verification/PagingMap.thy ===== *)
theory PagingMap
  imports PagingTree
begin

text \<open>
  What the mapping routines of \<open>src/kernel/paging.c\<close> do to the forest of page tables: \<open>get_or_create_next\<close>,
  \<open>map_page_4k\<close>, \<open>privatise_entry\<close>, \<open>ensure_private_user_path\<close>, and the operations on address spaces.
\<close>


section \<open>The mapping routines\<close>

text \<open>
  \<open>grows R is k\<close>: the state after at most \<open>k\<close> pages became tables of tree \<open>R\<close> on the path \<open>is\<close>. Every root
  still translates as before, the tables of other trees are untouched, and so is all memory that is neither a table nor a free page.
\<close>

definition grows :: "addr \<Rightarrow> u64 list \<Rightarrow> nat \<Rightarrow> 'a palloc_state_scheme \<Rightarrow> owners \<Rightarrow> addr list \<Rightarrow> 'a palloc_state_scheme \<Rightarrow> owners \<Rightarrow> addr list \<Rightarrow> bool" where
  "grows R is k s ow ps s' ow' ps' \<longleftrightarrow> pages_frame s s' \<and> same_roots s s' ow \<and> ow \<subseteq>\<^sub>m ow'
     \<and> (\<exists>ns. ps = ns @ ps' \<and> dom ow' = dom ow \<union> set ns \<and> length ns \<le> k)
     \<and> (\<forall>x. ow x = None \<longrightarrow> ow' x \<noteq> None \<longrightarrow> (\<exists>p q. ow' x = Some (R, p) \<and> p \<noteq> [] \<and> is = p @ q))
     \<and> (\<forall>u r q j. ow u = Some (r, q) \<longrightarrow> r \<noteq> R \<longrightarrow> j < 512 \<longrightarrow> entry_at s' u j = entry_at s u j)
     \<and> same_outside (dom ow \<union> set ps) s s'"

lemma same_roots_refl [simp]: "same_roots s s ow"
  by (simp add: same_roots_def)

lemma grows_refl [simp]: "grows R is k s ow ps s ow ps"
  by (simp add: grows_def)

lemma map_le_Some:
  assumes "m \<subseteq>\<^sub>m m'" "m x = Some y"
  shows "m' x = Some y"
proof -
  have "x \<in> dom m" using assms(2) by blast
  then have "m x = m' x" using assms(1) by (simp add: map_le_def)
  then show ?thesis using assms(2) by simp
qed

lemma grows_trans:
  assumes "grows R is k s ow ps s1 ow1 ps1" "grows R is l s1 ow1 ps1 s2 ow2 ps2"
  shows "grows R is (k + l) s ow ps s2 ow2 ps2"
proof -
  from assms(1) obtain ns where a: "pages_frame s s1" "same_roots s s1 ow" "ow \<subseteq>\<^sub>m ow1"
    "ps = ns @ ps1" "dom ow1 = dom ow \<union> set ns" "length ns \<le> k"
    "\<forall>x. ow x = None \<longrightarrow> ow1 x \<noteq> None \<longrightarrow> (\<exists>p q. ow1 x = Some (R, p) \<and> p \<noteq> [] \<and> is = p @ q)"
    "\<forall>u r q j. ow u = Some (r, q) \<longrightarrow> r \<noteq> R \<longrightarrow> j < 512 \<longrightarrow> entry_at s1 u j = entry_at s u j"
    "same_outside (dom ow \<union> set ps) s s1"
    unfolding grows_def by blast
  from assms(2) obtain ms where b: "pages_frame s1 s2" "same_roots s1 s2 ow1" "ow1 \<subseteq>\<^sub>m ow2"
    "ps1 = ms @ ps2" "dom ow2 = dom ow1 \<union> set ms" "length ms \<le> l"
    "\<forall>x. ow1 x = None \<longrightarrow> ow2 x \<noteq> None \<longrightarrow> (\<exists>p q. ow2 x = Some (R, p) \<and> p \<noteq> [] \<and> is = p @ q)"
    "\<forall>u r q j. ow1 u = Some (r, q) \<longrightarrow> r \<noteq> R \<longrightarrow> j < 512 \<longrightarrow> entry_at s2 u j = entry_at s1 u j"
    "same_outside (dom ow1 \<union> set ps1) s1 s2"
    unfolding grows_def by blast
  have up: "ow1 x = Some y" if "ow x = Some y" for x y using map_le_Some[OF a(3) that] .
  have up2: "ow2 x = Some y" if "ow1 x = Some y" for x y using map_le_Some[OF b(3) that] .
  have "same_roots s s2 ow" using a(2) b(2) up unfolding same_roots_def by simp
  moreover have "\<exists>p q. ow2 x = Some (R, p) \<and> p \<noteq> [] \<and> is = p @ q" if x: "ow x = None" "ow2 x \<noteq> None" for x
  proof (cases "ow1 x")
    case None
    then show ?thesis using b(7) x(2) by blast
  next
    case (Some y)
    have "ow1 x \<noteq> None" using Some by simp
    then show ?thesis using a(7) x(1) up2 by blast
  qed
  moreover have "\<exists>ns. ps = ns @ ps2 \<and> dom ow2 = dom ow \<union> set ns \<and> length ns \<le> k + l"
    using a(4-6) b(4-6) by (intro exI[of _ "ns @ ms"]) (simp add: Un_assoc)
  moreover have "entry_at s2 u j = entry_at s u j" if "ow u = Some (r, q)" "r \<noteq> R" "j < 512" for u r q j
    using a(8) b(8) up[OF that(1)] that by simp
  moreover have "same_outside (dom ow \<union> set ps) s s2"
    by (rule same_outside_trans[OF a(9) b(9)]) (use a(4,5) in auto)
  ultimately show ?thesis using pages_frame_trans[OF a(1) b(1)] map_le_trans[OF a(3) b(3)]
    unfolding grows_def by blast
qed

lemma get_or_create_spec:
  assumes inv: "table_inv s K ow ps" and t: "ow t = Some (R, p)" "length p < 3" "i < 512"
    and path: "is = p @ i # q" "private_path s ow R is 3"
    and rights: "flags AND paging_user \<noteq> 0 \<longrightarrow> R \<noteq> K \<and> user_links s ow t"
  shows "\<exists>next s' ow' ps'. get_or_create_next t i flags s = (next, s') \<and> table_inv s' K ow' ps'
    \<and> grows R is 1 s ow ps s' ow' ps' \<and> private_path s' ow' R is 3
    \<and> (if next = 0 then ps = [] else ow' next = Some (R, p @ [i]) \<and> (flags AND paging_user \<noteq> 0 \<longrightarrow> user_links s' ow' next))"
proof (cases "is_present (entry_at s t i)")
  case True
  let ?e = "entry_at s t i"
  note d = table_invD[OF inv]
  note lk = rights_okD(1)[OF d(7) t True]
  have nx: "ow (entry_address ?e) = Some (R, p @ [i])"
    using path t True unfolding private_path_def by auto
  then have nz: "entry_table ?e \<noteq> 0" using ownedD[OF d(3)] by (simp add: entry_table_def entry_address_def)
  have al: "page_aligned t" using ownedD[OF d(3) t(1)] by simp
  show ?thesis
  proof (cases "flags AND paging_user = 0")
    case True
    then have "get_or_create_next t i flags s = (entry_table ?e, s)" using \<open>is_present ?e\<close> by (simp add: get_or_create_next_def)
    with inv path(2) nx nz True show ?thesis
      by (intro exI[of _ "entry_table ?e"], intro exI[of _ s], intro exI[of _ ow], intro exI[of _ ps])
        (simp add: entry_table_def entry_address_def)
  next
    case False
    let ?s = "set_entry t i (?e OR paging_user) s"
    have st: "table_inv ?s K ow ps" "same_roots s ?s ow" "private_path ?s ow R is 3"
      using flags_step[OF inv t True, of "?e OR paging_user"] path(2) True rights False link_user[OF lk] by (simp_all add: user_bit)
    have ee: "entry_at ?s t i = ?e OR paging_user" using al t(3) by simp
    then have "get_or_create_next t i flags s = (entry_table ?e, ?s)"
      using True False user_bit(2)[of ?e] by (simp add: get_or_create_next_def entry_table_def entry_address_def)
    moreover have "user_links ?s ow (entry_address ?e)"
      by (rule user_links_child[OF table_invD(3-5)[OF st(1)] _ t(1) nx]) (use rights False ee link_user[OF lk] in auto)
    moreover have "grows R is 1 s ow ps ?s ow ps"
      using st(2) t(1,3) al ownedD[OF d(3)] unfolding grows_def by (auto simp: mem_pages_frame intro!: same_outside_set_entry)
    ultimately show ?thesis using st(1,3) nx nz
      by (intro exI[of _ "entry_table ?e"], intro exI[of _ ?s], intro exI[of _ ow], intro exI[of _ ps])
        (simp add: entry_table_def entry_address_def)
  qed
next
  case False
  note d = table_invD[OF inv]
  have al: "page_aligned t" using ownedD[OF d(3) t(1)] by simp
  show ?thesis
  proof (cases ps)
    case Nil
    then have "get_or_create_next t i flags s = (0, s)" using False d(1) by (simp add: get_or_create_next_def alloc_table_none)
    with inv path(2) Nil show ?thesis
      by (intro exI[of _ 0], intro exI[of _ s], intro exI[of _ ow], intro exI[of _ ps]) simp
  next
    case (Cons n ps')
    from alloc_table_spec[OF d(1)[unfolded Cons]] obtain s1 where a: "alloc_table s = (n, s1)" "palloc_inv s1 ps'"
      "pages_frame s s1" "n \<noteq> 0" "page_aligned n" "n \<notin> set ps'"
      "\<forall>u j. page_aligned u \<longrightarrow> j < 512 \<longrightarrow> entry_at s1 u j = (if u = n then 0 else entry_at s u j)"
      "same_outside {n} s s1" by blast
    let ?v = "n OR paging_flags_table OR (flags AND paging_user)"
    let ?s = "set_entry t i ?v s1" and ?ow = "ow(n \<mapsto> (R, p @ [i]))"
    have pt: "pointer_ok n" using d(2) Cons by simp
    have tn: "t \<notin> set ps'" "ow n = None" using ownedD[OF d(3)] t(1) Cons by (auto, cases "ow n", auto)
    have e: "entry_at ?s u j = (if u = t \<and> j = i then ?v else if u = n then 0 else entry_at s u j)"
      if "page_aligned u" "j < 512" for u j using that a(5,7) al t(3) by auto
    note r = redirect_step[where g = "\<lambda>_. 0" and s' = ?s, OF inv[unfolded Cons] t _ table_entry(1,2)[OF pt] _ e]
    have pi: "palloc_inv ?s ps'" using palloc_inv_set_entry[OF a(2) tn(1) al t(3)] .
    have "bit ?v 2 \<Longrightarrow> user_links s ow t" using rights link_table(3)[OF pt] by blast
    then have r: "table_inv ?s K ?ow ps'" "same_roots s ?s ow" "private_path ?s ?ow R is 3"
      using r pi False path(2) link_table(1)[OF pt] by auto
    have lk: "user_links ?s ?ow n" if "flags AND paging_user \<noteq> 0"
    proof (rule user_links_child[OF table_invD(3-5)[OF r(1)], where R = R and t = t and p = p and i = i])
      show "R \<noteq> K" using rights that by simp
      show "?ow t = Some (R, p)" using t(1) tn(2) by auto
      show "bit (entry_at ?s t i) 2" using e[OF al t(3)] link_table(3)[OF pt] that by simp
    qed simp
    have "get_or_create_next t i flags s = (n, ?s)" using False a(1,4) by (simp add: get_or_create_next_def)
    moreover have "grows R is 1 s ow ps ?s ?ow ps'"
    proof -
      have "pages_frame s ?s" using pages_frame_trans[OF a(3) mem_pages_frame] by simp
      moreover have "entry_at ?s u j = entry_at s u j" if "ow u = Some (r', q')" "r' \<noteq> R" "j < 512" for u r' q' j
        using e[of u j] that t(1) tn(2) ownedD[OF d(3) that(1)] by auto
      moreover have "same_outside (dom ow \<union> set ps) s ?s"
        by (rule same_outside_trans[OF same_outside_mono[OF a(8)] same_outside_set_entry[OF al _ t(3)] order_refl])
          (use Cons t(1) in auto)
      ultimately show ?thesis using r(2) tn(2) Cons path(1) unfolding grows_def
        by (auto simp: map_le_def)
    qed
    ultimately show ?thesis using r(1,3) a(4) lk
      by (intro exI[of _ n], intro exI[of _ ?s], intro exI[of _ ?ow], intro exI[of _ ps']) simp
  qed
qed


lemma leaf_entry_step:
  assumes inv: "table_inv s K ow ps" and t: "ow t = Some (R, p)" "length p = 3" "i < 512"
    and rights: "bit v 2 \<Longrightarrow> user_links s ow t"
  shows "table_inv (set_entry t i v s) K ow ps"
    "private_path s ow R' is n \<Longrightarrow> n \<le> 3 \<Longrightarrow> private_path (set_entry t i v s) ow R' is n"
proof -
  let ?s = "set_entry t i v s"
  note d = table_invD[OF inv]
  have al: "page_aligned t" "t \<notin> set ps" using ownedD[OF d(3) t(1)] by auto
  have e: "entry_at ?s u j = entry_at s u j" if "ow u = Some (r, q)" "length q < 3" "j < 512" for u r q j
    using that al t ownedD[OF d(3) that(1)] by auto
  have "child_ok ?s K ow"
    unfolding child_ok_def
  proof (intro allI impI)
    fix u r q j assume u: "ow u = Some (r, q)" "length q < 3" "j < (512::u64)"
    show "if is_present (entry_at ?s u j) then ow (entry_address (entry_at ?s u j)) = Some (r, q @ [j])
        \<or> ow (entry_address (entry_at ?s u j)) = Some (K, q @ [j]) else entry_at ?s u j = 0"
      using child_okD[OF d(4) u] child_absent[OF d(4) u] e[OF u] by auto
  qed
  moreover have "parent_ok ?s ow"
    unfolding parent_ok_def
  proof (intro allI impI)
    fix u r q j assume u: "ow u = Some (r, q @ [j])"
    then obtain w where w: "ow w = Some (r, q)" "j < 512" "is_present (entry_at s w j)" "entry_address (entry_at s w j) = u"
      using d(5) unfolding parent_ok_def by blast
    have "length q < 3" using ownedD[OF d(3) u] by simp
    then show "\<exists>w. ow w = Some (r, q) \<and> j < 512 \<and> is_present (entry_at ?s w j) \<and> entry_address (entry_at ?s w j) = u"
      using w e[OF w(1) _ w(2)] by auto
  qed
  moreover have "rights_ok ?s ow"
    unfolding rights_ok_def
  proof (intro allI impI)
    fix u r q j assume u: "ow u = Some (r, q)" "length q < 3" "j < (512 :: u64)" "is_present (entry_at ?s u j)"
    have pr: "is_present (entry_at s u j)" using u(4) e[OF u(1-3)] by simp
    note ro = rights_okD[OF d(7) u(1-3) pr]
    from child_okD[OF d(4) u(1-3) pr] obtain r' where c: "ow (entry_address (entry_at s u j)) = Some (r', q @ [j])" by blast
    have "bit (entry_at s u j) 2" if k: "k < 512" "bit (entry_at ?s (entry_address (entry_at s u j)) k) 2" for k
    proof (cases "entry_address (entry_at s u j) = t \<and> k = i")
      case True
      then have "bit v 2" using k al t(3) by simp
      then show ?thesis using rights True u(1-3) pr unfolding user_links_def by blast
    next
      case False
      then have "bit (entry_at s (entry_address (entry_at s u j)) k) 2" using k al t(3) ownedD[OF d(3) c] by auto
      then show ?thesis by (rule ro(2)[OF k(1)])
    qed
    then show "link_ok (entry_at ?s u j) \<and> (\<forall>k < 512. bit (entry_at ?s (entry_address (entry_at ?s u j)) k) 2 \<longrightarrow> bit (entry_at ?s u j) 2)"
      using ro(1) unfolding e[OF u(1-3)] by blast
  qed
  ultimately show "table_inv ?s K ow ps"
    using d palloc_inv_set_entry[OF d(1) al(2,1) t(3)] by (simp add: table_inv_def)
  assume "private_path s ow R' is n" "n \<le> 3"
  then show "private_path ?s ow R' is n" using e unfolding private_path_def by auto
qed

lemma grows_mono: "grows R is k s ow ps s' ow' ps' \<Longrightarrow> k \<le> l \<Longrightarrow> grows R is l s ow ps s' ow' ps'"
  using grows_trans[of R "is" k s ow ps s' ow' ps' "l - k" s' ow' ps'] by simp

lemma grows_used: "grows R is k s ow ps s' ow' ps' \<Longrightarrow> length ps \<le> length ps' + k"
  unfolding grows_def by auto

lemma grows_root: "grows R is k s ow ps s' ow' ps' \<Longrightarrow> ow x = Some y \<Longrightarrow> ow' x = Some y"
  unfolding grows_def using map_le_Some by metis

lemma map_page_4k_steps:
  assumes inv: "table_inv s K ow ps" and R: "ow R = Some (R, [])" and path: "private_path s ow R (indices va) 3"
    and rights: "flags AND paging_user \<noteq> 0 \<longrightarrow> R \<noteq> K"
  shows "\<exists>ok s' s1 ow' ps' t. map_page_4k R va pa flags s = (ok, s') \<and> table_inv s1 K ow' ps'
    \<and> grows R (indices va) 3 s ow ps s1 ow' ps' \<and> private_path s1 ow' R (indices va) 3
    \<and> (if ok then ow' t = Some (R, [pml4_index va, pdpt_index va, pd_index va])
               \<and> (flags AND paging_user \<noteq> 0 \<longrightarrow> user_links s1 ow' t)
               \<and> s' = set_entry t (pt_index va) (pa OR flags) s1
       else s' = s1 \<and> length ps \<le> 2)"
proof -
  let ?i = "pml4_index va" and ?j = "pdpt_index va" and ?k = "pd_index va" and ?l = "pt_index va"
  let ?is = "indices va"
  have is1: "?is = [] @ ?i # [?j, ?k, ?l]" and is2: "?is = [?i] @ ?j # [?k, ?l]" and is3: "?is = [?i, ?j] @ ?k # [?l]"
    by (simp_all add: indices_def)
  have u0: "flags AND paging_user \<noteq> 0 \<longrightarrow> R \<noteq> K \<and> user_links s ow R"
    using rights user_links_root[OF table_invD(3,4)[OF inv] R] by blast
  have len: "length ([] :: u64 list) < 3" "length [?i] < 3" "length [?i, ?j] < 3" by simp_all
  from get_or_create_spec[OF inv R len(1) index_lt(1) is1 path u0]
  obtain t1 s1 ow1 ps1 where 1: "get_or_create_next R ?i flags s = (t1, s1)" "table_inv s1 K ow1 ps1"
    "grows R ?is 1 s ow ps s1 ow1 ps1" "private_path s1 ow1 R ?is 3" "if t1 = 0 then ps = [] else ow1 t1 = Some (R, [] @ [?i]) \<and> (flags AND paging_user \<noteq> 0 \<longrightarrow> user_links s1 ow1 t1)"
    by blast
  have u1: "t1 \<noteq> 0 \<Longrightarrow> flags AND paging_user \<noteq> 0 \<longrightarrow> R \<noteq> K \<and> user_links s1 ow1 t1" using 1(5) rights by simp
  show ?thesis
  proof (cases "t1 = 0")
    case True
    with 1 grows_mono[OF 1(3), of 3] show ?thesis
      by - (rule exI[of _ False], rule exI[of _ s1], rule exI[of _ s1], rule exI[of _ ow1], rule exI[of _ ps1],
            simp add: map_page_4k_def)
  next
    case False
    with 1(5) have o1: "ow1 t1 = Some (R, [?i])" by simp
    from get_or_create_spec[OF 1(2) o1 len(2) index_lt(2) is2 1(4) u1[OF False]]
    obtain t2 s2 ow2 ps2 where 2: "get_or_create_next t1 ?j flags s1 = (t2, s2)" "table_inv s2 K ow2 ps2"
      "grows R ?is 1 s1 ow1 ps1 s2 ow2 ps2" "private_path s2 ow2 R ?is 3" "if t2 = 0 then ps1 = [] else ow2 t2 = Some (R, [?i] @ [?j]) \<and> (flags AND paging_user \<noteq> 0 \<longrightarrow> user_links s2 ow2 t2)"
      by blast
    have u2: "t2 \<noteq> 0 \<Longrightarrow> flags AND paging_user \<noteq> 0 \<longrightarrow> R \<noteq> K \<and> user_links s2 ow2 t2" using 2(5) rights by simp
    note g2 = grows_trans[OF 1(3) 2(3)]
    show ?thesis
    proof (cases "t2 = 0")
      case True
      with 2(5) grows_used[OF 1(3)] have "length ps \<le> 2" by simp
      with True False 1(1) 2 grows_mono[OF g2, of 3] show ?thesis
        by - (rule exI[of _ False], rule exI[of _ s2], rule exI[of _ s2], rule exI[of _ ow2], rule exI[of _ ps2],
            simp add: map_page_4k_def)
    next
      case nz2: False
      with 2(5) have o2: "ow2 t2 = Some (R, [?i, ?j])" by simp
      from get_or_create_spec[OF 2(2) o2 len(3) index_lt(3) is3 2(4) u2[OF nz2]]
      obtain t3 s3 ow3 ps3 where 3: "get_or_create_next t2 ?k flags s2 = (t3, s3)" "table_inv s3 K ow3 ps3"
        "grows R ?is 1 s2 ow2 ps2 s3 ow3 ps3" "private_path s3 ow3 R ?is 3" "if t3 = 0 then ps2 = [] else ow3 t3 = Some (R, [?i, ?j] @ [?k]) \<and> (flags AND paging_user \<noteq> 0 \<longrightarrow> user_links s3 ow3 t3)"
        by blast
      have u3: "t3 \<noteq> 0 \<Longrightarrow> flags AND paging_user \<noteq> 0 \<longrightarrow> user_links s3 ow3 t3" using 3(5) by simp
      have g3: "grows R ?is 3 s ow ps s3 ow3 ps3" using grows_trans[OF g2 3(3)] by (simp add: numeral_3_eq_3)
      show ?thesis
      proof (cases "t3 = 0")
        case True
        with 3(5) grows_used[OF g2] have "length ps \<le> 2" by simp
        with True False nz2 1(1) 2(1) 3 g3 show ?thesis
          by - (rule exI[of _ False], rule exI[of _ s3], rule exI[of _ s3], rule exI[of _ ow3], rule exI[of _ ps3],
            simp add: map_page_4k_def)
      next
        case nz3: False
        with False nz2 1(1) 2(1) 3 g3 u3 show ?thesis
          by - (rule exI[of _ True], rule exI[of _ "set_entry t3 ?l (pa OR flags) s3"], rule exI[of _ s3],
              rule exI[of _ ow3], rule exI[of _ ps3], rule exI[of _ t3],
            simp add: map_page_4k_def)
      qed
    qed
  qed
qed

lemma map_page_4k_spec:
  assumes inv: "table_inv s K ow ps" and R: "ow R = Some (R, [])" and path: "private_path s ow R (indices va) 3"
    and rights: "flags AND paging_user \<noteq> 0 \<longrightarrow> R \<noteq> K" "\<not> bit pa 2"
  shows "\<exists>ok s' ow' ps'. map_page_4k R va pa flags s = (ok, s') \<and> table_inv s' K ow' ps'
    \<and> (ok \<or> length ps \<le> 2) \<and> pages_frame s s' \<and> ow \<subseteq>\<^sub>m ow'
    \<and> (\<exists>ns. ps = ns @ ps' \<and> dom ow' = dom ow \<union> set ns \<and> length ns \<le> 3)
    \<and> (\<forall>x. ow x = None \<longrightarrow> ow' x \<noteq> None \<longrightarrow> (\<exists>p q. ow' x = Some (R, p) \<and> p \<noteq> [] \<and> indices va = p @ q))
    \<and> (\<forall>u r q j. ow u = Some (r, q) \<longrightarrow> r \<noteq> R \<longrightarrow> j < 512 \<longrightarrow> entry_at s' u j = entry_at s u j)
    \<and> same_outside (dom ow \<union> set ps) s s'
    \<and> (\<forall>x is. ow x = Some (x, []) \<longrightarrow> length is = 4 \<longrightarrow> (\<forall>j \<in> set is. j < 512) \<longrightarrow> (x = R \<or> R \<noteq> K) \<longrightarrow>
         leaf s' x is = (if ok \<and> x = R \<and> is = indices va then pa OR flags else leaf s x is))"
proof -
  from map_page_4k_steps[OF inv R path rights(1), of pa] obtain ok s' s1 ow' ps' t where m:
    "map_page_4k R va pa flags s = (ok, s')" "table_inv s1 K ow' ps'"
    "grows R (indices va) 3 s ow ps s1 ow' ps'"
    "if ok then ow' t = Some (R, [pml4_index va, pdpt_index va, pd_index va])
               \<and> (flags AND paging_user \<noteq> 0 \<longrightarrow> user_links s1 ow' t)
               \<and> s' = set_entry t (pt_index va) (pa OR flags) s1
       else s' = s1 \<and> length ps \<le> 2" by blast
  note g = m(3)[unfolded grows_def] and d = table_invD[OF m(2)]
  have lf: "leaf s1 x is = leaf s x is" if "ow x = Some (x, [])" "length is = 4" "\<forall>j \<in> set is. j < 512" for x "is"
    using g that unfolding same_roots_def by blast
  show ?thesis
  proof (cases ok)
    case False
    with m(4) have "s' = s1" "length ps \<le> 2" by auto
    with m(1,2) g lf False show ?thesis
      by - (rule exI[of _ ok], rule exI[of _ s'], rule exI[of _ ow'], rule exI[of _ ps'], simp)
  next
    case True
    with m(4) have t: "ow' t = Some (R, [pml4_index va, pdpt_index va, pd_index va])"
      and s': "s' = set_entry t (pt_index va) (pa OR flags) s1"
      and ul: "flags AND paging_user \<noteq> 0 \<Longrightarrow> user_links s1 ow' t" by auto
    have ul: "bit (pa OR flags) 2 \<Longrightarrow> user_links s1 ow' t" using ul rights(2) by (simp add: bit_or_iff user_flag)
    have tt: "page_aligned t" using ownedD[OF d(3) t] by simp
    have inv': "table_inv s' K ow' ps'" using leaf_entry_step(1)[OF m(2) t _ _ ul] s' by simp
    have "pages_frame s s'" using g pages_frame_trans[of s s1 s'] mem_pages_frame[of s1 s'] s' by simp
    moreover have "same_outside (dom ow \<union> set ps) s s'"
    proof -
      have "t \<in> dom ow'" using t by blast
      then have "same_outside (dom ow' \<union> set ps') s1 s'" unfolding s' by (intro same_outside_set_entry tt) simp_all
      moreover have "dom ow' \<union> set ps' \<subseteq> dom ow \<union> set ps" using g by auto
      ultimately show ?thesis using g same_outside_trans by blast
    qed
    moreover have "entry_at s' u j = entry_at s u j" if "ow u = Some (r, q)" "r \<noteq> R" "j < 512" for u r q j
    proof -
      have "ow' u = Some (r, q)" using grows_root[OF m(3)] that(1) by simp
      then have "u \<noteq> t" "page_aligned u" using t that(2) ownedD[OF d(3)] by auto
      then have "entry_at s' u j = entry_at s1 u j" using s' tt that(3) by simp
      then show ?thesis using g that by auto
    qed
    moreover have "leaf s' x is = (if ok \<and> x = R \<and> is = indices va then pa OR flags else leaf s x is)"
      if x: "ow x = Some (x, [])" "length is = 4" "\<forall>j \<in> set is. j < 512" "x = R \<or> R \<noteq> K" for x "is"
    proof (cases "x = R \<and> is = indices va")
      case True
      then show ?thesis using leaf_set_same[OF d(3,5) t _ index_lt(4)] s' \<open>ok\<close> by (auto simp: indices_def)
    next
      case False
      have "ow' x = Some (x, [])" using grows_root[OF m(3) x(1)] .
      then have "leaf s' x is = leaf s1 x is" unfolding s'
        using leaf_set_other[OF d(3,4) t _ index_lt(4), of x x "[]" "is"] x False by (auto simp: indices_def)
      then show ?thesis using lf[OF x(1-3)] False by auto
    qed
    ultimately show ?thesis using m(1) inv' g True
      by - (rule exI[of _ ok], rule exI[of _ s'], rule exI[of _ ow'], rule exI[of _ ps'], blast)
  qed
qed

section \<open>Private paths\<close>

text \<open>The entry of the kernel's tree that corresponds to entry \<open>i\<close> of the table at path \<open>p\<close>; 0 if there is none.\<close>

definition kernel_counterpart :: "'a machine_scheme \<Rightarrow> addr \<Rightarrow> owners \<Rightarrow> u64 list \<Rightarrow> u64 \<Rightarrow> u64 \<Rightarrow> bool" where
  "kernel_counterpart s K ow p i e \<longleftrightarrow>
     (\<forall>u. ow u = Some (K, p) \<longrightarrow> e = entry_at s u i) \<and> ((\<forall>u. ow u \<noteq> Some (K, p)) \<longrightarrow> e = 0)"

lemma private_next:
  assumes "owned ow ps" "parent_ok s ow" "private_path s ow R is (length p)" "ow t = Some (R, p)" "is = p @ i # q"
    "is_present (entry_at s t i) \<Longrightarrow> ow (entry_address (entry_at s t i)) = Some (R, p @ [i])"
  shows "private_path s ow R is (Suc (length p))"
  unfolding private_path_def
proof (intro allI impI)
  fix u p' j q' assume u: "ow u = Some (R, p')" "length p' < Suc (length p)" "is = p' @ j # q'" "j < 512"
    "is_present (entry_at s u j)"
  show "ow (entry_address (entry_at s u j)) = Some (R, p' @ [j])"
  proof (cases "length p' = length p")
    case True
    then have "p' = p" "j = i" using u(3) assms(5) by auto
    moreover from this have "u = t" using owner_unique[OF assms(1,2)] u(1) assms(4) by blast
    ultimately show ?thesis using assms(6) u(5) by simp
  next
    case False
    then show ?thesis using assms(3) u unfolding private_path_def by auto
  qed
qed

lemma copy_table_spec:
  assumes inv: "palloc_inv s (n # ps)" and src: "page_aligned src" "src \<noteq> n"
  shows "\<exists>s'. copy_table src s = (n, s') \<and> palloc_inv s' ps \<and> pages_frame s s'
    \<and> (\<forall>u j. page_aligned u \<longrightarrow> j < 512 \<longrightarrow> entry_at s' u j = (if u = n then entry_at s src j else entry_at s u j))
    \<and> same_outside {n} s s'"
proof -
  from alloc_table_spec[OF inv] obtain s1 where a: "alloc_table s = (n, s1)" "palloc_inv s1 ps"
      "pages_frame s s1" "n \<noteq> 0" "page_aligned n" "n \<notin> set ps"
      "\<forall>u j. page_aligned u \<longrightarrow> j < 512 \<longrightarrow> entry_at s1 u j = (if u = n then 0 else entry_at s u j)"
      "same_outside {n} s s1" by blast
  have "copy_table src s = (n, copy_entries n src s1)" using a(1,4) by (simp add: copy_table_def)
  moreover have "palloc_inv (copy_entries n src s1) ps"
    unfolding copy_entries_def using palloc_inv_fill[OF a(2,6,5), of 512] by simp
  moreover have "pages_frame s (copy_entries n src s1)"
    using pages_frame_trans[OF a(3) mem_pages_frame] fill_table_frame[of s1 n] by (simp add: copy_entries_def)
  moreover have "same_outside {n} s (copy_entries n src s1)"
    unfolding copy_entries_def by (rule same_outside_trans[OF a(8) same_outside_fill[OF a(5)] order_refl]) simp_all
  ultimately show ?thesis using a(5,7) src by (auto simp: copy_entries_entries)
qed

lemma privatise_entry_spec:
  assumes inv: "table_inv s K ow ps" and t: "ow t = Some (U, p)" "length p < 3" "i < 512" and U: "U \<noteq> K"
    and path: "is = p @ i # q" "private_path s ow U is (length p)"
    and ke: "kernel_counterpart s K ow p i e" and ul: "user_links s ow t"
  shows "\<exists>ok s' ow' ps'. privatise_entry t i e s = (ok, s') \<and> table_inv s' K ow' ps' \<and> grows U is 1 s ow ps s' ow' ps'
    \<and> (ok \<or> ps = []) \<and> (ok \<longrightarrow> private_path s' ow' U is (Suc (length p)))
    \<and> is_present (entry_at s' t i) = is_present (entry_at s t i)
    \<and> (ok \<longrightarrow> is_present (entry_at s t i) \<longrightarrow> user_links s' ow' (entry_address (entry_at s' t i)))"
proof (cases "is_present (entry_at s t i)")
  case False
  note d = table_invD[OF inv]
  have "privatise_entry t i e s = (True, s)" using False by (simp add: privatise_entry_def)
  moreover have "private_path s ow U is (Suc (length p))"
    using private_next[OF d(3,5) path(2) t(1) path(1)] False by simp
  ultimately show ?thesis using inv False by - (rule exI[of _ True], rule exI[of _ s], rule exI[of _ ow], rule exI[of _ ps], simp)
next
  case True
  note d = table_invD[OF inv]
  let ?e = "entry_at s t i" and ?c = "entry_address (entry_at s t i)"
  have al: "page_aligned t" "t \<notin> set ps" using ownedD[OF d(3) t(1)] by auto
  note lk = link_user[OF rights_okD(1)[OF d(7) t True]]
  from child_okD[OF d(4) t True] obtain r where r: "r = U \<or> r = K" "ow ?c = Some (r, p @ [i])" by blast
  have cn: "?c \<noteq> 0" "page_aligned ?c" "?c \<notin> set ps" using ownedD[OF d(3) r(2)] by auto
  have same: "?c = entry_address e \<longleftrightarrow> r = K"
  proof
    assume "r = K"
    then obtain u where u: "ow u = Some (K, p)" "entry_address (entry_at s u i) = ?c"
      using r(2) d(5) unfolding parent_ok_def by blast
    then show "?c = entry_address e" using ke unfolding kernel_counterpart_def by auto
  next
    assume a: "?c = entry_address e"
    then have "e \<noteq> 0" using cn(1) by (auto simp: entry_address_def)
    then obtain u where u: "ow u = Some (K, p)" "e = entry_at s u i" using ke unfolding kernel_counterpart_def by blast
    have "is_present e" using child_absent[OF d(4) u(1) t(2,3)] u(2) \<open>e \<noteq> 0\<close> by auto
    then show "r = K" using child_okD[OF d(4) u(1) t(2,3)] u(2) a r(2) by auto
  qed
  show ?thesis
  proof (cases "r = K")
    case False
    then have rU: "ow ?c = Some (U, p @ [i])" using r by simp
    let ?s = "set_entry t i (?e OR paging_user) s"
    have st: "table_inv ?s K ow ps" "same_roots s ?s ow" "private_path ?s ow U is (length p)"
      using flags_step[OF inv t True, of "?e OR paging_user"] path(2) True lk ul by (simp_all add: user_bit)
    have ee: "entry_at ?s t i = ?e OR paging_user" using al t(3) by simp
    have us: "user_links ?s ow ?c"
      by (rule user_links_child[OF table_invD(3-5)[OF st(1)] U t(1) rU]) (use ee lk in simp)
    have "private_path ?s ow U is (Suc (length p))"
      using private_next[OF table_invD(3,5)[OF st(1)] st(3) t(1) path(1)] rU ee by (simp add: user_bit)
    moreover have "privatise_entry t i e s = (True, ?s)" using True False same by (simp add: privatise_entry_def)
    moreover have "grows U is 1 s ow ps ?s ow ps"
      using st(2) t(1,3) al ownedD[OF d(3)] unfolding grows_def by (auto simp: mem_pages_frame intro!: same_outside_set_entry)
    ultimately show ?thesis using st(1) ee True us
      by - (rule exI[of _ True], rule exI[of _ ?s], rule exI[of _ ow], rule exI[of _ ps], simp add: user_bit)
  next
    case rK: True
    show ?thesis
    proof (cases ps)
      case Nil
      then have "privatise_entry t i e s = (False, s)" using True same rK d(1)
        by (simp add: privatise_entry_def copy_table_def alloc_table_none entry_table_def entry_address_def)
      with inv Nil show ?thesis by - (rule exI[of _ False], rule exI[of _ s], rule exI[of _ ow], rule exI[of _ ps], simp)
    next
      case (Cons n ps')
      have "?c \<noteq> n" using cn(3) Cons by auto
      from copy_table_spec[OF d(1)[unfolded Cons] cn(2) this] obtain s1 where a: "copy_table ?c s = (n, s1)"
        "palloc_inv s1 ps'" "pages_frame s s1"
        "\<forall>u j. page_aligned u \<longrightarrow> j < 512 \<longrightarrow> entry_at s1 u j = (if u = n then entry_at s ?c j else entry_at s u j)"
        "same_outside {n} s s1" by blast
      have n: "n \<noteq> 0" "page_aligned n" "pointer_ok n" using palloc_inv_page[OF d(1)] d(2) Cons by auto
      let ?v = "n OR paging_flags_table OR paging_user"
      let ?s = "set_entry t i ?v s1" and ?ow = "ow(n \<mapsto> (U, p @ [i]))"
      have tn: "t \<notin> set ps'" "t \<noteq> n" "ow n = None" using al Cons ownedD[OF d(3)] by (auto, cases "ow n", auto)
      have en: "entry_at ?s u j = (if u = t \<and> j = i then ?v else if u = n then entry_at s ?c j else entry_at s u j)"
        if "page_aligned u" "j < 512" for u j using that a(4) al t(3) n(2) by auto
      note rs = redirect_step[where g = "entry_at s ?c" and s' = ?s, OF inv[unfolded Cons] t _ table_entry(3,4)[OF n(3)] _ en]
      have pi: "palloc_inv ?s ps'" using palloc_inv_set_entry[OF a(2) tn(1) al(1) t(3)] .
      have rs: "table_inv ?s K ?ow ps'" "same_roots s ?s ow" "private_path ?s ?ow U is (length p)"
        using rs pi True path(2) U r rK link_table(2,4)[OF n(3)] ul by auto
      have ot: "?ow t = Some (U, p)" using t(1) tn(2) by simp
      have ti: "entry_at ?s t i = ?v" using en[OF al(1) t(3)] by simp
      have us: "user_links ?s ?ow n"
        by (rule user_links_child[OF table_invD(3-5)[OF rs(1)] U ot, of _ i]) (simp_all add: ti link_table(4)[OF n(3)])
      have "private_path ?s ?ow U is (Suc (length p))"
        by (rule private_next[OF table_invD(3,5)[OF rs(1)] rs(3) ot path(1)]) (simp add: table_entry(4)[OF n(3)] ti)
      moreover have "privatise_entry t i e s = (True, ?s)" using True same rK a(1) n(1)
        by (simp add: privatise_entry_def entry_table_def entry_address_def)
      moreover have "grows U is 1 s ow ps ?s ?ow ps'"
      proof -
        have "pages_frame s ?s" using pages_frame_trans[OF a(3) mem_pages_frame] by simp
        moreover have "entry_at ?s u j = entry_at s u j" if "ow u = Some (r', q')" "r' \<noteq> U" "j < 512" for u r' q' j
          using en[of u j] that t(1) tn(3) ownedD[OF d(3) that(1)] by auto
        moreover have "same_outside (dom ow \<union> set ps) s ?s"
          by (rule same_outside_trans[OF same_outside_mono[OF a(5)] same_outside_set_entry[OF al(1) _ t(3)] order_refl])
            (use Cons t(1) in auto)
        ultimately show ?thesis using rs(2) tn(3) Cons path(1) unfolding grows_def
          by (auto simp: map_le_def)
      qed
      ultimately show ?thesis using rs(1) ti True table_entry(3,4)[OF n(3)] us
        by - (rule exI[of _ True], rule exI[of _ ?s], rule exI[of _ ?ow], rule exI[of _ ps'], simp)
    qed
  qed
qed


text \<open>The counterpart of an entry one level down.\<close>

lemma counterpart_next:
  assumes inv: "table_inv s K ow ps" and e: "kernel_counterpart s K ow p i e" "length p < 3" "i < 512"
  shows "kernel_counterpart s K ow (p @ [i]) j (if (if \<not> is_present e then 0 else entry_table e) = 0 then 0
    else entry_at s (if \<not> is_present e then 0 else entry_table e) j)"
proof (cases "is_present e")
  case False
  have "ow u \<noteq> Some (K, p @ [i])" for u
  proof
    assume "ow u = Some (K, p @ [i])"
    then obtain w where "ow w = Some (K, p)" "is_present (entry_at s w i)"
      using table_invD(5)[OF inv] unfolding parent_ok_def by blast
    then show False using e(1) False unfolding kernel_counterpart_def by auto
  qed
  with False show ?thesis by (simp add: kernel_counterpart_def)
next
  case True
  then have "e \<noteq> 0" by (auto simp: is_present_def)
  then obtain w where w: "ow w = Some (K, p)" "e = entry_at s w i" using e(1) unfolding kernel_counterpart_def by blast
  note d = table_invD[OF inv]
  have c: "ow (entry_table e) = Some (K, p @ [i])"
    using child_okD[OF d(4) w(1) e(2,3)] True w(2) by (auto simp: entry_table_def entry_address_def)
  then have nz: "entry_table e \<noteq> 0" using ownedD[OF d(3)] by blast
  have u: "u = entry_table e" if "ow u = Some (K, p @ [i])" for u using owner_unique[OF d(3,5) that c] .
  have e': "(if (if \<not> is_present e then 0 else entry_table e) = 0 then 0
    else entry_at s (if \<not> is_present e then 0 else entry_table e) j) = entry_at s (entry_table e) j"
    using True nz by simp
  show ?thesis unfolding kernel_counterpart_def e'
  proof (intro conjI allI impI)
    fix v assume "ow v = Some (K, p @ [i])"
    then show "entry_at s (entry_table e) j = entry_at s v j" using u by simp
  next
    assume "\<forall>v. ow v \<noteq> Some (K, p @ [i])"
    then show "entry_at s (entry_table e) j = 0" using c by blast
  qed
qed

lemma grows_other:
  "grows R is k s ow ps s' ow' ps' \<Longrightarrow> ow u = Some (r, q) \<Longrightarrow> r \<noteq> R \<Longrightarrow> j < 512 \<Longrightarrow> entry_at s' u j = entry_at s u j"
  unfolding grows_def by blast

lemma counterpart_grows:
  assumes "kernel_counterpart s K ow p i e" "grows U is k s ow ps s' ow' ps'" "U \<noteq> K" "i < 512"
  shows "kernel_counterpart s' K ow' p i e"
proof -
  have "ow' u = Some (K, p) \<longleftrightarrow> ow u = Some (K, p)" for u
  proof (cases "ow u")
    case None
    then show ?thesis using assms(2,3) unfolding grows_def by force
  next
    case (Some y)
    then show ?thesis using grows_root[OF assms(2)] by simp
  qed
  moreover have "entry_at s' u i = entry_at s u i" if "ow u = Some (K, p)" for u
    using grows_other[OF assms(2) that _ assms(4)] assms(3) by simp
  ultimately show ?thesis using assms(1) unfolding kernel_counterpart_def by auto
qed

lemma ensure_private_user_path_spec:
  assumes inv: "table_inv s K ow ps" and U: "ow U = Some (U, [])" "U \<noteq> K" and K: "paging_kernel_pml4 s = K"
    and top: "is_present (entry_at s U (pml4_index va))"
  shows "\<exists>ok s' ow' ps'. ensure_private_user_path U va s = (ok, s') \<and> table_inv s' K ow' ps'
    \<and> grows U (indices va) 3 s ow ps s' ow' ps' \<and> (ok \<or> length ps \<le> 2)
    \<and> (ok \<longrightarrow> private_path s' ow' U (indices va) 3)"
proof -
  let ?i = "pml4_index va" and ?j = "pdpt_index va" and ?k = "pd_index va" and ?l = "pt_index va"
  let ?is = "indices va"
  have is1: "?is = [] @ ?i # [?j, ?k, ?l]" and is2: "?is = [?i] @ ?j # [?k, ?l]" and is3: "?is = [?i, ?j] @ ?k # [?l]"
    by (simp_all add: indices_def)
  note d = table_invD[OF inv]
  let ?e1 = "entry_at s K ?i"
  have "u = K" if "ow u = Some (K, [])" for u using owner_unique[OF d(3,5) that d(6)] .
  then have c1: "kernel_counterpart s K ow [] ?i ?e1" using d(6) by (auto simp: kernel_counterpart_def)
  have p0: "private_path s ow U ?is (length [])" by (simp add: private_path_def)
  have l0: "user_links s ow U" by (rule user_links_root[OF d(3,4) U(1)])
  from privatise_entry_spec[OF inv U(1) _ index_lt(1) U(2) is1 p0 c1 l0]
  obtain ok1 s1 ow1 ps1 where 1: "privatise_entry U ?i ?e1 s = (ok1, s1)" "table_inv s1 K ow1 ps1"
    "grows U ?is 1 s ow ps s1 ow1 ps1" "ok1 \<or> ps = []" "ok1 \<longrightarrow> private_path s1 ow1 U ?is (Suc (length ([]::u64 list)))"
    "is_present (entry_at s1 U ?i) = is_present (entry_at s U ?i)"
    "ok1 \<longrightarrow> is_present (entry_at s U ?i) \<longrightarrow> user_links s1 ow1 (entry_address (entry_at s1 U ?i))" by auto
  show ?thesis
  proof (cases ok1)
    case False
    with 1 grows_mono[OF 1(3), of 3] K show ?thesis
      by - (rule exI[of _ False], rule exI[of _ s1], rule exI[of _ ow1], rule exI[of _ ps1],
        simp add: ensure_private_user_path_def)
  next
    case ok1: True
    let ?t1 = "entry_table (entry_at s1 U ?i)"
    have o1: "ow1 ?t1 = Some (U, [?i])"
      using ok1 1(5,6) top is1 grows_root[OF 1(3) U(1)] unfolding private_path_def
      by (auto simp: entry_table_def entry_address_def)
    let ?kt = "if \<not> is_present ?e1 then 0 else entry_table ?e1"
    let ?e2 = "if ?kt = 0 then 0 else entry_at s1 ?kt ?j"
    have c2: "kernel_counterpart s1 K ow1 [?i] ?j ?e2"
      using counterpart_next[OF 1(2) counterpart_grows[OF c1 1(3) U(2) index_lt(1)]] by simp
    have p1: "private_path s1 ow1 U ?is (length [?i])" using 1(5) ok1 by simp
    have l1: "user_links s1 ow1 ?t1" using 1(7) ok1 top by (simp add: entry_table_def entry_address_def)
    from privatise_entry_spec[OF 1(2) o1 _ index_lt(2) U(2) is2 p1 c2 l1]
    obtain ok2 s2 ow2 ps2 where 2: "privatise_entry ?t1 ?j ?e2 s1 = (ok2, s2)" "table_inv s2 K ow2 ps2"
      "grows U ?is 1 s1 ow1 ps1 s2 ow2 ps2" "ok2 \<or> ps1 = []" "ok2 \<longrightarrow> private_path s2 ow2 U ?is (Suc (length [?i]))"
      "is_present (entry_at s2 ?t1 ?j) = is_present (entry_at s1 ?t1 ?j)"
      "ok2 \<longrightarrow> is_present (entry_at s1 ?t1 ?j) \<longrightarrow> user_links s2 ow2 (entry_address (entry_at s2 ?t1 ?j))" by auto
    note g2 = grows_trans[OF 1(3) 2(3)]
    show ?thesis
    proof (cases ok2)
      case False
      with 2(4) grows_used[OF 1(3)] have "length ps \<le> 2" by simp
      with False ok1 1(1) 2 grows_mono[OF g2, of 3] K show ?thesis
        by - (rule exI[of _ False], rule exI[of _ s2], rule exI[of _ ow2], rule exI[of _ ps2],
          simp add: ensure_private_user_path_def Let_def)
    next
      case ok2: True
      have o1': "ow2 ?t1 = Some (U, [?i])" using grows_root[OF 2(3) o1] .
      have p2: "private_path s2 ow2 U ?is (length [?i, ?j])" using 2(5) ok2 by simp
      show ?thesis
      proof (cases "is_present (entry_at s2 ?t1 ?j)")
        case False
        have "ow2 u \<noteq> Some (U, [?i, ?j])" for u
        proof
          assume "ow2 u = Some (U, [?i, ?j])"
          then obtain w where "ow2 w = Some (U, [?i])" "is_present (entry_at s2 w ?j)"
            using table_invD(5)[OF 2(2)] unfolding parent_ok_def by (metis append_Cons append_Nil)
          then show False using owner_unique[OF table_invD(3,5)[OF 2(2)] _ o1'] False by blast
        qed
        then have "private_path s2 ow2 U ?is 3"
          using p2 unfolding private_path_def indices_def
          by (auto simp: numeral_3_eq_3 less_Suc_eq length_Suc_conv)
        with False ok1 ok2 1(1) 2(1,2) grows_mono[OF g2, of 3] K show ?thesis
          by - (rule exI[of _ True], rule exI[of _ s2], rule exI[of _ ow2], rule exI[of _ ps2],
            simp add: ensure_private_user_path_def Let_def)
      next
        case pr: True
        let ?t2 = "entry_table (entry_at s2 ?t1 ?j)"
        have o2: "ow2 ?t2 = Some (U, [?i] @ [?j])"
          using p2 pr is2 o1' unfolding private_path_def by (auto simp: entry_table_def entry_address_def)
        let ?kd = "if \<not> is_present ?e2 then 0 else entry_table ?e2"
        let ?e3 = "if ?kd = 0 then 0 else entry_at s2 ?kd ?k"
        have c3: "kernel_counterpart s2 K ow2 [?i, ?j] ?k ?e3"
          using counterpart_next[OF 2(2) counterpart_grows[OF c2 2(3) U(2) index_lt(2)]] by simp
        have l2: "user_links s2 ow2 ?t2" using 2(6,7) ok2 pr by (simp add: entry_table_def entry_address_def)
        from privatise_entry_spec[OF 2(2) _ _ index_lt(3) U(2) is3 p2 c3 l2] o2
        obtain ok3 s3 ow3 ps3 where 3: "privatise_entry ?t2 ?k ?e3 s2 = (ok3, s3)" "table_inv s3 K ow3 ps3"
          "grows U ?is 1 s2 ow2 ps2 s3 ow3 ps3" "ok3 \<or> ps2 = []" "ok3 \<longrightarrow> private_path s3 ow3 U ?is (Suc (length [?i, ?j]))" by auto
        have g3: "grows U ?is 3 s ow ps s3 ow3 ps3" using grows_trans[OF g2 3(3)] by (simp add: numeral_3_eq_3)
        have "ok3 \<or> length ps \<le> 2" using 3(4) grows_used[OF g2] by auto
        moreover have "ensure_private_user_path U va s = (ok3, s3)"
          using ok1 ok2 1(1) 2(1) 3(1) pr K by (simp add: ensure_private_user_path_def Let_def)
        ultimately show ?thesis using 3(2,5) g3
          by - (rule exI[of _ ok3], rule exI[of _ s3], rule exI[of _ ow3], rule exI[of _ ps3], simp add: numeral_3_eq_3)
      qed
    qed
  qed
qed

section \<open>Addresses and indices\<close>

lemma index_bits:
  "bit (pml4_index v) n \<longleftrightarrow> n < 9 \<and> bit v (n + 39)" "bit (pdpt_index v) n \<longleftrightarrow> n < 9 \<and> bit v (n + 30)"
  "bit (pd_index v) n \<longleftrightarrow> n < 9 \<and> bit v (n + 21)" "bit (pt_index v) n \<longleftrightarrow> n < 9 \<and> bit v (n + 12)"
proof -
  have m: "(0x1FF :: u64) = mask 9" by (simp add: mask_eq_exp_minus_1)
  show "bit (pml4_index v) n \<longleftrightarrow> n < 9 \<and> bit v (n + 39)" "bit (pdpt_index v) n \<longleftrightarrow> n < 9 \<and> bit v (n + 30)"
  "bit (pd_index v) n \<longleftrightarrow> n < 9 \<and> bit v (n + 21)" "bit (pt_index v) n \<longleftrightarrow> n < 9 \<and> bit v (n + 12)"
    unfolding pml4_index_def pdpt_index_def pd_index_def pt_index_def m
    by (auto simp: bit_simps add.commute)
qed

lemma indices_eq_iff:
  "indices v = indices w \<longleftrightarrow> (\<forall>n. 12 \<le> n \<longrightarrow> n < 48 \<longrightarrow> bit v n = bit w n)"
proof
  assume e: "indices v = indices w"
  show "\<forall>n. 12 \<le> n \<longrightarrow> n < 48 \<longrightarrow> bit v n = bit w n"
  proof (intro allI impI)
    fix n :: nat assume n: "12 \<le> n" "n < 48"
    consider "n < 21" | "21 \<le> n" "n < 30" | "30 \<le> n" "n < 39" | "39 \<le> n" using n by linarith
    then show "bit v n = bit w n"
    proof cases
      case 1
      then have "n - 12 < 9" "12 \<le> n" using n by linarith+
      then show ?thesis using e n index_bits(4)[of v "n - 12"] index_bits(4)[of w "n - 12"] by (simp add: indices_def)
    next
      case 2
      then have "n - 21 < 9" "21 \<le> n" using n by linarith+
      then show ?thesis using e n index_bits(3)[of v "n - 21"] index_bits(3)[of w "n - 21"] by (simp add: indices_def)
    next
      case 3
      then have "n - 30 < 9" "30 \<le> n" using n by linarith+
      then show ?thesis using e n index_bits(2)[of v "n - 30"] index_bits(2)[of w "n - 30"] by (simp add: indices_def)
    next
      case 4
      then have "n - 39 < 9" "39 \<le> n" using n by linarith+
      then show ?thesis using e n index_bits(1)[of v "n - 39"] index_bits(1)[of w "n - 39"] by (simp add: indices_def)
    qed
  qed
qed (auto simp: indices_def index_bits intro!: bit_word_eqI)

definition same_page :: "addr \<Rightarrow> addr \<Rightarrow> bool" where
  "same_page v w \<longleftrightarrow> drop_bit 12 (take_bit 48 v) = drop_bit 12 (take_bit 48 w)"

lemma indices_same_page: "indices v = indices w \<longleftrightarrow> same_page v w"
proof -
  have "same_page v w \<longleftrightarrow> (\<forall>n. bit (drop_bit 12 (take_bit 48 v)) n = bit (drop_bit 12 (take_bit 48 w)) n)"
    unfolding same_page_def by (auto intro: bit_word_eqI)
  also have "\<dots> \<longleftrightarrow> (\<forall>n. n + 12 < 48 \<longrightarrow> bit v (n + 12) = bit w (n + 12))"
    by (auto simp: bit_simps add.commute)
  also have "\<dots> \<longleftrightarrow> (\<forall>n. 12 \<le> n \<longrightarrow> n < 48 \<longrightarrow> bit v n = bit w n)"
    by (metis add.commute le_Suc_ex le_add2)
  finally show ?thesis using indices_eq_iff by simp
qed

lemma page_mask: "paging_page_size - 1 = 4095"
  by (simp add: paging_page_size_def)

lemma indices_floor: "indices (v AND NOT (paging_page_size - 1)) = indices v"
proof -
  have m: "(4095 :: u64) = mask 12" by (simp add: mask_eq_exp_minus_1)
  show ?thesis unfolding indices_eq_iff page_mask m by (auto simp: bit_simps)
qed

lemma indices_lt: "\<forall>j \<in> set (indices v). j < 512" "length (indices v) = 4"
  by (auto simp: indices_def)

lemma same_roots_translate: "same_roots s s' ow \<Longrightarrow> ow x = Some (x, []) \<Longrightarrow> translate s' x v = translate s x v"
  unfolding same_roots_def translate_def using indices_lt by metis

lemma pages_frame_kernel: "pages_frame s t \<Longrightarrow> paging_kernel_pml4 t = paging_kernel_pml4 s"
  by (auto simp: pages_frame_def)

section \<open>Mapping a user page\<close>

definition user_entry :: "addr \<Rightarrow> u64" where
  "user_entry physical = (physical AND NOT (paging_page_size - 1)) OR (paging_present OR paging_writable OR paging_user)"

lemma user_entry_present: "is_present (user_entry p)" "user_entry p AND paging_user \<noteq> 0"
proof -
  show "is_present (user_entry p)"
  proof -
    have "bit paging_present 0" by (simp add: paging_present_def)
    then show ?thesis unfolding is_present_bit user_entry_def bit_or_iff by blast
  qed
  have "bit (user_entry p AND paging_user) 2"
    by (simp add: user_entry_def bit_simps paging_user_def)
  then show "user_entry p AND paging_user \<noteq> 0" by auto
qed

lemma map_user_page_spec:
  assumes inv: "table_inv s K ow ps" and U: "ow U = Some (U, [])" "U \<noteq> K" and K: "paging_kernel_pml4 s = K"
    and top: "is_present (entry_at s U (pml4_index va))"
  shows "\<exists>s' ow' ps'. table_inv s' K ow' ps' \<and> pages_frame s s' \<and> ow \<subseteq>\<^sub>m ow'
    \<and> (\<exists>ns. ps = ns @ ps' \<and> dom ow' = dom ow \<union> set ns)
    \<and> (\<forall>x. ow x = None \<longrightarrow> ow' x \<noteq> None \<longrightarrow> (\<exists>p q. ow' x = Some (U, p) \<and> p \<noteq> [] \<and> indices va = p @ q))
    \<and> same_outside (dom ow \<union> set ps) s s'
    \<and> (if paging_map_user_page U va pa s = Ret () s' then
         (\<forall>x v. ow x = Some (x, []) \<longrightarrow> translate s' x v = (if x = U \<and> same_page v va then Some (user_entry pa) else translate s x v))
       else paging_map_user_page U va pa s = Halt s' \<and> length ps \<le> 5
         \<and> (\<forall>x v. ow x = Some (x, []) \<longrightarrow> translate s' x v = translate s x v))"
proof -
  let ?va = "va AND NOT (paging_page_size - 1)" and ?pa = "pa AND NOT (paging_page_size - 1)"
  let ?fl = "paging_present OR paging_writable OR paging_user"
  have iv: "indices ?va = indices va" by (rule indices_floor)
  then have "pml4_index ?va = pml4_index va" by (simp only: indices_def list.inject)
  with top have top': "is_present (entry_at s U (pml4_index ?va))" by (simp only:)
  from ensure_private_user_path_spec[OF inv U K top', unfolded iv] obtain ok1 s1 ow1 ps1 where 1:
    "ensure_private_user_path U ?va s = (ok1, s1)" "table_inv s1 K ow1 ps1" "grows U (indices va) 3 s ow ps s1 ow1 ps1"
    "ok1 \<or> length ps \<le> 2" "ok1 \<longrightarrow> private_path s1 ow1 U (indices va) 3" by blast
  note g = 1(3)[unfolded grows_def]
  have tr1: "translate s1 x v = translate s x v" if "ow x = Some (x, [])" for x v
    using same_roots_translate[where s = s and s' = s1 and ow = ow and x = x and v = v] that g by blast
  show ?thesis
  proof (cases ok1)
    case False
    then have "paging_map_user_page U va pa s = Halt s1" "length ps \<le> 2"
      using 1(1,4) U(2) K by (auto simp: paging_map_user_page_def arch_halt_forever_def Let_def)
    then show ?thesis using 1(2) g tr1
      by - (rule exI[of _ s1], rule exI[of _ ow1], rule exI[of _ ps1], auto)
  next
    case True
    have U1: "ow1 U = Some (U, [])" using grows_root[OF 1(3) U(1)] .
    have pp: "private_path s1 ow1 U (indices ?va) 3" using 1(5) True iv by simp
    have fl: "?fl AND paging_user \<noteq> 0 \<longrightarrow> U \<noteq> K" using U(2) by simp
    have pb: "\<not> bit ?pa 2"
    proof -
      have "(paging_page_size - 1 :: u64) = mask 12" by (simp add: paging_page_size_def mask_eq_exp_minus_1)
      then show ?thesis by (simp add: bit_simps)
    qed
    from map_page_4k_spec[OF 1(2) U1 pp fl pb, unfolded iv] obtain ok2 s2 ow2 ps2 where 2:
      "map_page_4k U ?va ?pa ?fl s1 = (ok2, s2)" "table_inv s2 K ow2 ps2" "ok2 \<or> length ps1 \<le> 2" "pages_frame s1 s2"
      "ow1 \<subseteq>\<^sub>m ow2" "\<exists>ns. ps1 = ns @ ps2 \<and> dom ow2 = dom ow1 \<union> set ns"
      "\<forall>x. ow1 x = None \<longrightarrow> ow2 x \<noteq> None \<longrightarrow> (\<exists>p q. ow2 x = Some (U, p) \<and> p \<noteq> [] \<and> indices va = p @ q)"
      "\<forall>x is. ow1 x = Some (x, []) \<longrightarrow> length is = 4 \<longrightarrow> (\<forall>j \<in> set is. j < 512) \<longrightarrow> (x = U \<or> U \<noteq> K) \<longrightarrow>
         leaf s2 x is = (if ok2 \<and> x = U \<and> is = indices va then ?pa OR ?fl else leaf s1 x is)"
      "same_outside (dom ow1 \<union> set ps1) s1 s2"
      by blast
    have run: "paging_map_user_page U va pa s = (if ok2 then Ret () s2 else Halt s2)"
      using 1(1) 2(1) True U(2) K by (simp add: paging_map_user_page_def arch_halt_forever_def Let_def)
    have tr: "translate s2 x v = (if ok2 \<and> x = U \<and> same_page v va then Some (user_entry pa) else translate s x v)"
      if x: "ow x = Some (x, [])" for x v
    proof -
      have "ow1 x = Some (x, [])" using grows_root[OF 1(3) x] .
      then have "leaf s2 x (indices v) = (if ok2 \<and> x = U \<and> same_page v va then ?pa OR ?fl else leaf s1 x (indices v))"
        using 2(8) indices_lt[of v] U(2) by (simp add: indices_same_page)
      then show ?thesis using tr1[OF x, of v] user_entry_present(1)[of pa] by (simp add: translate_def user_entry_def)
    qed
    have fr: "pages_frame s s2" "ow \<subseteq>\<^sub>m ow2" using g 2(4,5) pages_frame_trans map_le_trans by blast+
    have dm: "\<exists>ns. ps = ns @ ps2 \<and> dom ow2 = dom ow \<union> set ns"
    proof -
      obtain n1 n2 where "ps = n1 @ ps1" "dom ow1 = dom ow \<union> set n1" "ps1 = n2 @ ps2" "dom ow2 = dom ow1 \<union> set n2"
        using g 2(6) by auto
      then show ?thesis by (intro exI[of _ "n1 @ n2"]) auto
    qed
    have new: "\<exists>p q. ow2 x = Some (U, p) \<and> p \<noteq> [] \<and> indices va = p @ q" if x: "ow x = None" "ow2 x \<noteq> None" for x
    proof (cases "ow1 x")
      case None
      then show ?thesis using 2(7) x by blast
    next
      case (Some y)
      then have "ow1 x \<noteq> None" by simp
      then show ?thesis using g x(1) map_le_Some[OF 2(5)] by blast
    qed
    have out: "same_outside (dom ow \<union> set ps) s s2"
      by (rule same_outside_trans[OF _ 2(9)]) (use g in auto)
    have "\<not> ok2 \<Longrightarrow> length ps \<le> 5" using 2(3) grows_used[OF 1(3)] by auto
    then show ?thesis using run 2(2) fr dm new tr out
      by - (rule exI[of _ s2], rule exI[of _ ow2], rule exI[of _ ps2], simp)
  qed
qed


section \<open>A new address space\<close>

lemma new_root:
  assumes inv: "table_inv s K ow (n # ps)" and free: "palloc_inv s' ps"
    and e: "\<And>u j. page_aligned u \<Longrightarrow> j < 512 \<Longrightarrow> entry_at s' u j = (if u = n then entry_at s K j else entry_at s u j)"
  shows "table_inv s' K (ow(n \<mapsto> (n, []))) ps" "same_roots s s' ow" "ow n = None"
    "length is = 4 \<Longrightarrow> \<forall>j \<in> set is. j < 512 \<Longrightarrow> leaf s' n is = leaf s K is"
proof -
  let ?ow = "ow(n \<mapsto> (n, []))"
  note d = table_invD[OF inv]
  have n: "n \<noteq> 0" "page_aligned n" "n \<notin> set ps" using palloc_inv_page[OF d(1)] palloc_inv_distinct[OF d(1)] by auto
  show nn: "ow n = None"
  proof (cases "ow n")
    case (Some rp)
    then show ?thesis using ownedD[OF d(3), of n "fst rp" "snd rp"] by simp
  qed
  have al: "page_aligned u" "u \<noteq> n" if "ow u = Some rp" for u rp
    using that ownedD[OF d(3), of u "fst rp" "snd rp"] nn by auto
  have eo: "entry_at s' u j = entry_at s u j" if "ow u = Some rp" "j < 512" for u j rp
    using e[OF al(1)[OF that(1)] that(2)] al(2)[OF that(1)] by simp
  have en: "entry_at s' n j = entry_at s K j" if "j < 512" for j using e[OF n(2) that] by simp
  have root: "r \<noteq> n" if ur: "ow u = Some (r, p)" for u r p
  proof -
    obtain w where w: "ow w = Some (r, [])" using owner_prefix[OF d(5), of u r "[]" p] ur by auto
    then have "w = r" using ownedD[OF d(3) w] by simp
    then show ?thesis using w nn by auto
  qed
  have "owned ?ow ps" using d(2,3) n root unfolding owned_def by auto
  moreover have "child_ok s' K ?ow"
    unfolding child_ok_def
  proof (intro allI impI)
    fix u r q j assume u: "?ow u = Some (r, q)" "length q < 3" "j < (512::u64)"
    show "if is_present (entry_at s' u j) then ?ow (entry_address (entry_at s' u j)) = Some (r, q @ [j])
        \<or> ?ow (entry_address (entry_at s' u j)) = Some (K, q @ [j]) else entry_at s' u j = 0"
    proof (cases "u = n")
      case True
      then have "q = []" "entry_at s' u j = entry_at s K j" using u en by auto
      then show ?thesis using child_okD[OF d(4,6) _ u(3)] child_absent[OF d(4,6) _ u(3)] nn by auto
    next
      case False
      then have uo: "ow u = Some (r, q)" using u(1) by simp
      show ?thesis using child_okD[OF d(4) uo u(2,3)] child_absent[OF d(4) uo u(2,3)] eo[OF uo u(3)] nn by auto
    qed
  qed
  moreover have "parent_ok s' ?ow"
    unfolding parent_ok_def
  proof (intro allI impI)
    fix u r q j assume "?ow u = Some (r, q @ [j])"
    then have "ow u = Some (r, q @ [j])" by (auto split: if_splits)
    then obtain w where w: "ow w = Some (r, q)" "j < 512" "is_present (entry_at s w j)" "entry_address (entry_at s w j) = u"
      using d(5) unfolding parent_ok_def by blast
    then show "\<exists>w. ?ow w = Some (r, q) \<and> j < 512 \<and> is_present (entry_at s' w j) \<and> entry_address (entry_at s' w j) = u"
      using eo[OF w(1,2)] al(2)[OF w(1)] by (intro exI[of _ w]) simp
  qed
  moreover have "rights_ok s' ?ow"
    unfolding rights_ok_def
  proof (intro allI impI)
    fix u r q j assume u: "?ow u = Some (r, q)" "length q < 3" "j < (512 :: u64)" "is_present (entry_at s' u j)"
    obtain w r1 where w: "ow w = Some (r1, q)" "entry_at s' u j = entry_at s w j"
    proof (cases "u = n")
      case True
      then show ?thesis using that[of K K] u(1) en[OF u(3)] d(6) by simp
    next
      case False
      then show ?thesis using that[of u r] u(1) eo[of u "(r, q)" j] u(3) by simp
    qed
    have pr: "is_present (entry_at s w j)" using u(4) w(2) by simp
    from child_okD[OF d(4) w(1) u(2,3) pr] obtain r' where c: "ow (entry_address (entry_at s w j)) = Some (r', q @ [j])" by blast
    show "link_ok (entry_at s' u j) \<and> (\<forall>k < 512. bit (entry_at s' (entry_address (entry_at s' u j)) k) 2 \<longrightarrow> bit (entry_at s' u j) 2)"
      unfolding w(2) using rights_okD[OF d(7) w(1) u(2,3) pr] eo[OF c] by simp
  qed
  ultimately show "table_inv s' K ?ow ps" using d(2,6) free al(2)[OF d(6)] by (simp add: table_inv_def)
  have lf: "leaf s' x is = leaf s x is"
    if "ow x = Some (r, q)" "length q + length is = 4" "\<forall>j \<in> set is. j < 512" for x r q "is"
    using that
  proof (induction "is" arbitrary: x r q rule: induct_list012)
    case (3 j k js)
    then have l: "length q < 3" "j < 512" by auto
    show ?case
    proof (cases "is_present (entry_at s x j)")
      case True
      then obtain r1 where "ow (entry_address (entry_at s x j)) = Some (r1, q @ [j])"
        using child_okD[OF d(4) 3(3) l] by blast
      from 3(2)[OF this] 3(4,5) True eo[OF 3(3) l(2)] show ?thesis by simp
    qed (use eo[OF 3(3) l(2)] in simp)
  qed (auto simp: eo)
  then show "same_roots s s' ow" by (auto simp: same_roots_def)
  assume l: "length is = 4" "\<forall>j \<in> set is. j < 512"
  then obtain i j js where ij: "is = i # j # js" "i < 512" by (auto simp: numeral_eq_Suc length_Suc_conv)
  have "leaf s' n is = leaf s' K is" using en[OF ij(2)] eo[OF d(6) ij(2)] by (simp add: ij(1))
  also have "\<dots> = leaf s K is" using lf[OF d(6)] l by simp
  finally show "leaf s' n is = leaf s K is" .
qed

lemma create_user_address_space_spec:
  assumes inv: "table_inv s K ow ps" and K: "paging_kernel_pml4 s = K"
  shows "case ps of [] \<Rightarrow> paging_create_user_address_space s = (0, s)
    | n # ps' \<Rightarrow> \<exists>s'. paging_create_user_address_space s = (n, s') \<and> pages_frame s s' \<and> n \<noteq> 0 \<and> ow n = None
        \<and> table_inv s' K (ow(n \<mapsto> (n, []))) ps' \<and> same_roots s s' ow \<and> (\<forall>v. translate s' n v = translate s K v)
        \<and> (\<forall>i < 512. entry_at s' n i = entry_at s K i \<and> entry_at s' K i = entry_at s K i)"
proof (cases ps)
  case Nil
  then show ?thesis using table_invD(1)[OF inv] by (simp add: paging_create_user_address_space_def alloc_table_none)
next
  case (Cons n ps')
  note d = table_invD[OF inv]
  from alloc_table_spec[OF d(1)[unfolded Cons]] obtain s1 where a: "alloc_table s = (n, s1)" "palloc_inv s1 ps'"
      "pages_frame s s1" "n \<noteq> 0" "page_aligned n" "n \<notin> set ps'"
      "\<forall>u j. page_aligned u \<longrightarrow> j < 512 \<longrightarrow> entry_at s1 u j = (if u = n then 0 else entry_at s u j)" by blast
  have Kn: "page_aligned K" "K \<noteq> n" using ownedD[OF d(3,6)] Cons by auto
  have k1: "paging_kernel_pml4 s1 = K" using pages_frame_kernel[OF a(3)] K by simp
  let ?s = "copy_entries n K s1"
  have e: "entry_at ?s u j = (if u = n then entry_at s K j else entry_at s u j)" if "page_aligned u" "j < 512" for u j
    using that a(5,7) Kn by (simp add: copy_entries_entries)
  have pi: "palloc_inv ?s ps'" unfolding copy_entries_def using palloc_inv_fill[OF a(2,6,5), of 512] by simp
  have fr: "pages_frame s ?s" using pages_frame_trans[OF a(3) mem_pages_frame] fill_table_frame[of s1 n] by (simp add: copy_entries_def)
  note nr = new_root[OF inv[unfolded Cons] pi e]
  have "paging_create_user_address_space s = (n, ?s)" using a(1,4) k1 by (simp add: paging_create_user_address_space_def)
  moreover have "translate ?s n v = translate s K v" for v
    using nr(4)[of "indices v"] indices_lt[of v] by (simp add: translate_def)
  ultimately show ?thesis using nr fr a(4,5) e Kn Cons by auto
qed

section \<open>Checking user ranges\<close>

lemma leaf_indices:
  "leaf s r (indices v) =
    (case table_of s r [pml4_index v, pdpt_index v, pd_index v] of None \<Rightarrow> 0 | Some pt \<Rightarrow> entry_at s pt (pt_index v))"
  using leaf_table_of[of s r "[pml4_index v, pdpt_index v, pd_index v]" "pt_index v"] by (simp add: indices_def)

lemma walk_table_of:
  "walk_to_pt r v s = (case table_of s r [pml4_index v, pdpt_index v, pd_index v] of None \<Rightarrow> 0 | Some pt \<Rightarrow> pt)"
  by (simp add: walk_to_pt_def Let_def entry_table_def entry_address_def)

lemma walk_translate:
  assumes inv: "table_inv s K ow ps" and r: "ow r = Some (r, [])"
  shows "translate s r v = (if walk_to_pt r v s = 0 then None
    else if is_present (entry_at s (walk_to_pt r v s) (pt_index v)) then Some (entry_at s (walk_to_pt r v s) (pt_index v)) else None)"
proof (cases "table_of s r [pml4_index v, pdpt_index v, pd_index v]")
  case None
  then show ?thesis by (simp add: translate_def leaf_indices walk_table_of is_present_def)
next
  case (Some pt)
  note d = table_invD[OF inv]
  from table_of_owner[OF d(4) r Some] have "pt \<noteq> 0" using ownedD[OF d(3)] by auto
  with Some show ?thesis by (simp add: translate_def leaf_indices walk_table_of)
qed

text \<open>
  The entry of the page of \<open>v\<close> has the user bit. Under \<open>table_inv\<close> the upper levels then have it too, and the processor
  lets user code use the page (\<open>user_reach_iff\<close> in \<open>Mmu\<close>).
\<close>

definition user_accessible :: "'a machine_scheme \<Rightarrow> addr \<Rightarrow> addr \<Rightarrow> bool" where
  "user_accessible s r v \<longleftrightarrow> (\<exists>e. translate s r v = Some e \<and> e AND paging_user \<noteq> 0)"

lemma user_page_ok_iff:
  assumes "table_inv s K ow ps" "ow r = Some (r, [])"
  shows "user_page_ok r v s \<longleftrightarrow> user_accessible s r v"
  unfolding user_page_ok_def user_accessible_def walk_translate[OF assms] by (auto simp: Let_def)

lemma translate_same_page: "same_page v w \<Longrightarrow> translate s r v = translate s r w"
  using indices_same_page[of v w] by (simp add: translate_def)

lemma same_page_div:
  assumes "unat v div 4096 = unat w div 4096"
  shows "same_page v w"
proof -
  have "drop_bit 12 v = drop_bit 12 w"
    unfolding word_unat_eq_iff unsigned_drop_bit_eq
    using assms by (simp add: drop_bit_eq_div take_bit_nat_eq_self)
  moreover have "bit x n = bit (drop_bit 12 x) (n - 12)" if "12 \<le> n" for x :: addr and n
    using that by (simp add: bit_drop_bit_eq)
  ultimately have "bit v n = bit w n" if "12 \<le> n" for n using that by simp
  then show ?thesis using indices_eq_iff indices_same_page by blast
qed

lemma user_accessible_div:
  "unat v div 4096 = unat w div 4096 \<Longrightarrow> user_accessible s r v = user_accessible s r w"
  unfolding user_accessible_def by (drule same_page_div, drule translate_same_page[of v w s r]) simp

text \<open>The loop stops at the last page exactly if it found all earlier ones mapped.\<close>

lemma range_loop:
  fixes firstp lastp :: addr
  assumes n: "unat firstp + 4096 * n = unat lastp"
  shows "\<exists>page. c_while (\<lambda>page s. P page s \<and> page \<noteq> lastp) (\<lambda>page s. Ret (page + 4096) s) firstp s = Ret page s
    \<and> (P page s \<longleftrightarrow> (\<forall>i \<le> n. P (firstp + of_nat i * 4096) s))"
proof -
  define I where "I page t \<longleftrightarrow> t = s \<and> (\<exists>k \<le> n. page = firstp + of_nat k * 4096 \<and> (\<forall>i < k. P (firstp + of_nat i * 4096) s))" for page t
  have u: "unat (firstp + of_nat k * 4096) = unat firstp + 4096 * k" if "k \<le> n" for k
    by (rule unat_region_page) (use that n unat_less64[of lastp] in linarith)
  have last: "lastp = firstp + of_nat n * 4096" using u[of n] n by (simp add: word_unat_eq_iff)
  have "I firstp s" unfolding I_def by (auto intro!: exI[of _ 0])
  then have "\<exists>page t. c_while (\<lambda>page s. P page s \<and> page \<noteq> lastp) (\<lambda>page s. Ret (page + 4096) s) firstp s = Ret page t
    \<and> I page t \<and> \<not> (P page t \<and> page \<noteq> lastp)"
  proof (rule c_while_rule[where M = "\<lambda>page t. unat lastp - unat page"])
    fix page t assume i: "I page t" and b: "P page t \<and> page \<noteq> lastp"
    from i obtain k where k: "t = s" "k \<le> n" "page = firstp + of_nat k * 4096" "\<forall>i < k. P (firstp + of_nat i * 4096) s"
      by (auto simp: I_def)
    have "k \<noteq> n" using b k(3) last by auto
    then have kn: "Suc k \<le> n" using k(2) by simp
    have nx: "page + 4096 = firstp + of_nat (Suc k) * 4096" using k(3) by (simp add: algebra_simps)
    have "I (page + 4096) t" unfolding I_def nx using k b kn by (auto simp: less_Suc_eq intro!: exI[of _ "Suc k"])
    moreover have "unat (page + 4096) = unat firstp + 4096 * Suc k" using u[OF kn] unfolding nx .
    moreover have "unat page = unat firstp + 4096 * k" using u[OF k(2)] k(3) by simp
    ultimately show "\<exists>x' s'. Ret (page + 4096) t = Ret x' s' \<and> I x' s' \<and> unat lastp - unat x' < unat lastp - unat page"
      using n kn by auto
  qed
  then obtain page t where p: "c_while (\<lambda>page s. P page s \<and> page \<noteq> lastp) (\<lambda>page s. Ret (page + 4096) s) firstp s = Ret page t"
    "I page t" "\<not> (P page t \<and> page \<noteq> lastp)" by blast
  from p(2) obtain k where k: "t = s" "k \<le> n" "page = firstp + of_nat k * 4096" "\<forall>i < k. P (firstp + of_nat i * 4096) s"
    by (auto simp: I_def)
  have "P page s \<longleftrightarrow> (\<forall>i \<le> n. P (firstp + of_nat i * 4096) s)"
  proof
    assume a: "P page s"
    then have "page = lastp" using p(3) k(1) by simp
    then have "unat firstp + 4096 * k = unat firstp + 4096 * n" using u[OF k(2)] k(3) n by simp
    then have "k = n" by simp
    then show "\<forall>i \<le> n. P (firstp + of_nat i * 4096) s" using k a by (auto simp: le_less)
  qed (use k in blast)
  then show ?thesis using p(1) k(1) by blast
qed

lemma pages_of_range:
  fixes P :: "nat \<Rightarrow> bool" and a c :: nat
  assumes c: "0 < c"
  shows "(\<forall>i \<le> (a + (c - 1)) div 4096 - a div 4096. P (a div 4096 + i)) \<longleftrightarrow> (\<forall>k < c. P ((a + k) div 4096))"
proof
  assume h: "\<forall>i \<le> (a + (c - 1)) div 4096 - a div 4096. P (a div 4096 + i)"
  show "\<forall>k < c. P ((a + k) div 4096)"
  proof (intro allI impI)
    fix k assume "k < c"
    then have 1: "(a + k) div 4096 \<le> (a + (c - 1)) div 4096" by (intro div_le_mono) simp
    have 2: "a div 4096 \<le> (a + k) div 4096" by (intro div_le_mono) simp
    have "P (a div 4096 + ((a + k) div 4096 - a div 4096))" using h 1 by (metis diff_le_mono)
    then show "P ((a + k) div 4096)" using 2 by simp
  qed
next
  assume h: "\<forall>k < c. P ((a + k) div 4096)"
  show "\<forall>i \<le> (a + (c - 1)) div 4096 - a div 4096. P (a div 4096 + i)"
  proof (intro allI impI)
    fix i assume i: "i \<le> (a + (c - 1)) div 4096 - a div 4096"
    show "P (a div 4096 + i)"
    proof (cases "i = 0")
      case True
      then show ?thesis using h[rule_format, of 0] c by simp
    next
      case False
      define k where "k = 4096 * (a div 4096 + i) - a"
      obtain q r where a: "a = 4096 * q + r" "r < 4096" "q = a div 4096"
        using mult_div_mod_eq[of 4096 a] mod_less_divisor[of 4096 a] by (metis zero_less_numeral)
      have "a div 4096 + i \<le> (a + (c - 1)) div 4096" using i False by linarith
      then have "4096 * (a div 4096 + i) \<le> 4096 * ((a + (c - 1)) div 4096)" by (rule mult_le_mono2)
      then have "4096 * (a div 4096 + i) \<le> a + (c - 1)"
        using times_div_less_eq_dividend[of 4096 "a + (c - 1)"] by linarith
      moreover have "a \<le> 4096 * (a div 4096 + i)" 
      proof -
        have "4096 * 1 \<le> 4096 * i" using False by (intro mult_le_mono2) simp
        then show ?thesis unfolding a(3)[symmetric] using a(1,2) by (simp add: distrib_left)
      qed
      ultimately have "k < c" "a + k = 4096 * (a div 4096 + i)" using c by (auto simp: k_def)
      then show ?thesis using h[rule_format, of k] by simp
    qed
  qed
qed

lemma user_range_mapped_spec:
  assumes inv: "table_inv s K ow ps" and r: "ow r = Some (r, [])"
  shows "paging_user_range_mapped r va count s =
    Ret (count = 0 \<or> (unat va + unat count \<le> 18446744073709551616
        \<and> (\<forall>k < unat count. user_accessible s r (va + of_nat k)))) s"
proof -
  have nz: "r \<noteq> 0" using ownedD[OF table_invD(3)[OF inv] r] by simp
  show ?thesis
  proof (cases "count = 0")
    case True
    then show ?thesis using nz by (simp add: paging_user_range_mapped_def)
  next
    case False
    then have c: "0 < unat count" by (simp add: unat_gt_0)
    have c1: "unat (count - 1) = unat count - 1" using c by (simp add: unat_minus_one False)
    show ?thesis
    proof (cases "unat va + unat count \<le> 18446744073709551616")
      case False
      then have "unat (va + (count - 1)) < unat va"
      proof -
        have ge: "18446744073709551616 \<le> unat va + unat (count - 1)" using False c c1 by simp
        then have "unat (va + (count - 1)) = unat va + unat (count - 1) - 18446744073709551616"
        proof -
          have "(unat va + unat (count - 1)) mod 18446744073709551616
              = (unat va + unat (count - 1) - 18446744073709551616) mod 18446744073709551616"
            by (rule le_mod_geq[OF ge])
          also have "\<dots> = unat va + unat (count - 1) - 18446744073709551616"
            by (rule mod_less) (use unat_less64[of va] unat_less64[of "count - 1"] in linarith)
          finally show ?thesis by (simp add: unat_word_ariths(1)[of va "count - 1"])
        qed
        then show ?thesis using ge unat_less64[of "count - 1"] by linarith
      qed
      then have "paging_user_range_mapped r va count s = Ret False s" using nz \<open>count \<noteq> 0\<close>
        by (simp add: paging_user_range_mapped_def word_less_nat_alt Let_def)
      then show ?thesis using False \<open>count \<noteq> 0\<close> by simp
    next
      case True
      let ?a = "unat va" and ?c = "unat count"
      let ?firstp = "va AND NOT 4095" and ?lastp = "(va + (count - 1)) AND NOT 4095"
      have e: "unat (va + (count - 1)) = ?a + (?c - 1)" using True c c1 by (simp add: unat_word_ariths)
      let ?n = "(?a + (?c - 1)) div 4096 - ?a div 4096"
      have "?a div 4096 \<le> (?a + (?c - 1)) div 4096" by (intro div_le_mono) simp
      then have n: "unat ?firstp + 4096 * ?n = unat ?lastp"
        unfolding unat_page_floor e by (simp add: algebra_simps)
      have u: "unat (?firstp + of_nat i * 4096) = 4096 * (?a div 4096 + i)" if "i \<le> ?n" for i
      proof -
        have "unat (?firstp + of_nat i * 4096) = unat ?firstp + 4096 * i"
          by (rule unat_region_page) (use that n unat_less64[of ?lastp] in linarith)
        then show ?thesis by (simp only: unat_page_floor) simp
      qed
      define P where "P i = user_accessible s r (of_nat (4096 * i))" for i
      have Pu: "user_accessible s r v = P (unat v div 4096)" for v
      proof -
        have "unat v div 4096 * 4096 \<le> unat v" by simp
        then have "4096 * (unat v div 4096) < 18446744073709551616" using unat_less64[of v] by linarith
        then have "unat (of_nat (4096 * (unat v div 4096)) :: addr) = 4096 * (unat v div 4096)"
          by (subst unat_of_nat) simp
        then show ?thesis unfolding P_def by (intro user_accessible_div) simp
      qed
      from range_loop[OF n, of "\<lambda>page s. user_page_ok r page s"] obtain page where p:
        "c_while (\<lambda>page s. user_page_ok r page s \<and> page \<noteq> ?lastp) (\<lambda>page s. Ret (page + 4096) s) ?firstp s = Ret page s"
        "user_page_ok r page s \<longleftrightarrow> (\<forall>i \<le> ?n. user_page_ok r (?firstp + of_nat i * 4096) s)" by blast
      have "\<not> va + (count - 1) < va" using e by (simp add: word_less_nat_alt)
      then have run: "paging_user_range_mapped r va count s = Ret (user_page_ok r page s) s"
        using nz \<open>count \<noteq> 0\<close> p(1) unfolding paging_user_range_mapped_def page_mask by (simp add: paging_page_size_def Let_def)
      have "user_page_ok r (?firstp + of_nat i * 4096) s = P (?a div 4096 + i)" if "i \<le> ?n" for i
        unfolding user_page_ok_iff[OF inv r] Pu u[OF that] by simp
      then have "user_page_ok r page s \<longleftrightarrow> (\<forall>i \<le> ?n. P (?a div 4096 + i))"
        unfolding p(2) by blast
      also have "\<dots> \<longleftrightarrow> (\<forall>k < ?c. P ((?a + k) div 4096))" by (rule pages_of_range[OF c])
      also have "\<dots> \<longleftrightarrow> (\<forall>k < ?c. user_accessible s r (va + of_nat k))"
      proof -
        have "unat (va + of_nat k) = ?a + k" if "k < ?c" for k
          using that True unat_less64[of count] by (simp add: unat_word_ariths unat_of_nat)
        then show ?thesis unfolding Pu by auto
      qed
      finally show ?thesis using run True \<open>count \<noteq> 0\<close> by simp
    qed
  qed
qed

end
