(* ===== verification/PagingBoot.thy ===== *)
theory PagingBoot
  imports PagingMap
begin

text \<open>
  \<open>paging_initialize\<close>: the loop that maps the first bytes of physical memory to themselves, how many table pages
  it takes, and the map it leaves.
\<close>

section \<open>The identity map\<close>

lemma highest_end_le: "highest_end_step s i h \<le> paging_max_address" if "h \<le> paging_max_address"
  using that by (auto simp: highest_end_step_def Let_def split: option.split)

lemma highest_physical_end_ok:
  "page_aligned (highest_physical_end s)" "highest_physical_end s \<le> 0x100000000"
proof -
  define h where "h = fold (highest_end_step s) [0..<unat (memmap_get_descriptor_count s)] 0"
  have "fold (highest_end_step s) ks x \<le> paging_max_address" if "x \<le> paging_max_address" for ks x
    using that by (induction ks arbitrary: x) (simp_all add: highest_end_le)
  then have "h \<le> 0x100000000" unfolding h_def by (simp add: paging_max_address_def)
  then have u: "unat h \<le> 4294967296" by (simp add: word_le_nat_alt)
  have e: "highest_physical_end s = (if h = 0 then 0 else (h + 4095) AND NOT 4095)"
    by (simp add: highest_physical_end_def h_def paging_page_size_def Let_def)
  then show "page_aligned (highest_physical_end s)" by simp
  have "unat ((h + 4095) AND NOT 4095) = 4096 * ((unat h + 4095) div 4096)"
    by (rule unat_page_ceil) (use u in linarith)
  moreover have "(unat h + 4095) div 4096 \<le> 1048576" using div_le_mono[of "unat h + 4095" "4294967296 + 4095" 4096] u by simp
  ultimately have "(h + 4095) AND NOT 4095 \<le> 0x100000000" by (simp add: word_le_nat_alt)
  then show "highest_physical_end s \<le> 0x100000000" using e by simp
qed

definition identity_entry :: "addr \<Rightarrow> u64" where
  "identity_entry v = (v AND NOT 4095) OR paging_flags_page"

text \<open>The paths of the tables the map of the first 4 GiB needs.\<close>

definition low_paths :: "u64 list set" where
  "low_paths = {[], [0]} \<union> (\<lambda>j. [0, of_nat j]) ` {..<4} \<union> (\<lambda>(j, k). [0, of_nat j, of_nat k]) ` ({..<4} \<times> {..<512})"

lemma card_low_paths: "finite low_paths" "card low_paths \<le> 2054"
proof -
  show "finite low_paths" by (simp add: low_paths_def)
  have a: "card ((\<lambda>j. [0, of_nat j :: u64]) ` {..<4::nat}) \<le> 4"
    by (rule le_trans[OF card_image_le]) simp_all
  have b: "card ((\<lambda>(j, k). [0, of_nat j, of_nat k :: u64]) ` ({..<4::nat} \<times> {..<512::nat})) \<le> 2048"
    by (rule le_trans[OF card_image_le]) (simp_all add: card_cartesian_product)
  have c: "card {[], [0 :: u64]} = 2" by simp
  show "card low_paths \<le> 2054"
    unfolding low_paths_def using a b c
      card_Un_le[of "{[], [0 :: u64]}" "(\<lambda>j. [0, of_nat j]) ` {..<4}"]
      card_Un_le[of "{[], [0 :: u64]} \<union> (\<lambda>j. [0, of_nat j]) ` {..<4}" "(\<lambda>(j, k). [0, of_nat j, of_nat k]) ` ({..<4} \<times> {..<512})"]
    by linarith
qed

lemma low_indices:
  assumes "unat a < 4294967296" "indices a = p @ q" "length p \<le> 3"
  shows "p \<in> low_paths"
proof -
  have s: "unat (drop_bit n a) = unat a div 2 ^ n" for n
    unfolding unsigned_drop_bit_eq by (simp add: drop_bit_eq_div take_bit_nat_eq_self)
  have "unat (drop_bit 39 a) = 0" using assms(1) s[of 39] by simp
  then have i: "pml4_index a = 0" by (simp add: pml4_index_def unat_eq_zero)
  have "unat (drop_bit 30 a) < 4" using assms(1) s[of 30] by simp
  moreover have "unat (pdpt_index a) \<le> unat (drop_bit 30 a)"
    using word_and_le2[of "drop_bit 30 a" "0x1FF"] by (simp add: pdpt_index_def word_le_nat_alt)
  ultimately have j: "unat (pdpt_index a) < 4" by simp
  have k: "unat (pd_index a) < 512" using index_lt(3)[of a] by (simp add: word_less_nat_alt)
  have w: "pdpt_index a = of_nat (unat (pdpt_index a))" "pd_index a = of_nat (unat (pd_index a))" by simp_all
  consider "p = []" | "p = [0]" | "p = [0, pdpt_index a]" | "p = [0, pdpt_index a, pd_index a]"
  proof -
    have "p = take (length p) (indices a)" using assms(2) by simp
    moreover have "length p = 0 \<or> length p = 1 \<or> length p = 2 \<or> length p = 3" using assms(3) by linarith
    ultimately show ?thesis using that i by (auto simp: indices_def numeral_eq_Suc)
  qed
  then show ?thesis
  proof cases
    case 3
    then show ?thesis unfolding low_paths_def using j w(1) by blast
  next
    case 4
    then have "p = (\<lambda>(j, k). [0, of_nat j, of_nat k]) (unat (pdpt_index a), unat (pd_index a))" by simp
    then show ?thesis unfolding low_paths_def using j k by blast
  qed (simp_all add: low_paths_def)
qed

text \<open>So many pages can a tree of low paths take.\<close>

lemma tables_bound:
  assumes inv: "table_inv s K ow ps" and low: "\<And>x r p. ow x = Some (r, p) \<Longrightarrow> r = K \<and> p \<in> low_paths"
  shows "finite (dom ow)" "card (dom ow) \<le> 2054"
proof -
  note d = table_invD[OF inv]
  have inj: "inj_on (\<lambda>x. snd (the (ow x))) (dom ow)"
  proof (rule inj_onI)
    fix x y assume a: "x \<in> dom ow" "y \<in> dom ow" "snd (the (ow x)) = snd (the (ow y))"
    then obtain p where "ow x = Some (K, p)" "ow y = Some (K, p)" using low by fastforce
    then show "x = y" using owner_unique[OF d(3,5)] by blast
  qed
  have sub: "(\<lambda>x. snd (the (ow x))) ` dom ow \<subseteq> low_paths" using low by force
  show "finite (dom ow)" using inj_on_finite[OF inj sub card_low_paths(1)] .
  have "card (dom ow) = card ((\<lambda>x. snd (the (ow x))) ` dom ow)" using card_image[OF inj] by simp
  also have "\<dots> \<le> card low_paths" by (rule card_mono[OF card_low_paths(1) sub])
  finally show "card (dom ow) \<le> 2054" using card_low_paths(2) by simp
qed

lemma page_of_low:
  assumes v: "unat v < 281474976710656" and a: "page_aligned a" "unat a < 281474976710656"
  shows "same_page v a \<longleftrightarrow> unat a \<le> unat v \<and> unat v < unat a + 4096"
proof -
  have t: "take_bit 48 x = x" if "unat x < 281474976710656" for x :: addr
  proof -
    have "unat (take_bit 48 x) = unat x mod 281474976710656"
      by (simp only: unsigned_take_bit_eq) (simp add: take_bit_eq_mod)
    then show ?thesis using that by (simp add: word_unat_eq_iff)
  qed
  have s: "unat (drop_bit 12 x) = unat x div 4096" for x :: addr
    unfolding unsigned_drop_bit_eq by (simp add: drop_bit_eq_div take_bit_nat_eq_self)
  obtain k where k: "unat a = 4096 * k" using a(1) by (rule page_alignedE)
  have "same_page v a \<longleftrightarrow> unat v div 4096 = k"
    unfolding same_page_def t[OF v] t[OF a(2)] word_unat_eq_iff s k by simp
  also have "\<dots> \<longleftrightarrow> 4096 * k \<le> unat v \<and> unat v < 4096 * k + 4096"
    by (metis add.commute div_nat_eqI dividend_less_times_div mult.commute mult_Suc_right times_div_less_eq_dividend zero_less_numeral)
  finally show ?thesis using k by simp
qed


lemma page_aligned_low_bit:
  assumes "page_aligned a" "n < 12"
  shows "\<not> bit a n"
proof -
  have m: "(4095 :: u64) = mask 12" by (simp add: mask_eq_exp_minus_1)
  have "a AND NOT (mask 12) = a" using page_floor_id[OF assms(1)] unfolding m .
  then have "bit a n \<longleftrightarrow> bit (a AND NOT (mask 12)) n" by simp
  then show ?thesis using assms(2) by (simp add: bit_simps)
qed

text \<open>The state of the boot loop: pages below \<open>address\<close> are mapped to themselves, and nothing else.\<close>

definition identity_inv :: "addr \<Rightarrow> addr \<Rightarrow> nat \<Rightarrow> addr \<Rightarrow> 'a paging_state_scheme \<Rightarrow> bool" where
  "identity_inv K limit npages address t \<longleftrightarrow> page_aligned address \<and> unat address \<le> unat limit \<and> paging_kernel_pml4 t = K
     \<and> (\<exists>ow qs. table_inv t K ow qs \<and> (\<forall>x r p. ow x = Some (r, p) \<longrightarrow> r = K \<and> p \<in> low_paths)
          \<and> npages = card (dom ow) + length qs)
     \<and> (\<forall>v. unat v < 281474976710656 \<longrightarrow>
          translate t K v = (if v < address then Some (identity_entry v) else None))"

lemma identity_entry_same_page:
  assumes "page_aligned a" "unat a \<le> unat v" "unat v < unat a + 4096"
  shows "v AND NOT 4095 = a"
proof -
  obtain k where k: "unat a = 4096 * k" using assms(1) by (rule page_alignedE)
  have "unat v div 4096 = k" using assms(2,3) k by (intro div_nat_eqI) simp_all
  then show ?thesis using k by (simp add: word_unat_eq_iff unat_page_floor_minus)
qed

lemma identity_step:
  assumes inv: "identity_inv K limit npages address t" and more: "address < limit"
    and limit: "page_aligned limit" "limit \<le> 0x100000000"
  shows "(\<exists>a' t'. identity_body address t = Ret a' t' \<and> identity_inv K limit npages a' t' \<and> unat limit - unat a' < unat limit - unat address)
    \<or> (\<exists>t'. identity_body address t = Halt t' \<and> npages \<le> 2056)"
proof -
  from inv obtain ow qs where a: "page_aligned address" "paging_kernel_pml4 t = K" "table_inv t K ow qs"
    "\<And>x r p. ow x = Some (r, p) \<Longrightarrow> r = K \<and> p \<in> low_paths" "npages = card (dom ow) + length qs"
    "\<And>v. unat v < 281474976710656 \<Longrightarrow> translate t K v = (if v < address then Some (identity_entry v) else None)"
    unfolding identity_inv_def by blast
  note d = table_invD[OF a(3)]
  have lt: "unat address < 4294967296" using more limit(2) by (simp add: word_less_nat_alt word_le_nat_alt)
  have pr: "private_path t ow K (indices address) 3" by (rule private_kernel[OF d(4)]) simp
  have fl: "paging_flags_page AND paging_user \<noteq> 0 \<longrightarrow> K \<noteq> K" by (simp add: paging_flags_page_def paging_user_def)
  have ab: "\<not> bit address 2" by (rule page_aligned_low_bit[OF a(1)]) simp
  from map_page_4k_spec[OF a(3) d(6) pr fl ab]
  obtain ok t' ow' qs' where m: "map_page_4k K address address paging_flags_page t = (ok, t')" "table_inv t' K ow' qs'"
    "ok \<or> length qs \<le> 2" "pages_frame t t'" "ow \<subseteq>\<^sub>m ow'"
    "\<exists>ns. qs = ns @ qs' \<and> dom ow' = dom ow \<union> set ns \<and> length ns \<le> 3"
    "\<forall>x. ow x = None \<longrightarrow> ow' x \<noteq> None \<longrightarrow> (\<exists>p q. ow' x = Some (K, p) \<and> p \<noteq> [] \<and> indices address = p @ q)"
    "\<forall>x is. ow x = Some (x, []) \<longrightarrow> length is = 4 \<longrightarrow> (\<forall>j \<in> set is. j < 512) \<longrightarrow> (x = K \<or> K \<noteq> K) \<longrightarrow>
         leaf t' x is = (if ok \<and> x = K \<and> is = indices address then address OR paging_flags_page else leaf t x is)" by blast
  have few: "card (dom ow) \<le> 2054" by (rule tables_bound(2)[OF a(3)]) (rule a(4))
  have fin: "finite (dom ow)" by (rule tables_bound(1)[OF a(3)]) (rule a(4))
  have K': "paging_kernel_pml4 t' = K" using pages_frame_kernel[OF m(4)] a(2) by simp
  show ?thesis
  proof (cases ok)
    case False
    have "npages \<le> 2056" using a(5) few m(3) False by simp
    moreover have "identity_body address t = Halt t'" using m(1) a(2) False
      by (simp add: identity_body_def arch_halt_forever_def)
    ultimately show ?thesis by blast
  next
    case True
    have low: "r = K \<and> p \<in> low_paths" if x: "ow' x = Some (r, p)" for x r p
    proof (cases "ow x")
      case None
      then obtain p' q where "ow' x = Some (K, p')" "indices address = p' @ q" using m(7) x by blast
      then have "r = K" "indices address = p @ q" using x by simp_all
      then show ?thesis using low_indices[OF lt, of p q] x ownedD[OF table_invD(3)[OF m(2)] x] by simp
    next
      case (Some y)
      then show ?thesis using a(4)[of x r p] map_le_Some[OF m(5) Some] x by simp
    qed
    obtain ns where ns: "qs = ns @ qs'" "dom ow' = dom ow \<union> set ns" using m(6) by blast
    have "dom ow \<inter> set ns = {}"
    proof -
      have "x \<notin> set qs" if "x \<in> dom ow" for x using that ownedD[OF d(3)] by fastforce
      then show ?thesis using ns(1) by auto
    qed
    moreover have "distinct ns" using palloc_inv_distinct[OF d(1)] ns(1) by simp
    ultimately have "card (dom ow') = card (dom ow) + length ns"
      using ns(2) fin by (simp add: card_Un_disjoint distinct_card)
    then have tot: "npages = card (dom ow') + length qs'" using a(5) ns(1) by simp
    have next_addr: "unat (address + 4096) = unat address + 4096" using lt by (simp add: unat_word_ariths)
    obtain k l where kl: "unat address = 4096 * k" "unat limit = 4096 * l" using a(1) limit(1) by (metis page_alignedE)
    then have le: "unat (address + 4096) \<le> unat limit" using more next_addr by (simp add: word_less_nat_alt)
    have tr: "translate t' K v = (if v < address + 4096 then Some (identity_entry v) else None)"
      if v: "unat v < 281474976710656" for v
    proof -
      have sp: "same_page v address \<longleftrightarrow> unat address \<le> unat v \<and> unat v < unat address + 4096"
        using page_of_low[OF v a(1)] lt by simp
      have lf: "leaf t' K (indices v) = (if same_page v address then address OR paging_flags_page else leaf t K (indices v))"
        using m(8) d(6) True indices_lt[of v] by (simp add: indices_same_page)
      show ?thesis
      proof (cases "same_page v address")
        case same: True
        then have "v AND NOT 4095 = address" using identity_entry_same_page[OF a(1)] sp by blast
        then have "leaf t' K (indices v) = identity_entry v" using lf same by (simp add: identity_entry_def)
        moreover have "is_present (identity_entry v)"
          by (simp add: is_present_bit identity_entry_def bit_or_iff paging_flags_page_def)
        moreover have "v < address + 4096" using sp same next_addr by (simp add: word_less_nat_alt)
        ultimately show ?thesis by (simp add: translate_def)
      next
        case False
        then have "translate t' K v = translate t K v" using lf by (simp add: translate_def)
        moreover have "v < address + 4096 \<longleftrightarrow> v < address"
          using sp False next_addr by (simp add: word_less_nat_alt) linarith
        ultimately show ?thesis using a(6)[OF v] by simp
      qed
    qed
    have "identity_inv K limit npages (address + 4096) t'"
      unfolding identity_inv_def using page_aligned_add[OF a(1) page_aligned_4096] le K' m(2) low tot tr by blast
    moreover have "identity_body address t = Ret (address + 4096) t'" using m(1) a(2) True
      by (simp add: identity_body_def paging_page_size_def)
    moreover have "unat limit - unat (address + 4096) < unat limit - unat address" using next_addr le by linarith
    ultimately show ?thesis by blast
  qed
qed

lemma entry_at_mem: "mem t = mem s \<Longrightarrow> entry_at t = entry_at s"
  by (intro ext) (simp add: entry_at_def load64_def)

lemma leaf_mem: "mem t = mem s \<Longrightarrow> leaf t x is = leaf s x is"
proof -
  assume "mem t = mem s"
  from entry_at_mem[OF this] show ?thesis by (induction s x "is" rule: leaf.induct) auto
qed

lemma pages_frame_memmap: "pages_frame s t \<Longrightarrow> highest_physical_end t = highest_physical_end s"
proof -
  assume "pages_frame s t"
  then obtain m f c where t: "t = s\<lparr>mem := m, free_list_head := f, free_page_count := c\<rparr>" by (auto simp: pages_frame_def)
  have "highest_end_step t = highest_end_step s"
    by (intro ext) (simp add: t highest_end_step_def memmap_get_descriptor_def)
  then show ?thesis by (simp add: highest_physical_end_def memmap_get_descriptor_count_def t)
qed

lemma paging_initialize_no_memory:
  assumes "palloc_inv s (K # ps)" "highest_physical_end s = 0"
  shows "\<exists>t. paging_initialize s = Halt t"
proof -
  from alloc_table_spec[OF assms(1)] obtain s1 where a: "alloc_table s = (K, s1)" "pages_frame s s1" "K \<noteq> 0" by blast
  have "highest_end_step (s1\<lparr>paging_kernel_pml4 := K\<rparr>) = highest_end_step s1"
    by (intro ext) (simp add: highest_end_step_def memmap_get_descriptor_def)
  then have "highest_physical_end (s1\<lparr>paging_kernel_pml4 := K\<rparr>) = highest_physical_end s1"
    by (simp add: highest_physical_end_def memmap_get_descriptor_count_def)
  then have "highest_physical_end (s1\<lparr>paging_kernel_pml4 := K\<rparr>) = 0" using pages_frame_memmap[OF a(2)] assms(2) by simp
  then show ?thesis using a(1,3) by (simp add: paging_initialize_def arch_halt_forever_def Let_def)
qed

lemma paging_initialize_spec:
  assumes inv: "palloc_inv s (K # ps)" and ptr: "\<forall>p \<in> set (K # ps). pointer_ok p"
    and limit: "highest_physical_end s \<noteq> 0"
  shows "(\<exists>t ow qs. paging_initialize s = Ret () t \<and> paging_kernel_pml4 t = K \<and> cr3 t = K \<and> table_inv t K ow qs
      \<and> (\<forall>x r p. ow x = Some (r, p) \<longrightarrow> r = K \<and> p \<in> low_paths) \<and> Suc (length ps) = card (dom ow) + length qs
      \<and> (\<forall>v. unat v < 281474976710656 \<longrightarrow>
           translate t K v = (if v < highest_physical_end s then Some (identity_entry v) else None)))
    \<or> (\<exists>t. paging_initialize s = Halt t \<and> length ps < 2056)"
proof -
  from alloc_table_spec[OF inv] obtain s1 where a: "alloc_table s = (K, s1)" "palloc_inv s1 ps"
      "pages_frame s s1" "K \<noteq> 0" "page_aligned K" "K \<notin> set ps"
      "\<forall>u j. page_aligned u \<longrightarrow> j < 512 \<longrightarrow> entry_at s1 u j = (if u = K then 0 else entry_at s u j)" by blast
  define s2 where "s2 = s1\<lparr>paging_kernel_pml4 := K\<rparr>"
  let ?ow = "[K \<mapsto> (K, [])]"
  have mem2: "mem s2 = mem s1" by (simp add: s2_def)
  have e2: "entry_at s2 K j = 0" if "j < 512" for j using a(5,7) that mem2 by (simp add: entry_at_def load64_def)
  have "palloc_inv s2 ps" using a(2) by (simp add: s2_def palloc_inv_def)
  then have inv2: "table_inv s2 K ?ow ps"
    using a(4-6) ptr e2 unfolding table_inv_def owned_def child_ok_def parent_ok_def rights_ok_def
    by (auto simp: is_present_def split: if_splits)
  have "translate s2 K v = None" for v using e2 by (simp add: translate_def indices_def is_present_def)
  define limit where "limit = highest_physical_end s"
  note lim = highest_physical_end_ok[of s, folded limit_def]
  have "identity_inv K limit (Suc (length ps)) 0 s2"
  proof -
    have "paging_kernel_pml4 s2 = K" by (simp add: s2_def)
    moreover have "\<forall>x r p. ?ow x = Some (r, p) \<longrightarrow> r = K \<and> p \<in> low_paths"
      by (simp add: low_paths_def split: if_splits)
    moreover have "Suc (length ps) = card (dom ?ow) + length ps" by simp
    ultimately have ex: "\<exists>ow qs. table_inv s2 K ow qs \<and> (\<forall>x r p. ow x = Some (r, p) \<longrightarrow> r = K \<and> p \<in> low_paths)
          \<and> Suc (length ps) = card (dom ow) + length qs" using inv2 by blast
    have tr: "\<forall>v. unat v < 281474976710656 \<longrightarrow> translate s2 K v = (if v < 0 then Some (identity_entry v) else None)"
      using \<open>\<And>v. translate s2 K v = None\<close> by simp
    have "unat (0::addr) \<le> unat limit" by simp
    then show ?thesis unfolding identity_inv_def using \<open>paging_kernel_pml4 s2 = K\<close> ex tr page_aligned_0 by blast
  qed
  from c_while_halt_rule[where I = "identity_inv K limit (Suc (length ps))" and b = "\<lambda>address s. address < limit"
      and f = identity_body and M = "\<lambda>a t. unat limit - unat a" and H = "\<lambda>t. Suc (length ps) \<le> 2056",
      OF this identity_step[OF _ _ lim]]
  have loop: "(\<exists>x' s'. c_while (\<lambda>address s. address < limit) identity_body 0 s2 = Ret x' s' \<and> identity_inv K limit (Suc (length ps)) x' s' \<and> \<not> x' < limit)
    \<or> (\<exists>s'. c_while (\<lambda>address s. address < limit) identity_body 0 s2 = Halt s' \<and> Suc (length ps) \<le> 2056)" .
  have h2: "highest_physical_end s2 = limit"
  proof -
    have "highest_end_step s2 = highest_end_step s1"
      by (intro ext) (simp add: s2_def highest_end_step_def memmap_get_descriptor_def)
    then have "highest_physical_end s2 = highest_physical_end s1"
      by (simp add: highest_physical_end_def memmap_get_descriptor_count_def s2_def)
    then show ?thesis using pages_frame_memmap[OF a(3)] by (simp add: limit_def)
  qed
  have pi: "paging_initialize s = chain (c_while (\<lambda>address s. address < limit) identity_body 0 s2)
      (\<lambda>_ s. Ret () (arch_load_cr3 (paging_kernel_pml4 s) s))"
    using a(1,4) assms(3) h2 unfolding paging_initialize_def limit_def[symmetric]
    by (simp add: Let_def flip: s2_def)
  show ?thesis
  proof (cases "\<exists>s'. c_while (\<lambda>address s. address < limit) identity_body 0 s2 = Halt s'")
    case True
    then show ?thesis using loop pi by auto
  next
    case False
    then obtain x t where x: "c_while (\<lambda>address s. address < limit) identity_body 0 s2 = Ret x t"
      "identity_inv K limit (Suc (length ps)) x t" "\<not> x < limit" using loop by blast
    then have "x = limit" by (auto simp: identity_inv_def word_less_nat_alt word_unat_eq_iff)
    with x(2) obtain ow qs where t: "paging_kernel_pml4 t = K" "table_inv t K ow qs"
      "\<forall>x r p. ow x = Some (r, p) \<longrightarrow> r = K \<and> p \<in> low_paths" "Suc (length ps) = card (dom ow) + length qs"
      "\<forall>v. unat v < 281474976710656 \<longrightarrow> translate t K v = (if v < limit then Some (identity_entry v) else None)"
      unfolding identity_inv_def by blast
    let ?t = "arch_load_cr3 K t"
    have m: "mem ?t = mem t" by (simp add: arch_load_cr3_def)
    have e: "entry_at ?t = entry_at t" by (intro ext) (simp add: entry_at_def load64_def m)
    have lf: "leaf ?t x is = leaf t x is" for x "is" by (rule leaf_mem[OF m])
    have "table_inv ?t K ow qs" using t(2) unfolding table_inv_def child_ok_def parent_ok_def rights_ok_def e
      by (simp add: arch_load_cr3_def palloc_inv_def)
    moreover have "translate ?t K v = translate t K v" for v by (simp add: translate_def lf)
    moreover have "paging_initialize s = Ret () ?t" using pi x(1) t(1) by simp
    moreover have "paging_kernel_pml4 ?t = K" "cr3 ?t = K" using t(1) by (simp_all add: arch_load_cr3_def)
    ultimately show ?thesis using t(3-5) unfolding limit_def by metis
  qed
qed

end
