(* ===== verification/PagingRelease.thy ===== *)
theory PagingRelease
  imports PagingMap
begin

text \<open>
  \<open>paging_release_user_address_space\<close>: it gives back exactly the tables of the address space that are not shared
  with the kernel, and no other address space notices.
\<close>

section \<open>Freeing the tables of one root\<close>

lemma leaf_forest_cong:
  assumes "child_ok s K ow"
    and eq: "\<And>t r' p j. ow t = Some (r', p) \<Longrightarrow> r' = r \<or> r' = K \<Longrightarrow> j < 512 \<Longrightarrow> entry_at s' t j = entry_at s t j"
  shows "ow x = Some (r1, q) \<Longrightarrow> r1 = r \<or> r1 = K \<Longrightarrow> length q + length is = 4 \<Longrightarrow> \<forall>j \<in> set is. j < 512 \<Longrightarrow>
    leaf s' x is = leaf s x is"
proof (induction "is" arbitrary: x r1 q)
  case (Cons i ks)
  have e: "entry_at s' x i = entry_at s x i" using eq[OF Cons.prems(1,2)] Cons.prems(4) by simp
  show ?case
  proof (cases ks)
    case Nil
    then show ?thesis using e by simp
  next
    case (Cons j js)
    have "leaf s' (entry_address (entry_at s x i)) ks = leaf s (entry_address (entry_at s x i)) ks"
      if pr: "is_present (entry_at s x i)"
    proof -
      obtain r2 where r2: "r2 = r1 \<or> r2 = K" "ow (entry_address (entry_at s x i)) = Some (r2, q @ [i])"
        using child_okD[OF assms(1) Cons.prems(1) _ _ pr] Cons.prems(3,4) Cons by auto
      have "r2 = r \<or> r2 = K" using r2(1) Cons.prems(2) by blast
      from Cons.IH[OF r2(2) this] Cons.prems(3,4) show ?thesis by simp
    qed
    then show ?thesis using e Cons by simp
  qed
qed simp

definition without_root :: "owners \<Rightarrow> addr \<Rightarrow> owners" where
  "without_root ow R = (\<lambda>x. case ow x of None \<Rightarrow> None | Some (r, p) \<Rightarrow> if r = R then None else Some (r, p))"

lemma without_root_Some: "without_root ow R x = Some (r, p) \<longleftrightarrow> ow x = Some (r, p) \<and> r \<noteq> R"
  by (auto simp: without_root_def split: option.splits)

definition root_tables :: "owners \<Rightarrow> addr \<Rightarrow> addr set" where
  "root_tables ow R = {x. \<exists>p. ow x = Some (R, p)}"

lemma palloc_free_frame: "pages_frame s (palloc_free page s)"
proof (cases "page = 0")
  case False
  then show ?thesis using pages_frameI[where s = s and m = "wr64 (mem s) page (free_list_head s)" and f = page and c = "free_page_count s + 1"]
    by (simp add: palloc_free_def Let_def store64_def)
qed simp

lemma palloc_free_entry:
  assumes "page_aligned page" "page_aligned t" "t \<noteq> page" "j < 512"
  shows "entry_at (palloc_free page s) t j = entry_at s t j"
  using assms entry_eq_iff[of page t 0 j]
  by (cases "page = 0") (simp_all add: palloc_free_def Let_def store64_def entry_at_def load64_def)

lemma fold_palloc_free:
  assumes "palloc_inv s ps" "distinct qs" "set qs \<inter> set ps = {}" "\<And>q. q \<in> set qs \<Longrightarrow> q \<noteq> 0 \<and> page_aligned q"
  shows "palloc_inv (fold palloc_free qs s) (rev qs @ ps) \<and> pages_frame s (fold palloc_free qs s)
    \<and> (\<forall>t j. page_aligned t \<longrightarrow> t \<notin> set qs \<longrightarrow> j < 512 \<longrightarrow> entry_at (fold palloc_free qs s) t j = entry_at s t j)"
  using assms
proof (induction qs arbitrary: s ps)
  case (Cons q qs)
  have q: "q \<noteq> 0" "page_aligned q" "q \<notin> set ps" using Cons.prems by auto
  have "palloc_inv (palloc_free q s) (q # ps)" by (rule palloc_free_inv[OF Cons.prems(1) q])
  from Cons.IH[OF this] Cons.prems(2-4) have
    "palloc_inv (fold palloc_free qs (palloc_free q s)) (rev qs @ q # ps)"
    "pages_frame (palloc_free q s) (fold palloc_free qs (palloc_free q s))"
    "\<And>t j. page_aligned t \<Longrightarrow> t \<notin> set qs \<Longrightarrow> j < 512 \<Longrightarrow>
       entry_at (fold palloc_free qs (palloc_free q s)) t j = entry_at (palloc_free q s) t j"
    by auto
  then show ?case using pages_frame_trans[OF palloc_free_frame[of s q]] by (simp add: palloc_free_entry[OF q(2)])
qed simp

lemma free_root:
  assumes inv: "table_inv s K ow ps" and U: "U \<noteq> K" and qs: "distinct qs" "set qs = root_tables ow U"
  shows "table_inv (fold palloc_free qs s) K (without_root ow U) (rev qs @ ps)"
    "pages_frame s (fold palloc_free qs s)"
    "\<And>x v. ow x = Some (x, []) \<Longrightarrow> x \<noteq> U \<Longrightarrow> translate (fold palloc_free qs s) x v = translate s x v"
proof -
  note d = table_invD[OF inv]
  let ?t = "fold palloc_free qs s"
  have q: "q \<noteq> 0 \<and> page_aligned q \<and> q \<notin> set ps \<and> pointer_ok q" if "q \<in> set qs" for q
    using that ownedD[OF d(3)] qs(2) by (fastforce simp: root_tables_def)
  then have "set qs \<inter> set ps = {}" by auto
  from fold_palloc_free[OF d(1) qs(1) this] q have f: "palloc_inv ?t (rev qs @ ps)" "pages_frame s ?t"
    "\<And>t j. page_aligned t \<Longrightarrow> t \<notin> set qs \<Longrightarrow> j < 512 \<Longrightarrow> entry_at ?t t j = entry_at s t j" by auto
  have e: "entry_at ?t t j = entry_at s t j" if "ow t = Some (r, p)" "r \<noteq> U" "j < 512" for t r p j
    using f(3)[of t j] ownedD[OF d(3) that(1)] that qs(2) by (auto simp: root_tables_def)
  have "owned (without_root ow U) (rev qs @ ps)"
    unfolding owned_def without_root_Some using ownedD[OF d(3)] qs(2) by (auto simp: root_tables_def)
  moreover have "child_ok ?t K (without_root ow U)"
  proof -
    have "if is_present (entry_at s t i)
        then without_root ow U (entry_address (entry_at s t i)) = Some (r, p @ [i])
           \<or> without_root ow U (entry_address (entry_at s t i)) = Some (K, p @ [i])
        else entry_at s t i = 0" if t: "ow t = Some (r, p)" "r \<noteq> U" "length p < 3" "i < 512" for t r p i
      using child_okD[OF d(4) t(1,3,4)] child_absent[OF d(4) t(1,3,4)] t(2) U
      by (auto simp: without_root_Some)
    note step = this
    show ?thesis unfolding child_ok_def
    proof (intro allI impI)
      fix t r p i assume t: "without_root ow U t = Some (r, p)" "length p < 3" "i < (512::u64)"
      then have o: "ow t = Some (r, p)" "r \<noteq> U" by (simp_all add: without_root_Some)
      show "if is_present (entry_at ?t t i)
        then without_root ow U (entry_address (entry_at ?t t i)) = Some (r, p @ [i])
           \<or> without_root ow U (entry_address (entry_at ?t t i)) = Some (K, p @ [i])
        else entry_at ?t t i = 0" using step[OF o t(2,3)] unfolding e[OF o t(3)] .
    qed
  qed
  moreover have "parent_ok ?t (without_root ow U)"
  proof -
    have "\<exists>u. (ow u = Some (r, p) \<and> r \<noteq> U) \<and> i < 512 \<and> is_present (entry_at ?t u i) \<and> entry_address (entry_at ?t u i) = t"
      if t: "ow t = Some (r, p @ [i])" "r \<noteq> U" for t r p i
      using d(5) t e unfolding parent_ok_def by metis
    then show ?thesis unfolding parent_ok_def without_root_Some by blast
  qed
  moreover have "rights_ok ?t (without_root ow U)"
    unfolding rights_ok_def
  proof (intro allI impI)
    fix t r p i assume t: "without_root ow U t = Some (r, p)" "length p < 3" "i < (512::u64)" "is_present (entry_at ?t t i)"
    then have o: "ow t = Some (r, p)" "r \<noteq> U" by (simp_all add: without_root_Some)
    have eq: "entry_at ?t t i = entry_at s t i" by (rule e[OF o t(3)])
    then have pr: "is_present (entry_at s t i)" using t(4) by simp
    from child_okD[OF d(4) o(1) t(2,3) pr] obtain r' where c: "r' = r \<or> r' = K" "ow (entry_address (entry_at s t i)) = Some (r', p @ [i])"
      by blast
    have "r' \<noteq> U" using c(1) o(2) U by blast
    then show "link_ok (entry_at ?t t i) \<and> (\<forall>j < 512. bit (entry_at ?t (entry_address (entry_at ?t t i)) j) 2 \<longrightarrow> bit (entry_at ?t t i) 2)"
      unfolding eq using rights_okD[OF d(7) o(1) t(2,3) pr] e[OF c(2)] by simp
  qed
  ultimately show "table_inv ?t K (without_root ow U) (rev qs @ ps)"
    unfolding table_inv_def using f(1) d(2,6) q U by (auto simp: without_root_Some)
  show "pages_frame s ?t" by (rule f(2))
  show "translate ?t x v = translate s x v" if x: "ow x = Some (x, [])" "x \<noteq> U" for x v
  proof -
    have "leaf ?t x (indices v) = leaf s x (indices v)"
    proof (rule leaf_forest_cong[OF d(4) _ x(1)])
      show "entry_at ?t t j = entry_at s t j" if "ow t = Some (r', p)" "r' = x \<or> r' = K" "j < 512" for t r' p j
        using e[OF that(1) _ that(3)] that(2) x(2) U by blast
    qed (simp_all add: indices_lt)
    then show ?thesis by (simp add: translate_def)
  qed
qed


section \<open>The release\<close>

text \<open>
  \<open>k\<close> is the kernel's table for path \<open>p\<close>, or 0 where the kernel has none: the values the code compares with.
\<close>

definition kernel_table :: "owners \<Rightarrow> addr \<Rightarrow> u64 list \<Rightarrow> addr \<Rightarrow> bool" where
  "kernel_table ow K p k \<longleftrightarrow> (if k = 0 then \<forall>x. ow x \<noteq> Some (K, p) else ow k = Some (K, p))"

definition kernel_below :: "'a machine_scheme \<Rightarrow> addr \<Rightarrow> u64 \<Rightarrow> addr" where
  "kernel_below s k i = (if k = 0 then 0 else entry_address (entry_at s k i))"

lemma kernel_table_below:
  assumes inv: "table_inv s K ow ps" and k: "kernel_table ow K p k" and i: "i < 512" "length p < 3"
  shows "kernel_table ow K (p @ [i]) (kernel_below s k i)"
proof (cases "k \<noteq> 0 \<and> is_present (entry_at s k i)")
  case True
  then have o: "ow k = Some (K, p)" using k by (simp add: kernel_table_def)
  then have "ow (entry_address (entry_at s k i)) = Some (K, p @ [i])"
    using child_okD[OF table_invD(4)[OF inv] o i(2,1)] True by auto
  moreover have "entry_address (entry_at s k i) \<noteq> 0"
    using ownedD[OF table_invD(3)[OF inv] calculation] by simp
  ultimately show ?thesis using True by (simp add: kernel_table_def kernel_below_def)
next
  case False
  note d = table_invD[OF inv]
  have z: "kernel_below s k i = 0"
  proof (cases "k = 0")
    case nz: False
    then have "ow k = Some (K, p)" using k by (simp add: kernel_table_def)
    then have "entry_at s k i = 0" using child_absent[OF d(4) _ i(2,1)] nz False by blast
    then show ?thesis by (simp add: kernel_below_def entry_address_def)
  qed (simp add: kernel_below_def)
  have "ow x \<noteq> Some (K, p @ [i])" for x
  proof
    assume "ow x = Some (K, p @ [i])"
    then obtain u where u: "ow u = Some (K, p)" "is_present (entry_at s u i)" using d(5) unfolding parent_ok_def by blast
    moreover have "k \<noteq> 0" using k u(1) by (auto simp: kernel_table_def)
    moreover have "u = k" using owner_unique[OF d(3,5) u(1)] k \<open>k \<noteq> 0\<close> by (simp add: kernel_table_def)
    ultimately show False using False by simp
  qed
  then show ?thesis using z by (simp add: kernel_table_def)
qed

lemma kernel_table_iff:
  assumes "table_inv s K ow ps" "kernel_table ow K p k" "ow t = Some (r, p)"
  shows "t = k \<longleftrightarrow> r = K"
proof -
  note d = table_invD[OF assms(1)]
  have nz: "t \<noteq> 0" using ownedD[OF d(3) assms(3)] by simp
  show ?thesis
  proof (cases "k = 0")
    case True
    then show ?thesis using nz assms(2,3) by (auto simp: kernel_table_def)
  next
    case False
    then show ?thesis using owner_unique[OF d(3,5), of t K p k] assms(2,3) by (auto simp: kernel_table_def)
  qed
qed

text \<open>The table of root \<open>U\<close> at path \<open>p\<close>, where it is not the kernel's.\<close>

definition own_table :: "'a machine_scheme \<Rightarrow> owners \<Rightarrow> addr \<Rightarrow> u64 list \<Rightarrow> addr list" where
  "own_table s ow U p = (case table_of s U p of None \<Rightarrow> [] | Some x \<Rightarrow> if ow x = Some (U, p) then [x] else [])"

lemma own_table_set:
  assumes "table_inv s K ow ps"
  shows "set (own_table s ow U p) = {x. ow x = Some (U, p)}" "distinct (own_table s ow U p)"
proof -
  note d = table_invD[OF assms]
  show "set (own_table s ow U p) = {x. ow x = Some (U, p)}"
    using owner_table_of[OF d(3,5)] by (auto simp: own_table_def split: option.splits)
  show "distinct (own_table s ow U p)" by (simp add: own_table_def split: option.splits)
qed

definition free_unless :: "addr \<Rightarrow> addr \<Rightarrow> 'a palloc_state_scheme \<Rightarrow> 'a palloc_state_scheme" where
  "free_unless t k s = (if t \<noteq> k then palloc_free t s else s)"

lemma release_table:
  assumes inv: "table_inv s K ow ps" and U: "ow U = Some (U, [])" "U \<noteq> K" and p: "length p \<le> 3" "\<forall>i \<in> set p. i < 512"
    and t: "table_of s U p = Some t" and k: "kernel_table ow K p k"
  shows "free_unless t k u = fold palloc_free (own_table s ow U p) u"
proof -
  obtain r where "r = U \<or> r = K" "ow t = Some (r, p)"
    using table_of_owner[OF table_invD(4)[OF inv] U(1) t] p by auto
  then show ?thesis using kernel_table_iff[OF inv k] U(2) t by (auto simp: own_table_def free_unless_def)
qed

lemma release_unfold:
  assumes "U \<noteq> 0" "U \<noteq> K" "K \<noteq> 0" "paging_kernel_pml4 s = K"
    and "b = trampoline_base l" "i = pml4_index b" "j = pdpt_index b" "k = pd_index b"
    and "pdpt = entry_address (entry_at s U i)" "pd = entry_address (entry_at s pdpt j)" "pt = entry_address (entry_at s pd k)"
    and "kpdpt = kernel_below s K i" "kpd = kernel_below s kpdpt j" "kpt = kernel_below s kpd k"
  shows "paging_release_user_address_space U (Some l) s =
    (if is_present (entry_at s U i)
     then palloc_free U (free_unless pdpt kpdpt
       (if is_present (entry_at s pdpt j)
        then free_unless pd kpd (if is_present (entry_at s pd k) then free_unless pt kpt s else s) else s))
     else palloc_free U s)"
proof -
  have e: "entry_table = entry_address" by (intro ext) (simp add: entry_table_def entry_address_def)
  show ?thesis
    unfolding paging_release_user_address_space_def free_unless_def kernel_below_def assms(12-14) e Let_def
      option.case assms(4) assms(5-8)[symmetric] assms(9-11)[symmetric]
    using assms(1-3) by (cases "is_present (entry_at s U i)") (simp_all only: if_False if_True simp_thms)
qed

lemma release_spec:
  fixes s :: "'a paging_state_scheme"
  assumes inv: "table_inv s K ow ps" and U: "ow U = Some (U, [])" "U \<noteq> K" and K: "paging_kernel_pml4 s = K"
    and base: "\<And>x p. ow x = Some (U, p) \<Longrightarrow> \<exists>q. indices (trampoline_base l) = p @ q"
  shows "\<exists>qs. paging_release_user_address_space U (Some l) s = fold palloc_free qs s \<and> distinct qs \<and> set qs = root_tables ow U"
proof -
  note d = table_invD[OF inv]
  define b where "b = trampoline_base l"
  define i j k where i: "i = pml4_index b" and j: "j = pdpt_index b" and k: "k = pd_index b"
  define pdpt where pdpt: "pdpt = entry_address (entry_at s U i)"
  define pd where pd: "pd = entry_address (entry_at s pdpt j)"
  define pt where pt: "pt = entry_address (entry_at s pd k)"
  define kpdpt where kpdpt: "kpdpt = kernel_below s K i"
  define kpd where kpd: "kpd = kernel_below s kpdpt j"
  define kpt where kpt: "kpt = kernel_below s kpd k"
  let ?T = "own_table s ow U"
  define qs where "qs = ?T [i, j, k] @ ?T [i, j] @ ?T [i] @ [U]"
  have lt: "i < 512" "j < 512" "k < 512" by (simp_all add: i j k)
  have nz: "U \<noteq> 0" "K \<noteq> 0" using ownedD[OF d(3) U(1)] ownedD[OF d(3,6)] by simp_all
  have k0: "kernel_table ow K [] K" using nz d(6) by (simp add: kernel_table_def)
  note k1 = kernel_table_below[OF inv k0 lt(1), folded kpdpt, simplified]
  note k2 = kernel_table_below[OF inv k1 lt(2), folded kpd, simplified]
  note k3 = kernel_table_below[OF inv k2 lt(3), folded kpt, simplified]
  have r: "is_present (entry_at s U i) \<Longrightarrow> free_unless pdpt kpdpt u = fold palloc_free (?T [i]) u"
    "is_present (entry_at s U i) \<Longrightarrow> is_present (entry_at s pdpt j) \<Longrightarrow> free_unless pd kpd u = fold palloc_free (?T [i, j]) u"
    "is_present (entry_at s U i) \<Longrightarrow> is_present (entry_at s pdpt j) \<Longrightarrow> is_present (entry_at s pd k) \<Longrightarrow>
       free_unless pt kpt u = fold palloc_free (?T [i, j, k]) u" for u :: "'a paging_state_scheme"
    using release_table[OF inv U _ _ _ k1, of pdpt] release_table[OF inv U _ _ _ k2, of pd]
      release_table[OF inv U _ _ _ k3, of pt] lt by (simp_all flip: pdpt pd pt)
  note un = release_unfold[OF nz(1) U(2) nz(2) K b_def i j k pdpt pd pt kpdpt kpd kpt]
  have rel: "paging_release_user_address_space U (Some l) s = fold palloc_free qs s"
  proof (cases "is_present (entry_at s U i)")
    case False
    then show ?thesis by (simp add: un qs_def own_table_def)
  next
    case pi: True
    show ?thesis
    proof (cases "is_present (entry_at s pdpt j)")
      case False
      then have "?T [i, j] = []" "?T [i, j, k] = []" by (simp_all add: own_table_def flip: pdpt)
      then show ?thesis using False pi r by (simp add: un qs_def flip: pdpt)
    next
      case pj: True
      show ?thesis
      proof (cases "is_present (entry_at s pd k)")
        case False
        then have "?T [i, j, k] = []" by (simp add: own_table_def flip: pdpt pd)
        then show ?thesis using False pi pj r by (simp add: un qs_def flip: pdpt pd)
      next
        case True
        then show ?thesis using True pi pj r by (simp add: un qs_def flip: pdpt pd pt)
      qed
    qed
  qed
  note T = own_table_set[OF inv]
  have "distinct qs" using T U(1) by (auto simp: qs_def)
  moreover have "set qs = root_tables ow U"
  proof -
    have "p \<in> {[], [i], [i, j], [i, j, k]}" if o: "ow x = Some (U, p)" for x p
    proof -
      obtain q where q: "indices b = p @ q" using base[OF o] b_def by blast
      have "p = take (length p) (indices b)" using q by simp
      moreover have "length p = 0 \<or> length p = 1 \<or> length p = 2 \<or> length p = 3"
        using ownedD[OF d(3) o] by linarith
      ultimately show ?thesis by (auto simp: indices_def numeral_eq_Suc i j k)
    qed
    then have "root_tables ow U = {x. ow x = Some (U, [])} \<union> {x. ow x = Some (U, [i])}
        \<union> {x. ow x = Some (U, [i, j])} \<union> {x. ow x = Some (U, [i, j, k])}"
      unfolding root_tables_def by blast
    moreover have "{x. ow x = Some (U, [])} = {U}" using U(1) ownedD[OF d(3)] by blast
    ultimately show ?thesis using T(1) by (simp add: qs_def Un_ac)
  qed
  ultimately show ?thesis using rel by blast
qed

end
