(* ===== verification/Mmu.thy ===== *)
theory Mmu
  imports PagingMap
begin

text \<open>
  The processor's side of paging: how an x86-64 memory management unit with four-level paging translates an address,
  written from the architecture alone. None of the definitions of the mapping code occurs here; the entries are read
  with their bit numbers: 0 present, 1 writable, 2 user, 7 large page, 12 to 51 the address.
\<close>

section \<open>The walk of the processor\<close>

text \<open>
  An address is canonical when bits 48 to 63 repeat bit 47; any other address faults. \<open>canonical_form v\<close> is the
  canonical address with the low 48 bits of \<open>v\<close>.
\<close>

definition canonical_form :: "addr \<Rightarrow> addr" where
  "canonical_form v = signed_take_bit 47 v"

definition canonical :: "addr \<Rightarrow> bool" where
  "canonical v \<longleftrightarrow> canonical_form v = v"

text \<open>
  \<open>page_walk s v n t\<close> walks the last \<open>n\<close> levels from the table \<open>t\<close>. It yields the physical address, and whether
  all the entries on the way allow writing, and user code. An entry two or three levels above the pages may map a large page;
  at the top level that bit is reserved.
\<close>

fun page_walk :: "'a machine_scheme \<Rightarrow> addr \<Rightarrow> nat \<Rightarrow> addr \<Rightarrow> (addr \<times> bool \<times> bool) option" where
  "page_walk s v 0 t = None"
| "page_walk s v (Suc n) t =
    (let shift = 12 + 9 * n;
         e = load64 s (t + 8 * (drop_bit shift v AND 511));
         base = e AND 0x000FFFFFFFFFF000
     in if \<not> bit e 0 \<or> (n = 3 \<and> bit e 7) then None
        else if n = 0 \<or> bit e 7 then Some ((base AND NOT (mask shift)) OR (v AND mask shift), bit e 1, bit e 2)
        else case page_walk s v n base of None \<Rightarrow> None | Some (a, w, u) \<Rightarrow> Some (a, bit e 1 \<and> w, bit e 2 \<and> u))"

definition mmu :: "'a machine_scheme \<Rightarrow> addr \<Rightarrow> addr \<Rightarrow> (addr \<times> bool \<times> bool) option" where
  "mmu s r v = (if canonical v then page_walk s v 4 r else None)"

text \<open>User code may read the byte at \<open>v\<close>.\<close>

definition user_reach :: "'a machine_scheme \<Rightarrow> addr \<Rightarrow> addr \<Rightarrow> bool" where
  "user_reach s r v \<longleftrightarrow> (\<exists>a w. mmu s r v = Some (a, w, True))"

section \<open>The walk over the kernel's tables\<close>

text \<open>What the entry of a 4 KiB page grants, if every table on the way to it grants it too.\<close>

definition page_grant :: "addr \<Rightarrow> u64 \<Rightarrow> addr \<times> bool \<times> bool" where
  "page_grant v e = (entry_address e OR (v AND 4095), bit e 1, bit e 2)"

lemma link_okD:
  assumes "link_ok e"
  shows "bit e 1" "\<not> bit e 7"
proof -
  have "bit e n \<longleftrightarrow> bit ((e AND 0x000FFFFFFFFFF000) OR 3 OR (e AND 4)) n" for n using assms by (simp add: link_ok_def)
  from this[of 1] this[of 7] show "bit e 1" "\<not> bit e 7" by (auto simp: bit_simps)
qed

lemma page_entry:
  "(entry_address e AND NOT (mask 12)) OR (v AND mask 12) = entry_address e OR (v AND 4095)"
proof -
  have "paging_address_mask AND NOT (mask 12) = paging_address_mask" by (simp add: paging_address_mask_def mask_eq_exp_minus_1)
  then show ?thesis by (simp add: entry_address_def and.assoc mask_eq_exp_minus_1)
qed

text \<open>One level of the walk, in terms of the tables.\<close>

lemma walk_page: "page_walk s v 1 t = (let e = entry_at s t (pt_index v) in if is_present e then Some (page_grant v e) else None)"
  using page_entry[of "entry_at s t (pt_index v)" v]
  by (simp add: Let_def entry_at_def pt_index_def is_present_bit page_grant_def entry_address_def paging_address_mask_def)

lemma walk_table:
  assumes "n \<in> {1, 2, 3}" "is_present e \<Longrightarrow> link_ok e" "e = load64 s (t + 8 * (drop_bit (12 + 9 * n) v AND 511))"
  shows "page_walk s v (Suc n) t = (if is_present e then
    (case page_walk s v n (entry_address e) of None \<Rightarrow> None | Some (a, w, u) \<Rightarrow> Some (a, w, bit e 2 \<and> u)) else None)"
  using assms link_okD[of e] by (auto simp: Let_def is_present_bit entry_address_def paging_address_mask_def split: option.split)

definition walks :: "'a machine_scheme \<Rightarrow> addr \<Rightarrow> nat \<Rightarrow> addr \<Rightarrow> u64 list \<Rightarrow> bool" where
  "walks s v n t is \<longleftrightarrow>
     page_walk s v n t = (if is_present (leaf s t is) then Some (page_grant v (leaf s t is)) else None)
     \<and> (bit (leaf s t is) 2 \<longrightarrow> bit (entry_at s t (hd is)) 2)"

lemma walk_step:
  assumes inv: "table_inv s K ow ps" and t: "ow t = Some (r, p)" "length p < 3" "i < 512"
    and n: "n \<in> {1, 2, 3}" "entry_at s t i = load64 s (t + 8 * (drop_bit (12 + 9 * n) v AND 511))"
    and ih: "\<forall>c r'. ow c = Some (r', p @ [i]) \<longrightarrow> walks s v n c (j # js)" and j: "j < 512"
  shows "walks s v (Suc n) t (i # j # js)"
proof -
  note d = table_invD[OF inv]
  let ?e = "entry_at s t i"
  have w: "page_walk s v (Suc n) t = (if is_present ?e then
    (case page_walk s v n (entry_address ?e) of None \<Rightarrow> None | Some (a, w, u) \<Rightarrow> Some (a, w, bit ?e 2 \<and> u)) else None)"
    by (rule walk_table[OF n(1) _ n(2)]) (rule rights_okD(1)[OF d(7) t])
  have u: "bit (leaf s t (i # j # js)) 2 \<Longrightarrow> bit ?e 2"
  proof -
    assume a: "bit (leaf s t (i # j # js)) 2"
    then have pr: "is_present ?e" by (auto split: if_splits)
    from child_okD[OF d(4) t pr] obtain r' where c: "ow (entry_address ?e) = Some (r', p @ [i])" by blast
    have "bit (entry_at s (entry_address ?e) j) 2" using ih c a pr unfolding walks_def by fastforce
    then show "bit ?e 2" by (rule rights_okD(2)[OF d(7) t pr j])
  qed
  have "page_walk s v (Suc n) t =
    (if is_present (leaf s t (i # j # js)) then Some (page_grant v (leaf s t (i # j # js))) else None)"
  proof (cases "is_present ?e")
    case True
    from child_okD[OF d(4) t True] obtain r' where c: "ow (entry_address ?e) = Some (r', p @ [i])" by blast
    have "page_walk s v n (entry_address ?e) = (if is_present (leaf s (entry_address ?e) (j # js))
      then Some (page_grant v (leaf s (entry_address ?e) (j # js))) else None)"
      using ih c unfolding walks_def by blast
    then show ?thesis using w True u by (auto simp: page_grant_def)
  next
    case False
    then show ?thesis using w by (simp add: is_present_def)
  qed
  then show ?thesis using u unfolding walks_def by simp
qed

text \<open>
  Under the invariant the entry of a page decides alone, for canonical addresses: what \<open>translate\<close> yields is what the processor
  grants.
\<close>

lemma mmu_translate:
  assumes inv: "table_inv s K ow ps" and r: "ow r = Some (r, [])" and v: "canonical v"
  shows "mmu s r v = map_option (page_grant v) (translate s r v)"
proof -
  let ?i = "pml4_index v" and ?j = "pdpt_index v" and ?k = "pd_index v" and ?l = "pt_index v"
  have e: "entry_at s c ?k = load64 s (c + 8 * (drop_bit (12 + 9 * 1) v AND 511))"
    "entry_at s c ?j = load64 s (c + 8 * (drop_bit (12 + 9 * 2) v AND 511))"
    "entry_at s c ?i = load64 s (c + 8 * (drop_bit (12 + 9 * 3) v AND 511))" for c
    by (simp_all add: entry_at_def pd_index_def pdpt_index_def pml4_index_def)
  have n: "(1 :: nat) \<in> {1, 2, 3}" "(2 :: nat) \<in> {1, 2, 3}" "(3 :: nat) \<in> {1, 2, 3}" by simp_all
  have suc: "Suc 1 = 2" "Suc 2 = 3" "Suc 3 = 4" by simp_all
  have len: "length [?i, ?j] < 3" "length [?i] < 3" "length ([] :: u64 list) < 3" by simp_all
  have c1: "\<forall>c r'. ow c = Some (r', [?i, ?j] @ [?k]) \<longrightarrow> walks s v 1 c [?l]" by (simp only: walks_def walk_page Let_def leaf.simps list.sel) simp
  have c2: "\<forall>c r'. ow c = Some (r', [?i] @ [?j]) \<longrightarrow> walks s v 2 c [?k, ?l]"
    using walk_step[OF inv _ len(1) index_lt(3) n(1) e(1) c1 index_lt(4)] unfolding suc append.simps by blast
  have c3: "\<forall>c r'. ow c = Some (r', [] @ [?i]) \<longrightarrow> walks s v 3 c [?j, ?k, ?l]"
    using walk_step[OF inv _ len(2) index_lt(2) n(2) e(2) c2 index_lt(3)] unfolding suc append.simps by blast
  have "walks s v 4 r (indices v)"
    unfolding indices_def using walk_step[OF inv r len(3) index_lt(1) n(3) e(3) c3 index_lt(2)] unfolding suc .
  then show ?thesis using v by (simp add: mmu_def translate_def Let_def walks_def del: page_walk.simps)
qed

section \<open>Canonical addresses\<close>

lemma canonical_form_canonical [simp]: "canonical (canonical_form v)"
  by (simp add: canonical_def canonical_form_def)

lemma canonical_low: "unat v < 140737488355328 \<Longrightarrow> canonical v"
proof -
  assume v: "unat v < 140737488355328"
  have "unat (take_bit 47 v) = unat v mod 140737488355328"
    by (simp only: unsigned_take_bit_eq) (simp add: take_bit_eq_mod)
  then have t: "take_bit 47 v = v" using v by (simp add: word_unat_eq_iff)
  then have "\<not> bit v 47" by (metis bit_take_bit_iff less_irrefl)
  then show ?thesis using t by (simp add: canonical_def canonical_form_def signed_take_bit_eq_if_positive)
qed

lemma canonical_form_bits: "n < 48 \<Longrightarrow> bit (canonical_form v) n = bit v n"
proof -
  assume "n < 48"
  then have "n < 47 \<or> n = 47" by linarith
  then show ?thesis by (auto simp: canonical_form_def bit_signed_take_bit_iff)
qed

lemma canonical_form_page: "same_page (canonical_form v) v"
  using indices_same_page[of "canonical_form v" v] unfolding indices_eq_iff by (simp add: canonical_form_bits)

lemma canonical_form_offset: "canonical_form v AND 4095 = v AND 4095"
proof -
  have m: "(4095 :: u64) = mask 12" by (simp add: mask_eq_exp_minus_1)
  show ?thesis unfolding m by (rule bit_word_eqI) (auto simp: bit_and_iff bit_mask_iff canonical_form_bits)
qed

lemma canonical_high:
  assumes "canonical v" "\<not> unat v < 140737488355328"
  shows "140737488355328 \<le> unat (take_bit 48 v)"
proof -
  have "bit v 47"
  proof (rule ccontr)
    assume "\<not> bit v 47"
    then have "take_bit 47 v = v" using assms(1) by (simp add: canonical_def canonical_form_def signed_take_bit_eq_if_positive)
    moreover have "unat (take_bit 47 v) = unat v mod 140737488355328"
      by (simp only: unsigned_take_bit_eq) (simp add: take_bit_eq_mod)
    ultimately have "unat v = unat v mod 140737488355328" by simp
    then have "unat v < 140737488355328" by (metis mod_less_divisor zero_less_numeral)
    then show False using assms(2) by simp
  qed
  then have "bit (unat (take_bit 48 v)) 47" by (simp add: bit_unsigned_iff bit_take_bit_iff)
  then have "odd (unat (take_bit 48 v) div 140737488355328)" by (simp add: bit_iff_odd)
  then show ?thesis by (metis div_less even_zero not_le)
qed

section \<open>What user code can touch\<close>

lemma mmu_canonical_form:
  assumes "table_inv s K ow ps" "ow r = Some (r, [])"
  shows "mmu s r (canonical_form v) = map_option (page_grant v) (translate s r v)"
  using mmu_translate[OF assms canonical_form_canonical, of v] translate_same_page[OF canonical_form_page, of s r v]
  by (simp add: page_grant_def[abs_def] canonical_form_offset)

lemma user_reach_iff:
  assumes "table_inv s K ow ps" "ow r = Some (r, [])"
  shows "user_reach s r (canonical_form v) \<longleftrightarrow> user_accessible s r v"
  unfolding user_reach_def user_accessible_def mmu_canonical_form[OF assms] by (auto simp: page_grant_def user_flag)

lemma user_reach_canonical: "user_reach s r v \<Longrightarrow> canonical v"
  by (auto simp: user_reach_def mmu_def split: if_splits)

end
