(* ===== verification/PagingSpec.thy ===== *)
theory PagingSpec
  imports PagingBoot PagingRelease Mmu
begin

text \<open>
  What \<open>src/kernel/paging.c\<close> promises: the interface of address spaces as a locale, its interpretation on the
  model, and the properties of each operation.
\<close>

section \<open>The interface\<close>

text \<open>A list of mappings into one address space, as the loader makes them.\<close>

primrec map_each :: "(addr \<Rightarrow> addr \<Rightarrow> addr \<Rightarrow> 's \<Rightarrow> (unit, 's) outcome) \<Rightarrow> addr \<Rightarrow> (addr \<times> addr) list \<Rightarrow> 's \<Rightarrow> (unit, 's) outcome" where
  "map_each f U [] s = Ret () s"
| "map_each f U (m # ms) s = chain (f U (fst m) (snd m) s) (\<lambda>_ s. map_each f U ms s)"

text \<open>The entry the last mapping of the page of \<open>v\<close> asks for.\<close>

primrec mapped_entry :: "(addr \<times> addr) list \<Rightarrow> addr \<Rightarrow> u64 option \<Rightarrow> u64 option" where
  "mapped_entry [] v e = e"
| "mapped_entry (m # ms) v e = mapped_entry ms v (if same_page v (fst m) then Some (user_entry (snd m)) else e)"

text \<open>
  \<open>rep s A F\<close>: in state \<open>s\<close> the live address spaces are \<open>dom A\<close>, the space with root \<open>r\<close> is built from the
  pages \<open>the (A r)\<close>, and \<open>F\<close> are the free pages. \<open>view s r\<close> is the map the processor sees under root \<open>r\<close>.
  User mappings stay in one window, which holds of \<open>va\<close> when \<open>window va\<close>.
\<close>

locale address_spaces =
  fixes rep :: "'s \<Rightarrow> (addr \<rightharpoonup> addr set) \<Rightarrow> addr set \<Rightarrow> bool"
    and view :: "'s \<Rightarrow> addr \<Rightarrow> addr \<Rightarrow> u64 option"
    and window :: "addr \<Rightarrow> bool"
    and kernel :: "'s \<Rightarrow> addr"
    and create :: "'s \<Rightarrow> addr \<times> 's"
    and map_page :: "addr \<Rightarrow> addr \<Rightarrow> addr \<Rightarrow> 's \<Rightarrow> (unit, 's) outcome"
    and release :: "addr \<Rightarrow> 's \<Rightarrow> 's"
  assumes create_law: "rep s A F \<Longrightarrow> F \<noteq> {} \<Longrightarrow> \<exists>n s'. create s = (n, s') \<and> n \<in> F \<and> A n = None
      \<and> rep s' (A(n \<mapsto> {n})) (F - {n}) \<and> kernel s' = kernel s \<and> view s' n = view s (kernel s)
      \<and> (\<forall>x \<in> dom A. view s' x = view s x)"
    and map_law: "rep s A F \<Longrightarrow> A U = Some T \<Longrightarrow> U \<noteq> kernel s \<Longrightarrow> window va \<Longrightarrow> map_page U va pa s = Ret () s' \<Longrightarrow>
      kernel s' = kernel s \<and> (\<exists>T' F'. rep s' (A(U \<mapsto> T')) F' \<and> T' \<union> F' = T \<union> F \<and> T' \<inter> F' = {} \<and> T \<subseteq> T')
      \<and> (\<forall>x \<in> dom A. \<forall>v. view s' x v = (if x = U \<and> same_page v va then Some (user_entry pa) else view s x v))"
    and release_law: "rep s A F \<Longrightarrow> A U = Some T \<Longrightarrow> U \<noteq> kernel s \<Longrightarrow>
      rep (release U s) (A(U := None)) (F \<union> T) \<and> kernel (release U s) = kernel s
      \<and> (\<forall>x \<in> dom A - {U}. view (release U s) x = view s x)"
    and rep_kernel: "rep s A F \<Longrightarrow> kernel s \<in> dom A"
begin

lemma map_pages_spec:
  assumes "rep s A F" "A U = Some T" "U \<noteq> kernel s" "T \<inter> F = {}" "\<forall>m \<in> set ms. window (fst m)" "map_each map_page U ms s = Ret () s'"
  shows "kernel s' = kernel s \<and> (\<exists>T' F'. rep s' (A(U \<mapsto> T')) F' \<and> T' \<union> F' = T \<union> F \<and> T' \<inter> F' = {})
    \<and> (\<forall>x \<in> dom A. \<forall>v. view s' x v = (if x = U then mapped_entry ms v (view s x v) else view s x v))"
  using assms
proof (induction ms arbitrary: s A T F)
  case Nil
  then have e: "A(U \<mapsto> T) = A" "s' = s" by (simp_all add: map_upd_triv)
  have "rep s' (A(U \<mapsto> T)) F" using Nil.prems(1) e by simp
  then have "\<exists>T' F'. rep s' (A(U \<mapsto> T')) F' \<and> T' \<union> F' = T \<union> F \<and> T' \<inter> F' = {}" using Nil.prems(4) by blast
  then show ?case using e(2) by (simp del: fun_upd_apply)
next
  case (Cons m ms)
  from Cons.prems(6) obtain s1 where s1: "map_page U (fst m) (snd m) s = Ret () s1" "map_each map_page U ms s1 = Ret () s'"
    by (auto simp: chain_Ret_iff)
  have w: "window (fst m)" using Cons.prems(5) by simp
  from map_law[OF Cons.prems(1-3) w s1(1)] obtain T1 F1 where k: "kernel s1 = kernel s"
    "rep s1 (A(U \<mapsto> T1)) F1" "T1 \<union> F1 = T \<union> F" "T1 \<inter> F1 = {}"
    "\<forall>x \<in> dom A. \<forall>v. view s1 x v = (if x = U \<and> same_page v (fst m) then Some (user_entry (snd m)) else view s x v)" by blast
  have U1: "U \<noteq> kernel s1" using k(1) Cons.prems(3) by simp
  have w': "\<forall>m \<in> set ms. window (fst m)" using Cons.prems(5) by simp
  have AU: "(A(U \<mapsto> T1)) U = Some T1" by simp
  from Cons.IH[OF k(2) AU U1 k(4) w' s1(2)] obtain T2 F2 where i: "kernel s' = kernel s1"
    "rep s' ((A(U \<mapsto> T1))(U \<mapsto> T2)) F2" "T2 \<union> F2 = T1 \<union> F1" "T2 \<inter> F2 = {}"
    "\<forall>x \<in> dom (A(U \<mapsto> T1)). \<forall>v. view s' x v = (if x = U then mapped_entry ms v (view s1 x v) else view s1 x v)" by blast
  have r: "rep s' (A(U \<mapsto> T2)) F2" using i(2) by (simp only: fun_upd_upd)
  have "\<forall>x \<in> dom A. \<forall>v. view s' x v = (if x = U then mapped_entry (m # ms) v (view s x v) else view s x v)"
    using i(5) k(5) by auto
  then show ?case using i(1,3,4) r k(1,3) by metis
qed

text \<open>
  The life of an address space: whatever it mapped, its release returns the free pages to what they were, and no
  other space's map has changed.
\<close>

lemma lifetime:
  assumes "rep s A F" "create s = (U, s1)" "F \<noteq> {}" "\<forall>m \<in> set ms. window (fst m)" "map_each map_page U ms s1 = Ret () s2"
  shows "rep (release U s2) A F \<and> (\<forall>x \<in> dom A. view (release U s2) x = view s x)
    \<and> (\<forall>v. view s2 U v = mapped_entry ms v (view s (kernel s) v))"
proof -
  from create_law[OF assms(1,3)] assms(2) have c: "U \<in> F" "A U = None" "rep s1 (A(U \<mapsto> {U})) (F - {U})"
    "kernel s1 = kernel s" "view s1 U = view s (kernel s)" "\<forall>x \<in> dom A. view s1 x = view s x" by auto
  have U: "U \<noteq> kernel s1" using rep_kernel[OF assms(1)] c(2,4) by auto
  from map_pages_spec[OF c(3) _ U _ assms(4,5)] obtain T F' where m: "kernel s2 = kernel s1"
    "rep s2 (A(U \<mapsto> T)) F'" "T \<union> F' = {U} \<union> (F - {U})"
    "\<forall>x \<in> insert U (dom A). \<forall>v. view s2 x v = (if x = U then mapped_entry ms v (view s1 x v) else view s1 x v)"
    by fastforce
  have U2: "U \<noteq> kernel s2" using U m(1) by simp
  from release_law[OF m(2) _ U2, of T] have r: "rep (release U s2) ((A(U \<mapsto> T))(U := None)) (F' \<union> T)"
    "\<forall>x \<in> dom A - {U}. view (release U s2) x = view s2 x" by auto
  have "(A(U \<mapsto> T))(U := None) = A" using c(2) by auto
  moreover have "F' \<union> T = F" using m(3) c(1) by auto
  moreover have "view (release U s2) x = view s x" if x: "x \<in> dom A" for x
  proof -
    have "x \<noteq> U" using x c(2) by auto
    then have "view s2 x = view s1 x" using m(4) x by (intro ext) auto
    then show ?thesis using r(2) c(6) x \<open>x \<noteq> U\<close> by simp
  qed
  ultimately show ?thesis using r(1) m(4) c(5) by simp
qed

end


section \<open>The kernel's address spaces\<close>

definition space_tables :: "owners \<Rightarrow> addr \<rightharpoonup> addr set" where
  "space_tables ow r = (if ow r = Some (r, []) then Some (root_tables ow r) else None)"

text \<open>
  All private tables lie on the path of the window's base, and every space maps something under the same top-level
  entry (the kernel's identity map does).
\<close>

definition paging_rep :: "addr \<Rightarrow> 'a paging_state_scheme \<Rightarrow> (addr \<rightharpoonup> addr set) \<Rightarrow> addr set \<Rightarrow> bool" where
  "paging_rep base s A F \<longleftrightarrow> (\<exists>ow ps. table_inv s (paging_kernel_pml4 s) ow ps \<and> F = set ps \<and> A = space_tables ow
     \<and> (\<forall>x r p. ow x = Some (r, p) \<longrightarrow> r \<noteq> paging_kernel_pml4 s \<longrightarrow> (\<exists>q. indices base = p @ q))
     \<and> (\<forall>r. ow r = Some (r, []) \<longrightarrow> (\<exists>v. pml4_index v = pml4_index base \<and> translate s r v \<noteq> None)))"

definition in_window :: "addr \<Rightarrow> addr \<Rightarrow> bool" where
  "in_window base va \<longleftrightarrow> pml4_index va = pml4_index base \<and> pdpt_index va = pdpt_index base \<and> pd_index va = pd_index base"

lemma space_tables_dom: "x \<in> dom (space_tables ow) \<longleftrightarrow> ow x = Some (x, [])"
  by (auto simp: space_tables_def split: if_splits)

lemma translate_top: "translate s r v \<noteq> None \<Longrightarrow> is_present (entry_at s r (pml4_index v))"
  by (auto simp: translate_def indices_def is_present_def split: if_splits)

lemma root_at_root: "owned ow ps \<Longrightarrow> ow x = Some (r, []) \<Longrightarrow> x = r"
  using ownedD by blast

lemma rep_create:
  assumes "paging_rep base s A F" "F \<noteq> {}"
  shows "\<exists>n s'. paging_create_user_address_space s = (n, s') \<and> n \<in> F \<and> A n = None
      \<and> paging_rep base s' (A(n \<mapsto> {n})) (F - {n}) \<and> paging_kernel_pml4 s' = paging_kernel_pml4 s
      \<and> translate s' n = translate s (paging_kernel_pml4 s) \<and> (\<forall>x \<in> dom A. translate s' x = translate s x)"
proof -
  let ?K = "paging_kernel_pml4 s"
  from assms(1) obtain ow ps where a: "table_inv s ?K ow ps" "F = set ps" "A = space_tables ow"
    "\<And>x r p. ow x = Some (r, p) \<Longrightarrow> r \<noteq> ?K \<Longrightarrow> \<exists>q. indices base = p @ q"
    "\<And>r. ow r = Some (r, []) \<Longrightarrow> \<exists>v. pml4_index v = pml4_index base \<and> translate s r v \<noteq> None"
    unfolding paging_rep_def by blast
  note d = table_invD[OF a(1)]
  obtain n ps' where ps: "ps = n # ps'" using assms(2) a(2) by (cases ps) auto
  from create_user_address_space_spec[OF a(1) refl] ps obtain s' where c:
    "paging_create_user_address_space s = (n, s')" "pages_frame s s'" "n \<noteq> 0" "ow n = None"
    "table_inv s' ?K (ow(n \<mapsto> (n, []))) ps'" "same_roots s s' ow" "\<forall>v. translate s' n v = translate s ?K v" by auto
  have k: "paging_kernel_pml4 s' = ?K" by (rule pages_frame_kernel[OF c(2)])
  have tr: "translate s' x v = translate s x v" if "ow x = Some (x, [])" for x v
    using same_roots_translate[OF c(6) that] .
  have other: "r \<noteq> n" if "ow x = Some (r, p)" for x r p
  proof
    assume "r = n"
    then have "table_of s n p = Some x" "ow x = Some (n, p)" using owner_table_of[OF d(3,5)] that by auto
    have "\<exists>y. ow y = Some (n, [])" using that \<open>r = n\<close>
    proof (induction p arbitrary: x rule: rev_induct)
      case (snoc i p)
      then show ?case using d(5) unfolding parent_ok_def by blast
    qed blast
    then show False using root_at_root[OF d(3)] c(4) by fastforce
  qed
  have "space_tables (ow(n \<mapsto> (n, []))) = A(n \<mapsto> {n})"
    using other c(4) by (intro ext) (auto simp: a(3) space_tables_def root_tables_def)
  moreover have "set ps' = F - {n}" using palloc_inv_distinct[OF d(1)] a(2) ps by auto
  moreover have "\<exists>q. indices base = p @ q" if "(ow(n \<mapsto> (n, []))) x = Some (r, p)" "r \<noteq> ?K" for x r p
    using that a(4) by (auto split: if_splits)
  moreover have "\<exists>v. pml4_index v = pml4_index base \<and> translate s' r v \<noteq> None"
    if r: "(ow(n \<mapsto> (n, []))) r = Some (r, [])" for r
  proof (cases "r = n")
    case True
    then show ?thesis using a(5)[OF d(6)] c(7) by simp
  next
    case False
    then show ?thesis using a(5)[of r] tr[of r] r by simp
  qed
  ultimately have "paging_rep base s' (A(n \<mapsto> {n})) (F - {n})"
    unfolding paging_rep_def k using c(5) by metis
  moreover have "translate s' n = translate s ?K" using c(7) by blast
  moreover have "\<forall>x \<in> dom A. translate s' x = translate s x" using tr a(3) space_tables_dom by blast
  moreover have "n \<in> F" "A n = None" using ps a(2,3) c(4) by (simp_all add: space_tables_def)
  ultimately show ?thesis using c(1) k by blast
qed


lemma map_user_page_ret:
  assumes "table_inv s K ow ps" "ow U = Some (U, [])" "U \<noteq> K" "paging_kernel_pml4 s = K"
    and "is_present (entry_at s U (pml4_index va))" and ret: "paging_map_user_page U va pa s = Ret () s'"
  shows "\<exists>ow' ps'. table_inv s' K ow' ps' \<and> pages_frame s s' \<and> ow \<subseteq>\<^sub>m ow'
    \<and> (\<exists>ns. ps = ns @ ps' \<and> dom ow' = dom ow \<union> set ns)
    \<and> (\<forall>x. ow x = None \<longrightarrow> ow' x \<noteq> None \<longrightarrow> (\<exists>p q. ow' x = Some (U, p) \<and> p \<noteq> [] \<and> indices va = p @ q))
    \<and> (\<forall>x v. ow x = Some (x, []) \<longrightarrow> translate s' x v = (if x = U \<and> same_page v va then Some (user_entry pa) else translate s x v))"
proof -
  from map_user_page_spec[OF assms(1-5), of pa] obtain t ow' ps' where m: "table_inv t K ow' ps'" "pages_frame s t" "ow \<subseteq>\<^sub>m ow'"
    "\<exists>ns. ps = ns @ ps' \<and> dom ow' = dom ow \<union> set ns"
    "\<forall>x. ow x = None \<longrightarrow> ow' x \<noteq> None \<longrightarrow> (\<exists>p q. ow' x = Some (U, p) \<and> p \<noteq> [] \<and> indices va = p @ q)"
    "if paging_map_user_page U va pa s = Ret () t then
         (\<forall>x v. ow x = Some (x, []) \<longrightarrow> translate t x v = (if x = U \<and> same_page v va then Some (user_entry pa) else translate s x v))
       else paging_map_user_page U va pa s = Halt t \<and> length ps \<le> 5
         \<and> (\<forall>x v. ow x = Some (x, []) \<longrightarrow> translate t x v = translate s x v)" by blast
  have "t = s'" using m(6) ret by (cases "paging_map_user_page U va pa s = Ret () t") simp_all
  then show ?thesis using m ret by (intro exI[of _ ow'] exI[of _ ps']) simp
qed

lemma rep_map:
  assumes "paging_rep base s A F" "A U = Some T" "U \<noteq> paging_kernel_pml4 s" "in_window base va"
    and ret: "paging_map_user_page U va pa s = Ret () s'"
  shows "paging_kernel_pml4 s' = paging_kernel_pml4 s
    \<and> (\<exists>T' F'. paging_rep base s' (A(U \<mapsto> T')) F' \<and> T' \<union> F' = T \<union> F \<and> T' \<inter> F' = {} \<and> T \<subseteq> T')
    \<and> (\<forall>x \<in> dom A. \<forall>v. translate s' x v = (if x = U \<and> same_page v va then Some (user_entry pa) else translate s x v))"
proof -
  let ?K = "paging_kernel_pml4 s"
  from assms(1) obtain ow ps where a: "table_inv s ?K ow ps" "F = set ps" "A = space_tables ow"
    "\<And>x r p. ow x = Some (r, p) \<Longrightarrow> r \<noteq> ?K \<Longrightarrow> \<exists>q. indices base = p @ q"
    "\<And>r. ow r = Some (r, []) \<Longrightarrow> \<exists>v. pml4_index v = pml4_index base \<and> translate s r v \<noteq> None"
    unfolding paging_rep_def by blast
  note d = table_invD[OF a(1)]
  have U: "ow U = Some (U, [])" "T = root_tables ow U"
    using assms(2) a(3) by (simp_all add: space_tables_def split: if_splits)
  have top: "is_present (entry_at s U (pml4_index va))"
  proof -
    obtain v where "pml4_index v = pml4_index base" "translate s U v \<noteq> None" using a(5)[OF U(1)] by blast
    then show ?thesis using translate_top[of s U v] assms(4) by (simp add: in_window_def)
  qed
  from map_user_page_ret[OF a(1) U(1) assms(3) refl top ret] obtain ow' ps' where m:
    "table_inv s' ?K ow' ps'" "pages_frame s s'" "ow \<subseteq>\<^sub>m ow'" "\<exists>ns. ps = ns @ ps' \<and> dom ow' = dom ow \<union> set ns"
    "\<forall>x. ow x = None \<longrightarrow> ow' x \<noteq> None \<longrightarrow> (\<exists>p q. ow' x = Some (U, p) \<and> p \<noteq> [] \<and> indices va = p @ q)"
    "\<And>x v. ow x = Some (x, []) \<Longrightarrow> translate s' x v = (if x = U \<and> same_page v va then Some (user_entry pa) else translate s x v)"
    by blast
  have k: "paging_kernel_pml4 s' = ?K" by (rule pages_frame_kernel[OF m(2)])
  note d' = table_invD[OF m(1)]
  have new: "\<exists>p q. ow' x = Some (U, p) \<and> p \<noteq> [] \<and> indices base = p @ q" if x: "ow x = None" "ow' x \<noteq> None" for x
  proof -
    obtain p q where p: "ow' x = Some (U, p)" "p \<noteq> []" "indices va = p @ q" using m(5) x by blast
    have l: "length p \<le> 3" using ownedD[OF d'(3) p(1)] by simp
    have "take 3 (indices base) = take 3 (indices va)" using assms(4) by (simp add: in_window_def indices_def)
    then have "take (length p) (indices base) = p" using p(3) l
      by (metis append_eq_conv_conj min.absorb1 take_take)
    then have "indices base = p @ drop (length p) (indices base)" by (metis append_take_drop_id)
    then show ?thesis using p by blast
  qed
  have up: "ow' x = Some y" if "ow x = Some y" for x y using map_le_Some[OF m(3) that] .
  have same: "ow' x = Some (r, []) \<longleftrightarrow> ow x = Some (r, [])" for x r using new[of x] up by (cases "ow x") auto
  have other: "root_tables ow' r = root_tables ow r" if "r \<noteq> U" for r
    using new up that unfolding root_tables_def by (metis (no_types, lifting) not_Some_eq option.inject prod.inject)
  have tabs: "space_tables ow' = A(U \<mapsto> root_tables ow' U)"
    using same other U(1) by (intro ext) (simp add: a(3) space_tables_def)
  obtain ns where ns: "ps = ns @ ps'" "dom ow' = dom ow \<union> set ns" using m(4) by blast
  have un: "root_tables ow' U \<union> set ps' = T \<union> F"
  proof -
    have "x \<in> root_tables ow' U \<longleftrightarrow> x \<in> root_tables ow U" if "ow x \<noteq> None" for x
      using that up unfolding root_tables_def by fastforce
    moreover have "x \<in> root_tables ow' U \<longleftrightarrow> x \<in> set ns" if "ow x = None" for x
    proof -
      have "x \<in> set ns \<longleftrightarrow> ow' x \<noteq> None" using ns(2) that by (metis Un_iff domIff)
      then show ?thesis using new[OF that] by (auto simp: root_tables_def)
    qed
    moreover have "ow x = None" if x: "x \<in> set ps" for x
    proof (cases "ow x")
      case (Some y)
      then show ?thesis using ownedD[OF d(3), of x "fst y" "snd y"] x by simp
    qed
    moreover have "x \<in> root_tables ow U \<longrightarrow> ow x \<noteq> None" for x by (auto simp: root_tables_def)
    ultimately show ?thesis using ns(1) a(2) U(2) by (intro set_eqI) (metis Un_iff set_append)
  qed
  have dis: "root_tables ow' U \<inter> set ps' = {}" using ownedD[OF d'(3)] by (fastforce simp: root_tables_def)
  have sub: "T \<subseteq> root_tables ow' U" using up U(2) by (auto simp: root_tables_def)
  have "\<exists>q. indices base = p @ q" if "ow' x = Some (r, p)" "r \<noteq> ?K" for x r p
    using new[of x] that up a(4) by (cases "ow x") fastforce+
  moreover have "\<exists>v. pml4_index v = pml4_index base \<and> translate s' r v \<noteq> None" if "ow' r = Some (r, [])" for r
  proof -
    have "ow r = Some (r, [])" using that same by simp
    from a(5)[OF this] m(6)[OF this] show ?thesis by fastforce
  qed
  ultimately have "paging_rep base s' (A(U \<mapsto> root_tables ow' U)) (set ps')"
    unfolding paging_rep_def k using m(1) tabs by metis
  then show ?thesis using k un dis sub m(6) a(3) space_tables_dom by blast
qed


lemma rep_release:
  assumes "paging_rep base s A F" "A U = Some T" "U \<noteq> paging_kernel_pml4 s" "trampoline_base l = base"
  shows "paging_rep base (paging_release_user_address_space U (Some l) s) (A(U := None)) (F \<union> T)
    \<and> paging_kernel_pml4 (paging_release_user_address_space U (Some l) s) = paging_kernel_pml4 s
    \<and> (\<forall>x \<in> dom A - {U}. translate (paging_release_user_address_space U (Some l) s) x = translate s x)"
proof -
  let ?K = "paging_kernel_pml4 s" and ?t = "paging_release_user_address_space U (Some l) s"
  from assms(1) obtain ow ps where a: "table_inv s ?K ow ps" "F = set ps" "A = space_tables ow"
    "\<And>x r p. ow x = Some (r, p) \<Longrightarrow> r \<noteq> ?K \<Longrightarrow> \<exists>q. indices base = p @ q"
    "\<And>r. ow r = Some (r, []) \<Longrightarrow> \<exists>v. pml4_index v = pml4_index base \<and> translate s r v \<noteq> None"
    unfolding paging_rep_def by blast
  have U: "ow U = Some (U, [])" "T = root_tables ow U"
    using assms(2) a(3) by (simp_all add: space_tables_def split: if_splits)
  have onpath: "\<exists>q. indices (trampoline_base l) = p @ q" if "ow x = Some (U, p)" for x p
    using a(4)[OF that assms(3)] assms(4) by simp
  obtain qs where q: "?t = fold palloc_free qs s" "distinct qs" "set qs = root_tables ow U"
  proof -
    have "\<exists>qs. ?t = fold palloc_free qs s \<and> distinct qs \<and> set qs = root_tables ow U"
      by (rule release_spec[OF a(1) U(1) assms(3) refl]) (rule onpath)
    then show ?thesis using that by blast
  qed
  note f = free_root[OF a(1) assms(3) q(2,3), folded q(1)]
  have k: "paging_kernel_pml4 ?t = ?K" by (rule pages_frame_kernel[OF f(2)])
  have tabs: "space_tables (without_root ow U) = A(U := None)"
    by (intro ext) (auto simp: a(3) space_tables_def without_root_Some root_tables_def)
  have w: "ow x = Some (r, p) \<and> r \<noteq> U" if "without_root ow U x = Some (r, p)" for x r p
    using that by (simp add: without_root_Some)
  have "\<exists>q. indices base = p @ q" if "without_root ow U x = Some (r, p)" "r \<noteq> ?K" for x r p
    using w[OF that(1)] a(4) that(2) by blast
  moreover have "\<exists>v. pml4_index v = pml4_index base \<and> translate ?t r v \<noteq> None" if "without_root ow U r = Some (r, [])" for r
    using w[OF that] a(5)[of r] f(3)[of r] by metis
  moreover have "set (rev qs @ ps) = F \<union> T" using q(3) a(2) U(2) by auto
  ultimately have "paging_rep base ?t (A(U := None)) (F \<union> T)"
    unfolding paging_rep_def k using f(1) tabs by metis
  moreover have "\<forall>x \<in> dom A - {U}. translate ?t x = translate s x"
    using f(3) a(3) space_tables_dom by blast
  ultimately show ?thesis using k by blast
qed

interpretation user_spaces: address_spaces "paging_rep (trampoline_base l)" translate "in_window (trampoline_base l)"
  paging_kernel_pml4 paging_create_user_address_space paging_map_user_page
  "\<lambda>U. paging_release_user_address_space U (Some l)" for l :: user_virtual_layout
proof (unfold_locales, goal_cases create map_page release rep_kernel)
  case (create s A F)
  then show ?case by (rule rep_create)
next
  case (map_page s A F U T va pa s')
  then show ?case by (rule rep_map)
next
  case (release s A F U T)
  then show ?case by (rule rep_release) simp
next
  case (rep_kernel s A F)
  then obtain ow where "ow (paging_kernel_pml4 s) = Some (paging_kernel_pml4 s, [])" "A = space_tables ow"
    unfolding paging_rep_def table_inv_def by blast
  then show ?case by (simp add: space_tables_dom)
qed

section \<open>Addresses and entries\<close>

lemma pointer_low: "page_aligned p \<Longrightarrow> unat p < 4503599627370496 \<Longrightarrow> pointer_ok p"
proof -
  assume a: "page_aligned p" "unat p < 4503599627370496"
  have "take_bit 52 p = p"
  proof -
    have "unat (take_bit 52 p) = unat p mod 4503599627370496" by (simp only: unsigned_take_bit_eq) (simp add: take_bit_eq_mod)
    then show ?thesis using a(2) by (simp add: word_unat_eq_iff)
  qed
  moreover have "paging_address_mask = mask 52 AND NOT 4095" by (simp add: paging_address_mask_def mask_eq_exp_minus_1)
  ultimately have "p AND paging_address_mask = p AND NOT 4095" by (metis and.assoc take_bit_eq_mask)
  then show ?thesis using page_floor_id[OF a(1)] by (simp add: pointer_ok_def)
qed

lemma page_offset_inj:
  assumes "a AND NOT 4095 = a" "b AND NOT 4095 = b"
  shows "a OR (v AND 4095) = b OR (v AND 4095) \<longleftrightarrow> a = (b :: addr)"
proof
  assume e: "a OR (v AND 4095) = b OR (v AND 4095)"
  have z: "(v AND 4095) AND NOT 4095 = 0" by (simp add: and.assoc)
  from arg_cong[OF e, of "\<lambda>x. x AND NOT 4095"] show "a = b" unfolding and_or_distrib z assms by simp
qed simp

lemma identity_grant:
  assumes "unat v < 4294967296"
  shows "page_grant v (identity_entry v) = (v, True, False)"
proof -
  have "pointer_ok (v AND NOT 4095)"
  proof -
    have "page_aligned (v AND NOT 4095)" by simp
    moreover have "v AND NOT 4095 \<le> v" by (rule word_and_le2)
    then have "unat (v AND NOT 4095) < 4503599627370496" using assms unfolding word_le_nat_alt by linarith
    ultimately show ?thesis by (rule pointer_low)
  qed
  then have a: "entry_address (identity_entry v) = v AND NOT 4095"
    using table_entry(2)[of "v AND NOT 4095" 0] by (simp add: identity_entry_def paging_flags_table_def paging_flags_page_def)
  have "(v AND NOT 4095) OR (v AND 4095) = v" by (rule bit_word_eqI) (auto simp: bit_simps)
  moreover have "bit (identity_entry v) 1" "\<not> bit (identity_entry v) 2"
    using page_aligned_low_bit[of "v AND NOT 4095" 2] by (simp_all add: identity_entry_def bit_or_iff paging_flags_page_def)
  ultimately show ?thesis by (simp add: page_grant_def a)
qed

lemma identity_mmu:
  assumes inv: "table_inv t K ow qs" and limit: "limit \<le> 0x100000000"
    and tr: "\<forall>v. unat v < 281474976710656 \<longrightarrow> translate t K v = (if v < limit then Some (identity_entry v) else None)"
  shows "mmu t K v = (if v < limit then Some (v, True, False) else None)"
proof (cases "unat v < 140737488355328")
  case True
  have "unat v < 4294967296" if "v < limit" using that limit unfolding word_less_nat_alt word_le_nat_alt by simp
  then show ?thesis using mmu_translate[OF inv table_invD(6)[OF inv] canonical_low[OF True]] tr True by (simp add: identity_grant)
next
  case False
  then have nl: "\<not> v < limit" using limit unfolding word_less_nat_alt word_le_nat_alt by simp
  show ?thesis
  proof (cases "canonical v")
    case c: True
    let ?v = "take_bit 48 v"
    have u: "unat ?v < 281474976710656"
    proof -
      have "unat ?v = unat v mod 281474976710656" by (simp only: unsigned_take_bit_eq) (simp add: take_bit_eq_mod)
      then show ?thesis by simp
    qed
    have "\<not> ?v < limit" using canonical_high[OF c False] limit unfolding word_less_nat_alt word_le_nat_alt by simp
    then have "translate t K ?v = None" using tr u by simp
    moreover have "same_page v ?v" by (simp add: same_page_def)
    ultimately show ?thesis using mmu_translate[OF inv table_invD(6)[OF inv] c] translate_same_page[of v ?v t K] nl by simp
  qed (simp add: mmu_def nl)
qed

section \<open>Properties\<close>

text \<open>
  C14: The life of a user address space. Create a space, map any pages of its 2 MiB window into it, and release it:
  while it lives its map is the kernel's except for the mapped pages, and afterwards the free pages are exactly the
  ones there were before and every other space, the kernel's included, translates every address as before.
\<close>

theorem user_space_lifetime:
  assumes "paging_rep (trampoline_base l) s A F" "F \<noteq> {}" "paging_create_user_address_space s = (U, s1)"
    and "\<forall>m \<in> set ms. in_window (trampoline_base l) (fst m)" "map_each paging_map_user_page U ms s1 = Ret () s2"
  shows "(\<forall>v. translate s2 U v = mapped_entry ms v (translate s (paging_kernel_pml4 s) v))
    \<and> paging_rep (trampoline_base l) (paging_release_user_address_space U (Some l) s2) A F
    \<and> (\<forall>x \<in> dom A. translate (paging_release_user_address_space U (Some l) s2) x = translate s x)"
  using user_spaces.lifetime[OF assms(1,3,2,4,5)] by blast

lemma mapping_matches_translate:
  assumes "table_inv s K ow ps" "ow r = Some (r, [])"
  shows "paging_mapping_matches r va pa u s \<longleftrightarrow>
    (\<exists>e. translate s r va = Some e \<and> entry_address e = pa AND NOT 4095 \<and> (u \<longleftrightarrow> e AND paging_user \<noteq> 0))"
proof -
  let ?va = "va AND NOT (paging_page_size - 1)"
  have r0: "r \<noteq> 0" using ownedD[OF table_invD(3)[OF assms(1)] assms(2)] by simp
  have "translate s r ?va = translate s r va" unfolding translate_def indices_floor ..
  then show ?thesis using r0 walk_translate[OF assms, of ?va]
    by (auto simp: paging_mapping_matches_def Let_def entry_address_def paging_address_mask_def page_mask)
qed

lemma user_entry_address:
  assumes "unat pa < 4503599627370496"
  shows "entry_address (user_entry pa) = pa AND NOT 4095"
proof -
  have "unat (take_bit 52 pa) = unat pa mod 4503599627370496"
    by (simp only: unsigned_take_bit_eq) (simp add: take_bit_eq_mod)
  then have t: "take_bit 52 pa = pa" using assms by (simp add: word_unat_eq_iff)
  have b: "bit pa n \<longleftrightarrow> n < 52 \<and> bit pa n" for n using bit_take_bit_iff[of 52 pa n] t by simp
  have m: "paging_address_mask = push_bit 12 (mask 40)" "(4095::u64) = mask 12"
    by (simp_all add: paging_address_mask_def mask_eq_exp_minus_1)
  have f: "paging_present OR paging_writable OR paging_user = mask 3"
    by (simp add: paging_present_def paging_writable_def paging_user_def mask_eq_exp_minus_1)
  show ?thesis
    unfolding entry_address_def user_entry_def page_mask f m
    by (rule bit_word_eqI, subst (2) bit_and_iff, subst b) (auto simp: bit_simps)
qed

lemma map_user_page_ok:
  assumes inv: "table_inv s K ow ps" and U: "ow U = Some (U, [])" "U \<noteq> K" and K: "paging_kernel_pml4 s = K"
    and top: "is_present (entry_at s U (pml4_index va))" and free: "6 \<le> length ps" and pa: "unat pa < 4503599627370496"
  shows "\<exists>s' ow' ps'. paging_map_user_page U va pa s = Ret () s' \<and> table_inv s' K ow' ps' \<and> ow \<subseteq>\<^sub>m ow'
    \<and> paging_mapping_matches U va pa True s'
    \<and> (\<forall>x v. ow x = Some (x, []) \<longrightarrow>
         translate s' x v = (if x = U \<and> same_page v va then Some (user_entry pa) else translate s x v))"
proof -
  from map_user_page_spec[OF inv U K top, of pa] obtain t ow' ps' where m: "table_inv t K ow' ps'" "ow \<subseteq>\<^sub>m ow'"
    "if paging_map_user_page U va pa s = Ret () t then
         (\<forall>x v. ow x = Some (x, []) \<longrightarrow> translate t x v = (if x = U \<and> same_page v va then Some (user_entry pa) else translate s x v))
       else paging_map_user_page U va pa s = Halt t \<and> length ps \<le> 5
         \<and> (\<forall>x v. ow x = Some (x, []) \<longrightarrow> translate t x v = translate s x v)" by blast
  have r: "paging_map_user_page U va pa s = Ret () t" using m(3) free by (simp split: if_splits)
  then have tr: "\<forall>x v. ow x = Some (x, []) \<longrightarrow>
      translate t x v = (if x = U \<and> same_page v va then Some (user_entry pa) else translate s x v)" using m(3) by simp
  have U': "ow' U = Some (U, [])" by (rule map_le_Some[OF m(2) U(1)])
  have "same_page va va" by (simp add: same_page_def)
  then have "paging_mapping_matches U va pa True t"
    unfolding mapping_matches_translate[OF m(1) U'] using tr U(1) user_entry_present(2)[of pa] user_entry_address[OF pa] by simp
  then show ?thesis using r m(1,2) tr by blast
qed

lemma user_entry_grant:
  assumes "unat pa < 4503599627370496"
  shows "page_grant v (user_entry pa) = ((pa AND NOT 4095) OR (v AND 4095), True, True)"
  using user_entry_address[OF assms]
  by (simp add: page_grant_def user_entry_def bit_or_iff paging_writable_def paging_user_def bit_four)

text \<open>
  C15: \<open>paging_map_user_page\<close> with at least six free pages never halts. Afterwards the processor, walking the tables
  of the address space from the root, takes every canonical address in the page of \<open>va\<close> to the same offset in the page
  of \<open>pa\<close>, and all four levels let user code read and write it; for every other address, and under every other
  root, the processor finds what it found before. The tables stay well formed, and \<open>paging_mapping_matches\<close>, the check
  its callers make, confirms the mapping.
\<close>

theorem map_user_page_correct:
  assumes inv: "table_inv s K ow ps" and U: "ow U = Some (U, [])" "U \<noteq> K" and K: "paging_kernel_pml4 s = K"
    and top: "is_present (entry_at s U (pml4_index va))" and free: "6 \<le> length ps" and pa: "unat pa < 4503599627370496"
  shows "\<exists>s' ow' ps'. paging_map_user_page U va pa s = Ret () s' \<and> table_inv s' K ow' ps' \<and> ow \<subseteq>\<^sub>m ow'
    \<and> paging_mapping_matches U va pa True s'
    \<and> (\<forall>v. canonical v \<longrightarrow> same_page v va \<longrightarrow> mmu s' U v = Some ((pa AND NOT 4095) OR (v AND 4095), True, True))
    \<and> (\<forall>x v. ow x = Some (x, []) \<longrightarrow> \<not> (x = U \<and> same_page v va) \<longrightarrow> mmu s' x v = mmu s x v)"
proof -
  from map_user_page_ok[OF assms] obtain s' ow' ps' where m: "paging_map_user_page U va pa s = Ret () s'"
    "table_inv s' K ow' ps'" "ow \<subseteq>\<^sub>m ow'" "paging_mapping_matches U va pa True s'"
    "\<And>x v. ow x = Some (x, []) \<Longrightarrow>
         translate s' x v = (if x = U \<and> same_page v va then Some (user_entry pa) else translate s x v)" by blast
  have r: "ow' x = Some (x, [])" if "ow x = Some (x, [])" for x by (rule map_le_Some[OF m(3) that])
  have "mmu s' U v = Some ((pa AND NOT 4095) OR (v AND 4095), True, True)" if "canonical v" "same_page v va" for v
    using mmu_translate[OF m(2) r[OF U(1)] that(1)] m(5)[OF U(1)] that(2) user_entry_grant[OF pa] by simp
  moreover have "mmu s' x v = mmu s x v" if x: "ow x = Some (x, [])" "\<not> (x = U \<and> same_page v va)" for x v
  proof (cases "canonical v")
    case True
    show ?thesis unfolding mmu_translate[OF m(2) r[OF x(1)] True] mmu_translate[OF inv x(1) True] using m(5)[OF x(1)] x(2) by auto
  qed (simp add: mmu_def)
  ultimately show ?thesis using m(1-4) by blast
qed

text \<open>
  C18: What the two checks on mappings tell of the processor, for a root of the kernel's tables.
  \<open>paging_mapping_matches\<close> holds exactly when the processor takes \<open>va\<close> to the page of \<open>pa\<close> and user code may, or may
  not, touch it, as the caller wants; \<open>paging_mapping_is_supervisor_only\<close> exactly when \<open>va\<close> is identity mapped and out
  of reach of user code. The code does not look at bits 48 to 63: for an address that is not canonical, which the processor
  refuses, the answers are those for the canonical address with the same low 48 bits.
\<close>

theorem mapping_checks_exact:
  assumes "table_inv s K ow ps" "ow r = Some (r, [])"
  shows "(paging_mapping_matches r va pa u s \<longleftrightarrow>
      (\<exists>w. mmu s r (canonical_form va) = Some ((pa AND NOT 4095) OR (va AND 4095), w, u)))
    \<and> (paging_mapping_is_supervisor_only r va s \<longleftrightarrow>
      (\<exists>w. mmu s r (canonical_form va) = Some (va, w, False)))
    \<and> (canonical va \<longleftrightarrow> canonical_form va = va) \<and> (\<not> canonical va \<longrightarrow> mmu s r va = None)"
proof -
  have f: "a OR (va AND 4095) = b OR (va AND 4095) \<longleftrightarrow> a = b" if "a AND NOT 4095 = a" "b AND NOT 4095 = b" for a b :: addr
    using page_offset_inj[OF that] .
  have a: "entry_address e AND NOT 4095 = entry_address e" for e
    by (simp add: entry_address_def and.assoc paging_address_mask_def)
  have m: "paging_mapping_matches r va p x s \<longleftrightarrow> (\<exists>w. mmu s r (canonical_form va) = Some ((p AND NOT 4095) OR (va AND 4095), w, x))" for p x
    unfolding mapping_matches_translate[OF assms] mmu_canonical_form[OF assms]
    using f[OF a, of "p AND NOT 4095"] by (auto simp: page_grant_def user_flag)
  have "(va AND NOT 4095) OR (va AND 4095) = va" by (rule bit_word_eqI) (auto simp: bit_simps)
  then show ?thesis using m unfolding paging_mapping_is_supervisor_only_def by (auto simp: canonical_def mmu_def)
qed

text \<open>
  C16: \<open>paging_user_range_mapped\<close> is total and exact for a root of the kernel's tables: whatever the pointer and the
  length, its page loop stops and nothing changes, and it answers yes exactly when the range is empty, or does not wrap
  around and the processor lets user code touch every byte of it, all four levels of the walk included. As the code does not look at bits 48 to 63, the
  bytes are those at the canonical forms of the addresses; in a range of canonical addresses they are the addresses
  themselves.
\<close>

theorem user_range_mapped_exact:
  assumes "table_inv s K ow ps" "ow r = Some (r, [])"
  shows "\<exists>yes. paging_user_range_mapped r va count s = Ret yes s
    \<and> (yes \<longleftrightarrow> count = 0 \<or> (unat va + unat count \<le> 18446744073709551616
        \<and> (\<forall>k < unat count. user_reach s r (canonical_form (va + of_nat k)))))
    \<and> ((\<forall>k < unat count. canonical (va + of_nat k)) \<longrightarrow>
        (yes \<longleftrightarrow> count = 0 \<or> (unat va + unat count \<le> 18446744073709551616
          \<and> (\<forall>k < unat count. user_reach s r (va + of_nat k)))))"
  unfolding user_range_mapped_spec[OF assms] user_reach_iff[OF assms, symmetric] by (auto simp: canonical_def)

text \<open>
  C17: \<open>paging_initialize\<close> with at least 2057 free pages: if the memory map has no page it halts; otherwise it returns (its loop over up to a million pages stops
  and never halts) and activates the new tables, and under them the processor takes every address below the highest
  physical end to itself, with write access on all four levels and none for user code, and faults at every other
  address of the whole address space.
\<close>

theorem identity_map_at_boot:
  assumes "palloc_inv s (K # ps)" "\<forall>p \<in> set (K # ps). pointer_ok p" "2056 \<le> length ps"
  shows "if highest_physical_end s = 0 then \<exists>t. paging_initialize s = Halt t
    else \<exists>t ow qs. paging_initialize s = Ret () t \<and> paging_kernel_address_space t = K \<and> cr3 t = K \<and> table_inv t K ow qs
      \<and> (\<forall>v. mmu t K v = (if v < highest_physical_end s then Some (v, True, False) else None))"
proof (cases "highest_physical_end s = 0")
  case True
  then show ?thesis using paging_initialize_no_memory[OF assms(1)] by simp
next
  case False
  have n: "\<not> length ps < 2056" using assms(3) by simp
  from paging_initialize_spec[OF assms(1,2) False] n obtain t ow qs where t: "paging_initialize s = Ret () t"
    "paging_kernel_pml4 t = K" "cr3 t = K" "table_inv t K ow qs"
    "\<forall>v. unat v < 281474976710656 \<longrightarrow> translate t K v = (if v < highest_physical_end s then Some (identity_entry v) else None)"
    by blast
  have "mmu t K v = (if v < highest_physical_end s then Some (v, True, False) else None)" for v
    by (rule identity_mmu[OF t(4) highest_physical_end_ok(2) t(5)])
  then show ?thesis using t False unfolding paging_kernel_address_space_def by auto
qed


text \<open>
  The blind spot of the check: with bit 48 set on top of an address user code may use, it still answers yes, where the processor
  faults. The callers in \<open>core.c\<close> are safe, as they compare the pointer with the window first.
\<close>

lemma user_range_alias:
  assumes "table_inv s K ow ps" "ow r = Some (r, [])" "user_reach s r 0x40001000"
  shows "paging_user_range_mapped r 0x0001000040001000 1 s = Ret True s \<and> \<not> user_reach s r 0x0001000040001000"
proof -
  have b: "\<not> bit (0x0001000040001000 :: addr) 47" "\<not> bit (0x40001000 :: addr) 47" by (simp_all add: bit_iff_odd)
  have c: "canonical_form 0x0001000040001000 = 0x40001000" "canonical_form 0x40001000 = 0x40001000"
    unfolding canonical_form_def signed_take_bit_eq_if_positive[OF b(1)] signed_take_bit_eq_if_positive[OF b(2)]
    by (simp_all add: take_bit_eq_mask mask_eq_exp_minus_1)
  then have "\<not> canonical 0x0001000040001000" by (simp add: canonical_def)
  moreover have "user_accessible s r 0x0001000040001000"
    using assms(3) user_reach_iff[OF assms(1,2), of "0x0001000040001000"] c by simp
  ultimately show ?thesis using user_range_mapped_spec[OF assms(1,2), of "0x0001000040001000" 1] user_reach_canonical by auto
qed

section \<open>Witnesses\<close>

text \<open>
  Eight free pages at 48 MiB, a kernel root at 32 MiB that identity maps page 0, and a user root with the same entry.
\<close>

definition blank_paging :: paging_state where
  "blank_paging = heap_state.extend empty_heap \<lparr>paging_kernel_pml4 = 0x02000000\<rparr>\<lparr>mem := \<lambda>_. 0, free_list_head := 0, free_page_count := 0\<rparr>"

definition pool_pages :: "nat \<Rightarrow> addr list" where
  "pool_pages n = region_pages 0x03000000 n"

definition pool_state :: "nat \<Rightarrow> paging_state" where
  "pool_state n = fold palloc_free (pool_pages n) blank_paging"

lemma pool_page:
  assumes "n \<le> 4096" "p \<in> set (pool_pages n)"
  shows "page_aligned p" "unat p \<ge> 0x03000000" "unat p < 0x04000000"
proof -
  obtain i where i: "i < n" "p = 0x03000000 + of_nat i * 4096" using assms(2) by (auto simp: pool_pages_def region_pages_def)
  have u: "unat p = 4096 * (0x3000 + i)" unfolding i(2) by (subst unat_region_page) (use i(1) assms(1) in simp_all)
  show "page_aligned p" by (simp only: page_aligned_def u dvd_triv_left)
  show "unat p \<ge> 0x03000000" "unat p < 0x04000000" using u i(1) assms(1) by simp_all
qed

lemma pool_inv:
  assumes "n \<le> 4096"
  shows "palloc_inv (pool_state n) (rev (pool_pages n))" "pages_frame blank_paging (pool_state n)"
    "\<And>t j. page_aligned t \<Longrightarrow> t \<notin> set (pool_pages n) \<Longrightarrow> j < 512 \<Longrightarrow> entry_at (pool_state n) t j = 0"
proof -
  have i0: "palloc_inv blank_paging []" by (simp add: blank_paging_def palloc_inv_def)
  have "distinct (pool_pages n)"
    unfolding pool_pages_def region_pages_def distinct_map
  proof (intro conjI inj_onI)
    fix i j assume "i \<in> set [0..<n]" "j \<in> set [0..<n]" and e: "0x03000000 + of_nat i * 4096 = (0x03000000 + of_nat j * 4096 :: addr)"
    then have "i < 4096" "j < 4096" using assms by simp_all
    then show "i = j" using arg_cong[OF e, of unat] unat_region_page[of "0x03000000" i] unat_region_page[of "0x03000000" j] by simp
  qed simp
  moreover have "q \<noteq> 0 \<and> page_aligned q" if "q \<in> set (pool_pages n)" for q using pool_page[OF assms that] by auto
  ultimately have f: "palloc_inv (pool_state n) (rev (pool_pages n) @ []) \<and> pages_frame blank_paging (pool_state n)
    \<and> (\<forall>t j. page_aligned t \<longrightarrow> t \<notin> set (pool_pages n) \<longrightarrow> j < 512 \<longrightarrow> entry_at (pool_state n) t j = entry_at blank_paging t j)"
    unfolding pool_state_def by (intro fold_palloc_free[OF i0]) auto
  have z: "entry_at blank_paging t j = 0" for t j
    by (simp add: blank_paging_def entry_at_def load64_def rd64_def eval_nat_numeral)
  show "palloc_inv (pool_state n) (rev (pool_pages n))" "pages_frame blank_paging (pool_state n)"
    "\<And>t j. page_aligned t \<Longrightarrow> t \<notin> set (pool_pages n) \<Longrightarrow> j < 512 \<Longrightarrow> entry_at (pool_state n) t j = 0"
    using f z by auto
qed


definition two_roots :: paging_state where
  "two_roots = set_entry 0x02004000 0 3 (set_entry 0x02003000 0 0x02004003 (set_entry 0x02002000 0 0x02003003
     (set_entry 0x02001000 0 0x02002003 (set_entry 0x02000000 0 0x02002003 (pool_state 16)))))"

definition two_owners :: owners where
  "two_owners = [0x02000000 \<mapsto> (0x02000000, []), 0x02001000 \<mapsto> (0x02001000, []), 0x02002000 \<mapsto> (0x02000000, [0]),
     0x02003000 \<mapsto> (0x02000000, [0, 0]), 0x02004000 \<mapsto> (0x02000000, [0, 0, 0])]"

lemma low_not_pool: "unat p < 0x03000000 \<Longrightarrow> n \<le> 4096 \<Longrightarrow> p \<notin> set (pool_pages n)"
  using pool_page(2) by fastforce

lemma pool_pointer:
  assumes "n \<le> 4096" "p \<in> set (pool_pages n)"
  shows "pointer_ok p"
proof (rule pointer_low)
  show "page_aligned p" using pool_page(1)[OF assms] .
  show "unat p < 4503599627370496" using pool_page(3)[OF assms] by (rule less_trans) simp
qed

lemma two_roots_pages:
  "page_aligned 0x02000000" "page_aligned 0x02001000" "page_aligned 0x02002000" "page_aligned 0x02003000" "page_aligned 0x02004000"
  "pointer_ok 0x02000000" "pointer_ok 0x02001000" "pointer_ok 0x02002000" "pointer_ok 0x02003000" "pointer_ok 0x02004000"
  by (simp_all add: page_aligned_def pointer_ok_def paging_address_mask_def)

lemma two_roots_entries:
  assumes "t \<in> {0x02000000, 0x02001000, 0x02002000, 0x02003000, 0x02004000}" "j < 512"
  shows "entry_at two_roots t j = (if j = 0 then
      (if t = 0x02002000 then 0x02003003 else if t = 0x02003000 then 0x02004003 else if t = 0x02004000 then 3 else 0x02002003) else 0)"
proof -
  have "unat t < 0x03000000" using assms(1) by auto
  then have "t \<notin> set (pool_pages 16)" by (rule low_not_pool) simp
  moreover have "page_aligned t" using assms(1) two_roots_pages by auto
  ultimately have "entry_at (pool_state 16) t j = 0" using pool_inv(3)[of 16 t j] assms(2) by simp
  then show ?thesis using assms two_roots_pages by (auto simp: two_roots_def entry_set_entry)
qed

lemma two_roots_present:
  "is_present 0x02002003" "is_present 0x02003003" "is_present 0x02004003" "is_present 3" "\<not> is_present 0"
  "entry_address 0x02002003 = 0x02002000" "entry_address 0x02003003 = 0x02003000" "entry_address 0x02004003 = 0x02004000"
  by (simp_all add: is_present_def paging_present_def entry_address_def paging_address_mask_def)

lemma two_roots_inv: "table_inv two_roots 0x02000000 two_owners (rev (pool_pages 16))"
proof -
  let ?T = "{0x02000000, 0x02001000, 0x02002000, 0x02003000, 0x02004000} :: addr set"
  have low: "p \<notin> set (rev (pool_pages 16))" if "p \<in> ?T" for p
    using that by (auto dest!: pool_page(2)[rotated])
  have pi: "palloc_inv two_roots (rev (pool_pages 16))"
    unfolding two_roots_def by (intro palloc_inv_set_entry pool_inv two_roots_pages low) simp_all
  have ptr: "\<forall>p \<in> set (rev (pool_pages 16)). pointer_ok p" using pool_pointer[of 16] by simp
  have ow: "two_owners t = Some (r, p) \<longleftrightarrow> (t, r, p) \<in> {(0x02000000, 0x02000000, []), (0x02001000, 0x02001000, []),
      (0x02002000, 0x02000000, [0]), (0x02003000, 0x02000000, [0, 0]), (0x02004000, 0x02000000, [0, 0, 0])}" for t r p
    by (auto simp: two_owners_def)
  have own: "owned two_owners (rev (pool_pages 16))"
    unfolding owned_def ow using two_roots_pages low by auto
  have child: "child_ok two_roots 0x02000000 two_owners"
    unfolding child_ok_def ow using two_roots_entries two_roots_present by auto
  have parent: "parent_ok two_roots two_owners"
    unfolding parent_ok_def
  proof (intro allI impI)
    fix t r p i assume "two_owners t = Some (r, p @ [i])"
    then consider "t = 0x02002000" "r = 0x02000000" "p = []" "i = 0" | "t = 0x02003000" "r = 0x02000000" "p = [0]" "i = 0"
      | "t = 0x02004000" "r = 0x02000000" "p = [0, 0]" "i = 0" unfolding ow by (cases p) (auto simp: Cons_eq_append_conv)
    then show "\<exists>u. two_owners u = Some (r, p) \<and> i < 512 \<and> is_present (entry_at two_roots u i) \<and> entry_address (entry_at two_roots u i) = t"
    proof cases
      case 1
      then show ?thesis using two_roots_entries[of "0x02000000" 0] two_roots_present
        by (intro exI[of _ "0x02000000"]) (simp add: two_owners_def)
    next
      case 2
      then show ?thesis using two_roots_entries[of "0x02002000" 0] two_roots_present
        by (intro exI[of _ "0x02002000"]) (simp add: two_owners_def)
    next
      case 3
      then show ?thesis using two_roots_entries[of "0x02003000" 0] two_roots_present
        by (intro exI[of _ "0x02003000"]) (simp add: two_owners_def)
    qed
  qed
  have "rights_ok two_roots two_owners"
    unfolding rights_ok_def ow using two_roots_entries two_roots_present by (auto simp: link_ok_def)
  then show ?thesis unfolding table_inv_def using pi ptr own child parent by (simp add: two_owners_def)
qed

lemma two_roots_kernel: "paging_kernel_pml4 two_roots = 0x02000000"
proof -
  have "paging_kernel_pml4 (pool_state 16) = paging_kernel_pml4 blank_paging" by (rule pages_frame_kernel[OF pool_inv(2)]) simp
  moreover have "paging_kernel_pml4 blank_paging = 0x02000000" by (simp add: blank_paging_def heap_state.defs)
  ultimately show ?thesis by (simp add: two_roots_def set_entry_def store64_def)
qed

lemma window_index: "pml4_index 0x40000000 = 0" "pml4_index 0x40001000 = 0"
  by (simp_all add: pml4_index_def)

lemma two_roots_top: "is_present (entry_at two_roots 0x02001000 (pml4_index 0x40001000))"
  unfolding window_index using two_roots_entries[of "0x02001000" 0] by (simp add: is_present_def paging_present_def)

theorem map_user_page_correct_witness:
  "\<exists>s'. paging_map_user_page 0x02001000 0x40001000 0x02100000 two_roots = Ret () s'
    \<and> mmu s' 0x02001000 0x40001234 = Some (0x02100234, True, True)"
proof -
  have o: "two_owners 0x02001000 = Some (0x02001000, [])" "(0x02001000 :: addr) \<noteq> 0x02000000" by (simp_all add: two_owners_def)
  have l: "6 \<le> length (rev (pool_pages 16))" "unat (0x02100000 :: addr) < 4503599627370496"
    by (simp_all add: pool_pages_def region_pages_def)
  have v: "canonical 0x40001234" "same_page 0x40001234 0x40001000" by (simp_all add: canonical_low same_page_def)
  from map_user_page_correct[OF two_roots_inv o two_roots_kernel two_roots_top l] v show ?thesis by fastforce
qed

theorem mapping_checks_exact_witness:
  "\<not> paging_mapping_matches 0x02001000 0x40001000 0x02100000 True two_roots \<and> paging_mapping_is_supervisor_only 0x02001000 0x10 two_roots"
proof -
  have o: "two_owners 0x02001000 = Some (0x02001000, [])" by (simp add: two_owners_def)
  note e = two_roots_entries[of "0x02001000" 0] two_roots_entries[of "0x02002000" 0] two_roots_entries[of "0x02002000" 1]
    two_roots_entries[of "0x02003000" 0] two_roots_entries[of "0x02004000" 0] two_roots_present
  have c: "canonical_form 0x40001000 = 0x40001000" "canonical_form 0x10 = 0x10"
    using canonical_low[of "0x40001000"] canonical_low[of "0x10"] by (simp_all add: canonical_def)
  have "translate two_roots 0x02001000 0x40001000 = None" "translate two_roots 0x02001000 0x10 = Some 3"
    using e by (simp_all add: translate_def indices_def pml4_index_def pdpt_index_def pd_index_def pt_index_def)
  then have "mmu two_roots 0x02001000 0x40001000 = None" "mmu two_roots 0x02001000 0x10 = Some (0x10, True, False)"
    using mmu_translate[OF two_roots_inv o canonical_low] by (simp_all add: page_grant_def entry_address_def paging_address_mask_def)
  then show ?thesis using mapping_checks_exact[OF two_roots_inv o, of "0x40001000" "0x02100000" True]
      mapping_checks_exact[OF two_roots_inv o, of "0x10" "0" False] unfolding c by auto
qed

theorem user_range_mapped_exact_witness:
  "paging_user_range_mapped 0x02001000 0xFFFFFFFFFFFFFFFF 2 two_roots = Ret False two_roots"
proof -
  have o: "two_owners 0x02001000 = Some (0x02001000, [])" by (simp add: two_owners_def)
  show ?thesis using user_range_mapped_exact[OF two_roots_inv o, of "0xFFFFFFFFFFFFFFFF" 2] by auto
qed

lemma blank_paging_end: "highest_physical_end blank_paging = 0x02002000"
proof -
  have d: "memmap_get_descriptor i blank_paging = memmap_get_descriptor i boot_state" for i
    by (simp add: blank_paging_def empty_heap_def four_pages_def two_pages_def palloc_free_def Let_def heap_state.defs
        palloc_state.defs memmap_get_descriptor_def store64_def)
  have c: "memmap_get_descriptor_count blank_paging = 1"
    by (simp add: blank_paging_def empty_heap_def four_pages_def two_pages_def palloc_free_def Let_def heap_state.defs
        palloc_state.defs memmap_get_descriptor_count_def store64_def boot_state_def)
  show ?thesis
    by (simp add: highest_physical_end_def c highest_end_step_def d boot_descriptor paging_max_address_def paging_page_size_def)
qed

theorem identity_map_at_boot_witness:
  "\<exists>t. paging_initialize (pool_state 2100) = Ret () t \<and> mmu t (cr3 t) 0x1234 = Some (0x1234, True, False)"
proof -
  obtain K ps where K: "rev (pool_pages 2100) = K # ps" "length ps = 2099"
    by (cases "rev (pool_pages 2100)") (auto simp: pool_pages_def region_pages_def dest: arg_cong[of _ _ length])
  have i: "palloc_inv (pool_state 2100) (K # ps)" using pool_inv(1)[of 2100] K(1) by simp
  have p: "\<forall>p \<in> set (K # ps). pointer_ok p"
    using pool_pointer[of 2100] unfolding K(1)[symmetric] set_rev by simp
  have "highest_physical_end blank_paging = 0x02002000" by (rule blank_paging_end)
  then have h: "highest_physical_end (pool_state 2100) = 0x02002000" using pages_frame_memmap[OF pool_inv(2)[of 2100]] by simp
  have l: "2056 \<le> length ps" using K(2) by simp
  from identity_map_at_boot[OF i p l] show ?thesis using h by auto
qed

lemma two_roots_zero: "translate two_roots 0x02000000 0 \<noteq> None" "translate two_roots 0x02001000 0 \<noteq> None"
  using two_roots_entries[of "0x02000000" 0] two_roots_entries[of "0x02001000" 0] two_roots_entries[of "0x02002000" 0]
    two_roots_entries[of "0x02003000" 0] two_roots_entries[of "0x02004000" 0] two_roots_present
  by (auto simp: translate_def indices_def pml4_index_def pdpt_index_def pd_index_def pt_index_def)

lemma two_roots_rep: "paging_rep 0x40000000 two_roots (space_tables two_owners) (set (pool_pages 16))"
proof -
  have t: "translate two_roots r 0 \<noteq> None" if "r = 0x02000000 \<or> r = 0x02001000" for r using that two_roots_zero by blast
  have "two_owners r = Some (r, []) \<longrightarrow> r = 0x02000000 \<or> r = 0x02001000" for r by (auto simp: two_owners_def split: if_splits)
  then have "\<exists>v. pml4_index v = pml4_index 0x40000000 \<and> translate two_roots r v \<noteq> None" if "two_owners r = Some (r, [])" for r
    using t that by (intro exI[of _ 0]) (auto simp: pml4_index_def)
  moreover have "\<exists>q. indices 0x40000000 = p @ q" if "two_owners x = Some (r, p)" "r \<noteq> 0x02000000" for x r p
    using that by (auto simp: two_owners_def split: if_splits)
  ultimately show ?thesis unfolding paging_rep_def two_roots_kernel using two_roots_inv set_rev by metis
qed

theorem user_space_lifetime_witness:
  "\<exists>U s1 s2. paging_create_user_address_space two_roots = (U, s1)
    \<and> map_each paging_map_user_page U [(0x40001000, 0x02100000)] s1 = Ret () s2
    \<and> translate s2 U 0x40001234 = Some (user_entry 0x02100000)
    \<and> paging_rep 0x40000000 (paging_release_user_address_space U
        (Some \<lparr>trampoline_base = 0x40000000, image_base = 0x40001000, stack_top = 0x40200000\<rparr>) s2)
        (space_tables two_owners) (set (pool_pages 16))"
proof -
  let ?l = "\<lparr>trampoline_base = 0x40000000, image_base = 0x40001000, stack_top = 0x40200000\<rparr>"
  have rep: "paging_rep (trampoline_base ?l) two_roots (space_tables two_owners) (set (pool_pages 16))" using two_roots_rep by simp
  have len: "length (rev (pool_pages 16)) = 16" by (simp add: pool_pages_def region_pages_def)
  then obtain n ps where ps: "rev (pool_pages 16) = n # ps" "6 \<le> length ps" by (cases "rev (pool_pages 16)") auto
  have F: "set (pool_pages 16) \<noteq> {}" using ps(1) by (metis list.distinct(1) set_empty set_rev)
  from create_user_address_space_spec[OF two_roots_inv two_roots_kernel] ps(1) obtain s1 where c:
    "paging_create_user_address_space two_roots = (n, s1)" "table_inv s1 0x02000000 (two_owners(n \<mapsto> (n, []))) ps"
    "\<forall>v. translate s1 n v = translate two_roots 0x02000000 v" by auto
  from user_spaces.create_law[OF rep F] c(1) have k: "space_tables two_owners n = None" "paging_kernel_pml4 s1 = 0x02000000"
    by (simp_all add: two_roots_kernel)
  have "space_tables two_owners 0x02000000 \<noteq> None" by (simp add: space_tables_def two_owners_def)
  then have nK: "n \<noteq> 0x02000000" using k(1) by metis
  have "translate s1 n 0 \<noteq> None" using c(3) two_roots_zero by simp
  from translate_top[OF this] have top: "is_present (entry_at s1 n (pml4_index 0x40001000))" unfolding window_index by (simp add: pml4_index_def)
  have o: "(two_owners(n \<mapsto> (n, []))) n = Some (n, [])" by simp
  have pa: "unat (0x02100000 :: addr) < 4503599627370496" by simp
  from map_user_page_ok[OF c(2) o _ k(2) top ps(2) pa] nK obtain s2 where
    m: "paging_map_user_page n 0x40001000 0x02100000 s1 = Ret () s2" by auto
  then have e: "map_each paging_map_user_page n [(0x40001000, 0x02100000)] s1 = Ret () s2" by simp
  have w: "\<forall>m \<in> set [(0x40001000, 0x02100000 :: addr)]. in_window (trampoline_base ?l) (fst m)"
    by (simp add: in_window_def pml4_index_def pdpt_index_def pd_index_def)
  have sp: "same_page 0x40001234 0x40001000" by (simp add: same_page_def)
  from user_space_lifetime[OF rep F c(1) w e] sp c(1) e show ?thesis by auto
qed

end
