(* ===== verification/Elf.thy ===== *)
theory Elf
  imports PagingSpec
begin

text \<open>
  \<open>src/kernel/elf.c\<close>: the loader of user images. The image is an array of bytes in the kernel's own memory; its
  headers are read where the code reads them, from the memory of that moment. \<open>validate_header\<close>,
  \<open>validate_program_headers\<close>, \<open>compute_load_span\<close> and \<open>entry_in_load_segment\<close> decide whether an image is
  acceptable, \<open>claim_window_pages\<close> takes the physical window from the page allocator, \<open>load_segment\<close> fills it, and
  \<open>elf_load_user_image\<close> maps it into the address space.
\<close>

section \<open>File format\<close>

record elf64_header =
  ident :: "u8 list"
  eh_type :: u16
  eh_machine :: u16
  eh_version :: u32
  eh_entry :: u64
  eh_phoff :: u64
  eh_shoff :: u64
  eh_flags :: u32
  eh_ehsize :: u16
  eh_phentsize :: u16
  eh_phnum :: u16
  eh_shentsize :: u16
  eh_shnum :: u16
  eh_shstrndx :: u16

record elf64_program_header =
  ph_type :: u32
  ph_flags :: u32
  ph_offset :: u64
  ph_vaddr :: u64
  ph_paddr :: u64
  ph_filesz :: u64
  ph_memsz :: u64
  ph_align :: u64

definition elf_magic :: "u8 list" where "elf_magic = [0x7F, 0x45, 0x4C, 0x46]"
definition elf_class64 :: u8 where "elf_class64 = 2"
definition elf_little_endian :: u8 where "elf_little_endian = 1"
definition elf_version_current :: nat where "elf_version_current = 1"
definition elf_type_exec :: u16 where "elf_type_exec = 2"
definition elf_machine_x86_64 :: u16 where "elf_machine_x86_64 = 62"
definition elf_phdr_type_load :: u32 where "elf_phdr_type_load = 1"
definition elf_user_load_base :: addr where "elf_user_load_base = 0x02100000"
definition elf_user_load_size :: u64 where "elf_user_load_size = 0x00100000"
definition sizeof_elf64_header :: u64 where "sizeof_elf64_header = 64"
definition sizeof_elf64_program_header :: u64 where "sizeof_elf64_program_header = 56"

text \<open>The two structures as the compiler lays them out, read at address \<open>a\<close>.\<close>

definition elf64_header_at :: "memory \<Rightarrow> addr \<Rightarrow> elf64_header" where
  "elf64_header_at m a = \<lparr>ident = map (\<lambda>i. m (a + of_nat i)) [0..<16],
     eh_type = ucast (rd_le m (a + 16) 2), eh_machine = ucast (rd_le m (a + 18) 2), eh_version = ucast (rd_le m (a + 20) 4),
     eh_entry = rd64 m (a + 24), eh_phoff = rd64 m (a + 32), eh_shoff = rd64 m (a + 40), eh_flags = ucast (rd_le m (a + 48) 4),
     eh_ehsize = ucast (rd_le m (a + 52) 2), eh_phentsize = ucast (rd_le m (a + 54) 2), eh_phnum = ucast (rd_le m (a + 56) 2),
     eh_shentsize = ucast (rd_le m (a + 58) 2), eh_shnum = ucast (rd_le m (a + 60) 2), eh_shstrndx = ucast (rd_le m (a + 62) 2)\<rparr>"

definition elf64_program_header_at :: "memory \<Rightarrow> addr \<Rightarrow> elf64_program_header" where
  "elf64_program_header_at m a = \<lparr>ph_type = ucast (rd_le m a 4), ph_flags = ucast (rd_le m (a + 4) 4),
     ph_offset = rd64 m (a + 8), ph_vaddr = rd64 m (a + 16), ph_paddr = rd64 m (a + 24), ph_filesz = rd64 m (a + 32),
     ph_memsz = rd64 m (a + 40), ph_align = rd64 m (a + 48)\<rparr>"

text \<open>\<open>phdrs[index]\<close>.\<close>

definition phdr_at :: "memory \<Rightarrow> addr \<Rightarrow> nat \<Rightarrow> elf64_program_header" where
  "phdr_at m phdrs index = elf64_program_header_at m (phdrs + of_nat index * sizeof_elf64_program_header)"

section \<open>Validation\<close>

definition memory_copy :: "addr \<Rightarrow> addr \<Rightarrow> u64 \<Rightarrow> 'a machine_scheme \<Rightarrow> 'a machine_scheme" where
  "memory_copy dst src count s =
     fold (\<lambda>index s. s\<lparr>mem := (mem s)(dst + of_nat index := mem s (src + of_nat index))\<rparr>) [0..<unat count] s"

definition memory_zero :: "addr \<Rightarrow> u64 \<Rightarrow> 'a machine_scheme \<Rightarrow> 'a machine_scheme" where
  "memory_zero dst count s = fold (\<lambda>index s. s\<lparr>mem := (mem s)(dst + of_nat index := 0)\<rparr>) [0..<unat count] s"

definition align_down :: "addr \<Rightarrow> addr" where
  "align_down v = v AND NOT 4095"

definition elf_align_up :: "addr \<Rightarrow> addr" where
  "elf_align_up v = (v + 4095) AND NOT 4095"

definition range_fits :: "u64 \<Rightarrow> u64 \<Rightarrow> u64 \<Rightarrow> bool" where
  "range_fits sz offset count = (if sz < offset then False else if sz - offset < count then False else True)"

definition validate_header :: "elf64_header \<Rightarrow> u64 \<Rightarrow> bool" where
  "validate_header header image_size =
    (if image_size < sizeof_elf64_header then False
     else if ident header ! 0 \<noteq> elf_magic ! 0 \<or> ident header ! 1 \<noteq> elf_magic ! 1
        \<or> ident header ! 2 \<noteq> elf_magic ! 2 \<or> ident header ! 3 \<noteq> elf_magic ! 3 then False
     else if ident header ! 4 \<noteq> elf_class64 \<or> ident header ! 5 \<noteq> elf_little_endian
        \<or> unat (ident header ! 6) \<noteq> elf_version_current then False
     else if eh_type header \<noteq> elf_type_exec \<or> eh_machine header \<noteq> elf_machine_x86_64
        \<or> unat (eh_version header) \<noteq> elf_version_current then False
     else if ucast (eh_ehsize header) \<noteq> sizeof_elf64_header \<or> ucast (eh_phentsize header) \<noteq> sizeof_elf64_program_header then False
     else range_fits image_size (eh_phoff header) (ucast (eh_phnum header) * ucast (eh_phentsize header)))"

definition validate_load_segment :: "u64 \<Rightarrow> elf64_program_header \<Rightarrow> bool" where
  "validate_load_segment image_size phdr =
    (if ph_type phdr \<noteq> elf_phdr_type_load then True
     else if ph_memsz phdr = 0 \<or> ph_memsz phdr < ph_filesz phdr then False
     else if \<not> range_fits image_size (ph_offset phdr) (ph_filesz phdr) then False
     else if ph_vaddr phdr + ph_memsz phdr < ph_vaddr phdr then False
     else if 1 < ph_align phdr then
       (if ph_align phdr AND (ph_align phdr - 1) \<noteq> 0 then False
        else if ph_vaddr phdr AND (ph_align phdr - 1) \<noteq> ph_offset phdr AND (ph_align phdr - 1) then False
        else True)
     else True)"

text \<open>The loops over the program headers take the list of the headers they visit.\<close>

definition phdr_list :: "memory \<Rightarrow> addr \<Rightarrow> u16 \<Rightarrow> elf64_program_header list" where
  "phdr_list m phdrs phnum = map (phdr_at m phdrs) [0..<unat phnum]"

fun count_load_segments :: "u64 \<Rightarrow> elf64_program_header list \<Rightarrow> nat \<Rightarrow> nat option" where
  "count_load_segments image_size [] load_count = Some load_count"
| "count_load_segments image_size (phdr # phdrs) load_count =
     (if \<not> validate_load_segment image_size phdr then None
      else count_load_segments image_size phdrs
             (if ph_type phdr = elf_phdr_type_load then load_count + 1 else load_count))"

definition validate_program_headers :: "elf64_program_header list \<Rightarrow> u16 \<Rightarrow> u64 \<Rightarrow> bool" where
  "validate_program_headers phdrs phnum image_size =
    (if phnum = 0 then False
     else case count_load_segments image_size phdrs 0 of None \<Rightarrow> False | Some load_count \<Rightarrow> load_count \<noteq> 0)"

definition load_span_step :: "elf64_program_header \<Rightarrow> u64 \<times> u64 \<times> bool \<Rightarrow> u64 \<times> u64 \<times> bool" where
  "load_span_step phdr = (\<lambda>(lowest, highest, found).
    if ph_type phdr \<noteq> elf_phdr_type_load then (lowest, highest, found)
    else
      let begin = ph_vaddr phdr;
          end' = ph_vaddr phdr + ph_memsz phdr
      in (if \<not> found \<or> begin < lowest then begin else lowest,
          if \<not> found \<or> highest < end' then end' else highest, True))"

text \<open>\<open>None\<close>: the function returns 0.\<close>

definition compute_load_span :: "elf64_program_header list \<Rightarrow> (addr \<times> addr) option" where
  "compute_load_span phdrs =
    (let (lowest, highest, found) = fold load_span_step phdrs (0, 0, False)
     in if \<not> found then None
        else let span_begin = align_down lowest; span_end = elf_align_up highest
             in if span_begin < span_end then Some (span_begin, span_end) else None)"

fun entry_in_load_segment :: "elf64_program_header list \<Rightarrow> addr \<Rightarrow> bool" where
  "entry_in_load_segment [] entry = False"
| "entry_in_load_segment (phdr # phdrs) entry =
    (if ph_type phdr \<noteq> elf_phdr_type_load then entry_in_load_segment phdrs entry
     else if ph_vaddr phdr \<le> entry \<and> entry < ph_vaddr phdr + ph_memsz phdr then True
     else entry_in_load_segment phdrs entry)"

section \<open>The load window\<close>

definition page_in_range :: "addr \<Rightarrow> addr \<Rightarrow> addr \<Rightarrow> bool" where
  "page_in_range page begin end' \<longleftrightarrow> begin \<noteq> 0 \<and> begin \<le> page \<and> page < end'"

text \<open>Freeing the pages from \<open>begin\<close> to \<open>end'\<close> that are not in the reusable range.\<close>

definition free_pages_loop :: "addr \<Rightarrow> addr \<Rightarrow> addr \<Rightarrow> addr \<Rightarrow> 'a palloc_state_scheme \<Rightarrow> (addr, 'a palloc_state_scheme) outcome" where
  "free_pages_loop begin end' reusable_begin reusable_end s =
     c_while (\<lambda>page s. page < end')
       (\<lambda>page s. Ret (page + 4096) (if page_in_range page reusable_begin reusable_end then s else palloc_free page s))
       begin s"

definition claim_page_body :: "addr \<Rightarrow> addr \<Rightarrow> addr \<times> bool \<Rightarrow> 'a palloc_state_scheme \<Rightarrow> (addr \<times> bool, 'a palloc_state_scheme) outcome" where
  "claim_page_body reusable_begin reusable_end = (\<lambda>(page, ok) s.
     if page_in_range page reusable_begin reusable_end then Ret (page + 4096, True) s
     else chain (palloc_take page s) (\<lambda>taken s. if taken then Ret (page + 4096, True) s else Ret (page, False) s))"

definition claim_window_pages :: "addr \<Rightarrow> addr \<Rightarrow> addr \<Rightarrow> addr \<Rightarrow> 'a palloc_state_scheme \<Rightarrow> (bool, 'a palloc_state_scheme) outcome" where
  "claim_window_pages load_begin load_end reusable_begin reusable_end s =
     chain (c_while (\<lambda>(page, ok) s. ok \<and> page < load_end) (claim_page_body reusable_begin reusable_end) (load_begin, True) s)
       (\<lambda>(page, ok) s. if ok then Ret True s
          else chain (free_pages_loop load_begin page reusable_begin reusable_end s) (\<lambda>_ s. Ret False s))"

record loaded_user_image =
  load_begin :: addr
  load_end :: addr
  load_physical_begin :: addr
  load_physical_end :: addr
  reusable_physical_begin :: addr
  reusable_physical_end :: addr
  loaded_entry :: addr
  loaded_stack_page :: addr
  loaded_stack_top :: addr

definition cleared_image :: loaded_user_image where
  "cleared_image = \<lparr>load_begin = 0, load_end = 0, load_physical_begin = 0, load_physical_end = 0,
     reusable_physical_begin = 0, reusable_physical_end = 0, loaded_entry = 0, loaded_stack_page = 0, loaded_stack_top = 0\<rparr>"

text \<open>A pointer to the structure is an option, \<open>None\<close> the null pointer; the new contents are returned.\<close>

definition clear_loaded_user_image :: "loaded_user_image option \<Rightarrow> loaded_user_image option" where
  "clear_loaded_user_image loaded_image = (case loaded_image of None \<Rightarrow> None | Some _ \<Rightarrow> Some cleared_image)"

definition elf_release_user_image ::
  "loaded_user_image option \<Rightarrow> 'a palloc_state_scheme \<Rightarrow> (loaded_user_image option, 'a palloc_state_scheme) outcome" where
  "elf_release_user_image loaded_image s =
    (case loaded_image of None \<Rightarrow> Ret None s
     | Some img \<Rightarrow>
         let s = (if loaded_stack_page img \<noteq> 0 then palloc_free (loaded_stack_page img) s else s)
         in chain (free_pages_loop (load_physical_begin img) (load_physical_end img)
                     (reusable_physical_begin img) (reusable_physical_end img) s)
              (\<lambda>_ s. Ret (clear_loaded_user_image (Some img)) s))"

definition clear_window :: "addr \<Rightarrow> addr \<Rightarrow> 'a machine_scheme \<Rightarrow> (addr, 'a machine_scheme) outcome" where
  "clear_window begin end' s =
     c_while (\<lambda>page s. page < end') (\<lambda>page s. Ret (page + 4096) (memory_zero page 4096 s)) begin s"

definition load_segment :: "addr \<Rightarrow> elf64_program_header \<Rightarrow> addr \<Rightarrow> addr \<Rightarrow> 'a machine_scheme \<Rightarrow> bool \<times> 'a machine_scheme" where
  "load_segment image_ptr phdr image_vaddr_begin begin s =
    (if ph_type phdr \<noteq> elf_phdr_type_load then (True, s)
     else if ph_vaddr phdr < image_vaddr_begin then (False, s)
     else
       let dst = begin + (ph_vaddr phdr - image_vaddr_begin);
           s = memory_copy dst (image_ptr + ph_offset phdr) (ph_filesz phdr) s;
           s = memory_zero (dst + ph_filesz phdr) (ph_memsz phdr - ph_filesz phdr) s
       in (True, s))"

section \<open>Loading an image\<close>

text \<open>The two loops of \<open>elf_load_user_image\<close>; the flag is false once they have left for \<open>fail\<close>.\<close>

definition load_segments_body :: "addr \<Rightarrow> addr \<Rightarrow> addr \<Rightarrow> addr \<Rightarrow> u16 \<times> bool \<Rightarrow> 'a machine_scheme \<Rightarrow> (u16 \<times> bool, 'a machine_scheme) outcome" where
  "load_segments_body image_ptr phdrs image_vaddr_begin begin = (\<lambda>(index, ok) s.
     let (loaded, s) = load_segment image_ptr (phdr_at (mem s) phdrs (unat index)) image_vaddr_begin begin s
     in if loaded then Ret (index + 1, True) s else Ret (index, False) s)"

definition map_image_body :: "addr \<Rightarrow> addr \<Rightarrow> addr \<Rightarrow> u16 \<times> bool \<Rightarrow> 'a paging_state_scheme \<Rightarrow> (u16 \<times> bool, 'a paging_state_scheme) outcome" where
  "map_image_body address_space base begin = (\<lambda>(index, ok) s.
     let virtual = base + ucast index * 4096; physical = begin + ucast index * 4096
     in chain (paging_map_user_page address_space virtual physical s)
          (\<lambda>_ s. if paging_mapping_matches address_space virtual physical True s then Ret (index + 1, True) s else Ret (index, False) s))"

text \<open>\<open>fail:\<close>\<close>

definition elf_load_fail :: "loaded_user_image option \<Rightarrow> 'a palloc_state_scheme \<Rightarrow> (bool \<times> loaded_user_image option, 'a palloc_state_scheme) outcome" where
  "elf_load_fail loaded_image s = chain (elf_release_user_image loaded_image s) (\<lambda>img s. Ret (False, img) s)"

text \<open>The stack page and the result, after the window has been mapped.\<close>

definition elf_finish_load ::
  "elf64_header \<Rightarrow> user_virtual_layout \<Rightarrow> addr \<Rightarrow> addr \<Rightarrow> addr \<Rightarrow> loaded_user_image \<Rightarrow> 'a paging_state_scheme \<Rightarrow>
    (bool \<times> loaded_user_image option, 'a paging_state_scheme) outcome" where
  "elf_finish_load header layout address_space image_vaddr_begin user_image_end img s =
    (let (user_stack_page, s) = palloc_alloc s
     in if user_stack_page = 0 then elf_load_fail (Some img) s
     else
       let img = img\<lparr>loaded_stack_page := user_stack_page, loaded_stack_top := stack_top layout\<rparr>
       in chain (paging_map_user_page address_space (stack_top layout - 4096) user_stack_page s) (\<lambda>_ s.
          if \<not> paging_mapping_matches address_space (stack_top layout - 4096) user_stack_page True s
          then elf_load_fail (Some img) s
          else Ret (True, Some (img\<lparr>load_begin := image_base layout, load_end := user_image_end,
                 loaded_entry := image_base layout + (eh_entry header - image_vaddr_begin)\<rparr>)) s))"

definition elf_load_user_image ::
  "addr \<Rightarrow> u64 \<Rightarrow> user_virtual_layout \<Rightarrow> addr \<Rightarrow> addr \<Rightarrow> addr \<Rightarrow> loaded_user_image option \<Rightarrow> 'a paging_state_scheme \<Rightarrow>
    (bool \<times> loaded_user_image option, 'a paging_state_scheme) outcome" where
  "elf_load_user_image image_ptr image_size layout address_space reusable_begin reusable_end loaded_image s =
    (let loaded_image = clear_loaded_user_image loaded_image;
         header = elf64_header_at (mem s) image_ptr
     in if \<not> validate_header header image_size then Ret (False, loaded_image) s
     else
       let phdrs = image_ptr + eh_phoff header;
           headers = phdr_list (mem s) phdrs (eh_phnum header)
       in if \<not> validate_program_headers headers (eh_phnum header) image_size then Ret (False, loaded_image) s
     else case compute_load_span headers of None \<Rightarrow> Ret (False, loaded_image) s
     | Some (image_vaddr_begin, image_vaddr_end) \<Rightarrow>
       if \<not> entry_in_load_segment headers (eh_entry header) then Ret (False, loaded_image) s
     else if image_base layout = 0 \<or> stack_top layout = 0 \<or> stack_top layout \<le> 4096 then Ret (False, loaded_image) s
     else if address_space = 0 then Ret (False, loaded_image) s
     else case loaded_image of None \<Rightarrow> Ret (False, None) s
     | Some img \<Rightarrow>
       let image_size_aligned = image_vaddr_end - image_vaddr_begin
       in if elf_user_load_size < image_size_aligned then Ret (False, loaded_image) s
     else
       let user_image_end = image_base layout + image_size_aligned
       in if user_image_end < image_base layout \<or> stack_top layout - 4096 < user_image_end then Ret (False, loaded_image) s
     else
       let first = elf_user_load_base; end' = first + image_size_aligned
       in chain (claim_window_pages first end' reusable_begin reusable_end s) (\<lambda>claimed s.
          if \<not> claimed then Ret (False, loaded_image) s
          else
            let img = img\<lparr>load_physical_begin := first, load_physical_end := end',
                  reusable_physical_begin := reusable_begin, reusable_physical_end := reusable_end\<rparr>
            in chain (clear_window first end' s) (\<lambda>_ s.
               chain (c_while (\<lambda>(index, ok) s. ok \<and> index < eh_phnum (elf64_header_at (mem s) image_ptr))
                        (load_segments_body image_ptr phdrs image_vaddr_begin first) (0, True) s) (\<lambda>(_, ok) s.
               if \<not> ok then elf_load_fail (Some img) s
               else
                 chain (c_while (\<lambda>(index, ok) s. ok \<and> index < ucast ((end' - first) div 4096))
                          (map_image_body address_space (image_base layout) first) (0, True) s) (\<lambda>(_, ok) s.
                 if \<not> ok then elf_load_fail (Some img) s
                 else elf_finish_load (elf64_header_at (mem s) image_ptr) layout address_space image_vaddr_begin user_image_end img s)))))"

end
