(* ===== verification/Buffers.thy ===== *)
theory Buffers
  imports Elf
begin

text \<open>
  The pointers a system call or a self test hands to the file layer, and what happens when the kernel follows them.
  A user pointer goes through the active page tables (\<open>cr3\<close>); where nothing is mapped the processor enters
  \<open>arch_isr_page_fault\<close>, which prints with \<open>kernel_trap_error\<close> (\<open>src/kernel/core.c\<close>) and halts. Kernel
  objects proper are identity mapped and need no translation.
\<close>

section \<open>Traps\<close>

definition kernel_trap :: "u32 \<Rightarrow> 'a machine_scheme \<Rightarrow> 'a machine_scheme" where
  "kernel_trap vector s =
    write_text [CHR 0x0D, CHR 0x0A] (write_decimal_u32 vector (write_text ''trap '' s))"

text \<open>\<open>cr2\<close> is what \<open>arch_read_cr2\<close> returns, the address that faulted.\<close>

definition kernel_trap_error :: "u32 \<Rightarrow> u64 \<Rightarrow> u64 \<Rightarrow> 'a machine_scheme \<Rightarrow> 'a machine_scheme" where
  "kernel_trap_error vector error_code cr2 s =
    (let s = write_text ''trap '' s;
         s = write_decimal_u32 vector s;
         s = write_text '' ec '' s;
         s = write_decimal_u64 error_code s;
         s = (if vector = 14 then write_hex_u64 cr2 (write_text '' cr2 '' s) else s)
     in write_text [CHR 0x0D, CHR 0x0A] s)"

text \<open>\<open>arch_isr_page_fault\<close>, for an access of the kernel to a page that is not present.\<close>

definition page_fault :: "bool \<Rightarrow> addr \<Rightarrow> 'a machine_scheme \<Rightarrow> ('v, 'a machine_scheme) outcome" where
  "page_fault writing va s = arch_halt_forever (kernel_trap_error 14 (if writing then 2 else 0) va s)"

section \<open>Access through the page tables\<close>

definition physical_at :: "u64 \<Rightarrow> addr \<Rightarrow> addr" where
  "physical_at entry va = entry_address entry OR (va AND 4095)"

definition load8 :: "addr \<Rightarrow> 'a machine_scheme \<Rightarrow> (u8, 'a machine_scheme) outcome" where
  "load8 va s = (case translate s (cr3 s) va of
     None \<Rightarrow> page_fault False va s
   | Some entry \<Rightarrow> Ret (mem s (physical_at entry va)) s)"

definition store8 :: "addr \<Rightarrow> u8 \<Rightarrow> 'a machine_scheme \<Rightarrow> (unit, 'a machine_scheme) outcome" where
  "store8 va b s = (case translate s (cr3 s) va of
     None \<Rightarrow> page_fault True va s
   | Some entry \<Rightarrow> Ret () (s\<lparr>mem := (mem s)(physical_at entry va := b)\<rparr>))"

text \<open>
  \<open>void *buffer\<close>: a pointer, the local variable \<open>ch\<close> of a self test, or a string literal of the kernel.
\<close>

datatype buffer = Pointer addr | Local_ch | Literal string

record io_state = paging_state +
  local_ch :: u8

definition buffer_null :: "buffer \<Rightarrow> bool" where
  "buffer_null buffer \<longleftrightarrow> buffer = Pointer 0"

definition byte_to_char :: "u8 \<Rightarrow> char" where
  "byte_to_char b = char_of (unat b)"

definition char_to_byte :: "char \<Rightarrow> u8" where
  "char_to_byte c = of_nat (of_char c)"

definition buffer_store :: "buffer \<Rightarrow> u64 \<Rightarrow> u8 \<Rightarrow> 'a io_state_scheme \<Rightarrow> (unit, 'a io_state_scheme) outcome" where
  "buffer_store buffer index b s = (case buffer of
     Pointer p \<Rightarrow> store8 (p + index) b s
   | Local_ch \<Rightarrow> Ret () (s\<lparr>local_ch := b\<rparr>)
   | Literal text \<Rightarrow> arch_halt_forever s)"

text \<open>A literal ends in a NUL; the code reads nothing behind it.\<close>

definition buffer_load :: "buffer \<Rightarrow> u64 \<Rightarrow> 'a io_state_scheme \<Rightarrow> (u8, 'a io_state_scheme) outcome" where
  "buffer_load buffer index s = (case buffer of
     Pointer p \<Rightarrow> load8 (p + index) s
   | Local_ch \<Rightarrow> Ret (local_ch s) s
   | Literal text \<Rightarrow> Ret (if unat index < length text then char_to_byte (text ! unat index) else 0) s)"

text \<open>\<open>serial_write\<close> on such a buffer: one byte after the other.\<close>

definition serial_write_body :: "buffer \<Rightarrow> u64 \<Rightarrow> 'a io_state_scheme \<Rightarrow> (u64, 'a io_state_scheme) outcome" where
  "serial_write_body buffer i s =
     chain (buffer_load buffer i s) (\<lambda>b s. Ret (i + 1) (serial_write [byte_to_char b] s))"

definition serial_write_buffer :: "buffer \<Rightarrow> u64 \<Rightarrow> 'a io_state_scheme \<Rightarrow> (unit, 'a io_state_scheme) outcome" where
  "serial_write_buffer buffer len s =
     chain (c_while (\<lambda>i s. i < len) (serial_write_body buffer) 0 s) (\<lambda>_ s. Ret () s)"

end
