(* ===== verification/Vfs.thy ===== *)
theory Vfs
  imports Buffers
begin

text \<open>
  \<open>src/kernel/vfs.c\<close>: nodes, open files, and the fixed name space. Nodes and files that come from the heap are
  typed stores keyed by the address \<open>kzalloc\<close> returned; the static objects of the name space have names of their
  own. The operation tables of \<open>vfs.c\<close> and of \<open>fd.c\<close> are values, and a call through a table is a dispatch on them.
\<close>

section \<open>Objects\<close>

type_synonym i32 = "32 word"

datatype vfs_node_kind = VFS_NODE_NONE | VFS_NODE_PLACEHOLDER | VFS_NODE_CONSOLE | VFS_NODE_STATIC_TEXT
  | VFS_NODE_EXECUTABLE | VFS_NODE_DIRECTORY

definition VFS_ACCESS_READ :: u32 where "VFS_ACCESS_READ = 1"
definition VFS_ACCESS_WRITE :: u32 where "VFS_ACCESS_WRITE = 2"

text \<open>\<open>struct vfs_node *\<close> and \<open>void *data\<close>.\<close>

datatype node_ref = NullNode | RootNode | DevNode | EtcNode | BinNode | ConsoleInputNode | ConsoleOutputNode
  | BannerNode | ExecutableNode nat | HeapNode addr

datatype data_ref = NullData | ConsoleInputData | BannerData | ExecutableData nat | HeapData addr

text \<open>The functions the tables point to.\<close>

datatype release_op = Vfs_static_release | Vfs_self_test_release | Fd_console_output_release
  | Fd_console_input_release | Fd_placeholder_release

datatype read_op = Vfs_console_input_read | Vfs_static_text_read | Vfs_self_test_read | Fd_console_input_read

datatype write_op = Vfs_console_output_write | Vfs_self_test_write | Fd_console_output_write | Fd_placeholder_write

record vfs_node_ops =
  op_release :: "release_op option"
  op_read :: "read_op option"
  op_write :: "write_op option"

record vfs_node =
  node_kind :: vfs_node_kind
  node_refs :: u32
  node_ops :: "vfs_node_ops option"
  node_data :: data_ref

record vfs_file =
  file_refs :: u32
  file_node :: node_ref
  file_offset :: u64
  file_access :: u32

definition sizeof_vfs_file :: u64 where "sizeof_vfs_file = 32"
definition sizeof_vfs_node :: u64 where "sizeof_vfs_node = 24"

record vfs_self_test_data =
  self_test_released :: u32
  self_test_byte :: u8
  self_test_used :: u32

record vfs_console_input_data =
  console_input_byte :: u8
  console_input_used :: u32

record vfs_static_text_data =
  static_text :: string
  static_length :: u64

record vfs_executable_data =
  executable_image :: addr
  executable_size :: u64

record fd_console_input =
  fd_input_released :: u32
  fd_input_byte :: u8
  fd_input_used :: u32

text \<open>\<open>uint32_t *released\<close> points to one of the two counters on the stack of \<open>fd_self_test\<close>.\<close>

datatype released_ref = Placeholder_a | Placeholder_b

text \<open>An entry of a directory; \<open>None\<close> as name ends the array.\<close>

datatype children_ref = NoChildren | DevEntries | EtcEntries | BinEntries

record vfs_namespace_entry =
  entry_name :: "string option"
  entry_node :: node_ref
  entry_children :: children_ref

record vfs_state = io_state +
  nodes :: "node_ref \<Rightarrow> vfs_node"
  files :: "addr \<Rightarrow> vfs_file"
  self_test_data :: "addr \<Rightarrow> vfs_self_test_data"
  fd_inputs :: "addr \<Rightarrow> fd_console_input"
  fd_outputs_released :: "addr \<Rightarrow> u32"
  fd_placeholder_of :: "addr \<Rightarrow> released_ref"
  placeholder_released :: "released_ref \<Rightarrow> u32"
  namespace_console_input_data :: vfs_console_input_data
  namespace_banner_data :: vfs_static_text_data
  namespace_executable_data :: "nat \<Rightarrow> vfs_executable_data"
  namespace_bin_entries :: "vfs_namespace_entry list"
  namespace_ready :: bool

text \<open>What the build links in: \<open>embedded_user_program_registry\<close>, the first user program, the entry points of the
  assembly and of the tasks, and the compile-time switches of \<open>core.c\<close> and \<open>vfs.c\<close>.\<close>

record embedded_user_program =
  program_name :: string
  program_image :: addr
  program_size :: u64

record build =
  embedded_user_program_registry :: "embedded_user_program list"
  embedded_first_user_program_image :: addr
  embedded_first_user_program_size :: u64
  arch_user_program_entry :: addr
  user_init_main :: addr
  task_idle :: addr
  task_worker :: addr
  bad_exec_image :: addr
  bad_user_image :: addr
  USER_INIT_ENABLED :: bool
  USER_INIT_USE_ELF :: bool
  USER_TEST_BAD_ELF :: bool
  USER_TEST_BAD_BOOTSTRAP :: bool
  USER_TEST_BAD_EXEC_IMAGE :: bool
  USER_TEST_EXEC_TRANSFER_FAIL :: bool

section \<open>Strings\<close>

text \<open>A C string is its characters; a NUL or the end of the list ends it.\<close>

definition at_end :: "string \<Rightarrow> bool" where
  "at_end text \<longleftrightarrow> (case text of [] \<Rightarrow> True | c # _ \<Rightarrow> c = CHR 0x00)"

fun string_equal :: "string \<Rightarrow> string \<Rightarrow> bool" where
  "string_equal (a # left) (b # right) =
    (if a \<noteq> CHR 0x00 \<and> b \<noteq> CHR 0x00 then (if a \<noteq> b then False else string_equal left right)
     else a = CHR 0x00 \<and> b = CHR 0x00)"
| "string_equal left right = (at_end left \<and> at_end right)"

section \<open>Nodes and open files\<close>

definition vfs_fail :: "string \<Rightarrow> 'a machine_scheme \<Rightarrow> ('v, 'a machine_scheme) outcome" where
  "vfs_fail text s = arch_halt_forever (write_line text s)"

definition put_node :: "node_ref \<Rightarrow> vfs_node \<Rightarrow> 'a vfs_state_scheme \<Rightarrow> 'a vfs_state_scheme" where
  "put_node node v s = s\<lparr>nodes := (nodes s)(node := v)\<rparr>"

definition put_file :: "addr \<Rightarrow> vfs_file \<Rightarrow> 'a vfs_state_scheme \<Rightarrow> 'a vfs_state_scheme" where
  "put_file file v s = s\<lparr>files := (files s)(file := v)\<rparr>"

definition vfs_node_initialize ::
  "node_ref \<Rightarrow> vfs_node_kind \<Rightarrow> vfs_node_ops option \<Rightarrow> data_ref \<Rightarrow> 'a vfs_state_scheme \<Rightarrow> (unit, 'a vfs_state_scheme) outcome" where
  "vfs_node_initialize node kind ops data s =
    (if node = NullNode \<or> kind = VFS_NODE_NONE \<or> ops = None then vfs_fail ''vfs init fail'' s
     else Ret () (put_node node \<lparr>node_kind = kind, node_refs = 0, node_ops = ops, node_data = data\<rparr> s))"

definition vfs_open_flags_valid :: "u32 \<Rightarrow> bool" where
  "vfs_open_flags_valid access \<longleftrightarrow>
     access = VFS_ACCESS_READ \<or> access = VFS_ACCESS_WRITE \<or> access = (VFS_ACCESS_READ OR VFS_ACCESS_WRITE)"

definition vfs_make_file :: "node_ref \<Rightarrow> u32 \<Rightarrow> 'a vfs_state_scheme \<Rightarrow> (addr, 'a vfs_state_scheme) outcome" where
  "vfs_make_file node access s =
    chain (kzalloc sizeof_vfs_file s) (\<lambda>file s.
      if file = 0 then Ret 0 s
      else
        let s = put_file file \<lparr>file_refs = 1, file_node = node, file_offset = 0, file_access = access\<rparr> s;
            s = put_node node ((nodes s node)\<lparr>node_refs := node_refs (nodes s node) + 1\<rparr>) s
        in Ret file s)"

definition vfs_file_open :: "node_ref \<Rightarrow> u32 \<Rightarrow> 'a vfs_state_scheme \<Rightarrow> (addr, 'a vfs_state_scheme) outcome" where
  "vfs_file_open node access s =
    (if node = NullNode then Ret 0 s
     else case node_ops (nodes s node) of None \<Rightarrow> Ret 0 s
     | Some ops \<Rightarrow>
         if node_kind (nodes s node) = VFS_NODE_DIRECTORY \<or> \<not> vfs_open_flags_valid access then Ret 0 s
         else if access AND VFS_ACCESS_READ \<noteq> 0 \<and> op_read ops = None then Ret 0 s
         else if access AND VFS_ACCESS_WRITE \<noteq> 0 \<and> op_write ops = None then Ret 0 s
         else vfs_make_file node access s)"

definition vfs_file_retain :: "addr \<Rightarrow> 'a vfs_state_scheme \<Rightarrow> i32 \<times> 'a vfs_state_scheme" where
  "vfs_file_retain file s =
    (if file = 0 \<or> file_refs (files s file) = 0 \<or> file_node (files s file) = NullNode then (- 1, s)
     else (0, put_file file ((files s file)\<lparr>file_refs := file_refs (files s file) + 1\<rparr>) s))"

section \<open>The operations behind the tables\<close>

text \<open>
  \<open>kfree\<close> of a node or of its data. Only the operations of heap nodes do it; a static object has no heap header, so
  that \<open>kfree\<close> halts on it.
\<close>

definition kfree_node :: "node_ref \<Rightarrow> 'a vfs_state_scheme \<Rightarrow> (unit, 'a vfs_state_scheme) outcome" where
  "kfree_node node s = (case node of HeapNode a \<Rightarrow> kfree a s | NullNode \<Rightarrow> kfree 0 s | _ \<Rightarrow> heap_fail ''heap free fail'' s)"

definition data_address :: "data_ref \<Rightarrow> addr" where
  "data_address data = (case data of HeapData a \<Rightarrow> a | _ \<Rightarrow> 0)"

definition vfs_static_release :: "node_ref \<Rightarrow> 'a vfs_state_scheme \<Rightarrow> (i32, 'a vfs_state_scheme) outcome" where
  "vfs_static_release node s = Ret 0 s"

definition vfs_self_test_release :: "node_ref \<Rightarrow> 'a vfs_state_scheme \<Rightarrow> (i32, 'a vfs_state_scheme) outcome" where
  "vfs_self_test_release node s =
    (let data = data_address (node_data (nodes s node));
         d = self_test_data s data;
         s = s\<lparr>self_test_data := (self_test_data s)(data := d\<lparr>self_test_released := self_test_released d + 1\<rparr>)\<rparr>
     in chain (kfree_node node s) (\<lambda>_ s. chain (kfree data s) (\<lambda>_ s. Ret 0 s)))"

definition fd_console_output_release :: "node_ref \<Rightarrow> 'a vfs_state_scheme \<Rightarrow> (i32, 'a vfs_state_scheme) outcome" where
  "fd_console_output_release node s =
    (let console = data_address (node_data (nodes s node));
         s = s\<lparr>fd_outputs_released := (fd_outputs_released s)(console := fd_outputs_released s console + 1)\<rparr>
     in chain (kfree console s) (\<lambda>_ s. chain (kfree_node node s) (\<lambda>_ s. Ret 0 s)))"

definition fd_console_input_release :: "node_ref \<Rightarrow> 'a vfs_state_scheme \<Rightarrow> (i32, 'a vfs_state_scheme) outcome" where
  "fd_console_input_release node s =
    (let console = data_address (node_data (nodes s node));
         d = fd_inputs s console;
         s = s\<lparr>fd_inputs := (fd_inputs s)(console := d\<lparr>fd_input_released := fd_input_released d + 1\<rparr>)\<rparr>
     in chain (kfree console s) (\<lambda>_ s. chain (kfree_node node s) (\<lambda>_ s. Ret 0 s)))"

definition fd_placeholder_release :: "node_ref \<Rightarrow> 'a vfs_state_scheme \<Rightarrow> (i32, 'a vfs_state_scheme) outcome" where
  "fd_placeholder_release node s =
    (let placeholder = data_address (node_data (nodes s node));
         r = fd_placeholder_of s placeholder;
         s = s\<lparr>placeholder_released := (placeholder_released s)(r := placeholder_released s r + 1)\<rparr>
     in chain (kfree placeholder s) (\<lambda>_ s. chain (kfree_node node s) (\<lambda>_ s. Ret 0 s)))"

definition advance_offset :: "addr \<Rightarrow> u64 \<Rightarrow> 'a vfs_state_scheme \<Rightarrow> 'a vfs_state_scheme" where
  "advance_offset file n s = put_file file ((files s file)\<lparr>file_offset := file_offset (files s file) + n\<rparr>) s"

definition vfs_console_input_read :: "addr \<Rightarrow> buffer \<Rightarrow> u64 \<Rightarrow> 'a vfs_state_scheme \<Rightarrow> (i32, 'a vfs_state_scheme) outcome" where
  "vfs_console_input_read file buffer count s =
    (if count = 0 then Ret 0 s
     else if console_input_used (namespace_console_input_data s) \<noteq> 0 then Ret 0 s
     else chain (buffer_store buffer 0 (console_input_byte (namespace_console_input_data s)) s) (\<lambda>_ s.
       let s = s\<lparr>namespace_console_input_data := (namespace_console_input_data s)\<lparr>console_input_used := 1\<rparr>\<rparr>
       in Ret 1 (advance_offset file 1 s)))"

definition vfs_console_output_write :: "addr \<Rightarrow> buffer \<Rightarrow> u64 \<Rightarrow> 'a vfs_state_scheme \<Rightarrow> (i32, 'a vfs_state_scheme) outcome" where
  "vfs_console_output_write file buffer count s =
    (if buffer_null buffer \<and> count \<noteq> 0 then Ret (- 1) s
     else if count \<noteq> 0 then chain (serial_write_buffer buffer count s) (\<lambda>_ s. Ret (ucast count) s)
     else Ret (ucast count) s)"

definition text_byte :: "string \<Rightarrow> u64 \<Rightarrow> u8" where
  "text_byte text index = (if unat index < length text then char_to_byte (text ! unat index) else 0)"

definition static_text_body :: "addr \<Rightarrow> buffer \<Rightarrow> u64 \<Rightarrow> 'a vfs_state_scheme \<Rightarrow> (u64, 'a vfs_state_scheme) outcome" where
  "static_text_body file buffer index s =
     chain (buffer_store buffer index
              (text_byte (static_text (namespace_banner_data s)) (file_offset (files s file) + index)) s)
       (\<lambda>_ s. Ret (index + 1) s)"

definition vfs_static_text_read :: "addr \<Rightarrow> buffer \<Rightarrow> u64 \<Rightarrow> 'a vfs_state_scheme \<Rightarrow> (i32, 'a vfs_state_scheme) outcome" where
  "vfs_static_text_read file buffer count s =
    (if count = 0 then Ret 0 s
     else if static_length (namespace_banner_data s) \<le> file_offset (files s file) then Ret 0 s
     else
       let available = static_length (namespace_banner_data s) - file_offset (files s file);
           count = (if available < count then available else count)
       in chain (c_while (\<lambda>index s. index < count) (static_text_body file buffer) 0 s)
            (\<lambda>_ s. Ret (ucast count) (advance_offset file count s)))"

definition vfs_self_test_read :: "addr \<Rightarrow> buffer \<Rightarrow> u64 \<Rightarrow> 'a vfs_state_scheme \<Rightarrow> (i32, 'a vfs_state_scheme) outcome" where
  "vfs_self_test_read file buffer count s =
    (let data = data_address (node_data (nodes s (file_node (files s file))))
     in if count = 0 then Ret 0 s
     else if self_test_used (self_test_data s data) \<noteq> 0 then Ret 0 s
     else chain (buffer_store buffer 0 (self_test_byte (self_test_data s data)) s) (\<lambda>_ s.
       let s = s\<lparr>self_test_data := (self_test_data s)(data := (self_test_data s data)\<lparr>self_test_used := 1\<rparr>)\<rparr>
       in Ret 1 (advance_offset file 1 s)))"

definition vfs_self_test_write :: "addr \<Rightarrow> buffer \<Rightarrow> u64 \<Rightarrow> 'a vfs_state_scheme \<Rightarrow> (i32, 'a vfs_state_scheme) outcome" where
  "vfs_self_test_write file buffer count s = Ret (ucast count) s"

definition fd_console_output_write :: "addr \<Rightarrow> buffer \<Rightarrow> u64 \<Rightarrow> 'a vfs_state_scheme \<Rightarrow> (i32, 'a vfs_state_scheme) outcome" where
  "fd_console_output_write file buffer count s =
    (if node_data (nodes s (file_node (files s file))) = NullData then Ret (- 1) s
     else if buffer_null buffer \<and> count \<noteq> 0 then Ret (- 1) s
     else
       chain (if count \<noteq> 0 then serial_write_buffer buffer count s else Ret () s)
         (\<lambda>_ s. Ret (ucast count) (advance_offset file count s)))"

definition fd_console_input_read :: "addr \<Rightarrow> buffer \<Rightarrow> u64 \<Rightarrow> 'a vfs_state_scheme \<Rightarrow> (i32, 'a vfs_state_scheme) outcome" where
  "fd_console_input_read file buffer count s =
    (let data = node_data (nodes s (file_node (files s file)));
         console = data_address data
     in if data = NullData then Ret (- 1) s
     else if buffer_null buffer \<and> count \<noteq> 0 then Ret (- 1) s
     else if count = 0 then Ret 0 s
     else if fd_input_used (fd_inputs s console) \<noteq> 0 then Ret 0 s
     else chain (buffer_store buffer 0 (fd_input_byte (fd_inputs s console)) s) (\<lambda>_ s.
       let s = s\<lparr>fd_inputs := (fd_inputs s)(console := (fd_inputs s console)\<lparr>fd_input_used := 1\<rparr>)\<rparr>
       in Ret 1 (advance_offset file 1 s)))"

definition fd_placeholder_write :: "addr \<Rightarrow> buffer \<Rightarrow> u64 \<Rightarrow> 'a vfs_state_scheme \<Rightarrow> (i32, 'a vfs_state_scheme) outcome" where
  "fd_placeholder_write file buffer count s = Ret (ucast count) s"

end
