(* ===== verification/VfsNs.thy ===== *)
theory VfsNs
  imports Vfs
begin

text \<open>
  The second half of \<open>src/kernel/vfs.c\<close>: calls through the operation tables, the name space and its path walk, the
  self test.
\<close>

section \<open>Calls through the tables\<close>

definition call_release :: "release_op \<Rightarrow> node_ref \<Rightarrow> 'a vfs_state_scheme \<Rightarrow> (i32, 'a vfs_state_scheme) outcome" where
  "call_release f node s = (case f of
     Vfs_static_release \<Rightarrow> vfs_static_release node s
   | Vfs_self_test_release \<Rightarrow> vfs_self_test_release node s
   | Fd_console_output_release \<Rightarrow> fd_console_output_release node s
   | Fd_console_input_release \<Rightarrow> fd_console_input_release node s
   | Fd_placeholder_release \<Rightarrow> fd_placeholder_release node s)"

definition call_read :: "read_op \<Rightarrow> addr \<Rightarrow> buffer \<Rightarrow> u64 \<Rightarrow> 'a vfs_state_scheme \<Rightarrow> (i32, 'a vfs_state_scheme) outcome" where
  "call_read f file buffer count s = (case f of
     Vfs_console_input_read \<Rightarrow> vfs_console_input_read file buffer count s
   | Vfs_static_text_read \<Rightarrow> vfs_static_text_read file buffer count s
   | Vfs_self_test_read \<Rightarrow> vfs_self_test_read file buffer count s
   | Fd_console_input_read \<Rightarrow> fd_console_input_read file buffer count s)"

definition call_write :: "write_op \<Rightarrow> addr \<Rightarrow> buffer \<Rightarrow> u64 \<Rightarrow> 'a vfs_state_scheme \<Rightarrow> (i32, 'a vfs_state_scheme) outcome" where
  "call_write f file buffer count s = (case f of
     Vfs_console_output_write \<Rightarrow> vfs_console_output_write file buffer count s
   | Vfs_self_test_write \<Rightarrow> vfs_self_test_write file buffer count s
   | Fd_console_output_write \<Rightarrow> fd_console_output_write file buffer count s
   | Fd_placeholder_write \<Rightarrow> fd_placeholder_write file buffer count s)"

text \<open>A null \<open>ops\<close> pointer, which \<open>vfs_node_initialize\<close> excludes, is not checked here by the code.\<close>

definition vfs_file_close :: "addr \<Rightarrow> 'a vfs_state_scheme \<Rightarrow> (i32, 'a vfs_state_scheme) outcome" where
  "vfs_file_close file s =
    (if file = 0 \<or> file_refs (files s file) = 0 \<or> file_node (files s file) = NullNode then Ret (- 1) s
     else
       let s = put_file file ((files s file)\<lparr>file_refs := file_refs (files s file) - 1\<rparr>) s
       in if file_refs (files s file) \<noteq> 0 then Ret 0 s
       else
         let node = file_node (files s file);
             s = put_file file ((files s file)\<lparr>file_node := NullNode\<rparr>) s
         in chain (kfree file s) (\<lambda>_ s.
              if node_refs (nodes s node) = 0 then Ret (- 1) s
              else
                let s = put_node node ((nodes s node)\<lparr>node_refs := node_refs (nodes s node) - 1\<rparr>) s
                in if node_refs (nodes s node) = 0 then
                     (case node_ops (nodes s node) of
                        None \<Rightarrow> arch_halt_forever s
                      | Some ops \<Rightarrow> (case op_release ops of None \<Rightarrow> Ret 0 s | Some f \<Rightarrow> call_release f node s))
                   else Ret 0 s))"

definition vfs_file_read :: "addr \<Rightarrow> buffer \<Rightarrow> u64 \<Rightarrow> 'a vfs_state_scheme \<Rightarrow> (i32, 'a vfs_state_scheme) outcome" where
  "vfs_file_read file buffer count s =
    (if file = 0 \<or> file_node (files s file) = NullNode then Ret (- 1) s
     else case node_ops (nodes s (file_node (files s file))) of None \<Rightarrow> Ret (- 1) s
     | Some ops \<Rightarrow> (case op_read ops of None \<Rightarrow> Ret (- 1) s
       | Some f \<Rightarrow> if file_access (files s file) AND VFS_ACCESS_READ = 0 then Ret (- 1) s else call_read f file buffer count s))"

definition vfs_file_write :: "addr \<Rightarrow> buffer \<Rightarrow> u64 \<Rightarrow> 'a vfs_state_scheme \<Rightarrow> (i32, 'a vfs_state_scheme) outcome" where
  "vfs_file_write file buffer count s =
    (if file = 0 \<or> file_node (files s file) = NullNode then Ret (- 1) s
     else case node_ops (nodes s (file_node (files s file))) of None \<Rightarrow> Ret (- 1) s
     | Some ops \<Rightarrow> (case op_write ops of None \<Rightarrow> Ret (- 1) s
       | Some f \<Rightarrow> if file_access (files s file) AND VFS_ACCESS_WRITE = 0 then Ret (- 1) s else call_write f file buffer count s))"

text \<open>The two output parameters are never null in a caller; \<open>None\<close> is the result \<open>-1\<close>.\<close>

definition vfs_file_executable_image :: "addr \<Rightarrow> 'a vfs_state_scheme \<Rightarrow> (addr \<times> u64) option" where
  "vfs_file_executable_image file s =
    (if file = 0 \<or> file_node (files s file) = NullNode
        \<or> node_kind (nodes s (file_node (files s file))) \<noteq> VFS_NODE_EXECUTABLE then None
     else case node_data (nodes s (file_node (files s file))) of
       ExecutableData i \<Rightarrow>
         let d = namespace_executable_data s i
         in if executable_image d = 0 \<or> executable_size d = 0 then None else Some (executable_image d, executable_size d)
     | _ \<Rightarrow> None)"

section \<open>The name space\<close>

definition end_entry :: vfs_namespace_entry where
  "end_entry = \<lparr>entry_name = None, entry_node = NullNode, entry_children = NoChildren\<rparr>"

definition namespace_dev_entries :: "vfs_namespace_entry list" where
  "namespace_dev_entries = [\<lparr>entry_name = Some ''console'', entry_node = ConsoleOutputNode, entry_children = NoChildren\<rparr>, end_entry]"

definition namespace_etc_entries :: "vfs_namespace_entry list" where
  "namespace_etc_entries = [\<lparr>entry_name = Some ''banner'', entry_node = BannerNode, entry_children = NoChildren\<rparr>, end_entry]"

definition namespace_root_entries :: "vfs_namespace_entry list" where
  "namespace_root_entries =
    [\<lparr>entry_name = Some ''dev'', entry_node = DevNode, entry_children = DevEntries\<rparr>,
     \<lparr>entry_name = Some ''etc'', entry_node = EtcNode, entry_children = EtcEntries\<rparr>,
     \<lparr>entry_name = Some ''bin'', entry_node = BinNode, entry_children = BinEntries\<rparr>, end_entry]"

definition entries_of :: "children_ref \<Rightarrow> 'a vfs_state_scheme \<Rightarrow> vfs_namespace_entry list option" where
  "entries_of children s = (case children of NoChildren \<Rightarrow> None
     | DevEntries \<Rightarrow> Some namespace_dev_entries | EtcEntries \<Rightarrow> Some namespace_etc_entries
     | BinEntries \<Rightarrow> Some (namespace_bin_entries s))"

fun vfs_find_child :: "vfs_namespace_entry list \<Rightarrow> string \<Rightarrow> vfs_namespace_entry option" where
  "vfs_find_child [] name = None"
| "vfs_find_child (entry # entries) name =
    (case entry_name entry of None \<Rightarrow> None
     | Some n \<Rightarrow> if string_equal n name then Some entry else vfs_find_child entries name)"

text \<open>
  The inner loop of \<open>vfs_walk_path\<close>: it copies one component, of which at most 15 characters fit; \<open>None\<close> is the
  early return. \<open>rest\<close> is the path from \<open>path_index\<close> on.
\<close>

fun read_component :: "nat \<Rightarrow> string \<Rightarrow> (string \<times> string) option" where
  "read_component component_index [] = Some ([], [])"
| "read_component component_index (c # cs) =
    (if c \<noteq> CHR 0x00 \<and> c \<noteq> CHR 0x2F then
       (if component_index + 1 \<ge> 16 then None
        else case read_component (component_index + 1) cs of None \<Rightarrow> None | Some (component, rest) \<Rightarrow> Some (c # component, rest))
     else Some ([], c # cs))"

lemma read_component_length: "read_component n cs = Some (component, rest) \<Longrightarrow> length rest \<le> length cs"
  by (induction n cs arbitrary: component rest rule: read_component.induct)
    (auto split: if_splits option.splits intro: le_SucI)

function walk_from :: "vfs_namespace_entry list \<Rightarrow> string \<Rightarrow> 'a vfs_state_scheme \<Rightarrow> node_ref" where
  "walk_from entries rest s =
    (case read_component 0 rest of None \<Rightarrow> NullNode
     | Some (component, after) \<Rightarrow>
         if component = [] then NullNode
         else case vfs_find_child entries component of None \<Rightarrow> NullNode
         | Some entry \<Rightarrow>
             if at_end after then entry_node entry
             else case entries_of (entry_children entry) s of None \<Rightarrow> NullNode
             | Some children \<Rightarrow> if at_end (tl after) then NullNode else walk_from children (tl after) s)"
  by pat_completeness auto
termination
proof (relation "measure (\<lambda>(entries, rest, s). length rest)", simp)
  fix entries rest and s :: "'a vfs_state_scheme" and x component after entry children
  assume a: "read_component 0 rest = Some x" "(component, after) = x" "\<not> at_end after"
  then have "length after \<le> length rest" using read_component_length by blast
  moreover have "after \<noteq> []" using a(3) by (auto simp: at_end_def)
  ultimately show "((children, tl after, s), (entries, rest, s)) \<in> measure (\<lambda>(entries, rest, s). length rest)"
    by (cases after) auto
qed

declare walk_from.simps [simp del]

text \<open>\<open>None\<close> is a null \<open>path\<close>.\<close>

definition vfs_walk_path :: "string option \<Rightarrow> 'a vfs_state_scheme \<Rightarrow> node_ref" where
  "vfs_walk_path path s = (case path of None \<Rightarrow> NullNode
   | Some p \<Rightarrow>
       if \<not> namespace_ready s \<or> at_end p \<or> hd p \<noteq> CHR 0x2F then NullNode
       else if at_end (tl p) then NullNode
       else walk_from namespace_root_entries (tl p) s)"

definition vfs_program_image :: "build \<Rightarrow> embedded_user_program \<Rightarrow> (addr \<times> u64) option" where
  "vfs_program_image bld program =
    (if USER_TEST_BAD_EXEC_IMAGE bld \<and> string_equal (program_name program) ''pulse'' then Some (bad_exec_image bld, 4)
     else if program_image program \<noteq> 0 \<and> program_size program \<noteq> 0 then Some (program_image program, program_size program)
     else None)"

definition console_input_ops :: vfs_node_ops where
  "console_input_ops = \<lparr>op_release = Some Vfs_static_release, op_read = Some Vfs_console_input_read, op_write = None\<rparr>"

definition console_output_ops :: vfs_node_ops where
  "console_output_ops = \<lparr>op_release = Some Vfs_static_release, op_read = None, op_write = Some Vfs_console_output_write\<rparr>"

definition static_text_ops :: vfs_node_ops where
  "static_text_ops = \<lparr>op_release = Some Vfs_static_release, op_read = Some Vfs_static_text_read, op_write = None\<rparr>"

definition executable_ops :: vfs_node_ops where
  "executable_ops = \<lparr>op_release = Some Vfs_static_release, op_read = None, op_write = None\<rparr>"

definition directory_ops :: vfs_node_ops where
  "directory_ops = \<lparr>op_release = Some Vfs_static_release, op_read = None, op_write = None\<rparr>"

text \<open>The loop over the embedded programs.\<close>

fun namespace_programs :: "build \<Rightarrow> nat \<Rightarrow> embedded_user_program list \<Rightarrow> 'a vfs_state_scheme \<Rightarrow> (nat, 'a vfs_state_scheme) outcome" where
  "namespace_programs bld index [] s = Ret index s"
| "namespace_programs bld index (program # programs) s =
    (case vfs_program_image bld program of
       None \<Rightarrow> vfs_fail ''vfs init fail'' s
     | Some (prog_image, prog_size) \<Rightarrow>
         let s = s\<lparr>namespace_executable_data := (namespace_executable_data s)(index :=
                     \<lparr>executable_image = prog_image, executable_size = prog_size\<rparr>)\<rparr>
         in chain (vfs_node_initialize (ExecutableNode index) VFS_NODE_EXECUTABLE (Some executable_ops) (ExecutableData index) s) (\<lambda>_ s.
            let s = s\<lparr>namespace_bin_entries := (namespace_bin_entries s)[index :=
                       \<lparr>entry_name = Some (program_name program), entry_node = ExecutableNode index, entry_children = NoChildren\<rparr>]\<rparr>
            in namespace_programs bld (index + 1) programs s))"

definition vfs_namespace_initialize :: "build \<Rightarrow> 'a vfs_state_scheme \<Rightarrow> (unit, 'a vfs_state_scheme) outcome" where
  "vfs_namespace_initialize bld s =
    (let s = s\<lparr>namespace_console_input_data := \<lparr>console_input_byte = char_to_byte CHR 0x40, console_input_used = 0\<rparr>,
               namespace_banner_data := \<lparr>static_text = ''platinum'' @ [CHR 0x0A], static_length = 9\<rparr>\<rparr>
     in chain (vfs_node_initialize RootNode VFS_NODE_DIRECTORY (Some directory_ops) NullData s) (\<lambda>_ s.
        chain (vfs_node_initialize DevNode VFS_NODE_DIRECTORY (Some directory_ops) NullData s) (\<lambda>_ s.
        chain (vfs_node_initialize EtcNode VFS_NODE_DIRECTORY (Some directory_ops) NullData s) (\<lambda>_ s.
        chain (vfs_node_initialize BinNode VFS_NODE_DIRECTORY (Some directory_ops) NullData s) (\<lambda>_ s.
        chain (vfs_node_initialize ConsoleInputNode VFS_NODE_CONSOLE (Some console_input_ops) ConsoleInputData s) (\<lambda>_ s.
        chain (vfs_node_initialize ConsoleOutputNode VFS_NODE_CONSOLE (Some console_output_ops) NullData s) (\<lambda>_ s.
        chain (vfs_node_initialize BannerNode VFS_NODE_STATIC_TEXT (Some static_text_ops) BannerData s) (\<lambda>_ s.
          let n = length (embedded_user_program_registry bld)
          in if 6 < n + 1 \<or> 5 < n then vfs_fail ''vfs init fail'' s
             else chain (namespace_programs bld 0 (embedded_user_program_registry bld) s) (\<lambda>index s.
                  Ret () (s\<lparr>namespace_bin_entries := (namespace_bin_entries s)[index := end_entry], namespace_ready := True\<rparr>))))))))))"

definition vfs_open_path :: "string option \<Rightarrow> u32 \<Rightarrow> 'a vfs_state_scheme \<Rightarrow> (addr, 'a vfs_state_scheme) outcome" where
  "vfs_open_path path flags s =
    (let node = vfs_walk_path path s
     in if node = NullNode then Ret 0 s else vfs_file_open node flags s)"

definition vfs_open_exec_path :: "string option \<Rightarrow> 'a vfs_state_scheme \<Rightarrow> (addr, 'a vfs_state_scheme) outcome" where
  "vfs_open_exec_path path s =
    (let node = vfs_walk_path path s
     in if node = NullNode \<or> node_kind (nodes s node) \<noteq> VFS_NODE_EXECUTABLE then Ret 0 s
        else vfs_make_file node 0 s)"

end
