(* ===== verification/VfsTest.thy ===== *)
theory VfsTest
  imports VfsNs
begin

text \<open>\<open>vfs_self_test\<close> of \<open>src/kernel/vfs.c\<close>, statement by statement.\<close>

definition vfs_test_fails :: "'a vfs_state_scheme \<Rightarrow> (unit, 'a vfs_state_scheme) outcome" where
  "vfs_test_fails s = Ret () (write_line ''vfs fail'' s)"

definition self_test_ops :: vfs_node_ops where
  "self_test_ops = \<lparr>op_release = Some Vfs_self_test_release, op_read = Some Vfs_self_test_read, op_write = Some Vfs_self_test_write\<rparr>"

definition node_pointer :: "addr \<Rightarrow> node_ref" where
  "node_pointer a = (if a = 0 then NullNode else HeapNode a)"

text \<open>One block that opens an executable, asks for its image and closes it; \<open>k\<close> is the rest of the test.\<close>

definition test_executable ::
  "string \<Rightarrow> ('a vfs_state_scheme \<Rightarrow> (unit, 'a vfs_state_scheme) outcome) \<Rightarrow> 'a vfs_state_scheme \<Rightarrow> (unit, 'a vfs_state_scheme) outcome" where
  "test_executable path k s =
    chain (vfs_open_exec_path (Some path) s) (\<lambda>file s.
      if file = 0 then vfs_test_fails s
      else case vfs_file_executable_image file s of None \<Rightarrow> vfs_test_fails s
      | Some (img, sz) \<Rightarrow>
          if img = 0 \<or> sz = 0 then vfs_test_fails s
          else chain (vfs_file_close file s) (\<lambda>r s. if r \<noteq> 0 then vfs_test_fails s else k s))"

text \<open>One open that has to fail.\<close>

definition test_refused ::
  "('a vfs_state_scheme \<Rightarrow> (addr, 'a vfs_state_scheme) outcome) \<Rightarrow> ('a vfs_state_scheme \<Rightarrow> (unit, 'a vfs_state_scheme) outcome) \<Rightarrow>
    'a vfs_state_scheme \<Rightarrow> (unit, 'a vfs_state_scheme) outcome" where
  "test_refused open k s = chain (open s) (\<lambda>file s. if file \<noteq> 0 then vfs_test_fails s else k s)"

text \<open>The name space part: the banner, the console, the two programs, the refused paths.\<close>

definition vfs_test_refused_paths :: "'a vfs_state_scheme \<Rightarrow> (unit, 'a vfs_state_scheme) outcome" where
  "vfs_test_refused_paths =
    test_refused (vfs_open_path (Some ''/dev'') VFS_ACCESS_READ)
   (test_refused (vfs_open_path (Some ''etc/banner'') VFS_ACCESS_READ)
   (test_refused (vfs_open_path (Some ''/etc/missing'') VFS_ACCESS_READ)
   (test_refused (vfs_open_path (Some ''/etc/banner'') VFS_ACCESS_WRITE)
   (test_refused (vfs_open_path (Some ''/dev/console'') VFS_ACCESS_READ)
   (test_refused (vfs_open_exec_path (Some ''/bin/missing''))
   (test_refused (vfs_open_exec_path (Some ''/etc/banner''))
   (\<lambda>s. Ret () (write_line ''vfs ok'' s))))))))"

definition vfs_test_console :: "'a vfs_state_scheme \<Rightarrow> (unit, 'a vfs_state_scheme) outcome" where
  "vfs_test_console s =
    chain (vfs_open_path (Some ''/dev/console'') VFS_ACCESS_WRITE s) (\<lambda>file s.
      if file = 0 then vfs_test_fails s
      else chain (vfs_file_write file (Literal []) 0 s) (\<lambda>r s.
        if r \<noteq> 0 then vfs_test_fails s
        else chain (vfs_file_close file s) (\<lambda>r s.
          if r \<noteq> 0 then vfs_test_fails s
          else test_executable ''/bin/pulse'' (test_executable ''/bin/echo'' vfs_test_refused_paths) s)))"

definition vfs_test_banner :: "'a vfs_state_scheme \<Rightarrow> (unit, 'a vfs_state_scheme) outcome" where
  "vfs_test_banner s =
    chain (vfs_open_path (Some ''/etc/banner'') VFS_ACCESS_READ s) (\<lambda>file s.
      if file = 0 then vfs_test_fails s
      else
        let s = s\<lparr>local_ch := 0\<rparr>
        in chain (vfs_file_read file Local_ch 1 s) (\<lambda>r s.
          if r \<noteq> 1 \<or> local_ch s \<noteq> char_to_byte CHR ''p'' then vfs_test_fails s
          else chain (vfs_file_close file s) (\<lambda>r s. if r \<noteq> 0 then vfs_test_fails s else vfs_test_console s)))"

definition vfs_self_test :: "'a vfs_state_scheme \<Rightarrow> (unit, 'a vfs_state_scheme) outcome" where
  "vfs_self_test s =
    chain (kzalloc 12 s) (\<lambda>data s.
    chain (kzalloc sizeof_vfs_node s) (\<lambda>node s.
      if data = 0 \<or> node = 0 then
        chain (kfree data (write_line ''vfs fail'' s)) (\<lambda>_ s. kfree node s)
      else
        let s = s\<lparr>self_test_data := (self_test_data s)(data :=
                    \<lparr>self_test_released = 0, self_test_byte = char_to_byte CHR 0x23, self_test_used = 0\<rparr>)\<rparr>
        in chain (vfs_node_initialize (node_pointer node) VFS_NODE_PLACEHOLDER (Some self_test_ops) (HeapData data) s) (\<lambda>_ s.
           chain (vfs_file_open (node_pointer node) (VFS_ACCESS_READ OR VFS_ACCESS_WRITE) s) (\<lambda>file s.
             if file = 0 then vfs_test_fails s
             else
               let s = s\<lparr>local_ch := 0\<rparr>
               in chain (vfs_file_read file Local_ch 1 s) (\<lambda>r s.
                  if r \<noteq> 1 \<or> local_ch s \<noteq> char_to_byte CHR 0x23 then vfs_test_fails s
                  else chain (vfs_file_write file (Literal []) 0 s) (\<lambda>r s.
                    if r \<noteq> 0 then vfs_test_fails s
                    else
                      let (r, s) = vfs_file_retain file s
                      in if r \<noteq> 0 then vfs_test_fails s
                      else chain (vfs_file_close file s) (\<lambda>r s.
                        if r \<noteq> 0 then vfs_test_fails s
                        else chain (vfs_file_close file s) (\<lambda>r s.
                          if r \<noteq> 0 then vfs_test_fails s else vfs_test_banner s))))))))"

end
