(* ===== verification/Fd.thy ===== *)
theory Fd
  imports VfsTest
begin

text \<open>
  \<open>src/kernel/fd.c\<close>: descriptor tables of sixteen entries over the open files of \<open>vfs.c\<close>. The node operations that
  \<open>fd.c\<close> adds are in theory Vfs, next to the tables that call them.
\<close>

section \<open>Tables\<close>

definition fd_table_capacity :: nat where "fd_table_capacity = 16"

datatype fd_kind = FD_KIND_NONE | FD_KIND_PLACEHOLDER | FD_KIND_CONSOLE

record fd_entry =
  used :: u32
  kind :: fd_kind
  entry_file :: addr

type_synonym fd_table = "fd_entry list"

text \<open>A table is a value that an operation returns changed; \<open>None\<close> is a null pointer.\<close>

definition empty_entry :: fd_entry where
  "empty_entry = \<lparr>used = 0, kind = FD_KIND_NONE, entry_file = 0\<rparr>"

definition fd_fail :: "string \<Rightarrow> 'a machine_scheme \<Rightarrow> ('v, 'a machine_scheme) outcome" where
  "fd_fail text s = arch_halt_forever (write_line text s)"

definition fd_table_initialize :: "fd_table option \<Rightarrow> 'a machine_scheme \<Rightarrow> (fd_table, 'a machine_scheme) outcome" where
  "fd_table_initialize table s = (case table of
     None \<Rightarrow> fd_fail ''fd table fail'' s
   | Some t \<Rightarrow> Ret (fold (\<lambda>index t. t[index := empty_entry]) [0..<fd_table_capacity] t) s)"

text \<open>The loop of \<open>fd_table_install\<close>: the first index whose entry is not in use.\<close>

fun first_unused :: "nat \<Rightarrow> fd_table \<Rightarrow> nat option" where
  "first_unused index [] = None"
| "first_unused index (e # es) = (if used e = 0 then Some index else first_unused (index + 1) es)"

definition fd_table_install :: "fd_table option \<Rightarrow> fd_kind \<Rightarrow> addr \<Rightarrow> i32 \<times> fd_table option" where
  "fd_table_install table k file = (case table of
     None \<Rightarrow> (- 1, None)
   | Some t \<Rightarrow>
       if k = FD_KIND_NONE \<or> file = 0 then (- 1, table)
       else case first_unused 0 t of
         None \<Rightarrow> (- 1, table)
       | Some index \<Rightarrow> (of_nat index, Some (t[index := \<lparr>used = 1, kind = k, entry_file = file\<rparr>])))"

text \<open>\<open>fd < 0 || fd >= fd_table_capacity\<close> on a signed \<open>int\<close>.\<close>

definition fd_in_range :: "i32 \<Rightarrow> bool" where
  "fd_in_range fd \<longleftrightarrow> \<not> (sint fd < 0 \<or> sint fd \<ge> int fd_table_capacity)"

definition fd_table_get :: "fd_table option \<Rightarrow> i32 \<Rightarrow> fd_entry option" where
  "fd_table_get table fd = (case table of None \<Rightarrow> None
   | Some t \<Rightarrow> if \<not> fd_in_range fd then None
       else if used (t ! unat fd) = 0 then None else Some (t ! unat fd))"

definition fd_table_dup :: "fd_table option \<Rightarrow> i32 \<Rightarrow> 'a vfs_state_scheme \<Rightarrow> (i32 \<times> fd_table option, 'a vfs_state_scheme) outcome" where
  "fd_table_dup table fd s = (case fd_table_get table fd of
     None \<Rightarrow> Ret (- 1, table) s
   | Some entry \<Rightarrow>
       let (r, s) = vfs_file_retain (entry_file entry) s
       in if r \<noteq> 0 then Ret (- 1, table) s
       else
         let (duplicate_fd, t) = fd_table_install table (kind entry) (entry_file entry)
         in if sint duplicate_fd < 0 then chain (vfs_file_close (entry_file entry) s) (\<lambda>_ s. Ret (- 1, t) s)
            else Ret (duplicate_fd, t) s)"

definition fd_table_read :: "fd_table option \<Rightarrow> i32 \<Rightarrow> buffer \<Rightarrow> u64 \<Rightarrow> 'a vfs_state_scheme \<Rightarrow> (i32, 'a vfs_state_scheme) outcome" where
  "fd_table_read table fd buffer count s = (case fd_table_get table fd of
     None \<Rightarrow> Ret (- 1) s | Some entry \<Rightarrow> vfs_file_read (entry_file entry) buffer count s)"

definition fd_table_write :: "fd_table option \<Rightarrow> i32 \<Rightarrow> buffer \<Rightarrow> u64 \<Rightarrow> 'a vfs_state_scheme \<Rightarrow> (i32, 'a vfs_state_scheme) outcome" where
  "fd_table_write table fd buffer count s = (case fd_table_get table fd of
     None \<Rightarrow> Ret (- 1) s | Some entry \<Rightarrow> vfs_file_write (entry_file entry) buffer count s)"

definition fd_table_close :: "fd_table option \<Rightarrow> i32 \<Rightarrow> 'a vfs_state_scheme \<Rightarrow> (i32 \<times> fd_table option, 'a vfs_state_scheme) outcome" where
  "fd_table_close table fd s = (case table of
     None \<Rightarrow> Ret (- 1, None) s
   | Some t \<Rightarrow>
       if \<not> fd_in_range fd then Ret (- 1, table) s
       else if used (t ! unat fd) = 0 then Ret (- 1, table) s
       else chain (vfs_file_close (entry_file (t ! unat fd)) s) (\<lambda>r s. Ret (r, Some (t[unat fd := empty_entry])) s))"

fun close_from :: "nat list \<Rightarrow> fd_table \<Rightarrow> 'a vfs_state_scheme \<Rightarrow> (fd_table, 'a vfs_state_scheme) outcome" where
  "close_from [] t s = Ret t s"
| "close_from (index # rest) t s =
    (if used (t ! index) \<noteq> 0 then
       chain (fd_table_close (Some t) (of_nat index) s) (\<lambda>(_, t') s. close_from rest (case t' of None \<Rightarrow> t | Some u \<Rightarrow> u) s)
     else close_from rest t s)"

definition fd_table_close_all :: "fd_table option \<Rightarrow> 'a vfs_state_scheme \<Rightarrow> (fd_table option, 'a vfs_state_scheme) outcome" where
  "fd_table_close_all table s = (case table of None \<Rightarrow> Ret None s
   | Some t \<Rightarrow> chain (close_from [0..<fd_table_capacity] t s) (\<lambda>t s. Ret (Some t) s))"

section \<open>The console descriptors\<close>

definition fd_console_input_ops :: vfs_node_ops where
  "fd_console_input_ops = \<lparr>op_release = Some Fd_console_input_release, op_read = Some Fd_console_input_read, op_write = None\<rparr>"

definition fd_console_output_ops :: vfs_node_ops where
  "fd_console_output_ops = \<lparr>op_release = Some Fd_console_output_release, op_read = None, op_write = Some Fd_console_output_write\<rparr>"

text \<open>The two clean-up paths close all three files; closing a null pointer does nothing.\<close>

definition seed_fails :: "addr \<Rightarrow> addr \<Rightarrow> addr \<Rightarrow> fd_table \<Rightarrow> 'a vfs_state_scheme \<Rightarrow> (bool \<times> fd_table option, 'a vfs_state_scheme) outcome" where
  "seed_fails input_file stdout_file stderr_file t s =
    chain (vfs_file_close input_file s) (\<lambda>_ s.
    chain (vfs_file_close stdout_file s) (\<lambda>_ s.
    chain (vfs_file_close stderr_file s) (\<lambda>_ s. Ret (False, Some t) s)))"

definition seed_install :: "addr \<Rightarrow> addr \<Rightarrow> addr \<Rightarrow> fd_table \<Rightarrow> 'a vfs_state_scheme \<Rightarrow> (bool \<times> fd_table option, 'a vfs_state_scheme) outcome" where
  "seed_install input_file stdout_file stderr_file t s =
    (let (a, t1) = fd_table_install (Some t) FD_KIND_CONSOLE input_file
     in if a \<noteq> 0 then seed_fails input_file stdout_file stderr_file (the t1) s
     else
       let (b, t2) = fd_table_install t1 FD_KIND_CONSOLE stdout_file
       in if b \<noteq> 1 then seed_fails input_file stdout_file stderr_file (the t2) s
       else
         let (c, t3) = fd_table_install t2 FD_KIND_CONSOLE stderr_file
         in if c \<noteq> 2 then seed_fails input_file stdout_file stderr_file (the t3) s else Ret (True, t3) s)"

definition fd_table_seed_console :: "fd_table option \<Rightarrow> 'a vfs_state_scheme \<Rightarrow> (bool \<times> fd_table option, 'a vfs_state_scheme) outcome" where
  "fd_table_seed_console table s = (case table of None \<Rightarrow> Ret (False, None) s
   | Some t \<Rightarrow>
     chain (kzalloc 12 s) (\<lambda>input_data s.
     chain (kzalloc 4 s) (\<lambda>output_data s.
     chain (kzalloc sizeof_vfs_node s) (\<lambda>input_node s.
     chain (kzalloc sizeof_vfs_node s) (\<lambda>output_node s.
       if input_data = 0 \<or> output_data = 0 \<or> input_node = 0 \<or> output_node = 0 then
         chain (kfree input_data s) (\<lambda>_ s. chain (kfree output_data s) (\<lambda>_ s.
         chain (kfree input_node s) (\<lambda>_ s. chain (kfree output_node s) (\<lambda>_ s. Ret (False, Some t) s))))
       else
         let s = s\<lparr>fd_inputs := (fd_inputs s)(input_data :=
                     \<lparr>fd_input_released = 0, fd_input_byte = char_to_byte CHR 0x40, fd_input_used = 0\<rparr>),
                   fd_outputs_released := (fd_outputs_released s)(output_data := 0)\<rparr>
         in chain (vfs_node_initialize (node_pointer input_node) VFS_NODE_CONSOLE (Some fd_console_input_ops) (HeapData input_data) s) (\<lambda>_ s.
            chain (vfs_node_initialize (node_pointer output_node) VFS_NODE_CONSOLE (Some fd_console_output_ops) (HeapData output_data) s) (\<lambda>_ s.
            chain (vfs_file_open (node_pointer input_node) VFS_ACCESS_READ s) (\<lambda>input_file s.
            chain (vfs_file_open (node_pointer output_node) VFS_ACCESS_WRITE s) (\<lambda>stdout_file s.
            chain (vfs_file_open (node_pointer output_node) VFS_ACCESS_WRITE s) (\<lambda>stderr_file s.
              if input_file = 0 \<or> stdout_file = 0 \<or> stderr_file = 0
              then seed_fails input_file stdout_file stderr_file t s
              else seed_install input_file stdout_file stderr_file t s))))))))))"

section \<open>The self test\<close>

definition placeholder_ops :: vfs_node_ops where
  "placeholder_ops = \<lparr>op_release = Some Fd_placeholder_release, op_read = None, op_write = Some Fd_placeholder_write\<rparr>"

definition fd_make_placeholder_file :: "released_ref \<Rightarrow> 'a vfs_state_scheme \<Rightarrow> (addr, 'a vfs_state_scheme) outcome" where
  "fd_make_placeholder_file released s =
    chain (kzalloc 8 s) (\<lambda>placeholder s.
    chain (kzalloc sizeof_vfs_node s) (\<lambda>node s.
      if placeholder = 0 \<or> node = 0 then
        chain (kfree placeholder s) (\<lambda>_ s. chain (kfree node s) (\<lambda>_ s. Ret 0 s))
      else
        let s = s\<lparr>fd_placeholder_of := (fd_placeholder_of s)(placeholder := released)\<rparr>
        in chain (vfs_node_initialize (node_pointer node) VFS_NODE_PLACEHOLDER (Some placeholder_ops) (HeapData placeholder) s)
             (\<lambda>_ s. vfs_file_open (node_pointer node) VFS_ACCESS_WRITE s)))"

definition fd_test_fails :: "'a vfs_state_scheme \<Rightarrow> (unit, 'a vfs_state_scheme) outcome" where
  "fd_test_fails s = Ret () (write_line ''fd fail'' s)"

definition clear_released :: "released_ref \<Rightarrow> 'a vfs_state_scheme \<Rightarrow> 'a vfs_state_scheme" where
  "clear_released r s = s\<lparr>placeholder_released := (placeholder_released s)(r := 0)\<rparr>"

definition install_placeholder :: "fd_table option \<Rightarrow> released_ref \<Rightarrow> 'a vfs_state_scheme \<Rightarrow> (i32 \<times> fd_table option, 'a vfs_state_scheme) outcome" where
  "install_placeholder table r s =
    chain (fd_make_placeholder_file r s) (\<lambda>file s. Ret (fd_table_install table FD_KIND_PLACEHOLDER file) s)"

fun fill_table :: "nat list \<Rightarrow> fd_table option \<Rightarrow> 'a vfs_state_scheme \<Rightarrow> (bool \<times> fd_table option, 'a vfs_state_scheme) outcome" where
  "fill_table [] table s = Ret (True, table) s"
| "fill_table (index # rest) table s =
    chain (install_placeholder table Placeholder_b s) (\<lambda>(fd, table) s.
      if fd \<noteq> of_nat index then Ret (False, table) s else fill_table rest table s)"

text \<open>The last part: a full table.\<close>

definition fd_test_full :: "fd_table option \<Rightarrow> 'a vfs_state_scheme \<Rightarrow> (unit, 'a vfs_state_scheme) outcome" where
  "fd_test_full table s =
    chain (fd_table_initialize table s) (\<lambda>t s.
    chain (install_placeholder (Some t) Placeholder_a (clear_released Placeholder_a s)) (\<lambda>(first_fd, table) s.
      if first_fd \<noteq> 0 then fd_test_fails s
      else chain (fill_table [1..<fd_table_capacity] table s) (\<lambda>(ok, table) s.
        if \<not> ok then fd_test_fails s
        else chain (fd_table_dup table first_fd s) (\<lambda>(d, table) s.
          if d \<noteq> - 1 \<or> placeholder_released s Placeholder_a \<noteq> 0 then fd_test_fails s
          else chain (fd_table_close table first_fd s) (\<lambda>(r, table) s.
            if r \<noteq> 0 \<or> placeholder_released s Placeholder_a \<noteq> 1 then fd_test_fails s
            else chain (fd_table_close_all table s) (\<lambda>_ s. Ret () (write_line ''fd ok'' s)))))))"

text \<open>The middle part: the console descriptors.\<close>

definition fd_test_console :: "fd_table option \<Rightarrow> 'a vfs_state_scheme \<Rightarrow> (unit, 'a vfs_state_scheme) outcome" where
  "fd_test_console table s =
    chain (fd_table_initialize table s) (\<lambda>t s.
    chain (fd_table_seed_console (Some t) s) (\<lambda>(seeded, table) s.
      if \<not> seeded then fd_test_fails s
      else chain (fd_table_read table 0 Local_ch 1 s) (\<lambda>r s.
        if r \<noteq> 1 \<or> local_ch s \<noteq> char_to_byte CHR 0x40 then fd_test_fails s
        else chain (fd_table_dup table 1 s) (\<lambda>(duplicate_fd, table) s.
          if sint duplicate_fd < 0 then fd_test_fails s
          else chain (fd_table_write table duplicate_fd (Literal []) 0 s) (\<lambda>r s.
            if r \<noteq> 0 then fd_test_fails s
            else chain (fd_table_close table duplicate_fd s) (\<lambda>(r, table) s.
              if r \<noteq> 0 then fd_test_fails s
              else chain (fd_table_close table 1 s) (\<lambda>(r, table) s.
                if r \<noteq> 0 then fd_test_fails s
                else chain (fd_table_close_all table s) (\<lambda>table s. fd_test_full table s))))))))"

text \<open>\<open>table\<close> is the uninitialised local variable.\<close>

definition fd_self_test :: "fd_table \<Rightarrow> 'a vfs_state_scheme \<Rightarrow> (unit, 'a vfs_state_scheme) outcome" where
  "fd_self_test table s =
    chain (fd_table_initialize (Some table) s) (\<lambda>t s.
    let s = clear_released Placeholder_b (clear_released Placeholder_a s)
    in chain (install_placeholder (Some t) Placeholder_a s) (\<lambda>(first_fd, table) s.
       chain (install_placeholder table Placeholder_b s) (\<lambda>(second_fd, table) s.
         if first_fd \<noteq> 0 \<or> second_fd \<noteq> 1 then fd_test_fails s
         else chain (fd_table_close table first_fd s) (\<lambda>(r, table) s.
           if r \<noteq> 0 \<or> placeholder_released s Placeholder_a \<noteq> 1 then fd_test_fails s
           else chain (fd_table_close_all table s) (\<lambda>table s.
             if placeholder_released s Placeholder_b \<noteq> 1 \<or> fd_table_get table second_fd \<noteq> None then fd_test_fails s
             else fd_test_console table s)))))"

end
