(* ===== verification/Sched.thy ===== *)
theory Sched
  imports Fd
begin

text \<open>
  \<open>src/kernel/sched.c\<close>: the two tasks, the stacks they start on, and the three ways the processor changes hands: a
  tick, an exit and an exec. A task is named by \<open>Task0\<close> or \<open>Task1\<close>; \<open>current\<close> is \<open>None\<close> until the first tick.
\<close>

section \<open>State\<close>

datatype task_kind = TASK_KERNEL | TASK_USER

datatype task_state = TASK_UNUSED | TASK_RUNNABLE | TASK_RUNNING | TASK_DONE

record user_task_bootstrap =
  layout :: user_virtual_layout
  address_space :: addr
  trampoline_entry :: addr
  user_entry :: addr
  image_physical_begin :: addr
  image_physical_end :: addr
  user_stack_page :: addr
  user_stack_top :: addr

record task =
  rsp :: addr
  task_cr3 :: addr
  state :: task_state
  task_kind :: task_kind
  task_id :: u32
  task_fd_table :: fd_table
  user_bootstrap :: user_task_bootstrap

datatype task_ref = Task0 | Task1

text \<open>
  \<open>stack_garbage\<close> is what the two fields of \<open>loaded_image\<close> hold that \<open>sched_release_user_bootstrap\<close> does not
  initialise; nothing is assumed of it.
\<close>

record sched_state = vfs_state +
  tasks :: "task_ref \<Rightarrow> task"
  current :: "task_ref option"
  sched_started :: bool
  user_task_enabled :: bool
  user_task_bootstrap :: user_task_bootstrap
  worker_counter :: u64
  stack_garbage :: "addr \<times> addr"

definition upd_task :: "task_ref \<Rightarrow> (task \<Rightarrow> task) \<Rightarrow> 'a sched_state_scheme \<Rightarrow> 'a sched_state_scheme" where
  "upd_task t f s = s\<lparr>tasks := (tasks s)(t := f (tasks s t))\<rparr>"

section \<open>Checks and helpers\<close>

definition sched_fail :: "string \<Rightarrow> 'a machine_scheme \<Rightarrow> ('v, 'a machine_scheme) outcome" where
  "sched_fail text s = Halt (write_line text s)"

definition sched_validate_task :: "task_ref option \<Rightarrow> task_state \<Rightarrow> string \<Rightarrow> 'a sched_state_scheme \<Rightarrow> (unit, 'a sched_state_scheme) outcome" where
  "sched_validate_task task expected text s = (case task of
     None \<Rightarrow> sched_fail text s
   | Some t \<Rightarrow>
       if state (tasks s t) \<noteq> expected then sched_fail text s
       else if rsp (tasks s t) = 0 then sched_fail text s
       else if task_kind (tasks s t) = TASK_KERNEL then
         (if task_cr3 (tasks s t) \<noteq> paging_kernel_address_space s then sched_fail ''sched kernel cr3'' s else Ret () s)
       else if task_cr3 (tasks s t) = 0 \<or> task_cr3 (tasks s t) = paging_kernel_address_space s
       then sched_fail ''sched user cr3'' s else Ret () s)"

definition cleared_bootstrap :: user_task_bootstrap where
  "cleared_bootstrap = \<lparr>layout = \<lparr>trampoline_base = 0, image_base = 0, stack_top = 0\<rparr>, address_space = 0,
     trampoline_entry = 0, user_entry = 0, image_physical_begin = 0, image_physical_end = 0, user_stack_page = 0, user_stack_top = 0\<rparr>"

definition sched_clear_user_bootstrap :: "user_task_bootstrap option \<Rightarrow> user_task_bootstrap option" where
  "sched_clear_user_bootstrap bootstrap = (case bootstrap of None \<Rightarrow> None | Some _ \<Rightarrow> Some cleared_bootstrap)"

definition sched_release_user_bootstrap ::
  "user_task_bootstrap option \<Rightarrow> 'a sched_state_scheme \<Rightarrow> (user_task_bootstrap option, 'a sched_state_scheme) outcome" where
  "sched_release_user_bootstrap bootstrap s = (case bootstrap of
     None \<Rightarrow> Ret None s
   | Some b \<Rightarrow>
       if address_space b = 0 then Ret (Some b) s
       else
         let loaded_image = \<lparr>load_begin = 0, load_end = 0, load_physical_begin = image_physical_begin b,
               load_physical_end = image_physical_end b, reusable_physical_begin = fst (stack_garbage s),
               reusable_physical_end = snd (stack_garbage s), loaded_entry = 0, loaded_stack_page = user_stack_page b,
               loaded_stack_top = user_stack_top b\<rparr>
         in chain (elf_release_user_image (Some loaded_image) s) (\<lambda>_ s.
            Ret (sched_clear_user_bootstrap (Some b)) (paging_release_user_address_space (address_space b) (Some (layout b)) s)))"

definition other_task :: "task_ref \<Rightarrow> task_ref" where
  "other_task t = (if t = Task0 then Task1 else Task0)"

definition sched_select_next :: "task_ref \<Rightarrow> 'a sched_state_scheme \<Rightarrow> (task_ref, 'a sched_state_scheme) outcome" where
  "sched_select_next previous s =
    (if state (tasks s (other_task previous)) = TASK_RUNNABLE then Ret (other_task previous) s
     else if state (tasks s previous) = TASK_RUNNABLE then Ret previous s
     else if state (tasks s Task0) = TASK_RUNNABLE then Ret Task0 s
     else if state (tasks s Task1) = TASK_RUNNABLE then Ret Task1 s
     else Halt s)"

text \<open>
  One turn of \<open>task_worker\<close>: the system calls it makes with the counter already incremented, where \<open>ticks\<close> is the
  result of the third.
\<close>

definition task_worker_turn :: "u64 \<Rightarrow> u64 \<Rightarrow> (u64 \<times> u64) list" where
  "task_worker_turn counter ticks =
    (if counter mod 256 = 0 then [(0, of_char CHR ''S'')] else [])
    @ (if counter mod 64 = 0 then [(1, 0)] else [])
    @ (if counter mod 512 = 0 then (2, 0) # (if ticks \<noteq> 0 then [(0, of_char CHR ''K'')] else []) else [])"

section \<open>Initial stacks\<close>

text \<open>\<open>*--sp = v\<close>\<close>

definition push :: "u64 \<Rightarrow> addr \<times> 'a machine_scheme \<Rightarrow> addr \<times> 'a machine_scheme" where
  "push v = (\<lambda>(sp, s). (sp - 8, store64 (sp - 8) v s))"

definition task_build_kernel_stack :: "addr \<Rightarrow> 'a palloc_state_scheme \<Rightarrow> addr \<times> 'a palloc_state_scheme" where
  "task_build_kernel_stack entry s =
    (let (page, s) = palloc_alloc s
     in if page = 0 then (0, s)
     else fold push ([0x0010, page + 4096 - 8, 0x202, 0x0008, entry] @ replicate 15 0) (page + 4096, s))"

definition task_build_user_stack :: "user_task_bootstrap \<Rightarrow> 'a machine_scheme \<Rightarrow> addr \<times> 'a machine_scheme" where
  "task_build_user_stack bootstrap s =
    (if user_stack_top bootstrap = 0 then (0, s)
     else if user_stack_page bootstrap = 0 then (0, s)
     else fold push ([0x001B, user_stack_top bootstrap, 0x202, 0x0023, trampoline_entry bootstrap]
            @ replicate 11 0 @ [user_entry bootstrap] @ replicate 3 0) (user_stack_page bootstrap + 4096, s))"

section \<open>Creating tasks\<close>

definition seed_task_console :: "task_ref \<Rightarrow> 'a sched_state_scheme \<Rightarrow> (bool, 'a sched_state_scheme) outcome" where
  "seed_task_console t s =
    chain (fd_table_seed_console (Some (task_fd_table (tasks s t))) s) (\<lambda>(seeded, table) s.
      Ret seeded (upd_task t (\<lambda>x. x\<lparr>task_fd_table := the table\<rparr>) s))"

definition initialize_task_fds :: "task_ref \<Rightarrow> 'a sched_state_scheme \<Rightarrow> (unit, 'a sched_state_scheme) outcome" where
  "initialize_task_fds t s =
    chain (fd_table_initialize (Some (task_fd_table (tasks s t))) s) (\<lambda>table s.
      Ret () (upd_task t (\<lambda>x. x\<lparr>task_fd_table := table\<rparr>) s))"

definition task_create_kernel :: "task_ref \<Rightarrow> u32 \<Rightarrow> addr \<Rightarrow> 'a sched_state_scheme \<Rightarrow> (bool, 'a sched_state_scheme) outcome" where
  "task_create_kernel t new_id entry s =
    (let (new_rsp, s) = task_build_kernel_stack entry s
     in if new_rsp = 0 then Ret False (upd_task t (\<lambda>x. x\<lparr>rsp := 0, state := TASK_UNUSED\<rparr>) s)
     else
       let s = upd_task t (\<lambda>x. x\<lparr>rsp := new_rsp, task_cr3 := paging_kernel_address_space s, state := TASK_RUNNABLE,
                 task_kind := TASK_KERNEL, task_id := new_id\<rparr>) s
       in chain (initialize_task_fds t s) (\<lambda>_ s.
          let s = upd_task t (\<lambda>x. x\<lparr>user_bootstrap := cleared_bootstrap\<rparr>) s
          in seed_task_console t s))"

definition task_create_user :: "task_ref \<Rightarrow> u32 \<Rightarrow> user_task_bootstrap \<Rightarrow> 'a sched_state_scheme \<Rightarrow> (bool, 'a sched_state_scheme) outcome" where
  "task_create_user t new_id bootstrap s =
    (if address_space bootstrap = 0 \<or> trampoline_entry bootstrap = 0 \<or> user_entry bootstrap = 0
        \<or> user_stack_page bootstrap = 0 \<or> user_stack_top bootstrap = 0 then Ret False s
     else
       let (new_rsp, s) = task_build_user_stack bootstrap s
       in if new_rsp = 0 then Ret False (upd_task t (\<lambda>x. x\<lparr>rsp := 0, state := TASK_UNUSED\<rparr>) s)
       else
         let s = upd_task t (\<lambda>x. x\<lparr>rsp := new_rsp, task_cr3 := address_space bootstrap, state := TASK_RUNNABLE,
                   task_kind := TASK_USER, task_id := new_id, user_bootstrap := bootstrap\<rparr>) s
         in chain (initialize_task_fds t s) (\<lambda>_ s. seed_task_console t s))"

definition sched_enable_user_task :: "user_task_bootstrap \<Rightarrow> 'a sched_state_scheme \<Rightarrow> (unit, 'a sched_state_scheme) outcome" where
  "sched_enable_user_task bootstrap s =
    (if address_space bootstrap = 0 \<or> trampoline_base (layout bootstrap) = 0 \<or> image_base (layout bootstrap) = 0
        \<or> stack_top (layout bootstrap) = 0 \<or> trampoline_entry bootstrap = 0 \<or> user_entry bootstrap = 0
        \<or> user_stack_page bootstrap = 0 \<or> user_stack_top bootstrap = 0
     then sched_fail ''sched bootstrap fail'' s
     else Ret () (s\<lparr>user_task_enabled := True, user_task_bootstrap := bootstrap\<rparr>))"

definition reset_task :: "u32 \<Rightarrow> task \<Rightarrow> task" where
  "reset_task new_id x = x\<lparr>rsp := 0, task_cr3 := 0, state := TASK_UNUSED, task_kind := TASK_KERNEL, task_id := new_id,
     user_bootstrap := cleared_bootstrap\<rparr>"

definition sched_initialize :: "build \<Rightarrow> 'a sched_state_scheme \<Rightarrow> (unit, 'a sched_state_scheme) outcome" where
  "sched_initialize bld s =
    (let s = s\<lparr>worker_counter := 0, current := None, sched_started := False\<rparr>
     in chain (initialize_task_fds Task0 (upd_task Task0 (reset_task 0) s)) (\<lambda>_ s.
        chain (initialize_task_fds Task1 (upd_task Task1 (reset_task 1) s)) (\<lambda>_ s.
        chain (task_create_kernel Task0 0 (task_idle bld) s) (\<lambda>created s.
          if \<not> created then Halt s
          else if user_task_enabled s then
            chain (task_create_user Task1 1 (user_task_bootstrap s) s) (\<lambda>created s. if \<not> created then Halt s else Ret () s)
          else chain (task_create_kernel Task1 1 (task_worker bld) s) (\<lambda>created s. if \<not> created then Halt s else Ret () s)))))"

section \<open>Changing tasks\<close>

text \<open>The common end of a tick and of an exit: the chosen task is validated, activated and running.\<close>

definition start_task :: "task_ref \<Rightarrow> string \<Rightarrow> 'a sched_state_scheme \<Rightarrow> (addr, 'a sched_state_scheme) outcome" where
  "start_task t text s =
    (let s = s\<lparr>current := Some t\<rparr>
     in chain (sched_validate_task (current s) TASK_RUNNABLE text s) (\<lambda>_ s.
        let s = paging_activate (task_cr3 (tasks s t)) s;
            s = upd_task t (\<lambda>x. x\<lparr>state := TASK_RUNNING\<rparr>) s
        in Ret (rsp (tasks s t)) s))"

definition sched_tick :: "addr \<Rightarrow> 'a sched_state_scheme \<Rightarrow> (addr, 'a sched_state_scheme) outcome" where
  "sched_tick current_rsp s =
    (if \<not> sched_started s then
       start_task (if user_task_enabled s then Task1 else Task0) ''sched start state'' (s\<lparr>sched_started := True\<rparr>)
     else case current s of None \<Rightarrow> Halt s
     | Some c \<Rightarrow>
         if state (tasks s c) = TASK_RUNNING then
           (if rsp (tasks s c) = 0 then sched_fail ''sched current rsp'' s
            else
              let s = upd_task c (\<lambda>x. x\<lparr>rsp := current_rsp, state := TASK_RUNNABLE\<rparr>) s
              in chain (sched_select_next c s) (\<lambda>next s. start_task next ''sched next state'' s))
         else sched_fail ''sched tick state'' s)"

definition sched_exit_current :: "addr \<Rightarrow> 'a sched_state_scheme \<Rightarrow> (addr, 'a sched_state_scheme) outcome" where
  "sched_exit_current current_rsp s =
    (case current s of None \<Rightarrow> sched_fail ''sched exit state'' s
     | Some c \<Rightarrow>
       if \<not> sched_started s then sched_fail ''sched exit state'' s
       else
         chain (fd_table_close_all (Some (task_fd_table (tasks s c))) s) (\<lambda>table s.
         let s = upd_task c (\<lambda>x. x\<lparr>task_fd_table := the table\<rparr>) s;
             finished_bootstrap = user_bootstrap (tasks s c);
             s = upd_task c (\<lambda>x. x\<lparr>user_bootstrap := cleared_bootstrap, rsp := 0, state := TASK_DONE\<rparr>) s
         in chain (sched_select_next c s) (\<lambda>next s.
            chain (start_task next ''sched exit next'' s) (\<lambda>_ s.
            chain (sched_release_user_bootstrap (Some finished_bootstrap) s) (\<lambda>_ s.
            Ret (rsp (tasks s next)) s)))))"

section \<open>Queries\<close>

definition sched_debug_worker_counter :: "'a sched_state_scheme \<Rightarrow> u64" where
  "sched_debug_worker_counter s = worker_counter s"

definition sched_current_task_id :: "'a sched_state_scheme \<Rightarrow> u32" where
  "sched_current_task_id s = (case current s of None \<Rightarrow> 0 | Some c \<Rightarrow> task_id (tasks s c))"

definition sched_current_task_kind :: "'a sched_state_scheme \<Rightarrow> task_kind" where
  "sched_current_task_kind s = (case current s of None \<Rightarrow> TASK_KERNEL | Some c \<Rightarrow> task_kind (tasks s c))"

definition sched_current_fd_table :: "'a sched_state_scheme \<Rightarrow> fd_table option" where
  "sched_current_fd_table s = (case current s of None \<Rightarrow> None | Some c \<Rightarrow> Some (task_fd_table (tasks s c)))"

text \<open>The two functions that hand out the current user task; \<open>None\<close> is the result 0. Callers pass no null pointers.\<close>

definition running_user :: "'a sched_state_scheme \<Rightarrow> task option" where
  "running_user s = (case current s of None \<Rightarrow> None
   | Some c \<Rightarrow> if task_kind (tasks s c) \<noteq> TASK_USER \<or> state (tasks s c) \<noteq> TASK_RUNNING then None else Some (tasks s c))"

definition sched_current_user_context :: "'a sched_state_scheme \<Rightarrow> (user_virtual_layout \<times> addr) option" where
  "sched_current_user_context s = (case running_user s of None \<Rightarrow> None
   | Some t \<Rightarrow> if address_space (user_bootstrap t) = 0 then None
       else Some (layout (user_bootstrap t), address_space (user_bootstrap t)))"

definition sched_current_user_bootstrap :: "'a sched_state_scheme \<Rightarrow> user_task_bootstrap option" where
  "sched_current_user_bootstrap s = (case running_user s of None \<Rightarrow> None
   | Some t \<Rightarrow> if address_space (user_bootstrap t) = 0 then None else Some (user_bootstrap t))"

section \<open>Exec\<close>

definition sched_exec_current :: "user_task_bootstrap \<Rightarrow> 'a sched_state_scheme \<Rightarrow> (addr, 'a sched_state_scheme) outcome" where
  "sched_exec_current bootstrap s =
    (case current s of None \<Rightarrow> Ret 0 s
     | Some c \<Rightarrow>
       if \<not> sched_started s \<or> task_kind (tasks s c) \<noteq> TASK_USER \<or> state (tasks s c) \<noteq> TASK_RUNNING then Ret 0 s
       else if address_space bootstrap = 0 \<or> trampoline_entry bootstrap = 0 \<or> user_entry bootstrap = 0
          \<or> user_stack_page bootstrap = 0 \<or> user_stack_top bootstrap = 0 then Ret 0 s
       else
         let (new_rsp, s) = task_build_user_stack bootstrap s
         in if new_rsp = 0 then Ret 0 s
         else chain (fd_table_close_all (Some (task_fd_table (tasks s c))) s) (\<lambda>table s.
              let s = upd_task c (\<lambda>x. x\<lparr>task_fd_table := the table\<rparr>) s
              in chain (initialize_task_fds c s) (\<lambda>_ s.
                 chain (seed_task_console c s) (\<lambda>seeded s.
                   if \<not> seeded then Ret 0 s
                   else
                     let previous_bootstrap = user_bootstrap (tasks s c);
                         previous_bootstrap =
                           (if image_physical_begin previous_bootstrap = image_physical_begin bootstrap
                               \<and> image_physical_end previous_bootstrap = image_physical_end bootstrap
                            then previous_bootstrap\<lparr>image_physical_begin := 0, image_physical_end := 0\<rparr>
                            else previous_bootstrap);
                         s = upd_task c (\<lambda>x. x\<lparr>rsp := new_rsp, task_cr3 := address_space bootstrap, user_bootstrap := bootstrap\<rparr>) s;
                         s = paging_activate (task_cr3 (tasks s c)) s
                     in chain (sched_release_user_bootstrap (Some previous_bootstrap) s) (\<lambda>_ s.
                        Ret (rsp (tasks s c)) s)))))"

end
