(* ===== verification/Devices.thy ===== *)
theory Devices
  imports Sched
begin

text \<open>
  The descriptor tables of \<open>src/kernel/gdt.c\<close> and \<open>src/kernel/idt.c\<close>, and the port programming of
  \<open>src/drivers/serial.c\<close>, \<open>pic.c\<close> and \<open>pit.c\<close>. The static arrays are lists, their addresses come from the linker and
  are parameters; the ports are a log of the bytes written.
\<close>

section \<open>State\<close>

record idt_entry =
  offset_low :: u16
  selector :: u16
  ist :: u8
  type_attributes :: u8
  offset_mid :: u16
  offset_high :: u32
  reserved :: u32

text \<open>Where the linker put the static objects and the entry points.\<close>

record static_objects =
  gdt_address :: addr
  gdtr_address :: addr
  tss_address :: addr
  idt_address :: addr
  idtr_address :: addr
  arch_isr_invalid_opcode :: addr
  arch_isr_general_protection :: addr
  arch_isr_page_fault :: addr
  arch_irq0_entry :: addr
  arch_syscall_entry :: addr

record kernel_state = sched_state +
  port_log :: "(u16 \<times> u8) list"
  gdt :: "u64 list"
  gdtr :: "u8 list"
  tss :: "u8 list"
  idt :: "idt_entry list"
  idtr :: "u8 list"
  loaded_gdtr :: "u8 list"
  loaded_tr :: u16
  loaded_idtr :: "u8 list"
  interrupts_enabled :: bool
  kernel_ticks :: u64

section \<open>Ports\<close>

definition io_write8 :: "u16 \<Rightarrow> u8 \<Rightarrow> 'a kernel_state_scheme \<Rightarrow> 'a kernel_state_scheme" where
  "io_write8 port v s = s\<lparr>port_log := port_log s @ [(port, v)]\<rparr>"

definition io_wait :: "'a kernel_state_scheme \<Rightarrow> 'a kernel_state_scheme" where
  "io_wait s = io_write8 0x80 0 s"

definition serial_com1 :: u16 where "serial_com1 = 0x3F8"

definition serial_init :: "'a kernel_state_scheme \<Rightarrow> 'a kernel_state_scheme" where
  "serial_init s =
    (let s = io_write8 (serial_com1 + 1) 0x00 s;
         s = io_write8 (serial_com1 + 3) 0x80 s;
         s = io_write8 (serial_com1 + 0) 0x03 s;
         s = io_write8 (serial_com1 + 1) 0x00 s;
         s = io_write8 (serial_com1 + 3) 0x03 s;
         s = io_write8 (serial_com1 + 2) 0xC7 s
     in io_write8 (serial_com1 + 4) 0x0B s)"

definition pic1_command :: u16 where "pic1_command = 0x20"
definition pic1_data :: u16 where "pic1_data = 0x21"
definition pic2_command :: u16 where "pic2_command = 0xA0"
definition pic2_data :: u16 where "pic2_data = 0xA1"

text \<open>\<open>old_master\<close> is the mask the controller returned; the other mask it reads is not used.\<close>

definition pic_initialize :: "u8 \<Rightarrow> 'a kernel_state_scheme \<Rightarrow> 'a kernel_state_scheme" where
  "pic_initialize old_master s =
    (let s = io_wait (io_write8 pic1_command (0x10 OR 0x01) s);
         s = io_wait (io_write8 pic2_command (0x10 OR 0x01) s);
         s = io_wait (io_write8 pic1_data 0x20 s);
         s = io_wait (io_write8 pic2_data 0x28 s);
         s = io_wait (io_write8 pic1_data 0x04 s);
         s = io_wait (io_write8 pic2_data 0x02 s);
         s = io_wait (io_write8 pic1_data 0x01 s);
         s = io_wait (io_write8 pic2_data 0x01 s);
         master_mask = (old_master OR 0xFF) AND NOT 0x01 AND NOT 0x04;
         slave_mask = 0xFF;
         s = io_write8 pic1_data master_mask s
     in io_write8 pic2_data slave_mask s)"

definition pic_eoi :: "u8 \<Rightarrow> 'a kernel_state_scheme \<Rightarrow> 'a kernel_state_scheme" where
  "pic_eoi irq s =
    (let s = (if 8 \<le> irq then io_write8 pic2_command 0x20 s else s) in io_write8 pic1_command 0x20 s)"

definition pit_input_hz :: u32 where "pit_input_hz = 1193182"

definition pit_divisor :: "u32 \<Rightarrow> u16" where
  "pit_divisor frequency_hz =
    (let frequency_hz = (if frequency_hz = 0 then 100 else frequency_hz);
         divisor32 = pit_input_hz div frequency_hz;
         divisor32 = (if divisor32 = 0 then 1 else divisor32);
         divisor32 = (if 65535 < divisor32 then 65535 else divisor32)
     in ucast divisor32)"

definition pit_initialize :: "u32 \<Rightarrow> 'a kernel_state_scheme \<Rightarrow> 'a kernel_state_scheme" where
  "pit_initialize frequency_hz s =
    (let divisor = pit_divisor frequency_hz;
         s = io_write8 0x43 0x36 s;
         s = io_write8 0x40 (ucast (divisor AND 0xFF)) s
     in io_write8 0x40 (ucast (drop_bit 8 divisor AND 0xFF)) s)"

section \<open>Global descriptor table\<close>

definition write_le16 :: "nat \<Rightarrow> u16 \<Rightarrow> u8 list \<Rightarrow> u8 list" where
  "write_le16 at v buffer = buffer[at := ucast (v AND 0xFF), at + 1 := ucast (drop_bit 8 v AND 0xFF)]"

definition write_le64 :: "nat \<Rightarrow> u64 \<Rightarrow> u8 list \<Rightarrow> u8 list" where
  "write_le64 at v buffer = fold (\<lambda>i b. b[at + i := ucast (drop_bit (8 * i) v AND 0xFF)]) [0..<8] buffer"

definition zero_tss :: "u8 list \<Rightarrow> u8 list" where
  "zero_tss t = fold (\<lambda>index t. t[index := 0]) [0..<104] t"

definition gdt_make_code_data_descriptor :: "u32 \<Rightarrow> u32 \<Rightarrow> u64" where
  "gdt_make_code_data_descriptor access flags =
    (let v = 0 OR 0x0000FFFF;
         v = v OR push_bit 40 (ucast (access AND 0xFF));
         v = v OR push_bit 52 (ucast (flags AND 0x0F))
     in v OR 0x000F000000000000)"

definition tss_descriptor :: "addr \<Rightarrow> u32 \<Rightarrow> u64 \<times> u64" where
  "tss_descriptor base limit =
    (let low = 0 OR ucast (limit AND 0xFFFF);
         low = low OR push_bit 16 (base AND 0xFFFFFF);
         low = low OR push_bit 40 0x89;
         low = low OR push_bit 48 (ucast (drop_bit 16 limit AND 0x0F));
         low = low OR push_bit 56 (drop_bit 24 base AND 0xFF)
     in (low, 0 OR (drop_bit 32 base AND 0xFFFFFFFF)))"

definition gdt_set_tss_descriptor :: "addr \<Rightarrow> u32 \<Rightarrow> 'a kernel_state_scheme \<Rightarrow> 'a kernel_state_scheme" where
  "gdt_set_tss_descriptor base limit s =
    (let (low, high) = tss_descriptor base limit in s\<lparr>gdt := (gdt s)[5 := low, 6 := high]\<rparr>)"

definition gdt_initialize :: "static_objects \<Rightarrow> 'a kernel_state_scheme \<Rightarrow> 'a kernel_state_scheme" where
  "gdt_initialize at s =
    (let s = s\<lparr>gdt := fold (\<lambda>index g. g[index := 0]) [0..<7] (gdt s)\<rparr>;
         s = s\<lparr>tss := write_le16 102 104 (zero_tss (tss s))\<rparr>;
         s = s\<lparr>gdt := (gdt s)[0 := 0, 1 := gdt_make_code_data_descriptor 0x9A 0x0A, 2 := gdt_make_code_data_descriptor 0x92 0x08,
                3 := gdt_make_code_data_descriptor 0xF2 0x08, 4 := gdt_make_code_data_descriptor 0xFA 0x0A]\<rparr>;
         s = gdt_set_tss_descriptor (tss_address at) (104 - 1) s;
         s = s\<lparr>gdtr := write_le64 2 (gdt_address at) (write_le16 0 (56 - 1) (gdtr s))\<rparr>
     in s\<lparr>loaded_gdtr := gdtr s, loaded_tr := 5 * 8\<rparr>)"

definition gdt_set_tss_rsp0 :: "u64 \<Rightarrow> 'a kernel_state_scheme \<Rightarrow> 'a kernel_state_scheme" where
  "gdt_set_tss_rsp0 rsp0 s = s\<lparr>tss := write_le64 4 rsp0 (tss s)\<rparr>"

definition gdt_reserved_begin :: "static_objects \<Rightarrow> addr" where
  "gdt_reserved_begin at =
    (let m = gdt_address at; m = (if gdtr_address at < m then gdtr_address at else m)
     in if tss_address at < m then tss_address at else m)"

definition gdt_reserved_end :: "static_objects \<Rightarrow> addr" where
  "gdt_reserved_end at =
    (let m = gdt_address at + 56; m = (if m < gdtr_address at + 10 then gdtr_address at + 10 else m)
     in if m < tss_address at + 104 then tss_address at + 104 else m)"

section \<open>Interrupt descriptor table\<close>

definition idt_gate :: "addr \<Rightarrow> u8 \<Rightarrow> idt_entry" where
  "idt_gate handler attributes = \<lparr>offset_low = ucast (handler AND 0xFFFF), selector = 0x08, ist = 0,
     type_attributes = attributes, offset_mid = ucast (drop_bit 16 handler AND 0xFFFF),
     offset_high = ucast (drop_bit 32 handler AND 0xFFFFFFFF), reserved = 0\<rparr>"

definition idt_set_gate_with_type :: "u8 \<Rightarrow> addr \<Rightarrow> u8 \<Rightarrow> 'a kernel_state_scheme \<Rightarrow> 'a kernel_state_scheme" where
  "idt_set_gate_with_type vector handler attributes s = s\<lparr>idt := (idt s)[unat vector := idt_gate handler attributes]\<rparr>"

definition idt_set_gate :: "u8 \<Rightarrow> addr \<Rightarrow> 'a kernel_state_scheme \<Rightarrow> 'a kernel_state_scheme" where
  "idt_set_gate vector handler s = idt_set_gate_with_type vector handler 0x8E s"

definition empty_gate :: idt_entry where
  "empty_gate = \<lparr>offset_low = 0, selector = 0, ist = 0, type_attributes = 0, offset_mid = 0, offset_high = 0, reserved = 0\<rparr>"

definition idt_initialize :: "static_objects \<Rightarrow> 'a kernel_state_scheme \<Rightarrow> 'a kernel_state_scheme" where
  "idt_initialize at s =
    (let s = s\<lparr>idt := fold (\<lambda>index i. i[index := empty_gate]) [0..<256] (idt s)\<rparr>;
         s = idt_set_gate 6 (arch_isr_invalid_opcode at) s;
         s = idt_set_gate 13 (arch_isr_general_protection at) s;
         s = idt_set_gate 14 (arch_isr_page_fault at) s;
         s = s\<lparr>idtr := write_le64 2 (idt_address at) (write_le16 0 (4096 - 1) (idtr s))\<rparr>
     in s\<lparr>loaded_idtr := idtr s\<rparr>)"

definition idt_set_irq0_gate :: "static_objects \<Rightarrow> 'a kernel_state_scheme \<Rightarrow> 'a kernel_state_scheme" where
  "idt_set_irq0_gate at s = idt_set_gate 32 (arch_irq0_entry at) s"

definition idt_set_syscall_gate :: "static_objects \<Rightarrow> 'a kernel_state_scheme \<Rightarrow> 'a kernel_state_scheme" where
  "idt_set_syscall_gate at s = idt_set_gate_with_type 128 (arch_syscall_entry at) 0xEE s"

definition idt_reserved_begin :: "static_objects \<Rightarrow> addr" where
  "idt_reserved_begin at = (if idt_address at < idtr_address at then idt_address at else idtr_address at)"

definition idt_reserved_end :: "static_objects \<Rightarrow> addr" where
  "idt_reserved_end at =
    (if idtr_address at + 10 < idt_address at + 4096 then idt_address at + 4096 else idtr_address at + 10)"

end
