(* ===== verification/Core.thy ===== *)
theory Core
  imports Devices
begin

text \<open>
  \<open>src/kernel/core.c\<close> and \<open>src/common/syscall.h\<close>: the timer interrupt, the system calls with their checks on user
  pointers, the set-up of the first user task, and \<open>kernel_main\<close>. A system call finds its arguments in the frame that
  \<open>arch_syscall_entry\<close> pushed, which is memory at \<open>current_rsp\<close>.
\<close>

section \<open>System call numbers\<close>

definition SYS_PUTC :: u64 where "SYS_PUTC = 0"
definition SYS_YIELD :: u64 where "SYS_YIELD = 1"
definition SYS_GET_TICKS :: u64 where "SYS_GET_TICKS = 2"
definition SYS_EXIT :: u64 where "SYS_EXIT = 3"
definition SYS_READ :: u64 where "SYS_READ = 4"
definition SYS_WRITE :: u64 where "SYS_WRITE = 5"
definition SYS_CLOSE :: u64 where "SYS_CLOSE = 6"
definition SYS_DUP :: u64 where "SYS_DUP = 7"
definition SYS_OPEN :: u64 where "SYS_OPEN = 8"
definition SYS_EXEC :: u64 where "SYS_EXEC = 9"
definition SYS_RESULT_OK :: u64 where "SYS_RESULT_OK = 0"
definition SYS_RESULT_ERROR :: u64 where "SYS_RESULT_ERROR = - 1"

definition first_user_layout :: user_virtual_layout where
  "first_user_layout = \<lparr>trampoline_base = 0x40000000, image_base = 0x40001000, stack_top = 0x40200000\<rparr>"

section \<open>The frame\<close>

text \<open>The offsets of \<open>struct syscall_frame\<close> in the order \<open>arch_syscall_entry\<close> pushes the registers.\<close>

definition frame_rdi :: "addr \<Rightarrow> 'a machine_scheme \<Rightarrow> u64" where "frame_rdi frame s = load64 s (frame + 64)"
definition frame_rsi :: "addr \<Rightarrow> 'a machine_scheme \<Rightarrow> u64" where "frame_rsi frame s = load64 s (frame + 72)"
definition frame_rdx :: "addr \<Rightarrow> 'a machine_scheme \<Rightarrow> u64" where "frame_rdx frame s = load64 s (frame + 88)"
definition frame_rax :: "addr \<Rightarrow> 'a machine_scheme \<Rightarrow> u64" where "frame_rax frame s = load64 s (frame + 112)"

definition syscall_return :: "addr \<Rightarrow> u64 \<Rightarrow> 'a machine_scheme \<Rightarrow> 'a machine_scheme" where
  "syscall_return frame v s = store64 (frame + 112) v s"

section \<open>Timer\<close>

definition kernel_timer_tick :: "addr \<Rightarrow> 'a kernel_state_scheme \<Rightarrow> (addr, 'a kernel_state_scheme) outcome" where
  "kernel_timer_tick current_rsp s =
    (let s = s\<lparr>kernel_ticks := kernel_ticks s + 1\<rparr>;
         s = (if kernel_ticks s mod 100 = 0 \<and> sched_current_task_kind s = TASK_KERNEL \<and> sched_current_task_id s = 1
              then write_text [CHR 0x0D, CHR 0x0A] (write_decimal_u64 (sched_debug_worker_counter s) (write_text ''worker '' s))
              else s);
         s = pic_eoi 0 s
     in sched_tick current_rsp s)"

section \<open>Checks on user pointers\<close>

definition syscall_buffer_valid :: "addr \<Rightarrow> u64 \<Rightarrow> bool" where
  "syscall_buffer_valid buffer count = (if count = 0 then True else buffer \<noteq> 0)"

definition syscall_user_range_in_layout :: "user_virtual_layout option \<Rightarrow> addr \<Rightarrow> u64 \<Rightarrow> bool" where
  "syscall_user_range_in_layout l start count = (case l of None \<Rightarrow> False
   | Some user_layout \<Rightarrow>
       if start < trampoline_base user_layout \<or> stack_top user_layout \<le> start then False
       else if count = 0 then True
       else let end' = start + (count - 1) in if end' < start \<or> stack_top user_layout \<le> end' then False else True)"

definition syscall_user_buffer_valid :: "addr \<Rightarrow> user_virtual_layout option \<Rightarrow> addr \<Rightarrow> u64 \<Rightarrow> 'a machine_scheme \<Rightarrow> (bool, 'a machine_scheme) outcome" where
  "syscall_user_buffer_valid user_space user_layout buffer count s =
    (if \<not> syscall_buffer_valid buffer count then Ret False s
     else if count = 0 then Ret True s
     else if \<not> syscall_user_range_in_layout user_layout buffer count then Ret False s
     else paging_user_range_mapped user_space buffer count s)"

text \<open>
  \<open>syscall_copy_path\<close>: \<open>left\<close> turns are left and \<open>dst\<close> holds the characters copied so far. The result is the path
  without its terminator, \<open>None\<close> for the result 0.
\<close>

primrec copy_path_loop ::
  "nat \<Rightarrow> string \<Rightarrow> addr \<Rightarrow> addr \<Rightarrow> user_virtual_layout option \<Rightarrow> 'a machine_scheme \<Rightarrow> (string option, 'a machine_scheme) outcome" where
  "copy_path_loop 0 dst src user_space user_layout s = Ret None s"
| "copy_path_loop (Suc left) dst src user_space user_layout s =
    (let address = src + of_nat (length dst)
     in if address < src \<or> \<not> syscall_user_range_in_layout user_layout address 1 then Ret None s
     else chain (paging_user_range_mapped user_space address 1 s) (\<lambda>mapped s.
       if \<not> mapped then Ret None s
       else chain (load8 address s) (\<lambda>b s.
         if dst = [] \<and> byte_to_char b \<noteq> CHR 0x2F then Ret None s
         else if b = 0 then Ret (Some dst) s
         else copy_path_loop left (dst @ [byte_to_char b]) src user_space user_layout s)))"

definition syscall_copy_path :: "u64 \<Rightarrow> addr \<Rightarrow> addr \<Rightarrow> user_virtual_layout option \<Rightarrow> 'a machine_scheme \<Rightarrow> (string option, 'a machine_scheme) outcome" where
  "syscall_copy_path dst_size src user_space user_layout s =
    (if dst_size = 0 \<or> src = 0 then Ret None s
     else copy_path_loop (unat dst_size - 1) [] src user_space user_layout s)"

section \<open>Exec\<close>

definition syscall_release_bootstrap :: "user_task_bootstrap option \<Rightarrow> 'a kernel_state_scheme \<Rightarrow> (user_task_bootstrap option, 'a kernel_state_scheme) outcome" where
  "syscall_release_bootstrap bootstrap s = (case bootstrap of None \<Rightarrow> Ret None s
   | Some b \<Rightarrow>
       let loaded_image = \<lparr>load_begin = 0, load_end = 0, load_physical_begin = image_physical_begin b,
             load_physical_end = image_physical_end b, reusable_physical_begin = 0, reusable_physical_end = 0,
             loaded_entry = 0, loaded_stack_page = user_stack_page b, loaded_stack_top = user_stack_top b\<rparr>
       in chain (elf_release_user_image (Some loaded_image) s) (\<lambda>_ s.
          Ret (Some cleared_bootstrap) (paging_release_user_address_space (address_space b) (Some (layout b)) s)))"

text \<open>\<open>None\<close> is the result 0; then the caller does not look at the bootstrap.\<close>

definition syscall_prepare_exec_bootstrap ::
  "build \<Rightarrow> addr \<Rightarrow> u64 \<Rightarrow> user_task_bootstrap option \<Rightarrow> 'a kernel_state_scheme \<Rightarrow> (user_task_bootstrap option, 'a kernel_state_scheme) outcome" where
  "syscall_prepare_exec_bootstrap bld img img_size current_bootstrap s =
    (let (space, s) = paging_create_user_address_space s
     in if space = 0 \<or> \<not> paging_address_space_valid space s then Ret None s
     else
       let (reuse_begin, reuse_end) = (case current_bootstrap of None \<Rightarrow> (0, 0)
             | Some b \<Rightarrow> (image_physical_begin b, image_physical_end b))
       in chain (elf_load_user_image img img_size first_user_layout space reuse_begin reuse_end (Some cleared_image) s) (\<lambda>(loaded, image_opt) s.
            if \<not> loaded then Ret None (paging_release_user_address_space space (Some first_user_layout) s)
            else
              let trampoline_page = arch_user_program_entry bld AND NOT 4095
              in chain (paging_map_user_page space (trampoline_base first_user_layout) trampoline_page s) (\<lambda>_ s.
                   if \<not> paging_mapping_matches space (trampoline_base first_user_layout) trampoline_page True s then
                     chain (elf_release_user_image image_opt s) (\<lambda>_ s.
                       Ret None (paging_release_user_address_space space (Some first_user_layout) s))
                   else
                     let loaded_image = the image_opt
                     in Ret (Some \<lparr>layout = first_user_layout, address_space = space,
                          trampoline_entry = trampoline_base first_user_layout + (arch_user_program_entry bld AND 4095),
                          user_entry = loaded_entry loaded_image, image_physical_begin = load_physical_begin loaded_image,
                          image_physical_end = load_physical_end loaded_image, user_stack_page = loaded_stack_page loaded_image,
                          user_stack_top = loaded_stack_top loaded_image\<rparr>) s)))"

section \<open>System calls\<close>

type_synonym 'a syscall = "addr \<Rightarrow> 'a kernel_state_scheme \<Rightarrow> (addr, 'a kernel_state_scheme) outcome"

definition syscall_result :: "u64 \<Rightarrow> 'a syscall" where
  "syscall_result v frame s = Ret frame (syscall_return frame v s)"

definition set_current_fd_table :: "fd_table option \<Rightarrow> 'a sched_state_scheme \<Rightarrow> 'a sched_state_scheme" where
  "set_current_fd_table table s = (case (current s, table) of
     (Some c, Some t) \<Rightarrow> upd_task c (\<lambda>x. x\<lparr>task_fd_table := t\<rparr>) s
   | _ \<Rightarrow> s)"

definition int_result :: "i32 \<Rightarrow> u64" where
  "int_result r = scast r"

definition sys_read :: "user_virtual_layout \<Rightarrow> addr \<Rightarrow> 'a syscall" where
  "sys_read user_layout user_space frame s =
    (case sched_current_fd_table s of None \<Rightarrow> syscall_result SYS_RESULT_ERROR frame s
     | Some table \<Rightarrow>
       chain (syscall_user_buffer_valid user_space (Some user_layout) (frame_rsi frame s) (frame_rdx frame s) s) (\<lambda>valid s.
         if \<not> valid then syscall_result SYS_RESULT_ERROR frame s
         else chain (fd_table_read (Some table) (ucast (frame_rdi frame s)) (Pointer (frame_rsi frame s)) (frame_rdx frame s) s)
                (\<lambda>r s. syscall_result (int_result r) frame s)))"

definition sys_write :: "user_virtual_layout \<Rightarrow> addr \<Rightarrow> 'a syscall" where
  "sys_write user_layout user_space frame s =
    (case sched_current_fd_table s of None \<Rightarrow> syscall_result SYS_RESULT_ERROR frame s
     | Some table \<Rightarrow>
       chain (syscall_user_buffer_valid user_space (Some user_layout) (frame_rsi frame s) (frame_rdx frame s) s) (\<lambda>valid s.
         if \<not> valid then syscall_result SYS_RESULT_ERROR frame s
         else chain (fd_table_write (Some table) (ucast (frame_rdi frame s)) (Pointer (frame_rsi frame s)) (frame_rdx frame s) s)
                (\<lambda>r s. syscall_result (int_result r) frame s)))"

definition sys_open :: "user_virtual_layout \<Rightarrow> addr \<Rightarrow> 'a syscall" where
  "sys_open user_layout user_space frame s =
    (case sched_current_fd_table s of None \<Rightarrow> syscall_result SYS_RESULT_ERROR frame s
     | Some table \<Rightarrow>
       chain (syscall_copy_path 64 (frame_rdi frame s) user_space (Some user_layout) s) (\<lambda>path s.
         if path = None then syscall_result SYS_RESULT_ERROR frame s
         else chain (vfs_open_path path (ucast (frame_rsi frame s)) s) (\<lambda>file s.
           if file = 0 then syscall_result SYS_RESULT_ERROR frame s
           else
             let k = (if node_kind (nodes s (file_node (files s file))) = VFS_NODE_CONSOLE then FD_KIND_CONSOLE else FD_KIND_PLACEHOLDER);
                 (fd, table') = fd_table_install (Some table) k file
             in if sint fd < 0 then chain (vfs_file_close file s) (\<lambda>_ s. syscall_result SYS_RESULT_ERROR frame s)
                else syscall_result (int_result fd) frame (set_current_fd_table table' s))))"

text \<open>The part of \<open>SYS_EXEC\<close> after the executable was found.\<close>

definition exec_image :: "build \<Rightarrow> addr \<Rightarrow> u64 \<Rightarrow> 'a syscall" where
  "exec_image bld img img_size frame s =
    (case sched_current_user_bootstrap s of None \<Rightarrow> syscall_result SYS_RESULT_ERROR frame s
     | Some current_bootstrap \<Rightarrow>
       chain (syscall_prepare_exec_bootstrap bld img img_size (Some current_bootstrap) s) (\<lambda>prepared s.
         case prepared of None \<Rightarrow> syscall_result SYS_RESULT_ERROR frame s
         | Some bootstrap \<Rightarrow>
           let bootstrap = (if USER_TEST_EXEC_TRANSFER_FAIL bld then bootstrap\<lparr>trampoline_entry := 0\<rparr> else bootstrap)
           in chain (sched_exec_current bootstrap s) (\<lambda>next_rsp s.
                if next_rsp = 0 then
                  chain (syscall_release_bootstrap (Some bootstrap) s) (\<lambda>_ s. syscall_result SYS_RESULT_ERROR frame s)
                else Ret next_rsp s)))"

definition sys_exec :: "build \<Rightarrow> user_virtual_layout \<Rightarrow> addr \<Rightarrow> 'a syscall" where
  "sys_exec bld user_layout user_space frame s =
    chain (syscall_copy_path 64 (frame_rdi frame s) user_space (Some user_layout) s) (\<lambda>path s.
      if path = None then syscall_result SYS_RESULT_ERROR frame s
      else chain (vfs_open_exec_path path s) (\<lambda>file s.
        if file = 0 then syscall_result SYS_RESULT_ERROR frame s
        else case vfs_file_executable_image file s of
          None \<Rightarrow> chain (vfs_file_close file s) (\<lambda>_ s. syscall_result SYS_RESULT_ERROR frame s)
        | Some (img, img_size) \<Rightarrow>
            if img = 0 \<or> img_size = 0 then chain (vfs_file_close file s) (\<lambda>_ s. syscall_result SYS_RESULT_ERROR frame s)
            else chain (vfs_file_close file s) (\<lambda>r s.
              if r \<noteq> 0 then syscall_result SYS_RESULT_ERROR frame s else exec_image bld img img_size frame s)))"

definition sys_close :: "'a syscall" where
  "sys_close frame s =
    (case sched_current_fd_table s of None \<Rightarrow> syscall_result SYS_RESULT_ERROR frame s
     | Some table \<Rightarrow> chain (fd_table_close (Some table) (ucast (frame_rdi frame s)) s)
         (\<lambda>(r, table') s. syscall_result (int_result r) frame (set_current_fd_table table' s)))"

definition sys_dup :: "'a syscall" where
  "sys_dup frame s =
    (case sched_current_fd_table s of None \<Rightarrow> syscall_result SYS_RESULT_ERROR frame s
     | Some table \<Rightarrow> chain (fd_table_dup (Some table) (ucast (frame_rdi frame s)) s)
         (\<lambda>(r, table') s. syscall_result (int_result r) frame (set_current_fd_table table' s)))"

definition kernel_syscall_entry :: "build \<Rightarrow> 'a syscall" where
  "kernel_syscall_entry bld frame s =
    (let number = frame_rax frame s
     in if number = SYS_PUTC then
          syscall_result SYS_RESULT_OK frame (serial_write [byte_to_char (ucast (frame_rdi frame s AND 0xFF))] s)
        else if number = SYS_YIELD then sched_tick frame (syscall_return frame SYS_RESULT_OK s)
        else if number = SYS_GET_TICKS then syscall_result (kernel_ticks s) frame s
        else if number = SYS_EXIT then sched_exit_current frame (syscall_return frame SYS_RESULT_OK s)
        else if number \<in> {SYS_READ, SYS_WRITE, SYS_OPEN, SYS_EXEC} then
          (case sched_current_user_context s of
             None \<Rightarrow> syscall_result SYS_RESULT_ERROR frame s
           | Some (user_layout, user_space) \<Rightarrow>
               if number = SYS_READ then sys_read user_layout user_space frame s
               else if number = SYS_WRITE then sys_write user_layout user_space frame s
               else if number = SYS_OPEN then sys_open user_layout user_space frame s
               else sys_exec bld user_layout user_space frame s)
        else if number = SYS_CLOSE then sys_close frame s
        else if number = SYS_DUP then sys_dup frame s
        else syscall_result SYS_RESULT_ERROR frame s)"

end
