(* ===== verification/Boot.thy ===== *)
theory Boot
  imports Core
begin

text \<open>
  The rest of \<open>src/kernel/core.c\<close>: \<open>configure_first_user_task\<close>, which builds the first user address space, and
  \<open>kernel_main\<close>, which brings the components up in order. \<open>kernel_main\<close> returns in the model where the code waits for
  interrupts with \<open>hlt\<close>.
\<close>

section \<open>The first user task\<close>

definition core_fail :: "string \<Rightarrow> 'a machine_scheme \<Rightarrow> ('v, 'a machine_scheme) outcome" where
  "core_fail text s = arch_halt_forever (write_line text s)"

definition empty_bootstrap :: "addr \<Rightarrow> user_task_bootstrap" where
  "empty_bootstrap space = \<lparr>layout = first_user_layout, address_space = space, trampoline_entry = 0, user_entry = 0,
     image_physical_begin = 0, image_physical_end = 0, user_stack_page = 0, user_stack_top = 0\<rparr>"

definition trampoline_page :: "build \<Rightarrow> addr" where
  "trampoline_page bld = arch_user_program_entry bld AND NOT 4095"

definition trampoline_address :: "build \<Rightarrow> user_virtual_layout \<Rightarrow> addr" where
  "trampoline_address bld l = trampoline_base l + (arch_user_program_entry bld AND 4095)"

text \<open>The branch \<open>USER_INIT_USE_ELF\<close>.\<close>

definition configure_elf :: "build \<Rightarrow> user_task_bootstrap \<Rightarrow> 'a kernel_state_scheme \<Rightarrow> (user_task_bootstrap, 'a kernel_state_scheme) outcome" where
  "configure_elf bld bootstrap s =
    (let (user_image, user_image_size) =
           (if USER_TEST_BAD_ELF bld then (bad_user_image bld, 4)
            else (embedded_first_user_program_image bld, embedded_first_user_program_size bld));
         space = address_space bootstrap
     in chain (elf_load_user_image user_image user_image_size (layout bootstrap) space 0 0 (Some cleared_image) s) (\<lambda>(loaded, image_opt) s.
          if \<not> loaded then core_fail ''user elf fail'' s
          else
            let loaded_image = the image_opt
            in chain (paging_map_user_page space (trampoline_base (layout bootstrap)) (trampoline_page bld) s) (\<lambda>_ s.
                 if \<not> paging_mapping_matches space (trampoline_base (layout bootstrap)) (trampoline_page bld) True s
                    \<or> \<not> paging_mapping_is_supervisor_only space (trampoline_page bld) s
                    \<or> \<not> paging_mapping_is_supervisor_only space (load_physical_begin loaded_image) s
                    \<or> \<not> paging_mapping_is_supervisor_only space (load_physical_end loaded_image - 4096) s
                    \<or> \<not> paging_mapping_is_supervisor_only space (loaded_stack_page loaded_image) s
                 then core_fail ''user elf fail'' s
                 else Ret (bootstrap\<lparr>trampoline_entry := trampoline_address bld (layout bootstrap),
                        user_entry := loaded_entry loaded_image, image_physical_begin := load_physical_begin loaded_image,
                        image_physical_end := load_physical_end loaded_image, user_stack_page := loaded_stack_page loaded_image,
                        user_stack_top := loaded_stack_top loaded_image\<rparr>) s)))"

text \<open>The other branch: the first task is linked into the kernel.\<close>

definition configure_linked :: "build \<Rightarrow> user_task_bootstrap \<Rightarrow> 'a kernel_state_scheme \<Rightarrow> (user_task_bootstrap, 'a kernel_state_scheme) outcome" where
  "configure_linked bld bootstrap s =
    (let (stack_page, s) = palloc_alloc s;
         space = address_space bootstrap;
         l = layout bootstrap;
         user_entry_page = user_init_main bld AND NOT 4095
     in if stack_page = 0 then core_fail ''user stack fail'' s
     else chain (paging_map_user_page space (trampoline_base l) (trampoline_page bld) s) (\<lambda>_ s.
          chain (paging_map_user_page space (image_base l) user_entry_page s) (\<lambda>_ s.
          chain (paging_map_user_page space (stack_top l - 4096) stack_page s) (\<lambda>_ s.
            if \<not> paging_mapping_matches space (trampoline_base l) (trampoline_page bld) True s
               \<or> \<not> paging_mapping_matches space (image_base l) user_entry_page True s
               \<or> \<not> paging_mapping_matches space (stack_top l - 4096) stack_page True s
               \<or> \<not> paging_mapping_is_supervisor_only space (trampoline_page bld) s
               \<or> \<not> paging_mapping_is_supervisor_only space user_entry_page s
               \<or> \<not> paging_mapping_is_supervisor_only space stack_page s
            then core_fail ''user map fail'' s
            else Ret (bootstrap\<lparr>trampoline_entry := trampoline_address bld l,
                   user_entry := image_base l + (user_init_main bld AND 4095), image_physical_begin := 0,
                   image_physical_end := 0, user_stack_page := stack_page, user_stack_top := stack_top l\<rparr>) s))))"

definition configure_first_user_task :: "build \<Rightarrow> 'a kernel_state_scheme \<Rightarrow> (unit, 'a kernel_state_scheme) outcome" where
  "configure_first_user_task bld s =
    (let (space, s) = paging_create_user_address_space s;
         bootstrap = empty_bootstrap space
     in if space = 0 \<or> \<not> paging_address_space_valid space s then core_fail ''user as fail'' s
     else if \<not> paging_mapping_is_supervisor_only space 0 s then core_fail ''user as fail'' s
     else chain (if USER_INIT_USE_ELF bld then configure_elf bld bootstrap s else configure_linked bld bootstrap s) (\<lambda>bootstrap s.
          let bootstrap = (if USER_TEST_BAD_BOOTSTRAP bld then bootstrap\<lparr>trampoline_entry := 0\<rparr> else bootstrap)
          in sched_enable_user_task bootstrap s))"

section \<open>Bringing the kernel up\<close>

text \<open>The interrupt stack of the task state segment, and everything after the self tests.\<close>

definition kernel_start_tasks :: "build \<Rightarrow> u8 \<Rightarrow> 'a kernel_state_scheme \<Rightarrow> (unit, 'a kernel_state_scheme) outcome" where
  "kernel_start_tasks bld old_master s =
    (let (kernel_rsp0, s) = palloc_alloc s
     in if kernel_rsp0 = 0 then core_fail ''tss stack fail'' s
     else
       let s = write_line ''tss rsp0 ok'' (gdt_set_tss_rsp0 (kernel_rsp0 + 4096) s)
       in chain (paging_initialize s) (\<lambda>_ s.
          let s = write_line ''paging 4k ok'' s;
              s = write_line ''pic ok'' (pic_initialize old_master s);
              s = write_line ''pit ok'' (pit_initialize 100 s)
          in chain (if USER_INIT_ENABLED bld then configure_first_user_task bld s else Ret () s) (\<lambda>_ s.
             chain (sched_initialize bld s) (\<lambda>_ s.
             let s = write_line ''sched ok'' s;
                 s = (if USER_INIT_ENABLED bld then write_line ''user init'' s else s);
                 s = write_line ''irq on'' (s\<lparr>interrupts_enabled := True\<rparr>)
             in Ret () (write_line ''hello from /p/OS'' s)))))"

text \<open>From the summary of the memory map to the gates of the interrupt table.\<close>

definition kernel_load_tables :: "static_objects \<Rightarrow> 'a kernel_state_scheme \<Rightarrow> 'a kernel_state_scheme" where
  "kernel_load_tables at s =
    (let s = write_line ''exit ok'' (memmap_print_summary s);
         s = write_line ''gdt ok'' (gdt_initialize at s)
     in write_line ''idt ok'' (idt_set_syscall_gate at (idt_set_irq0_gate at (idt_initialize at s))))"

definition kernel_setup :: "build \<Rightarrow> static_objects \<Rightarrow> fd_table \<Rightarrow> u8 \<Rightarrow> 'a kernel_state_scheme \<Rightarrow> (unit, 'a kernel_state_scheme) outcome" where
  "kernel_setup bld at table old_master s =
     chain (palloc_initialize (kernel_load_tables at s)) (\<lambda>_ s.
     chain (heap_self_test (heap_initialize (palloc_self_test s))) (\<lambda>_ s.
     chain (vfs_namespace_initialize bld s) (\<lambda>_ s.
     chain (vfs_self_test s) (\<lambda>_ s.
     chain (fd_self_test table s) (\<lambda>_ s. kernel_start_tasks bld old_master s)))))"

text \<open>\<open>table\<close> is the uninitialised descriptor table of the self test, \<open>old_master\<close> the mask the PIC reports.\<close>

definition kernel_main ::
  "build \<Rightarrow> static_objects \<Rightarrow> fd_table \<Rightarrow> u8 \<Rightarrow> ('fw \<Rightarrow> u64 \<Rightarrow> efi_map_answer \<times> 'fw) \<Rightarrow> ('fw \<Rightarrow> u64 \<Rightarrow> u64 \<Rightarrow> u64 \<times> 'fw) \<Rightarrow>
    u64 \<Rightarrow> 'fw \<Rightarrow> 'a kernel_state_scheme \<Rightarrow> (unit, 'a kernel_state_scheme) outcome" where
  "kernel_main bld at table old_master get_memory_map exit_boot_services image_handle fw s =
    (let s = serial_init (s\<lparr>kernel_ticks := 0\<rparr>);
         s = write_line ''efi live'' (write_line ''kernel_main'' s)
     in chain (memmap_capture_and_exit get_memory_map exit_boot_services image_handle fw s) (\<lambda>(ok, fw) s.
          if \<not> ok then core_fail ''exit fail'' s else kernel_setup bld at table old_master s))"

end
