(* ===== verification/Frames.thy ===== *)
theory Frames
  imports Boot
begin

text \<open>
  Which state an operation cannot touch. \<open>part\<close> is an observation of the state; a locale per layer assumes that it
  does not depend on the fields that layer writes, and shows that every operation of the layer leaves it alone. The
  interpretations choose the observation.
\<close>

section \<open>Outcomes that leave an observation alone\<close>

named_theorems frames \<open>operations that leave an observation alone\<close>

definition keeps :: "('s \<Rightarrow> 'p) \<Rightarrow> 'p \<Rightarrow> ('a, 's) outcome \<Rightarrow> bool" where
  "keeps part p m \<longleftrightarrow> (case m of Ret v t \<Rightarrow> part t = p | Halt t \<Rightarrow> part t = p | Diverge \<Rightarrow> True)"

lemma keeps_simps [simp]:
  "keeps part p (Ret v t) \<longleftrightarrow> part t = p"
  "keeps part p (Halt t) \<longleftrightarrow> part t = p"
  "keeps part p Diverge"
  by (simp_all add: keeps_def)

lemma keeps_Ret: "keeps part p m \<Longrightarrow> m = Ret v t \<Longrightarrow> part t = p"
  by simp

lemma keeps_chain [intro!]:
  "keeps part p m \<Longrightarrow> (\<And>v t. part t = p \<Longrightarrow> keeps part p (k v t)) \<Longrightarrow> keeps part p (chain m k)"
  by (cases m) simp_all

lemma c_loop_keeps:
  assumes "c_loop b f x s = Some m" "part s = p" "\<And>x s. part s = p \<Longrightarrow> keeps part p (f x s)"
  shows "keeps part p m"
proof -
  have "(\<forall>x s. part s = p \<longrightarrow> keeps part p (f x s)) \<longrightarrow> part s = p \<longrightarrow> keeps part p m"
  proof (rule c_loop.raw_induct[of "\<lambda>b f x s m. (\<forall>x s. part s = p \<longrightarrow> keeps part p (f x s)) \<longrightarrow> part s = p \<longrightarrow> keeps part p m"
        "(((b, f), x), s)" m, unfolded prod.case])
    fix c_loop b f x s and m :: "('a, 'b) outcome"
    assume IH: "\<And>b f x s m. c_loop b f x s = Some m \<Longrightarrow>
        (\<forall>x s. part s = p \<longrightarrow> keeps part p (f x s)) \<longrightarrow> part s = p \<longrightarrow> keeps part p m"
      and eq: "(if b x s then case f x s of Ret x' s' \<Rightarrow> c_loop b f x' s' | Halt s' \<Rightarrow> Some (Halt s') | Diverge \<Rightarrow> Some Diverge
         else Some (Ret x s)) = Some m"
    show "(\<forall>x s. part s = p \<longrightarrow> keeps part p (f x s)) \<longrightarrow> part s = p \<longrightarrow> keeps part p m"
    proof (intro impI)
      assume body: "\<forall>x s. part s = p \<longrightarrow> keeps part p (f x s)" and s: "part s = p"
      from body s have f: "keeps part p (f x s)" by simp
      show "keeps part p m"
      proof (cases "b x s")
        case False
        then have "m = Ret x s" using eq by simp
        then show ?thesis using s by simp
      next
        case True
        show ?thesis
        proof (cases "f x s")
          case (Ret x' s')
          from eq True Ret have "c_loop b f x' s' = Some m" by simp
          then show ?thesis using IH[of b f x' s' m] body f Ret by simp
        next
          case (Halt s')
          then have "m = Halt s'" using eq True by simp
          with f Halt show ?thesis by simp
        next
          case Diverge
          then have "m = Diverge" using eq True by simp
          then show ?thesis by simp
        qed
      qed
    qed
  qed (rule assms(1))
  then show ?thesis using assms(2,3) by simp
qed

lemma keeps_while:
  assumes "part s = p" "\<And>x s. part s = p \<Longrightarrow> keeps part p (f x s)"
  shows "keeps part p (c_while b f x s)"
proof (cases "c_loop b f x s")
  case None
  then show ?thesis by (simp add: c_while_def)
next
  case (Some m)
  then have "keeps part p m" using assms by (rule c_loop_keeps)
  with Some show ?thesis by (simp add: c_while_def)
qed

lemma fold_part: "(\<And>x s. part (f x s) = part s) \<Longrightarrow> part (fold f xs s) = part s"
  by (induction xs arbitrary: s) simp_all

section \<open>Memory, pages, the heap, address spaces and images\<close>

locale memory_part =
  fixes part :: "'a paging_state_scheme \<Rightarrow> 'p"
  assumes part_mem [frames]: "\<And>s x. part (s\<lparr>mem := x\<rparr>) = part s"
    and part_serial [frames]: "\<And>s x. part (s\<lparr>serial_out := x\<rparr>) = part s"
    and part_free_list [frames]: "\<And>s x. part (s\<lparr>free_list_head := x\<rparr>) = part s"
    and part_free_count [frames]: "\<And>s x. part (s\<lparr>free_page_count := x\<rparr>) = part s"
    and part_heap_head [frames]: "\<And>s x. part (s\<lparr>heap_head := x\<rparr>) = part s"
    and part_blocks [frames]: "\<And>s x. part (s\<lparr>blocks := x\<rparr>) = part s"
begin

lemmas fields = part_mem part_serial part_free_list part_free_count part_heap_head part_blocks

text \<open>For the long chains of updates: one step at a time, without substituting the intermediate states.\<close>

lemma part_let_state: "part v = p \<Longrightarrow> (\<And>t. part t = p \<Longrightarrow> part (f t) = p) \<Longrightarrow> part (let t = v in f t) = p"
  by simp

lemma part_let: "(\<And>x. part (f x) = p) \<Longrightarrow> part (let x = v in f x) = p"
  by simp

lemma part_if: "part a = p \<Longrightarrow> part b = p \<Longrightarrow> part (if c then a else b) = p"
  by simp

lemma serial_write: "part (serial_write text s) = part s"
  by (simp add: serial_write_def fields)

lemma console:
  "part (serial_write text s) = part s" "part (write_text text s) = part s" "part (write_line text s) = part s"
  "part (write_decimal_u64 v s) = part s" "part (write_decimal_u32 w s) = part s" "part (write_hex_u64 v s) = part s"
  by (simp_all add: write_text_def write_line_def write_decimal_u64_def write_decimal_u32_def
      write_hex_u64_def serial_write fold_part)

lemma stores:
  "part (store64 a v s) = part s" "part (zero_bytes a n s) = part s" "part (set_entry t i v s) = part s"
  by (simp_all add: store64_def zero_bytes_def set_entry_def fields)

lemma block_stores:
  "part (memory_copy d a n s) = part s" "part (memory_zero d n s) = part s" "part (zero_page page s) = part s"
  "part (copy_entries t u s) = part s"
  unfolding memory_copy_def memory_zero_def zero_page_def copy_entries_def
  by (rule fold_part, simp add: fields stores)+

lemma pages:
  "part (palloc_free page s) = part s" "part (snd (palloc_alloc s)) = part s" "part (write_link l v s) = part s"
  by (simp_all add: palloc_free_def palloc_alloc_def write_link_def Let_def fields stores split: option.split)

lemmas mutations = fields console stores block_stores pages

lemma palloc_take: "part s = p \<Longrightarrow> keeps part p (palloc_take page s)"
  unfolding palloc_take_def Let_def by (intro keeps_chain keeps_while) (simp_all add: mutations)

lemma put_block: "part (put_block b v s) = part s"
  by (simp add: put_block_def fields)

lemma heap_updates:
  "part (split_block b n s) = part s" "part (merge_next b s) = part s" "part (link_block x b y s) = part s"
  by (simp_all add: split_block_def merge_next_def link_block_def Let_def put_block fields)

lemma coalesce_forward: "part s = p \<Longrightarrow> keeps part p (coalesce_forward b s)"
  unfolding coalesce_forward_def by (intro keeps_while) (simp_all add: heap_updates)

lemma heap_fail: "part s = p \<Longrightarrow> keeps part p (heap_fail text s)"
  by (simp add: heap_fail_def arch_halt_forever_def console)

lemma insert_block_sorted: "part s = p \<Longrightarrow> keeps part p (insert_block_sorted b s)"
  unfolding insert_block_sorted_def Let_def
  by (intro keeps_chain keeps_while) (auto simp: heap_updates coalesce_forward)

lemma grow_heap: "part s = p \<Longrightarrow> keeps part p (grow_heap n s)"
  by (simp add: grow_heap_def Let_def split_beta pages put_block insert_block_sorted)

lemma find_block: "part s = p \<Longrightarrow> keeps part p (find_block n s)"
  unfolding find_block_def by (intro keeps_chain keeps_while) (simp_all add: heap_fail)

lemma kmalloc: "part s = p \<Longrightarrow> keeps part p (kmalloc n s)"
  by (auto simp: kmalloc_def Let_def find_block grow_heap put_block heap_updates)

lemma kzalloc: "part s = p \<Longrightarrow> keeps part p (kzalloc n s)"
  by (auto simp: kzalloc_def kmalloc stores)

lemma kfree: "part s = p \<Longrightarrow> keeps part p (kfree a s)"
  by (auto simp: kfree_def Let_def heap_fail coalesce_forward put_block)

lemma tables:
  "part (snd (alloc_table s)) = part s" "part (snd (copy_table t s)) = part s"
  "part (snd (get_or_create_next t i f s)) = part s"
  by (simp_all add: alloc_table_def copy_table_def get_or_create_next_def Let_def split_beta mutations)

lemma map_page_4k: "part (snd (map_page_4k t v f flags s)) = part s"
  by (simp add: map_page_4k_def Let_def split_beta tables stores)

lemma privatise_entry: "part (snd (privatise_entry t i e s)) = part s"
  by (simp add: privatise_entry_def Let_def split_beta tables stores)

lemma ensure_private_user_path: "part (snd (ensure_private_user_path t v s)) = part s"
  by (simp add: ensure_private_user_path_def Let_def split_beta privatise_entry)

lemma paging_create_user_address_space: "part (snd (paging_create_user_address_space s)) = part s"
  by (simp add: paging_create_user_address_space_def Let_def split_beta tables block_stores)

lemma paging_map_user_page: "part s = p \<Longrightarrow> keeps part p (paging_map_user_page t v f s)"
  by (simp add: paging_map_user_page_def Let_def split_beta arch_halt_forever_def map_page_4k ensure_private_user_path)

lemma paging_release_user_address_space: "part (paging_release_user_address_space t l s) = part s"
proof (cases l)
  case None
  then show ?thesis by (simp add: paging_release_user_address_space_def)
next
  case (Some x)
  show ?thesis
    unfolding paging_release_user_address_space_def Some option.case
    by (rule refl part_if part_let_state | rule part_let | simp only: pages)+
qed

lemma paging_user_range_mapped: "part s = p \<Longrightarrow> keeps part p (paging_user_range_mapped t v n s)"
  by (auto simp: paging_user_range_mapped_def Let_def intro!: keeps_while)

lemma free_pages_loop: "part s = p \<Longrightarrow> keeps part p (free_pages_loop a b c d s)"
  unfolding free_pages_loop_def by (intro keeps_while) (simp_all add: pages)

lemma claim_window_pages: "part s = p \<Longrightarrow> keeps part p (claim_window_pages a b c d s)"
  unfolding claim_window_pages_def claim_page_body_def
  by (intro keeps_chain keeps_while) (auto simp: palloc_take free_pages_loop split: prod.splits)

lemma elf_release_user_image: "part s = p \<Longrightarrow> keeps part p (elf_release_user_image i s)"
  unfolding elf_release_user_image_def Let_def
  by (cases i) (auto simp: free_pages_loop pages)

lemma elf_load_fail: "part s = p \<Longrightarrow> keeps part p (elf_load_fail i s)"
  unfolding elf_load_fail_def by (auto simp: elf_release_user_image)

lemma clear_window: "part s = p \<Longrightarrow> keeps part p (clear_window a b s)"
  unfolding clear_window_def by (intro keeps_while) (simp_all add: block_stores)

lemma load_segment: "part (snd (load_segment a b c d s)) = part s"
  by (simp add: load_segment_def Let_def block_stores)

lemma load_segments_body: "part s = p \<Longrightarrow> keeps part p (load_segments_body a b c d x s)"
  by (cases x) (simp add: load_segments_body_def Let_def split_beta load_segment)

lemma map_image_body: "part s = p \<Longrightarrow> keeps part p (map_image_body a b c x s)"
  by (cases x) (auto simp: map_image_body_def Let_def paging_map_user_page)

lemma elf_finish_load: "part s = p \<Longrightarrow> keeps part p (elf_finish_load h l a b c i s)"
  by (auto simp: elf_finish_load_def Let_def split_beta pages elf_load_fail paging_map_user_page)

lemma elf_load_user_image: "part s = p \<Longrightarrow> keeps part p (elf_load_user_image i n l a b c img s)"
  unfolding elf_load_user_image_def Let_def
  by (auto simp: claim_window_pages clear_window load_segments_body map_image_body elf_load_fail elf_finish_load
      intro!: keeps_while split: option.split prod.split)

end

section \<open>Files and descriptors\<close>

locale file_part = memory_part part for part :: "'a vfs_state_scheme \<Rightarrow> 'p" +
  assumes part_local_ch: "\<And>s x. part (s\<lparr>local_ch := x\<rparr>) = part s"
    and part_nodes: "\<And>s x. part (s\<lparr>nodes := x\<rparr>) = part s"
    and part_files: "\<And>s x. part (s\<lparr>files := x\<rparr>) = part s"
    and part_self_test_data: "\<And>s x. part (s\<lparr>self_test_data := x\<rparr>) = part s"
    and part_fd_inputs: "\<And>s x. part (s\<lparr>fd_inputs := x\<rparr>) = part s"
    and part_fd_outputs: "\<And>s x. part (s\<lparr>fd_outputs_released := x\<rparr>) = part s"
    and part_placeholder_of: "\<And>s x. part (s\<lparr>fd_placeholder_of := x\<rparr>) = part s"
    and part_placeholder_released: "\<And>s x. part (s\<lparr>placeholder_released := x\<rparr>) = part s"
    and part_console_input: "\<And>s x. part (s\<lparr>namespace_console_input_data := x\<rparr>) = part s"
begin

lemmas file_fields = fields part_local_ch part_nodes part_files part_self_test_data part_fd_inputs part_fd_outputs
  part_placeholder_of part_placeholder_released part_console_input

lemma traps: "part (kernel_trap n s) = part s" "part (kernel_trap_error n e c s) = part s"
  by (simp_all add: kernel_trap_def kernel_trap_error_def Let_def console)

lemma bytes: "part s = p \<Longrightarrow> keeps part p (load8 a s)" "part s = p \<Longrightarrow> keeps part p (store8 a b s)"
  by (simp_all add: load8_def store8_def page_fault_def arch_halt_forever_def traps fields split: option.split)

lemma buffers:
  "part s = p \<Longrightarrow> keeps part p (buffer_store u i b s)" "part s = p \<Longrightarrow> keeps part p (buffer_load u i s)"
  by (simp_all add: buffer_store_def buffer_load_def bytes file_fields arch_halt_forever_def split: buffer.split)

lemma serial_write_buffer: "part s = p \<Longrightarrow> keeps part p (serial_write_buffer u n s)"
  unfolding serial_write_buffer_def serial_write_body_def
  by (intro keeps_chain keeps_while) (simp_all add: buffers serial_write)

lemma objects: "part (put_node n v s) = part s" "part (put_file f w s) = part s" "part (advance_offset f k s) = part s"
  by (simp_all add: put_node_def put_file_def advance_offset_def file_fields)

lemma fails: "part s = p \<Longrightarrow> keeps part p (vfs_fail text s)" "part s = p \<Longrightarrow> keeps part p (fd_fail text s)"
  by (simp_all add: vfs_fail_def fd_fail_def arch_halt_forever_def console)

lemma vfs_node_initialize: "part s = p \<Longrightarrow> keeps part p (vfs_node_initialize n k ops d s)"
  by (simp add: vfs_node_initialize_def fails objects)

lemma vfs_make_file: "part s = p \<Longrightarrow> keeps part p (vfs_make_file n a s)"
  by (auto simp: vfs_make_file_def Let_def kzalloc objects)

lemma vfs_file_open: "part s = p \<Longrightarrow> keeps part p (vfs_file_open n a s)"
  by (simp add: vfs_file_open_def vfs_make_file split: option.split)

lemma vfs_file_retain: "part (snd (vfs_file_retain f s)) = part s"
  by (simp add: vfs_file_retain_def objects)

lemma kfree_node: "part s = p \<Longrightarrow> keeps part p (kfree_node n s)"
  by (simp add: kfree_node_def kfree heap_fail split: node_ref.split)

lemma releases: "part s = p \<Longrightarrow> keeps part p (call_release f n s)"
  by (cases f)
    (auto simp: call_release_def vfs_static_release_def vfs_self_test_release_def fd_console_output_release_def
      fd_console_input_release_def fd_placeholder_release_def Let_def kfree kfree_node file_fields)

lemma reads: "part s = p \<Longrightarrow> keeps part p (call_read f a u n s)"
  by (cases f)
    (auto simp: call_read_def vfs_console_input_read_def vfs_static_text_read_def static_text_body_def
      vfs_self_test_read_def fd_console_input_read_def Let_def buffers objects file_fields intro!: keeps_while)

lemma writes: "part s = p \<Longrightarrow> keeps part p (call_write f a u n s)"
  by (cases f)
    (auto simp: call_write_def vfs_console_output_write_def vfs_self_test_write_def fd_console_output_write_def
      fd_placeholder_write_def serial_write_buffer objects)

lemma vfs_file_close: "part s = p \<Longrightarrow> keeps part p (vfs_file_close f s)"
  by (auto simp: vfs_file_close_def Let_def kfree releases objects arch_halt_forever_def split: option.split)

lemma vfs_file_read: "part s = p \<Longrightarrow> keeps part p (vfs_file_read f u n s)"
  by (simp add: vfs_file_read_def reads split: option.split)

lemma vfs_file_write: "part s = p \<Longrightarrow> keeps part p (vfs_file_write f u n s)"
  by (simp add: vfs_file_write_def writes split: option.split)

lemma vfs_open_path: "part s = p \<Longrightarrow> keeps part p (vfs_open_path path f s)"
  by (simp add: vfs_open_path_def Let_def vfs_file_open)

lemma vfs_open_exec_path: "part s = p \<Longrightarrow> keeps part p (vfs_open_exec_path path s)"
  by (simp add: vfs_open_exec_path_def Let_def vfs_make_file)

lemma fd_table_initialize: "part s = p \<Longrightarrow> keeps part p (fd_table_initialize t s)"
  by (simp add: fd_table_initialize_def fails split: option.split)

lemma fd_table_dup: "part s = p \<Longrightarrow> keeps part p (fd_table_dup t d s)"
  by (auto simp: fd_table_dup_def Let_def split_beta vfs_file_retain vfs_file_close split: option.split)

lemma fd_table_read: "part s = p \<Longrightarrow> keeps part p (fd_table_read t d u n s)"
  by (simp add: fd_table_read_def vfs_file_read split: option.split)

lemma fd_table_write: "part s = p \<Longrightarrow> keeps part p (fd_table_write t d u n s)"
  by (simp add: fd_table_write_def vfs_file_write split: option.split)

lemma fd_table_close: "part s = p \<Longrightarrow> keeps part p (fd_table_close t d s)"
  by (auto simp: fd_table_close_def vfs_file_close split: option.split)

lemma close_from: "part s = p \<Longrightarrow> keeps part p (close_from ds t s)"
  by (induction ds arbitrary: t s) (auto simp: fd_table_close split: option.split prod.split)

lemma fd_table_close_all: "part s = p \<Longrightarrow> keeps part p (fd_table_close_all t s)"
  by (auto simp: fd_table_close_all_def close_from split: option.split)

lemma seed_fails: "part s = p \<Longrightarrow> keeps part p (seed_fails a b c t s)"
  by (auto simp: seed_fails_def vfs_file_close)

lemma seed_install: "part s = p \<Longrightarrow> keeps part p (seed_install a b c t s)"
  by (simp add: seed_install_def Let_def split_beta seed_fails)

lemma fd_table_seed_console: "part s = p \<Longrightarrow> keeps part p (fd_table_seed_console t s)"
  by (auto simp: fd_table_seed_console_def Let_def kzalloc kfree vfs_node_initialize vfs_file_open seed_fails seed_install
      file_fields split: option.split)

end

end
