(* ===== verification/FileSpec.thy ===== *)
theory FileSpec
  imports Frames
begin

text \<open>
  What the file layer (\<open>src/kernel/vfs.c\<close>, \<open>src/kernel/fd.c\<close>) promises: the life of an open file and of a
  node over the heap, from \<open>vfs_file_open\<close> to the \<open>vfs_file_close\<close> that frees everything, and the descriptor
  tables on top of it.
\<close>

section \<open>The heap as the file layer sees it\<close>

text \<open>\<open>heap_room s a k\<close>: the live allocations are \<open>a\<close>, and at least \<open>k\<close> pages are free.\<close>

definition heap_room :: "'a heap_state_scheme \<Rightarrow> (addr \<rightharpoonup> nat) \<Rightarrow> nat \<Rightarrow> bool" where
  "heap_room s a k \<longleftrightarrow> (\<exists>xs ps. heap_inv s xs ps \<and> a = allocs (blocks s) xs \<and> k \<le> length ps)"

lemma heap_room_less: "heap_room s a k \<Longrightarrow> j \<le> k \<Longrightarrow> heap_room s a j"
  unfolding heap_room_def using order_trans by blast

lemma heap_room_kzalloc:
  assumes "heap_room s a (Suc k)" "sz \<noteq> 0" "unat sz \<le> 4000"
  obtains p t n where "kzalloc sz s = Ret p t" "p \<noteq> 0" "a p = None" "heap_room t (a(p \<mapsto> n)) k" "heap_frame s t"
proof -
  from assms(1) obtain xs ps where h: "heap_inv s xs ps" "a = allocs (blocks s) xs" "Suc k \<le> length ps"
    by (auto simp: heap_room_def)
  from h(3) have "0 < length ps" by linarith
  from small_kzalloc[OF h(1) this assms(2,3)] obtain p t ys qs n where
    "kzalloc sz s = Ret p t" "heap_inv t ys qs" "heap_frame s t" "p \<noteq> 0" "length ps \<le> length qs + 1"
    "allocs (blocks s) xs p = None" "allocs (blocks t) ys = (allocs (blocks s) xs)(p \<mapsto> n)" by blast
  moreover from this h(2,3) have "heap_room t (a(p \<mapsto> n)) k" unfolding heap_room_def
    by (intro exI[of _ ys] exI[of _ qs]) simp
  ultimately show ?thesis using that h(2) by simp
qed

lemma heap_room_kfree:
  assumes "heap_room s a k" "a p = Some n"
  obtains t where "kfree p s = Ret () t" "heap_room t (a(p := None)) k" "heap_frame s t"
proof -
  from assms obtain xs ps where h: "heap_inv s xs ps" "a = allocs (blocks s) xs" "k \<le> length ps"
    by (auto simp: heap_room_def)
  with assms(2) have "allocs (blocks s) xs p = Some n" by simp
  from kfree_frame[OF h(1) this] obtain t ys where t: "kfree p s = Ret () t" "heap_inv t ys ps"
    "allocs (blocks t) ys = (allocs (blocks s) xs)(p := None)" "heap_frame s t" by blast
  moreover have "heap_room t (a(p := None)) k" unfolding heap_room_def
    using t h by (intro exI[of _ ys] exI[of _ ps]) simp
  ultimately show ?thesis using that by blast
qed

lemma heap_room_cong:
  assumes "mem t = mem s" "free_list_head t = free_list_head s" "free_page_count t = free_page_count s"
    "heap_head t = heap_head s" "blocks t = blocks s"
  shows "heap_room t a k \<longleftrightarrow> heap_room s a k"
  using assms by (simp add: heap_room_def heap_inv_def palloc_inv_def)

text \<open>The heap and everything below it does not see the objects of the file layer.\<close>

lemma heap_room_files [simp]:
  "heap_room (s\<lparr>nodes := x\<rparr>) a k = heap_room s a k" "heap_room (s\<lparr>files := y\<rparr>) a k = heap_room s a k"
  "heap_room (s\<lparr>fd_inputs := z\<rparr>) a k = heap_room s a k" "heap_room (s\<lparr>fd_outputs_released := u\<rparr>) a k = heap_room s a k"
  "heap_room (s\<lparr>fd_placeholder_of := v\<rparr>) a k = heap_room s a k" "heap_room (s\<lparr>placeholder_released := w\<rparr>) a k = heap_room s a k"
  "heap_room (s\<lparr>self_test_data := d\<rparr>) a k = heap_room s a k"
  "heap_room (put_node n nv s) a k = heap_room s a k" "heap_room (put_file f fv s) a k = heap_room s a k"
  by (rule heap_room_cong; simp add: put_node_def put_file_def)+

lemma heap_frame_files:
  assumes "heap_frame s t"
  shows "nodes t = nodes s" "files t = files s" "fd_inputs t = fd_inputs s" "fd_outputs_released t = fd_outputs_released s"
    "fd_placeholder_of t = fd_placeholder_of s" "placeholder_released t = placeholder_released s"
    "self_test_data t = self_test_data s" "local_ch t = local_ch s" "namespace_ready t = namespace_ready s"
    "namespace_bin_entries t = namespace_bin_entries s" "namespace_executable_data t = namespace_executable_data s"
    "namespace_banner_data t = namespace_banner_data s" "namespace_console_input_data t = namespace_console_input_data s"
    "vfs_state.more t = vfs_state.more s"
  using assms by (auto simp: heap_frame_def)

lemma object_simps [simp]:
  "nodes (put_node n nv s) = (nodes s)(n := nv)" "files (put_node n nv s) = files s"
  "files (put_file f fv s) = (files s)(f := fv)" "nodes (put_file f fv s) = nodes s"
  by (simp_all add: put_node_def put_file_def)

text \<open>What an operation of the file layer may change beside the heap: nodes, files and the data of nodes.\<close>

definition file_frame :: "'a vfs_state_scheme \<Rightarrow> 'a vfs_state_scheme \<Rightarrow> bool" where
  "file_frame s t \<longleftrightarrow> local_ch t = local_ch s \<and> namespace_ready t = namespace_ready s
     \<and> namespace_bin_entries t = namespace_bin_entries s \<and> namespace_executable_data t = namespace_executable_data s
     \<and> namespace_banner_data t = namespace_banner_data s \<and> namespace_console_input_data t = namespace_console_input_data s
     \<and> serial_out t = serial_out s \<and> cr3 t = cr3 s"

lemma file_frame_simps [simp]: "file_frame s s"
  by (simp add: file_frame_def)

lemma file_frame_trans: "file_frame s t \<Longrightarrow> file_frame t u \<Longrightarrow> file_frame s u"
  by (simp add: file_frame_def)

lemma heap_file_frame: "heap_frame s t \<Longrightarrow> file_frame s t"
  using heap_frame_files[of s t] heap_frameD(1,2)[of s t] by (simp add: file_frame_def)

section \<open>Opening and closing\<close>

definition openable :: "vfs_node \<Rightarrow> u32 \<Rightarrow> bool" where
  "openable n access \<longleftrightarrow> node_kind n \<noteq> VFS_NODE_DIRECTORY \<and> vfs_open_flags_valid access
     \<and> (\<exists>ops. node_ops n = Some ops \<and> (access AND VFS_ACCESS_READ \<noteq> 0 \<longrightarrow> op_read ops \<noteq> None)
         \<and> (access AND VFS_ACCESS_WRITE \<noteq> 0 \<longrightarrow> op_write ops \<noteq> None))"

lemma vfs_file_open_exact:
  "vfs_file_open node access s = (if node \<noteq> NullNode \<and> openable (nodes s node) access then vfs_make_file node access s else Ret 0 s)"
  by (auto simp: vfs_file_open_def openable_def split: option.split)

definition new_file :: "node_ref \<Rightarrow> u32 \<Rightarrow> vfs_file" where
  "new_file node access = \<lparr>file_refs = 1, file_node = node, file_offset = 0, file_access = access\<rparr>"

lemma vfs_make_file_spec:
  assumes "heap_room s a (Suc k)"
  obtains f t n where "vfs_make_file node access s = Ret f t" "f \<noteq> 0" "a f = None" "heap_room t (a(f \<mapsto> n)) k"
    "files t = (files s)(f := new_file node access)"
    "nodes t = (nodes s)(node := (nodes s node)\<lparr>node_refs := node_refs (nodes s node) + 1\<rparr>)"
    "fd_inputs t = fd_inputs s" "fd_outputs_released t = fd_outputs_released s" "file_frame s t"
proof -
  have "sizeof_vfs_file \<noteq> 0" "unat sizeof_vfs_file \<le> 4000" by (simp_all add: sizeof_vfs_file_def)
  from heap_room_kzalloc[OF assms this] obtain f t n where f: "kzalloc sizeof_vfs_file s = Ret f t" "f \<noteq> 0"
    "a f = None" "heap_room t (a(f \<mapsto> n)) k" "heap_frame s t" .
  let ?t = "put_node node ((nodes t node)\<lparr>node_refs := node_refs (nodes t node) + 1\<rparr>) (put_file f (new_file node access) t)"
  have "vfs_make_file node access s = Ret f ?t" using f(1,2) by (simp add: vfs_make_file_def Let_def new_file_def)
  moreover have "file_frame s ?t" using heap_file_frame[OF f(5)] by (simp add: file_frame_def put_node_def put_file_def)
  moreover have "fd_inputs ?t = fd_inputs s" "fd_outputs_released ?t = fd_outputs_released s"
    using heap_frame_files[OF f(5)] by (simp_all add: put_node_def put_file_def)
  ultimately show ?thesis using that[of f ?t n] f heap_frame_files(1,2)[OF f(5)] by simp
qed

text \<open>A file whose last reference goes: the node loses a reference, and with its last one it is released.\<close>

definition last_release :: "node_ref \<Rightarrow> 'a vfs_state_scheme \<Rightarrow> (i32, 'a vfs_state_scheme) outcome" where
  "last_release node s = (if node_refs (nodes s node) = 0 then
       (case node_ops (nodes s node) of
          None \<Rightarrow> arch_halt_forever s
        | Some ops \<Rightarrow> (case op_release ops of None \<Rightarrow> Ret 0 s | Some f \<Rightarrow> call_release f node s))
     else Ret 0 s)"

lemma vfs_file_close_shared:
  assumes "f \<noteq> 0" "file_refs (files s f) \<noteq> 0" "file_refs (files s f) \<noteq> 1" "file_node (files s f) \<noteq> NullNode"
  shows "vfs_file_close f s = Ret 0 (put_file f ((files s f)\<lparr>file_refs := file_refs (files s f) - 1\<rparr>) s)"
  using assms by (simp add: vfs_file_close_def Let_def put_file_def)

lemma vfs_file_close_last:
  assumes "heap_room s a k" "a f = Some n" "f \<noteq> 0" "file_refs (files s f) = 1" "file_node (files s f) = node"
    "node \<noteq> NullNode" "node_refs (nodes s node) \<noteq> 0"
  obtains t where "vfs_file_close f s = last_release node t" "heap_room t (a(f := None)) k"
    "files t = (files s)(f := (files s f)\<lparr>file_refs := 0, file_node := NullNode\<rparr>)"
    "nodes t = (nodes s)(node := (nodes s node)\<lparr>node_refs := node_refs (nodes s node) - 1\<rparr>)"
    "fd_inputs t = fd_inputs s" "fd_outputs_released t = fd_outputs_released s" "file_frame s t"
proof -
  let ?s = "put_file f ((files s f)\<lparr>file_refs := 0, file_node := NullNode\<rparr>) s"
  have "heap_room ?s a k" using assms(1) by simp
  from heap_room_kfree[OF this assms(2)] obtain t where t: "kfree f ?s = Ret () t" "heap_room t (a(f := None)) k" "heap_frame ?s t" .
  note eqs = heap_frame_files[OF t(3)]
  let ?t = "put_node node ((nodes t node)\<lparr>node_refs := node_refs (nodes t node) - 1\<rparr>) t"
  have p: "put_file f ((files s f)\<lparr>file_refs := 0, file_node := NullNode\<rparr>) (put_file f ((files s f)\<lparr>file_refs := 0\<rparr>) s) = ?s"
    by (simp add: put_file_def)
  have "vfs_file_close f s = last_release node ?t"
    using assms(3-7) t(1) eqs(1) p by (simp add: vfs_file_close_def Let_def last_release_def put_file_def)
  moreover have "file_frame s ?t" using heap_file_frame[OF t(3)] by (simp add: file_frame_def put_node_def put_file_def)
  ultimately show ?thesis
    using that[of ?t] t(2) eqs by (simp add: put_node_def put_file_def)
qed

section \<open>Retaining, and opening again\<close>

lemma vfs_file_retain_live:
  "f \<noteq> 0 \<Longrightarrow> file_refs (files s f) \<noteq> 0 \<Longrightarrow> file_node (files s f) \<noteq> NullNode \<Longrightarrow>
    vfs_file_retain f s = (0, put_file f ((files s f)\<lparr>file_refs := file_refs (files s f) + 1\<rparr>) s)"
  by (simp add: vfs_file_retain_def)

text \<open>
  A retained file is closed like the original: \<open>vfs_file_retain\<close> followed by \<open>vfs_file_close\<close> is the identity on the
  whole state, as long as the 32-bit count does not wrap.
\<close>

theorem retain_close_roundtrip:
  assumes "f \<noteq> 0" "file_refs (files s f) \<noteq> 0" "file_node (files s f) \<noteq> NullNode" "file_refs (files s f) \<noteq> - 1"
  shows "\<exists>t. vfs_file_retain f s = (0, t) \<and> file_refs (files t f) = file_refs (files s f) + 1 \<and> vfs_file_close f t = Ret 0 s"
proof -
  let ?t = "put_file f ((files s f)\<lparr>file_refs := file_refs (files s f) + 1\<rparr>) s"
  have nz: "file_refs (files s f) + 1 \<noteq> 0" "file_refs (files s f) + 1 \<noteq> 1"
    using assms(2,4) by (auto simp: eq_neg_iff_add_eq_0)
  have "vfs_file_close f ?t = Ret 0 (put_file f ((files ?t f)\<lparr>file_refs := file_refs (files ?t f) - 1\<rparr>) ?t)"
    by (rule vfs_file_close_shared) (use assms nz in simp_all)
  also have "\<dots> = Ret 0 s" by (simp add: put_file_def)
  finally show ?thesis using vfs_file_retain_live[OF assms(1-3)] by (intro exI[of _ ?t]) simp
qed

text \<open>The release that static nodes have: nothing.\<close>

lemma last_release_static:
  assumes "node_refs (nodes s node) \<noteq> 0
    \<or> (\<exists>ops. node_ops (nodes s node) = Some ops \<and> op_release ops = Some Vfs_static_release)"
  shows "last_release node s = Ret 0 s"
  using assms by (auto simp: last_release_def call_release_def vfs_static_release_def)

text \<open>
  C27: Opening a node and closing the file leaves nothing behind: for a node that somebody else holds open, or a static
  one, the allocations of the heap, the nodes with their reference counts and every other file are what they were.
\<close>

theorem open_close_roundtrip:
  assumes room: "heap_room s a (Suc k)" and node: "node \<noteq> NullNode" "openable (nodes s node) access"
    and held: "node_refs (nodes s node) \<noteq> - 1"
    "node_refs (nodes s node) \<noteq> 0 \<or> (\<exists>ops. node_ops (nodes s node) = Some ops \<and> op_release ops = Some Vfs_static_release)"
  shows "\<exists>f t u. vfs_file_open node access s = Ret f t \<and> f \<noteq> 0 \<and> a f = None \<and> files t f = new_file node access
     \<and> node_refs (nodes t node) = node_refs (nodes s node) + 1
     \<and> vfs_file_close f t = Ret 0 u \<and> heap_room u a k \<and> nodes u = nodes s \<and> (\<forall>g. g \<noteq> f \<longrightarrow> files u g = files s g)
     \<and> file_frame s u"
proof -
  obtain f t n where t: "vfs_make_file node access s = Ret f t" "f \<noteq> 0" "a f = None" "heap_room t (a(f \<mapsto> n)) k"
    "files t = (files s)(f := new_file node access)"
    "nodes t = (nodes s)(node := (nodes s node)\<lparr>node_refs := node_refs (nodes s node) + 1\<rparr>)"
    "fd_inputs t = fd_inputs s" "fd_outputs_released t = fd_outputs_released s" "file_frame s t"
    using vfs_make_file_spec[OF room] .
  have nz: "node_refs (nodes s node) + 1 \<noteq> 0" using held(1) by (auto simp: eq_neg_iff_add_eq_0)
  from vfs_file_close_last[OF t(4), of f n node] t nz node(1) obtain u where u: "vfs_file_close f t = last_release node u"
    "heap_room u ((a(f \<mapsto> n))(f := None)) k" "files u = (files t)(f := (files t f)\<lparr>file_refs := 0, file_node := NullNode\<rparr>)"
    "nodes u = (nodes t)(node := (nodes t node)\<lparr>node_refs := node_refs (nodes t node) - 1\<rparr>)" "file_frame t u"
    by (auto simp: new_file_def)
  have nodes: "nodes u = nodes s" using u(4) t(6) by simp
  then have "vfs_file_close f t = Ret 0 u" using u(1) last_release_static[of u node] held(2) by simp
  moreover have "(a(f \<mapsto> n))(f := None) = a" using t(3) by auto
  ultimately show ?thesis
    using t u nodes node file_frame_trans[OF t(9) u(5)]
    by (intro exI[of _ f] exI[of _ t] exI[of _ u]) (simp add: vfs_file_open_exact)
qed

section \<open>The console descriptors\<close>

lemma console_release:
  assumes "heap_room s a k" "r = Fd_console_output_release \<or> r = Fd_console_input_release"
    "node_data (nodes s (HeapNode i)) = HeapData d" "a d = Some m" "a i = Some n" "d \<noteq> i"
  obtains t where "call_release r (HeapNode i) s = Ret 0 t" "heap_room t (a(d := None, i := None)) k"
    "nodes t = nodes s" "files t = files s" "file_frame s t"
proof -
  let ?s = "if r = Fd_console_output_release then s\<lparr>fd_outputs_released := (fd_outputs_released s)(d := fd_outputs_released s d + 1)\<rparr>
    else s\<lparr>fd_inputs := (fd_inputs s)(d := (fd_inputs s d)\<lparr>fd_input_released := fd_input_released (fd_inputs s d) + 1\<rparr>)\<rparr>"
  have room: "heap_room ?s a k" using assms(1) by simp
  from heap_room_kfree[OF room assms(4)] obtain t where t: "kfree d ?s = Ret () t" "heap_room t (a(d := None)) k" "heap_frame ?s t" .
  have "(a(d := None)) i = Some n" using assms(5,6) by simp
  from heap_room_kfree[OF t(2) this] obtain u where u: "kfree i t = Ret () u" "heap_room u (a(d := None, i := None)) k" "heap_frame t u" .
  have c: "call_release r (HeapNode i) s = Ret 0 u"
    using assms(2,3) t(1) u(1)
    by (auto simp: call_release_def fd_console_output_release_def fd_console_input_release_def Let_def data_address_def kfree_node_def)
  have f: "file_frame s ?s" by (simp add: file_frame_def)
  show ?thesis
    by (rule that[OF c u(2)])
      (use heap_frame_files(1,2)[OF t(3)] heap_frame_files(1,2)[OF u(3)] file_frame_trans[OF f file_frame_trans[OF heap_file_frame[OF t(3)] heap_file_frame[OF u(3)]]] in simp_all)
qed

definition input_node :: "u32 \<Rightarrow> addr \<Rightarrow> vfs_node" where
  "input_node n d = \<lparr>node_kind = VFS_NODE_CONSOLE, node_refs = n, node_ops = Some fd_console_input_ops, node_data = HeapData d\<rparr>"

definition output_node :: "u32 \<Rightarrow> addr \<Rightarrow> vfs_node" where
  "output_node n d = \<lparr>node_kind = VFS_NODE_CONSOLE, node_refs = n, node_ops = Some fd_console_output_ops, node_data = HeapData d\<rparr>"

lemma console_node_simps [simp]:
  "openable (input_node n d) VFS_ACCESS_READ" "openable (output_node n d) VFS_ACCESS_WRITE"
  "node_refs (input_node n d) = n" "node_refs (output_node n d) = n"
  "(input_node n d)\<lparr>node_refs := m\<rparr> = input_node m d" "(output_node n d)\<lparr>node_refs := m\<rparr> = output_node m d"
  "node_data (input_node n d) = HeapData d" "node_data (output_node n d) = HeapData d"
  by (simp_all add: openable_def input_node_def output_node_def fd_console_input_ops_def fd_console_output_ops_def
      vfs_open_flags_valid_def VFS_ACCESS_READ_def VFS_ACCESS_WRITE_def)

definition console_entry :: "addr \<Rightarrow> fd_entry" where
  "console_entry f = \<lparr>used = 1, kind = FD_KIND_CONSOLE, entry_file = f\<rparr>"

definition empty_table :: fd_table where
  "empty_table = replicate 16 empty_entry"

lemma empty_table_simps [simp]: "length empty_table = 16" "i < 16 \<Longrightarrow> empty_table ! i = empty_entry"
  by (simp_all add: empty_table_def)

definition console_table :: "addr \<Rightarrow> addr \<Rightarrow> addr \<Rightarrow> fd_table" where
  "console_table a b c = empty_table[0 := console_entry a, 1 := console_entry b, 2 := console_entry c]"

lemma fd_table_initialize_empty: "length t = fd_table_capacity \<Longrightarrow> fd_table_initialize (Some t) s = Ret empty_table s"
proof -
  assume len: "length t = fd_table_capacity"
  have keep: "length (fold (\<lambda>index t. t[index := empty_entry]) xs t) = length t" for xs and t :: fd_table
    by (induction xs arbitrary: t) simp_all
  have "fold (\<lambda>index t. t[index := empty_entry]) [0..<n] t = replicate n empty_entry @ drop n t" if "n \<le> length t" for n
    using that
  proof (induction n)
    case (Suc n)
    then have n: "n < length t" by simp
    have "(replicate n empty_entry @ drop n t)[n := empty_entry] = replicate n empty_entry @ (drop n t)[0 := empty_entry]"
      by (simp add: list_update_append)
    also have "\<dots> = replicate (Suc n) empty_entry @ drop (Suc n) t"
      using Cons_nth_drop_Suc[OF n, symmetric] by (simp add: replicate_append_same[symmetric])
    finally show ?case using Suc n by simp
  qed simp
  from this[of 16] len show ?thesis by (simp add: fd_table_initialize_def empty_table_def fd_table_capacity_def)
qed

lemma install_console:
  assumes "f \<noteq> 0" "first_unused 0 t = Some i"
  shows "fd_table_install (Some t) FD_KIND_CONSOLE f = (of_nat i, Some (t[i := console_entry f]))"
  using assms by (simp add: fd_table_install_def console_entry_def)

lemma first_unused_console:
  "first_unused 0 empty_table = Some 0" "first_unused 0 (empty_table[0 := console_entry a]) = Some 1"
  "first_unused 0 (empty_table[0 := console_entry a, 1 := console_entry b]) = Some 2"
  by (simp_all add: empty_table_def numeral_eq_Suc empty_entry_def console_entry_def)

lemma seed_install_spec:
  assumes "a \<noteq> 0" "b \<noteq> 0" "c \<noteq> 0"
  shows "seed_install a b c empty_table s = Ret (True, Some (console_table a b c)) s"
  using install_console[OF assms(1) first_unused_console(1)] install_console[OF assms(2) first_unused_console(2)]
    install_console[OF assms(3) first_unused_console(3)]
  by (simp add: seed_install_def console_table_def)

text \<open>
  \<open>console_open s a k t table xs\<close>: \<open>t\<close> is \<open>s\<close> with the console opened: the seven new objects \<open>xs\<close> (data and node of
  input and output, and the three files) are on the heap, and \<open>table\<close> has the three descriptors.
\<close>

definition console_open ::
  "'a vfs_state_scheme \<Rightarrow> (addr \<rightharpoonup> nat) \<Rightarrow> nat \<Rightarrow> 'a vfs_state_scheme \<Rightarrow> fd_table \<Rightarrow> addr list \<Rightarrow> nat list \<Rightarrow> bool" where
  "console_open s a k t table xs ns \<longleftrightarrow> (case xs of [di, dd, i, out, fi, fo, fe] \<Rightarrow>
     distinct xs \<and> 0 \<notin> set xs \<and> (\<forall>x \<in> set xs. a x = None) \<and> length ns = 7
     \<and> heap_room t (a(xs [\<mapsto>] ns)) k
     \<and> nodes t = (nodes s)(HeapNode i := input_node 1 di, HeapNode out := output_node 2 dd)
     \<and> files t = (files s)(fi := new_file (HeapNode i) VFS_ACCESS_READ, fo := new_file (HeapNode out) VFS_ACCESS_WRITE,
                        fe := new_file (HeapNode out) VFS_ACCESS_WRITE)
     \<and> fd_inputs t di = \<lparr>fd_input_released = 0, fd_input_byte = char_to_byte CHR 0x40, fd_input_used = 0\<rparr>
     \<and> table = console_table fi fo fe \<and> file_frame s t
   | _ \<Rightarrow> False)"

lemma seed_console_spec:
  assumes room: "heap_room s a (k + 7)"
  obtains t table xs ns where "fd_table_seed_console (Some empty_table) s = Ret (True, Some table) t" "console_open s a k t table xs ns"
proof -
  have sz: "(12::u64) \<noteq> 0" "unat (12::u64) \<le> 4000" "(4::u64) \<noteq> 0" "unat (4::u64) \<le> 4000" 
    "sizeof_vfs_node \<noteq> 0" "unat sizeof_vfs_node \<le> 4000" by (simp_all add: sizeof_vfs_node_def)
  from room have "heap_room s a (Suc (k + 6))" by (rule heap_room_less) simp
  from heap_room_kzalloc[OF this sz(1,2)] obtain di s1 n1 where 1: "kzalloc 12 s = Ret di s1" "di \<noteq> 0" "a di = None"
    "heap_room s1 (a(di \<mapsto> n1)) (k + 6)" "heap_frame s s1" .
  then have "heap_room s1 (a(di \<mapsto> n1)) (Suc (k + 5))" by - (rule heap_room_less, assumption, simp)
  from heap_room_kzalloc[OF this sz(3,4)] obtain dd s2 n2 where 2: "kzalloc 4 s1 = Ret dd s2" "dd \<noteq> 0" "(a(di \<mapsto> n1)) dd = None"
    "heap_room s2 (a(di \<mapsto> n1, dd \<mapsto> n2)) (k + 5)" "heap_frame s1 s2" .
  then have "heap_room s2 (a(di \<mapsto> n1, dd \<mapsto> n2)) (Suc (k + 4))" by - (rule heap_room_less, assumption, simp)
  from heap_room_kzalloc[OF this sz(5,6)] obtain i s3 n3 where 3: "kzalloc sizeof_vfs_node s2 = Ret i s3" "i \<noteq> 0"
    "(a(di \<mapsto> n1, dd \<mapsto> n2)) i = None" "heap_room s3 (a(di \<mapsto> n1, dd \<mapsto> n2, i \<mapsto> n3)) (k + 4)" "heap_frame s2 s3" .
  then have "heap_room s3 (a(di \<mapsto> n1, dd \<mapsto> n2, i \<mapsto> n3)) (Suc (k + 3))" by - (rule heap_room_less, assumption, simp)
  from heap_room_kzalloc[OF this sz(5,6)] obtain out s4 n4 where 4: "kzalloc sizeof_vfs_node s3 = Ret out s4" "out \<noteq> 0"
    "(a(di \<mapsto> n1, dd \<mapsto> n2, i \<mapsto> n3)) out = None"
    "heap_room s4 (a(di \<mapsto> n1, dd \<mapsto> n2, i \<mapsto> n3, out \<mapsto> n4)) (k + 3)" "heap_frame s3 s4" .
  let ?a4 = "a(di \<mapsto> n1, dd \<mapsto> n2, i \<mapsto> n3, out \<mapsto> n4)"
  have fr: "heap_frame s s4" using 1(5) 2(5) 3(5) 4(5) heap_frame_trans by blast
  let ?cin = "\<lparr>fd_input_released = 0, fd_input_byte = char_to_byte CHR 0x40, fd_input_used = 0\<rparr>"
  let ?s5 = "s4\<lparr>fd_inputs := (fd_inputs s4)(di := ?cin), fd_outputs_released := (fd_outputs_released s4)(dd := 0)\<rparr>"
  let ?s7 = "put_node (HeapNode out) (output_node 0 dd) (put_node (HeapNode i) (input_node 0 di) ?s5)"
  have i1: "vfs_node_initialize (node_pointer i) VFS_NODE_CONSOLE (Some fd_console_input_ops) (HeapData di) ?s5
      = Ret () (put_node (HeapNode i) (input_node 0 di) ?s5)"
    using 3(2) by (simp add: vfs_node_initialize_def node_pointer_def input_node_def)
  have i2: "vfs_node_initialize (node_pointer out) VFS_NODE_CONSOLE (Some fd_console_output_ops) (HeapData dd)
      (put_node (HeapNode i) (input_node 0 di) ?s5) = Ret () ?s7"
    using 4(2) by (simp add: vfs_node_initialize_def node_pointer_def output_node_def)
  have io: "i \<noteq> out" "HeapNode i \<noteq> HeapNode out" using 4(3) by (auto split: if_splits)
  from 4(4) have "heap_room ?s7 ?a4 (Suc (k + 2))" by - (rule heap_room_less, simp only: heap_room_files, simp)
  from vfs_make_file_spec[OF this, of "HeapNode i" VFS_ACCESS_READ] obtain fi s8 n5 where 8:
    "vfs_make_file (HeapNode i) VFS_ACCESS_READ ?s7 = Ret fi s8" "fi \<noteq> 0" "?a4 fi = None" "heap_room s8 (?a4(fi \<mapsto> n5)) (k + 2)"
    "files s8 = (files ?s7)(fi := new_file (HeapNode i) VFS_ACCESS_READ)"
    "nodes s8 = (nodes ?s7)(HeapNode i := (nodes ?s7 (HeapNode i))\<lparr>node_refs := node_refs (nodes ?s7 (HeapNode i)) + 1\<rparr>)"
    "fd_inputs s8 = fd_inputs ?s7" "file_frame ?s7 s8" .
  have o8: "vfs_file_open (node_pointer i) VFS_ACCESS_READ ?s7 = Ret fi s8"
    using 8(1) 3(2) io by (simp add: vfs_file_open_exact node_pointer_def)
  have n8: "nodes s8 (HeapNode out) = output_node 0 dd" using 8(6) io by simp
  from 8(4) have "heap_room s8 (?a4(fi \<mapsto> n5)) (Suc (k + 1))" by - (rule heap_room_less, simp only: heap_room_files, simp)
  from vfs_make_file_spec[OF this, of "HeapNode out" VFS_ACCESS_WRITE] obtain fo s9 n6 where 9:
    "vfs_make_file (HeapNode out) VFS_ACCESS_WRITE s8 = Ret fo s9" "fo \<noteq> 0" "(?a4(fi \<mapsto> n5)) fo = None"
    "heap_room s9 (?a4(fi \<mapsto> n5, fo \<mapsto> n6)) (k + 1)"
    "files s9 = (files s8)(fo := new_file (HeapNode out) VFS_ACCESS_WRITE)"
    "nodes s9 = (nodes s8)(HeapNode out := (nodes s8 (HeapNode out))\<lparr>node_refs := node_refs (nodes s8 (HeapNode out)) + 1\<rparr>)"
    "fd_inputs s9 = fd_inputs s8" "file_frame s8 s9" .
  have o9: "vfs_file_open (node_pointer out) VFS_ACCESS_WRITE s8 = Ret fo s9"
    using 9(1) 4(2) n8 by (simp add: vfs_file_open_exact node_pointer_def)
  have n9: "nodes s9 (HeapNode out) = output_node 1 dd" using 9(6) n8 by simp
  from 9(4) have "heap_room s9 (?a4(fi \<mapsto> n5, fo \<mapsto> n6)) (Suc k)" by - (rule heap_room_less, simp only: heap_room_files, simp)
  from vfs_make_file_spec[OF this, of "HeapNode out" VFS_ACCESS_WRITE] obtain fe s10 n7 where 10:
    "vfs_make_file (HeapNode out) VFS_ACCESS_WRITE s9 = Ret fe s10" "fe \<noteq> 0" "(?a4(fi \<mapsto> n5, fo \<mapsto> n6)) fe = None"
    "heap_room s10 (?a4(fi \<mapsto> n5, fo \<mapsto> n6, fe \<mapsto> n7)) k"
    "files s10 = (files s9)(fe := new_file (HeapNode out) VFS_ACCESS_WRITE)"
    "nodes s10 = (nodes s9)(HeapNode out := (nodes s9 (HeapNode out))\<lparr>node_refs := node_refs (nodes s9 (HeapNode out)) + 1\<rparr>)"
    "fd_inputs s10 = fd_inputs s9" "file_frame s9 s10" .
  have o10: "vfs_file_open (node_pointer out) VFS_ACCESS_WRITE s9 = Ret fe s10"
    using 10(1) 4(2) n9 by (simp add: vfs_file_open_exact node_pointer_def)
  have seed: "fd_table_seed_console (Some empty_table) s = Ret (True, Some (console_table fi fo fe)) s10"
    using 1(1,2) 2(1,2) 3(1,2) 4(1,2) i1 i2 o8 o9 o10 8(2) 9(2) 10(2) seed_install_spec[OF 8(2) 9(2) 10(2), of s10]
    by (simp add: fd_table_seed_console_def Let_def)
  have f5: "file_frame s ?s7" using heap_file_frame[OF fr] by (simp add: file_frame_def put_node_def)
  have "file_frame s s10" using f5 8(8) 9(8) 10(8) file_frame_trans by blast
  moreover have "files s10 = (files s)(fi := new_file (HeapNode i) VFS_ACCESS_READ, fo := new_file (HeapNode out) VFS_ACCESS_WRITE,
                        fe := new_file (HeapNode out) VFS_ACCESS_WRITE)"
    using 8(5) 9(5) 10(5) heap_frame_files(2)[OF fr] by simp
  moreover have "nodes s10 = (nodes s)(HeapNode i := input_node 1 di, HeapNode out := output_node 2 dd)"
    using 10(6) n9 9(6) 8(6) io heap_frame_files(1)[OF fr] by simp
  moreover have "fd_inputs s10 di = ?cin" using 8(7) 9(7) 10(7) by (simp add: put_node_def)
  moreover have "distinct [di, dd, i, out, fi, fo, fe] \<and> 0 \<notin> set [di, dd, i, out, fi, fo, fe]
      \<and> (\<forall>x \<in> set [di, dd, i, out, fi, fo, fe]. a x = None)"
    using 1(2,3) 2(2,3) 3(2,3) 4(2,3) 8(2,3) 9(2,3) 10(2,3) by (auto split: if_splits)
  ultimately have "console_open s a k s10 (console_table fi fo fe) [di, dd, i, out, fi, fo, fe] [n1, n2, n3, n4, n5, n6, n7]"
    using 10(4) by (simp add: console_open_def)
  with seed show ?thesis by (rule that)
qed

lemma close_from_unused: "\<forall>d \<in> set ds. used (t ! d) = 0 \<Longrightarrow> close_from ds t s = Ret t s"
  by (induction ds) simp_all

lemma close_from_append: "close_from (xs @ ys) t s = chain (close_from xs t s) (\<lambda>t s. close_from ys t s)"
proof (induction xs arbitrary: t s)
  case (Cons x xs)
  then show ?case by (cases "fd_table_close (Some t) (of_nat x) s") (auto split: prod.split)
qed simp

lemma sint_small:
  assumes "n < 16"
  shows "sint (of_nat n :: i32) = int n"
proof -
  have "uint (of_nat n :: i32) = int n" using assms by (simp add: unsigned_of_nat take_bit_nat_eq_self)
  then show ?thesis using assms by (simp add: sint_uint signed_take_bit_int_eq_self)
qed

lemma fd_in_range_nat: "n < 16 \<Longrightarrow> fd_in_range (of_nat n)"
  by (simp add: fd_in_range_def fd_table_capacity_def sint_small)

lemma close_console_entry:
  assumes "n < 16" "t ! n = console_entry f" "vfs_file_close f s = Ret r u"
  shows "fd_table_close (Some t) (of_nat n) s = Ret (r, Some (t[n := empty_entry])) u"
proof -
  have "unat (of_nat n :: i32) = n" using assms(1) by (simp add: unat_of_nat)
  then show ?thesis using assms fd_in_range_nat[OF assms(1)] by (simp add: fd_table_close_def console_entry_def)
qed

lemma console_table_clear:
  "(console_table a b c)[0 := empty_entry, 1 := empty_entry, 2 := empty_entry] = empty_table"
  by (simp add: console_table_def empty_table_def numeral_eq_Suc)

lemma console_table_nth:
  "console_table a b c ! 0 = console_entry a" "(console_table a b c)[0 := x] ! 1 = console_entry b"
  "(console_table a b c)[0 := x, 1 := y] ! 2 = console_entry c"
  by (simp_all add: console_table_def empty_table_def numeral_eq_Suc)

lemma close_all_console:
  assumes "vfs_file_close fi s = Ret r1 s1" "vfs_file_close fo s1 = Ret r2 s2" "vfs_file_close fe s2 = Ret r3 s3"
  shows "fd_table_close_all (Some (console_table fi fo fe)) s = Ret (Some empty_table) s3"
proof -
  let ?t = "console_table fi fo fe"
  have u: "used (console_entry f) \<noteq> 0" for f by (simp add: console_entry_def)
  have c1: "fd_table_close (Some ?t) 0 s = Ret (r1, Some (?t[0 := empty_entry])) s1"
    using close_console_entry[OF _ console_table_nth(1) assms(1)] by simp
  have c2: "fd_table_close (Some (?t[0 := empty_entry])) 1 s1 = Ret (r2, Some (?t[0 := empty_entry, 1 := empty_entry])) s2"
    using close_console_entry[OF _ console_table_nth(2) assms(2)] by simp
  have c3: "fd_table_close (Some (?t[0 := empty_entry, 1 := empty_entry])) 2 s2 = Ret (r3, Some empty_table) s3"
    using close_console_entry[OF _ console_table_nth(3) assms(3)] console_table_clear by simp
  have "close_from [0, 1, 2] ?t s = Ret empty_table s3"
    using c1 c2 c3 console_table_nth[of fi fo fe] u by simp
  moreover have "close_from [3..<16] empty_table s3 = Ret empty_table s3"
    by (rule close_from_unused) (simp add: empty_entry_def)
  moreover have "[0..<16] = [0, 1, 2] @ [3..<16]" by (simp add: upt_rec)
  ultimately have "close_from [0..<16] ?t s = Ret empty_table s3" by (simp only: close_from_append chain.simps)
  then show ?thesis by (simp add: fd_table_close_all_def fd_table_capacity_def)
qed

lemma console_close_spec:
  assumes "console_open s a k t table xs ns"
  obtains u where "fd_table_close_all (Some table) t = Ret (Some empty_table) u" "heap_room u a k" "file_frame s u"
    "\<And>f. a f \<noteq> None \<Longrightarrow> files u f = files s f" "\<And>f. a f \<noteq> None \<Longrightarrow> nodes u (HeapNode f) = nodes s (HeapNode f)"
    "\<And>n. (\<forall>f. n \<noteq> HeapNode f) \<Longrightarrow> nodes u n = nodes s n"
proof -
  from assms obtain di dd i out fi fo fe where xs: "xs = [di, dd, i, out, fi, fo, fe]"
    by (auto simp: console_open_def split: list.splits)
  from assms xs have len: "length ns = 7" by (simp add: console_open_def)
  then obtain n1 n2 n3 n4 n5 n6 n7 where ns: "ns = [n1, n2, n3, n4, n5, n6, n7]"
    by (auto simp: numeral_eq_Suc length_Suc_conv)
  let ?a = "a(di \<mapsto> n1, dd \<mapsto> n2, i \<mapsto> n3, out \<mapsto> n4, fi \<mapsto> n5, fo \<mapsto> n6, fe \<mapsto> n7)"
  from assms xs ns have d: "distinct [di, dd, i, out, fi, fo, fe]" "0 \<notin> {di, dd, i, out, fi, fo, fe}"
    and fresh: "\<forall>x \<in> {di, dd, i, out, fi, fo, fe}. a x = None" and room: "heap_room t ?a k"
    and nodes: "nodes t = (nodes s)(HeapNode i := input_node 1 di, HeapNode out := output_node 2 dd)"
    and files: "files t = (files s)(fi := new_file (HeapNode i) VFS_ACCESS_READ, fo := new_file (HeapNode out) VFS_ACCESS_WRITE,
                        fe := new_file (HeapNode out) VFS_ACCESS_WRITE)"
    and table: "table = console_table fi fo fe" and fr: "file_frame s t"
    by (simp_all add: console_open_def)
  have fi: "?a fi = Some n5" "fi \<noteq> 0" "file_refs (files t fi) = 1" "file_node (files t fi) = HeapNode i"
    "node_refs (nodes t (HeapNode i)) \<noteq> 0" using d files nodes by (auto simp: new_file_def)
  from vfs_file_close_last[OF room fi(1-4) _ fi(5)] obtain t1 where t1: "vfs_file_close fi t = last_release (HeapNode i) t1"
    "heap_room t1 (?a(fi := None)) k" "files t1 = (files t)(fi := (files t fi)\<lparr>file_refs := 0, file_node := NullNode\<rparr>)"
    "nodes t1 = (nodes t)(HeapNode i := (nodes t (HeapNode i))\<lparr>node_refs := node_refs (nodes t (HeapNode i)) - 1\<rparr>)" "file_frame t t1"
    by blast
  have n1: "nodes t1 (HeapNode i) = input_node 0 di" "nodes t1 (HeapNode out) = output_node 2 dd" using t1(4) nodes d by auto
  have rel1: "last_release (HeapNode i) t1 = call_release Fd_console_input_release (HeapNode i) t1"
    using n1 by (simp add: last_release_def input_node_def fd_console_input_ops_def)
  have a1: "(?a(fi := None)) di = Some n1" "(?a(fi := None)) i = Some n3" using d by auto
  have r1: "Fd_console_input_release = Fd_console_output_release \<or> Fd_console_input_release = Fd_console_input_release" by simp
  have nd1: "node_data (nodes t1 (HeapNode i)) = HeapData di" using n1 by simp
  have di: "di \<noteq> i" using d by auto
  from console_release[OF t1(2) r1 nd1 a1 di] obtain u1 where u1:
    "call_release Fd_console_input_release (HeapNode i) t1 = Ret 0 u1" "heap_room u1 (?a(fi := None, di := None, i := None)) k"
    "nodes u1 = nodes t1" "files u1 = files t1" "file_frame t1 u1" .
  have fo: "(?a(fi := None, di := None, i := None)) fo = Some n6" "fo \<noteq> 0" "file_refs (files u1 fo) = 1"
    "file_node (files u1 fo) = HeapNode out" "node_refs (nodes u1 (HeapNode out)) \<noteq> 0"
    using d files n1 t1(3) u1(3,4) by (auto simp: new_file_def)
  from vfs_file_close_last[OF u1(2) fo(1-4) _ fo(5)] obtain t2 where t2: "vfs_file_close fo u1 = last_release (HeapNode out) t2"
    "heap_room t2 (?a(fi := None, di := None, i := None, fo := None)) k"
    "files t2 = (files u1)(fo := (files u1 fo)\<lparr>file_refs := 0, file_node := NullNode\<rparr>)"
    "nodes t2 = (nodes u1)(HeapNode out := (nodes u1 (HeapNode out))\<lparr>node_refs := node_refs (nodes u1 (HeapNode out)) - 1\<rparr>)" "file_frame u1 t2"
    by blast
  have n2: "nodes t2 (HeapNode out) = output_node 1 dd" using t2(4) u1(3) n1 by simp
  then have c2: "vfs_file_close fo u1 = Ret 0 t2" using t2(1) last_release_static[of t2] by simp
  have fe: "(?a(fi := None, di := None, i := None, fo := None)) fe = Some n7" "fe \<noteq> 0" "file_refs (files t2 fe) = 1"
    "file_node (files t2 fe) = HeapNode out" "node_refs (nodes t2 (HeapNode out)) \<noteq> 0"
    using d files n2 t1(3) u1(4) t2(3) by (auto simp: new_file_def)
  from vfs_file_close_last[OF t2(2) fe(1-4) _ fe(5)] obtain t3 where t3: "vfs_file_close fe t2 = last_release (HeapNode out) t3"
    "heap_room t3 (?a(fi := None, di := None, i := None, fo := None, fe := None)) k"
    "files t3 = (files t2)(fe := (files t2 fe)\<lparr>file_refs := 0, file_node := NullNode\<rparr>)"
    "nodes t3 = (nodes t2)(HeapNode out := (nodes t2 (HeapNode out))\<lparr>node_refs := node_refs (nodes t2 (HeapNode out)) - 1\<rparr>)" "file_frame t2 t3"
    by blast
  have n3: "nodes t3 (HeapNode out) = output_node 0 dd" using t3(4) n2 by simp
  have rel3: "last_release (HeapNode out) t3 = call_release Fd_console_output_release (HeapNode out) t3"
    using n3 by (simp add: last_release_def output_node_def fd_console_output_ops_def)
  have a3: "(?a(fi := None, di := None, i := None, fo := None, fe := None)) dd = Some n2"
    "(?a(fi := None, di := None, i := None, fo := None, fe := None)) out = Some n4" using d by auto
  have nd3: "node_data (nodes t3 (HeapNode out)) = HeapData dd" using n3 by simp
  have dout: "dd \<noteq> out" using d by auto
  from console_release[OF t3(2) _ nd3 a3 dout, of Fd_console_output_release] obtain u3 where u3:
    "call_release Fd_console_output_release (HeapNode out) t3 = Ret 0 u3"
    "heap_room u3 (?a(fi := None, di := None, i := None, fo := None, fe := None, dd := None, out := None)) k"
    "nodes u3 = nodes t3" "files u3 = files t3" "file_frame t3 u3" by blast
  have close: "fd_table_close_all (Some table) t = Ret (Some empty_table) u3" unfolding table
    by (rule close_all_console) (use t1(1) rel1 u1(1) c2 t3(1) rel3 u3(1) in simp_all)
  have "?a(fi := None, di := None, i := None, fo := None, fe := None, dd := None, out := None) = a"
    using fresh by (auto simp: fun_eq_iff)
  then have "heap_room u3 a k" using u3(2) by simp
  moreover have "file_frame s u3" using fr t1(5) u1(5) t2(5) t3(5) u3(5) file_frame_trans by blast
  moreover have "files u3 f = files s f" if "a f \<noteq> None" for f
    using that fresh u3(4) t3(3) t2(3) u1(4) t1(3) files by auto
  moreover have "nodes u3 (HeapNode f) = nodes s (HeapNode f)" if "a f \<noteq> None" for f
    using that fresh u3(3) t3(4) t2(4) u1(3) t1(4) nodes by auto
  moreover have "nodes u3 n = nodes s n" if "\<forall>f. n \<noteq> HeapNode f" for n
    using that u3(3) t3(4) t2(4) u1(3) t1(4) nodes by auto
  ultimately show ?thesis using that close by blast
qed

end
