(* ===== verification/SchedSpec.thy ===== *)
theory SchedSpec
  imports Frames
begin

text \<open>
  What \<open>src/kernel/sched.c\<close> promises: from \<open>sched_initialize\<close> on, at every entry into the kernel, the
  processor belongs to exactly one task, and a task that was interrupted goes on where it was.
\<close>

section \<open>What the scheduler looks at\<close>

definition sched_part :: "'a sched_state_scheme \<Rightarrow> (task_ref \<Rightarrow> task) \<times> task_ref option \<times> bool \<times> bool \<times> user_task_bootstrap \<times> addr \<times> addr" where
  "sched_part s = (tasks s, current s, sched_started s, user_task_enabled s, user_task_bootstrap s, paging_kernel_pml4 s, cr3 s)"

interpretation sched_files: file_part sched_part
  by unfold_locales (simp_all add: sched_part_def)

lemma sched_part_eqD:
  assumes "sched_part t = sched_part s"
  shows "tasks t = tasks s" "current t = current s" "sched_started t = sched_started s"
    "user_task_enabled t = user_task_enabled s" "user_task_bootstrap t = user_task_bootstrap s"
    "paging_kernel_pml4 t = paging_kernel_pml4 s" "cr3 t = cr3 s"
  using assms by (simp_all add: sched_part_def)

section \<open>The invariant\<close>

definition task_ok :: "addr \<Rightarrow> task \<Rightarrow> bool" where
  "task_ok pml4 x \<longleftrightarrow> rsp x \<noteq> 0
     \<and> (task_kind x = TASK_KERNEL \<longrightarrow> task_cr3 x = pml4)
     \<and> (task_kind x = TASK_USER \<longrightarrow> task_cr3 x \<noteq> 0 \<and> task_cr3 x = address_space (user_bootstrap x))"

definition waits :: "addr \<Rightarrow> task \<Rightarrow> bool" where
  "waits pml4 x \<longleftrightarrow> state x = TASK_RUNNABLE \<and> task_ok pml4 x"

definition sched_inv :: "'a sched_state_scheme \<Rightarrow> bool" where
  "sched_inv s \<longleftrightarrow> (\<forall>t. length (task_fd_table (tasks s t)) = fd_table_capacity)
     \<and> (case current s of
          None \<Rightarrow> \<not> sched_started s \<and> (\<forall>t. waits (paging_kernel_pml4 s) (tasks s t))
        | Some c \<Rightarrow> sched_started s \<and> state (tasks s c) = TASK_RUNNING \<and> task_ok (paging_kernel_pml4 s) (tasks s c)
            \<and> cr3 s = task_cr3 (tasks s c)
            \<and> (waits (paging_kernel_pml4 s) (tasks s (other_task c)) \<or> state (tasks s (other_task c)) = TASK_DONE))"

lemma sched_inv_part:
  assumes "sched_part t = sched_part s"
  shows "sched_inv t \<longleftrightarrow> sched_inv s"
  unfolding sched_inv_def sched_part_eqD[OF assms] ..

lemma other_task_simps [simp]:
  "other_task c \<noteq> c" "c \<noteq> other_task c" "other_task (other_task c) = c" "x \<noteq> c \<longleftrightarrow> x = other_task c"
  by (cases c; cases x; simp add: other_task_def)+

lemma all_task: "(\<forall>t. P t) \<longleftrightarrow> P c \<and> P (other_task c)"
  by (cases c) (metis other_task_simps(4))+

section \<open>Ticks\<close>

text \<open>The address space of a task is one it may run in: a user task does not run on the kernel's tables.\<close>

definition own_space :: "addr \<Rightarrow> task \<Rightarrow> bool" where
  "own_space pml4 x \<longleftrightarrow> (task_kind x = TASK_USER \<longrightarrow> task_cr3 x \<noteq> pml4)"

definition run_task :: "task_ref \<Rightarrow> 'a sched_state_scheme \<Rightarrow> 'a sched_state_scheme" where
  "run_task t s = s\<lparr>current := Some t, cr3 := task_cr3 (tasks s t), tasks := (tasks s)(t := (tasks s t)\<lparr>state := TASK_RUNNING\<rparr>)\<rparr>"

lemma start_task_waits:
  assumes "waits (paging_kernel_pml4 s) (tasks s t)"
  shows "start_task t text s =
    (if own_space (paging_kernel_pml4 s) (tasks s t) then Ret (rsp (tasks s t)) (run_task t s)
     else sched_fail ''sched user cr3'' (s\<lparr>current := Some t\<rparr>))"
  using assms
  by (cases "task_kind (tasks s t)")
    (auto simp: start_task_def sched_validate_task_def waits_def task_ok_def own_space_def run_task_def Let_def
      paging_kernel_address_space_def paging_activate_def arch_load_cr3_def upd_task_def sched_fail_def)

lemma start_task_Ret:
  assumes "start_task t text s = Ret r u"
  shows "waits (paging_kernel_pml4 s) (tasks s t) \<or> task_kind (tasks s t) = TASK_USER"
    "state (tasks s t) = TASK_RUNNABLE" "rsp (tasks s t) \<noteq> 0" "r = rsp (tasks s t)" "u = run_task t s"
    "task_kind (tasks s t) = TASK_KERNEL \<longrightarrow> task_cr3 (tasks s t) = paging_kernel_pml4 s"
    "task_kind (tasks s t) = TASK_USER \<longrightarrow> task_cr3 (tasks s t) \<noteq> 0 \<and> own_space (paging_kernel_pml4 s) (tasks s t)"
  using assms
  by (cases "task_kind (tasks s t)";
      auto simp: start_task_def sched_validate_task_def waits_def task_ok_def own_space_def run_task_def Let_def
      paging_kernel_address_space_def paging_activate_def arch_load_cr3_def upd_task_def sched_fail_def split: if_splits)+

text \<open>What a tick in the invariant does, on both branches of the selection.\<close>

definition park :: "task_ref \<Rightarrow> addr \<Rightarrow> 'a sched_state_scheme \<Rightarrow> 'a sched_state_scheme" where
  "park c r s = upd_task c (\<lambda>x. x\<lparr>rsp := r, state := TASK_RUNNABLE\<rparr>) s"

lemma sched_tick_running:
  assumes "sched_inv s" "current s = Some c"
  shows "sched_tick r s = (if waits (paging_kernel_pml4 s) (tasks s (other_task c))
     then start_task (other_task c) ''sched next state'' (park c r s)
     else start_task c ''sched next state'' (park c r s))"
  using assms
  by (auto simp: sched_tick_def sched_inv_def waits_def task_ok_def sched_select_next_def park_def upd_task_def)

lemma sched_tick_first:
  assumes "sched_inv s" "current s = None"
  shows "sched_tick r s = start_task (if user_task_enabled s then Task1 else Task0) ''sched start state'' (s\<lparr>sched_started := True\<rparr>)"
  using assms by (simp add: sched_tick_def sched_inv_def)

lemma start_task_park_other:
  assumes "waits (paging_kernel_pml4 s) (tasks s (other_task c))"
  shows "start_task (other_task c) msg (park c r s) =
    (if own_space (paging_kernel_pml4 s) (tasks s (other_task c))
     then Ret (rsp (tasks s (other_task c))) (run_task (other_task c) (park c r s))
     else sched_fail ''sched user cr3'' ((park c r s)\<lparr>current := Some (other_task c)\<rparr>))"
  using start_task_waits[of "park c r s" "other_task c" msg] assms by (simp add: park_def upd_task_def)

section \<open>Descriptor tables keep their length\<close>

definition same_length :: "fd_table \<Rightarrow> ('a \<times> fd_table option, 's) outcome \<Rightarrow> bool" where
  "same_length t m \<longleftrightarrow> (\<forall>r u s. m = Ret (r, u) s \<longrightarrow> (\<exists>v. u = Some v \<and> length v = length t))"

lemma same_lengthD: "same_length t m \<Longrightarrow> m = Ret (r, u) s \<Longrightarrow> \<exists>v. u = Some v \<and> length v = length t"
  by (simp add: same_length_def)

lemma same_length_simps [simp]:
  "same_length t (Ret x s) \<longleftrightarrow> (\<exists>v. snd x = Some v \<and> length v = length t)" "same_length t (Halt s)" "same_length t Diverge"
  by (cases x; simp add: same_length_def)+

lemma same_length_chain: "(\<And>v s. same_length t (k v s)) \<Longrightarrow> same_length t (chain m k)"
  by (cases m) simp_all

lemma install_length: "\<exists>v. snd (fd_table_install (Some t) k f) = Some v \<and> length v = length t"
  by (simp add: fd_table_install_def split: option.split)

lemma initialize_length: "fd_table_initialize (Some t) s = Ret u v \<Longrightarrow> length u = length t"
proof -
  have "length (fold (\<lambda>index t. t[index := e]) xs t) = length t" for e :: fd_entry and xs
    by (induction xs arbitrary: t) simp_all
  then show "fd_table_initialize (Some t) s = Ret u v \<Longrightarrow> length u = length t"
    by (auto simp: fd_table_initialize_def)
qed

lemma dup_length: "same_length t (fd_table_dup (Some t) d s)"
  using install_length[of t]
  by (auto simp: fd_table_dup_def Let_def split_beta intro!: same_length_chain split: option.split)

lemma close_length: "same_length t (fd_table_close (Some t) d s)"
  by (auto simp: fd_table_close_def intro!: same_length_chain)

lemma close_from_length: "close_from ds t s = Ret u v \<Longrightarrow> length u = length t"
proof (induction ds arbitrary: t s)
  case (Cons d ds)
  show ?case
  proof (cases "used (t ! d) = 0")
    case True
    with Cons show ?thesis by simp
  next
    case False
    with Cons.prems obtain r t' s' where c: "fd_table_close (Some t) (of_nat d) s = Ret (r, t') s'"
      "close_from ds (case t' of None \<Rightarrow> t | Some u \<Rightarrow> u) s' = Ret u v"
      by (auto simp: chain_Ret_iff)
    from same_lengthD[OF close_length c(1)] obtain w where "t' = Some w" "length w = length t" by blast
    with Cons.IH[OF c(2)] show ?thesis by simp
  qed
qed simp

lemma close_all_length: "fd_table_close_all (Some t) s = Ret u v \<Longrightarrow> \<exists>w. u = Some w \<and> length w = length t"
  using close_from_length by (fastforce simp: fd_table_close_all_def chain_Ret_iff)

lemma seed_fails_length: "same_length t (seed_fails a b c t s)"
  by (auto simp: seed_fails_def intro!: same_length_chain)

lemma same_length_trans: "length u = length t \<Longrightarrow> same_length u m \<Longrightarrow> same_length t m"
  by (simp add: same_length_def)

lemma seed_install_length: "same_length t (seed_install a b c t s)"
proof -
  obtain t1 where t1: "snd (fd_table_install (Some t) FD_KIND_CONSOLE a) = Some t1" "length t1 = length t"
    using install_length by blast
  obtain t2 where t2: "snd (fd_table_install (Some t1) FD_KIND_CONSOLE b) = Some t2" "length t2 = length t1"
    using install_length by blast
  obtain t3 where t3: "snd (fd_table_install (Some t2) FD_KIND_CONSOLE c) = Some t3" "length t3 = length t2"
    using install_length by blast
  have "same_length t (seed_fails a b c t1 s)" "same_length t (seed_fails a b c t2 s)" "same_length t (seed_fails a b c t3 s)"
    using t1 t2 t3 same_length_trans[OF _ seed_fails_length] by metis+
  with t1 t2 t3 show ?thesis by (simp add: seed_install_def Let_def split_beta)
qed

lemma seed_console_length: "same_length t (fd_table_seed_console (Some t) s)"
  by (auto simp: fd_table_seed_console_def Let_def seed_fails_length seed_install_length intro!: same_length_chain)

section \<open>Steps of the kernel\<close>

text \<open>
  \<open>retabled c s t\<close>: of what the scheduler looks at, only the descriptor table of task \<open>c\<close> may differ.
  \<open>hands_over s r t\<close>: a task that was not running has not changed, unless the kernel returned to it, and then with the
  \<open>rsp\<close> and in the address space it was left with.
\<close>

definition retabled :: "task_ref \<Rightarrow> 'a sched_state_scheme \<Rightarrow> 'a sched_state_scheme \<Rightarrow> bool" where
  "retabled c s t \<longleftrightarrow> (\<exists>table. length table = length (task_fd_table (tasks s c))
     \<and> sched_part t = sched_part (upd_task c (\<lambda>x. x\<lparr>task_fd_table := table\<rparr>) s))"

definition quiet :: "'a sched_state_scheme \<Rightarrow> 'a sched_state_scheme \<Rightarrow> bool" where
  "quiet s t \<longleftrightarrow> sched_part t = sched_part s \<or> (\<exists>c. current s = Some c \<and> retabled c s t)"

definition hands_over :: "'a sched_state_scheme \<Rightarrow> addr \<Rightarrow> 'a sched_state_scheme \<Rightarrow> bool" where
  "hands_over s r t \<longleftrightarrow> paging_kernel_pml4 t = paging_kernel_pml4 s \<and> (\<forall>x. current s \<noteq> Some x \<longrightarrow>
     (current t \<noteq> Some x \<and> tasks t x = tasks s x) \<or>
     (current t = Some x \<and> waits (paging_kernel_pml4 s) (tasks s x) \<and> tasks t x = (tasks s x)\<lparr>state := TASK_RUNNING\<rparr>
       \<and> r = rsp (tasks s x) \<and> cr3 t = task_cr3 (tasks s x)))"

definition step_ok :: "'a sched_state_scheme \<Rightarrow> addr \<Rightarrow> 'a sched_state_scheme \<Rightarrow> bool" where
  "step_ok s r t \<longleftrightarrow> sched_inv t \<and> hands_over s r t"

lemma upd_task_part: "sched_part t = sched_part s \<Longrightarrow> sched_part (upd_task c f t) = sched_part (upd_task c f s)"
  by (simp add: sched_part_def upd_task_def)

lemma upd_task_simps [simp]:
  "tasks (upd_task c f s) = (tasks s)(c := f (tasks s c))" "current (upd_task c f s) = current s"
  "sched_started (upd_task c f s) = sched_started s" "paging_kernel_pml4 (upd_task c f s) = paging_kernel_pml4 s"
  "cr3 (upd_task c f s) = cr3 s"
  by (simp_all add: upd_task_def)

lemma retabledI:
  "sched_part u = sched_part s \<Longrightarrow> length table = length (task_fd_table (tasks s c)) \<Longrightarrow>
    sched_part t = sched_part (upd_task c (\<lambda>x. x\<lparr>task_fd_table := table\<rparr>) u) \<Longrightarrow> retabled c s t"
  unfolding retabled_def using upd_task_part[of u s c "\<lambda>x. x\<lparr>task_fd_table := table\<rparr>"]
  by (intro exI[of _ table]) simp

lemma retabled_refl: "sched_part t = sched_part s \<Longrightarrow> retabled c s t"
  by (rule retabledI[of t s "task_fd_table (tasks s c)"]) (auto simp: sched_part_def upd_task_def)

lemma retabled_trans:
  assumes "retabled c s t" "retabled c t u"
  shows "retabled c s u"
proof -
  obtain a where a: "length a = length (task_fd_table (tasks s c))"
    "sched_part t = sched_part (upd_task c (\<lambda>x. x\<lparr>task_fd_table := a\<rparr>) s)" using assms(1) by (auto simp: retabled_def)
  obtain b where b: "length b = length (task_fd_table (tasks t c))"
    "sched_part u = sched_part (upd_task c (\<lambda>x. x\<lparr>task_fd_table := b\<rparr>) t)" using assms(2) by (auto simp: retabled_def)
  have "tasks t = (tasks s)(c := (tasks s c)\<lparr>task_fd_table := a\<rparr>)" using a(2) by (auto simp: sched_part_def)
  then have "length b = length (task_fd_table (tasks s c))" using a b by simp
  moreover have "sched_part u = sched_part (upd_task c (\<lambda>x. x\<lparr>task_fd_table := b\<rparr>) s)"
    using a(2) b(2) by (auto simp: sched_part_def upd_task_def)
  ultimately show ?thesis by (auto simp: retabled_def)
qed

lemma retabled_eqs:
  assumes "retabled c s t"
  obtains table where "length table = length (task_fd_table (tasks s c))"
    "tasks t = (tasks s)(c := (tasks s c)\<lparr>task_fd_table := table\<rparr>)" "current t = current s"
    "sched_started t = sched_started s" "paging_kernel_pml4 t = paging_kernel_pml4 s" "cr3 t = cr3 s"
proof -
  obtain table where "length table = length (task_fd_table (tasks s c))"
    "sched_part t = sched_part (upd_task c (\<lambda>x. x\<lparr>task_fd_table := table\<rparr>) s)" using assms by (auto simp: retabled_def)
  then show ?thesis using that[of table] by (auto simp: sched_part_def)
qed

lemma task_ok_simps [simp]:
  "task_ok p (x\<lparr>task_fd_table := t\<rparr>) = task_ok p x" "waits p (x\<lparr>task_fd_table := t\<rparr>) = waits p x"
  "task_ok p (x\<lparr>state := st\<rparr>) = task_ok p x" "task_ok p (x\<lparr>rsp := r, state := st\<rparr>) \<longleftrightarrow> r \<noteq> 0 \<and> task_ok p (x\<lparr>rsp := r\<rparr>)"
  by (auto simp: task_ok_def waits_def)

lemma quiet_step:
  assumes "quiet s t" "sched_inv s"
  shows "step_ok s r t" "current t = current s"
proof -
  consider "sched_part t = sched_part s" | c where "current s = Some c" "retabled c s t" using assms(1) by (auto simp: quiet_def)
  then have "step_ok s r t \<and> current t = current s"
  proof cases
    case 1
    then show ?thesis using assms(2) sched_part_eqD[OF 1] sched_inv_part[OF 1] by (auto simp: step_ok_def hands_over_def)
  next
    case 2
    from 2(2) obtain table where t: "length table = length (task_fd_table (tasks s c))"
      "tasks t = (tasks s)(c := (tasks s c)\<lparr>task_fd_table := table\<rparr>)" "current t = current s"
      "sched_started t = sched_started s" "paging_kernel_pml4 t = paging_kernel_pml4 s" "cr3 t = cr3 s" by (rule retabled_eqs)
    then show ?thesis using assms(2) 2(1) by (auto simp: step_ok_def hands_over_def sched_inv_def)
  qed
  then show "step_ok s r t" "current t = current s" by simp_all
qed

section \<open>Ticks keep the invariant\<close>

lemma run_task_step:
  assumes "current s \<noteq> Some x" "waits (paging_kernel_pml4 s) (tasks s x)"
    "\<forall>t. length (task_fd_table (tasks s t)) = fd_table_capacity" "\<forall>t. length (task_fd_table (tasks u t)) = fd_table_capacity"
    "sched_started u" "paging_kernel_pml4 u = paging_kernel_pml4 s" "tasks u x = tasks s x"
    "waits (paging_kernel_pml4 s) (tasks u (other_task x)) \<or> state (tasks u (other_task x)) = TASK_DONE"
    "current s = None \<longrightarrow> tasks u (other_task x) = tasks s (other_task x)"
  shows "step_ok s (rsp (tasks s x)) (run_task x u)"
  using assms by (auto simp: step_ok_def sched_inv_def hands_over_def run_task_def waits_def)

lemma sched_tick_step:
  assumes inv: "sched_inv s" and tick: "sched_tick r0 s = Ret r t" and "r0 \<noteq> 0"
  shows "step_ok s r t"
proof (cases "current s")
  case None
  let ?x = "if user_task_enabled s then Task1 else Task0"
  have "start_task ?x ''sched start state'' (s\<lparr>sched_started := True\<rparr>) = Ret r t"
    using sched_tick_first[OF inv None] tick by simp
  from start_task_Ret(4,5)[OF this] inv None show ?thesis
    using run_task_step[of s ?x "s\<lparr>sched_started := True\<rparr>"] by (simp add: sched_inv_def)
next
  case (Some c)
  show ?thesis
  proof (cases "waits (paging_kernel_pml4 s) (tasks s (other_task c))")
    case True
    then have "start_task (other_task c) ''sched next state'' (park c r0 s) = Ret r t"
      using sched_tick_running[OF inv Some] tick by simp
    from start_task_Ret(4,5)[OF this] show ?thesis
      using run_task_step[of s "other_task c" "park c r0 s"] inv Some True \<open>r0 \<noteq> 0\<close>
      by (auto simp: sched_inv_def park_def waits_def task_ok_def)
  next
    case False
    then have "start_task c ''sched next state'' (park c r0 s) = Ret r t"
      using sched_tick_running[OF inv Some] tick by simp
    from start_task_Ret(4,5)[OF this] show ?thesis
      using inv Some False \<open>r0 \<noteq> 0\<close>
      by (auto simp: step_ok_def sched_inv_def hands_over_def run_task_def park_def task_ok_def)
  qed
qed

section \<open>Exit and exec keep the invariant\<close>

lemma select_next_other:
  assumes "state (tasks s c) \<noteq> TASK_RUNNABLE"
  shows "sched_select_next c s = (if state (tasks s (other_task c)) = TASK_RUNNABLE then Ret (other_task c) s else Halt s)"
  using assms by (cases c) (auto simp: sched_select_next_def other_task_def)

lemma release_user_bootstrap_part:
  "sched_part s = p \<Longrightarrow> keeps sched_part p (sched_release_user_bootstrap b s)"
  by (auto simp: sched_release_user_bootstrap_def Let_def sched_files.elf_release_user_image
      sched_files.paging_release_user_address_space split: option.split)

lemma build_user_stack_part: "sched_part (snd (task_build_user_stack b s)) = sched_part s"
proof -
  have fold: "sched_part (snd (fold push xs (a, s))) = sched_part s" for xs a
    by (induction xs arbitrary: a s) (simp_all add: push_def sched_files.stores)
  show ?thesis unfolding task_build_user_stack_def
    by (simp only: if_distrib[of snd] if_distrib[of sched_part] snd_conv fold if_cancel)
qed

lemma sched_exit_step:
  assumes inv: "sched_inv s" and ex: "sched_exit_current r0 s = Ret r t"
  shows "step_ok s r t" "\<exists>c. current s = Some c \<and> state (tasks t c) = TASK_DONE \<and> current t = Some (other_task c)"
proof -
  obtain c where c: "current s = Some c" using ex by (cases "current s") (auto simp: sched_exit_current_def sched_fail_def)
  have st: "sched_started s" using inv c by (simp add: sched_inv_def)
  define parked where "parked table v = upd_task c (\<lambda>x. x\<lparr>user_bootstrap := cleared_bootstrap, rsp := 0, state := TASK_DONE\<rparr>)
      (upd_task c (\<lambda>x. x\<lparr>task_fd_table := table\<rparr>) v)" for table and v :: "'a sched_state_scheme"
  from ex c st obtain table s1 nxt s2 r' s3 u s4 where e:
    "fd_table_close_all (Some (task_fd_table (tasks s c))) s = Ret table s1"
    "sched_select_next c (parked (the table) s1) = Ret nxt s2"
    "start_task nxt ''sched exit next'' s2 = Ret r' s3"
    "sched_release_user_bootstrap u s3 = Ret s4 t" "r = rsp (tasks t nxt)"
    by (auto simp: sched_exit_current_def Let_def chain_Ret_iff parked_def)
  have p1: "sched_part s1 = sched_part s"
    using keeps_Ret[OF sched_files.fd_table_close_all e(1)] by simp
  from close_all_length[OF e(1)] obtain w where w: "table = Some w" "length w = length (task_fd_table (tasks s c))" by blast
  let ?u = "parked w s1"
  have eqs: "tasks s1 = tasks s" "paging_kernel_pml4 s1 = paging_kernel_pml4 s" "sched_started s1 = sched_started s"
    "current s1 = current s"
    using sched_part_eqD[OF p1] by simp_all
  have run: "state (tasks s (other_task c)) = TASK_RUNNABLE" "nxt = other_task c" "s2 = ?u"
    using e(2) w eqs select_next_other[of ?u c] by (auto simp: parked_def split: if_splits)
  then have wt: "waits (paging_kernel_pml4 s) (tasks s (other_task c))" using inv c by (simp add: sched_inv_def)
  have r3: "s3 = run_task (other_task c) ?u" "r' = rsp (tasks ?u (other_task c))" using start_task_Ret(4,5)[OF e(3)] run by simp_all
  have "step_ok s (rsp (tasks s (other_task c))) (run_task (other_task c) ?u)"
    by (rule run_task_step) (use inv c wt w eqs in \<open>auto simp: parked_def sched_inv_def\<close>)
  moreover have p: "sched_part t = sched_part (run_task (other_task c) ?u)"
    using keeps_Ret[OF release_user_bootstrap_part e(4)] r3 by simp
  moreover have "rsp (tasks t nxt) = rsp (tasks s (other_task c))"
    using sched_part_eqD(1)[OF p] run eqs by (simp add: run_task_def parked_def)
  ultimately show "step_ok s r t" using sched_part_eqD[OF p] sched_inv_part[OF p] e(5) by (simp add: step_ok_def hands_over_def)
  show "\<exists>c. current s = Some c \<and> state (tasks t c) = TASK_DONE \<and> current t = Some (other_task c)"
    using c sched_part_eqD[OF p] by (auto simp: run_task_def parked_def)
qed

lemma initialize_task_fds_retabled: "initialize_task_fds c s = Ret v t \<Longrightarrow> retabled c s t"
proof -
  assume "initialize_task_fds c s = Ret v t"
  then obtain u s1 where u: "fd_table_initialize (Some (task_fd_table (tasks s c))) s = Ret u s1"
    "t = upd_task c (\<lambda>x. x\<lparr>task_fd_table := u\<rparr>) s1" by (auto simp: initialize_task_fds_def chain_Ret_iff)
  show ?thesis using keeps_Ret[OF sched_files.fd_table_initialize u(1)] initialize_length[OF u(1)] u(2)
    by (intro retabledI[of s1 s u]) simp_all
qed

lemma seed_task_console_retabled: "seed_task_console c s = Ret v t \<Longrightarrow> retabled c s t"
proof -
  assume "seed_task_console c s = Ret v t"
  then obtain b u s1 where u: "fd_table_seed_console (Some (task_fd_table (tasks s c))) s = Ret (b, u) s1"
    "t = upd_task c (\<lambda>x. x\<lparr>task_fd_table := the u\<rparr>) s1" by (auto simp: seed_task_console_def chain_Ret_iff)
  show ?thesis using keeps_Ret[OF sched_files.fd_table_seed_console u(1)] same_lengthD[OF seed_console_length u(1)] u(2)
    by (intro retabledI[of s1 s "the u"]) auto
qed

lemma close_all_retabled:
  assumes "fd_table_close_all (Some (task_fd_table (tasks s c))) s = Ret u s1"
  shows "retabled c s (upd_task c (\<lambda>x. x\<lparr>task_fd_table := the u\<rparr>) s1)"
proof -
  have "sched_part s1 = sched_part s" using keeps_Ret[OF sched_files.fd_table_close_all assms] by simp
  moreover have "length (the u) = length (task_fd_table (tasks s c))" using close_all_length[OF assms] by auto
  ultimately show ?thesis by (rule retabledI) simp
qed

lemma sched_exec_step:
  assumes inv: "sched_inv s" and ex: "sched_exec_current b s = Ret r t"
  shows "if r = 0 then quiet s t else step_ok s r t \<and> current t = current s"
proof (cases "current s")
  case None
  then show ?thesis using ex by (simp add: sched_exec_current_def quiet_def)
next
  case (Some c)
  obtain new_rsp s1 where b: "task_build_user_stack b s = (new_rsp, s1)" by fastforce
  have p1: "sched_part s1 = sched_part s" using build_user_stack_part[of b s] b by simp
  have q1: "quiet s s1" using p1 by (simp add: quiet_def)
  have run: "state (tasks s c) = TASK_RUNNING" "sched_started s" using inv Some by (simp_all add: sched_inv_def)
  let ?bad = "address_space b = 0 \<or> trampoline_entry b = 0 \<or> user_entry b = 0 \<or> user_stack_page b = 0 \<or> user_stack_top b = 0"
  let ?close = "\<lambda>u v. upd_task c (\<lambda>x. x\<lparr>task_fd_table := the u\<rparr>) v"
  let ?win = "\<lambda>p. if image_physical_begin p = image_physical_begin b \<and> image_physical_end p = image_physical_end b
    then p\<lparr>image_physical_begin := 0, image_physical_end := 0\<rparr> else p"
  let ?commit = "\<lambda>v. paging_activate (address_space b)
    (upd_task c (\<lambda>x. x\<lparr>rsp := new_rsp, task_cr3 := address_space b, user_bootstrap := b\<rparr>) v)"
  define finish where "finish v = chain (sched_release_user_bootstrap (Some (?win (user_bootstrap (tasks v c)))) (?commit v))
    (\<lambda>_ s. Ret (rsp (tasks s c)) s)" for v :: "'a sched_state_scheme"
  have split: "sched_exec_current b s =
    (if task_kind (tasks s c) \<noteq> TASK_USER \<or> ?bad then Ret 0 s
     else if new_rsp = 0 then Ret 0 s1
     else chain (fd_table_close_all (Some (task_fd_table (tasks s1 c))) s1) (\<lambda>u v.
       chain (initialize_task_fds c (?close u v)) (\<lambda>_ v. chain (seed_task_console c v) (\<lambda>seeded v.
         if \<not> seeded then Ret 0 v else finish v))))"
    unfolding sched_exec_current_def Some option.case b Let_def case_prod_conv finish_def using run
    by (simp cong: if_cong)
  show ?thesis
  proof (cases "task_kind (tasks s c) \<noteq> TASK_USER \<or> ?bad \<or> new_rsp = 0")
    case True
    then have "r = 0 \<and> quiet s t" using ex q1 unfolding split by (auto simp: quiet_def split: if_splits)
    then show ?thesis by simp
  next
    case False
    then have kind: "task_kind (tasks s c) = TASK_USER" and nz: "address_space b \<noteq> 0" "new_rsp \<noteq> 0" by auto
    have tasks1: "tasks s1 = tasks s" using sched_part_eqD[OF p1] by simp
    from ex False obtain u s2 v3 s3 seeded s4 where e:
      "fd_table_close_all (Some (task_fd_table (tasks s1 c))) s1 = Ret u s2"
      "initialize_task_fds c (?close u s2) = Ret v3 s3" "seed_task_console c s3 = Ret seeded s4"
      "(if \<not> seeded then Ret 0 s4 else finish s4) = Ret r t"
      unfolding split chain_Ret_iff by (simp only: de_Morgan_disj if_False simp_thms chain_Ret_iff) blast
    have rt: "retabled c s s4"
      using retabled_refl[OF p1] close_all_retabled[OF e(1)] initialize_task_fds_retabled[OF e(2)]
        seed_task_console_retabled[OF e(3)] retabled_trans by blast
    show ?thesis
    proof (cases seeded)
      case False
      then show ?thesis using e(4) rt Some by (auto simp: quiet_def)
    next
      case True
      then obtain w s5 where f: "sched_release_user_bootstrap (Some (?win (user_bootstrap (tasks s4 c)))) (?commit s4) = Ret w s5"
        "t = s5" "r = rsp (tasks s5 c)" using e(4) by (auto simp: chain_Ret_iff finish_def)
      have p: "sched_part t = sched_part (?commit s4)" using keeps_Ret[OF release_user_bootstrap_part f(1)] f(2) by simp
      note eqs = sched_part_eqD[OF p]
      from rt obtain table where t: "length table = length (task_fd_table (tasks s c))"
        "tasks s4 = (tasks s)(c := (tasks s c)\<lparr>task_fd_table := table\<rparr>)" "current s4 = current s"
        "sched_started s4 = sched_started s" "paging_kernel_pml4 s4 = paging_kernel_pml4 s" "cr3 s4 = cr3 s" by (rule retabled_eqs)
      have r: "r = new_rsp" using f(2,3) eqs(1) by (simp add: paging_activate_def arch_load_cr3_def)
      have "sched_inv (?commit s4)" using inv Some t nz kind
        by (auto simp: sched_inv_def paging_activate_def arch_load_cr3_def task_ok_def)
      moreover have "hands_over s r (?commit s4)" using Some t
        by (auto simp: hands_over_def paging_activate_def arch_load_cr3_def)
      moreover have "current (?commit s4) = current s" using t by (simp add: paging_activate_def arch_load_cr3_def)
      ultimately show ?thesis using eqs sched_inv_part[OF p] r nz by (simp add: step_ok_def hands_over_def)
    qed
  qed
qed

end
