(* ===== verification/KernelSteps.thy ===== *)
theory KernelSteps
  imports SchedSpec
begin

text \<open>
  The kernel as a transition system: timer ticks, system calls and what the running program does between them; the
  invariant of the scheduler along its runs.
\<close>

section \<open>What a system call does to the tasks\<close>

definition quietly :: "'a sched_state_scheme \<Rightarrow> ('v, 'a sched_state_scheme) outcome \<Rightarrow> bool" where
  "quietly s m \<longleftrightarrow> (\<forall>v t. m = Ret v t \<longrightarrow> quiet s t)"

lemma quietly_simps [simp]:
  "quietly s (Ret v t) \<longleftrightarrow> quiet s t" "quietly s (Halt t)" "quietly s Diverge"
  by (simp_all add: quietly_def)

lemma quiet_partI: "sched_part t = sched_part s \<Longrightarrow> quiet s t"
  by (simp add: quiet_def)

lemma quietly_keeps: "keeps sched_part (sched_part s) m \<Longrightarrow> quietly s m"
  by (cases m) (simp_all add: quiet_partI)

lemma quietly_chain:
  assumes "keeps sched_part (sched_part s) m" "\<And>v t. m = Ret v t \<Longrightarrow> sched_part t = sched_part s \<Longrightarrow> quietly s (k v t)"
  shows "quietly s (chain m k)"
  using assms by (cases m) simp_all

lemma syscall_result_part: "sched_part s = p \<Longrightarrow> keeps sched_part p (syscall_result v f s)"
  by (simp add: syscall_result_def syscall_return_def sched_files.stores)

lemma syscall_result_quiet: "sched_part t = sched_part s \<Longrightarrow> quietly s (syscall_result v f t)"
  by (rule quietly_keeps) (rule syscall_result_part)

lemma set_table_quiet:
  assumes "sched_current_fd_table s = Some t" "sched_part u = sched_part s" "w = Some table" "length table = length t"
  shows "quietly s (syscall_result v f (set_current_fd_table w u))"
proof -
  obtain c where c: "current s = Some c" "t = task_fd_table (tasks s c)"
    using assms(1) by (auto simp: sched_current_fd_table_def split: option.splits)
  have "current u = Some c" using sched_part_eqD[OF assms(2)] c by simp
  then have "retabled c s (syscall_return f v (set_current_fd_table w u))"
    using assms c by (intro retabledI[of u s table])
      (simp_all add: set_current_fd_table_def syscall_return_def sched_files.stores)
  then show ?thesis using c by (auto simp: syscall_result_def quiet_def)
qed

lemma buffer_valid_part: "sched_part s = p \<Longrightarrow> keeps sched_part p (syscall_user_buffer_valid a l b n s)"
  by (simp add: syscall_user_buffer_valid_def sched_files.paging_user_range_mapped)

lemma copy_path_loop_part: "sched_part s = p \<Longrightarrow> keeps sched_part p (copy_path_loop n dst src a l s)"
proof (induction n arbitrary: dst s)
  case (Suc n)
  then show ?case
    by (auto simp: Let_def sched_files.paging_user_range_mapped sched_files.bytes)
qed simp

lemma copy_path_part: "sched_part s = p \<Longrightarrow> keeps sched_part p (syscall_copy_path n src a l s)"
  by (simp add: syscall_copy_path_def copy_path_loop_part)

lemma sys_read_quiet: "quietly s (sys_read l a f s)"
  by (auto simp: sys_read_def syscall_result_part buffer_valid_part sched_files.fd_table_read
      intro!: quietly_keeps split: option.split)

lemma sys_write_quiet: "quietly s (sys_write l a f s)"
  by (auto simp: sys_write_def syscall_result_part buffer_valid_part sched_files.fd_table_write
      intro!: quietly_keeps split: option.split)

lemma table_call_quiet:
  assumes "sched_current_fd_table s = Some table" "same_length table m" "keeps sched_part (sched_part s) m"
  shows "quietly s (chain m (\<lambda>(r, table') s. syscall_result (g r) f (set_current_fd_table table' s)))"
proof (cases m)
  case (Ret x t)
  obtain r u where x: "x = (r, u)" by (cases x)
  from same_lengthD[OF assms(2)] Ret x obtain w where "u = Some w" "length w = length table" by blast
  moreover have "sched_part t = sched_part s" using assms(3) Ret by simp
  ultimately show ?thesis using set_table_quiet[OF assms(1)] Ret x by simp
qed simp_all

lemma sys_close_quiet: "quietly s (sys_close f s)"
proof (cases "sched_current_fd_table s")
  case None
  then show ?thesis by (simp add: sys_close_def syscall_result_quiet)
next
  case (Some table)
  show ?thesis unfolding sys_close_def Some option.case
    by (rule table_call_quiet[OF Some close_length]) (rule sched_files.fd_table_close, rule refl)
qed

lemma sys_dup_quiet: "quietly s (sys_dup f s)"
proof (cases "sched_current_fd_table s")
  case None
  then show ?thesis by (simp add: sys_dup_def syscall_result_quiet)
next
  case (Some table)
  show ?thesis unfolding sys_dup_def Some option.case
    by (rule table_call_quiet[OF Some dup_length]) (rule sched_files.fd_table_dup, rule refl)
qed

lemma quietly_if: "quietly s a \<Longrightarrow> quietly s b \<Longrightarrow> quietly s (if c then a else b)"
  by simp

lemma install_file_quiet:
  fixes s u :: "'a kernel_state_scheme"
  assumes table: "sched_current_fd_table s = Some table" and u: "sched_part u = sched_part s"
  shows "quietly s (let k = (if node_kind (nodes u (file_node (files u file))) = VFS_NODE_CONSOLE then FD_KIND_CONSOLE else FD_KIND_PLACEHOLDER);
            (fd, table') = fd_table_install (Some table) k file
          in if sint fd < 0 then chain (vfs_file_close file u) (\<lambda>_ s. syscall_result SYS_RESULT_ERROR f s)
             else syscall_result (int_result fd) f (set_current_fd_table table' u))"
proof -
  let ?k = "if node_kind (nodes u (file_node (files u file))) = VFS_NODE_CONSOLE then FD_KIND_CONSOLE else FD_KIND_PLACEHOLDER"
  obtain w where w: "snd (fd_table_install (Some table) ?k file) = Some w" "length w = length table"
    using install_length by blast
  have c: "quietly s (chain (vfs_file_close file u) (\<lambda>_ s. syscall_result SYS_RESULT_ERROR f s))"
    by (rule quietly_chain) (simp_all add: sched_files.vfs_file_close u syscall_result_quiet)
  show ?thesis unfolding Let_def split_beta
    by (intro quietly_if c syscall_result_quiet[OF u] set_table_quiet[OF table u w])
qed

lemma sys_open_quiet:
  fixes s :: "'a kernel_state_scheme"
  shows "quietly s (sys_open l a f s)"
proof (cases "sched_current_fd_table s")
  case None
  then show ?thesis by (simp add: sys_open_def syscall_result_quiet)
next
  case (Some table)
  show ?thesis unfolding sys_open_def Some option.case
    by (intro quietly_chain quietly_if copy_path_part sched_files.vfs_open_path syscall_result_quiet install_file_quiet[OF Some])
      (rule refl | assumption)+
qed

section \<open>Exec\<close>

text \<open>A call that only touches the running task, or that hands the processor over properly.\<close>

definition steps_ok :: "'a sched_state_scheme \<Rightarrow> (addr, 'a sched_state_scheme) outcome \<Rightarrow> bool" where
  "steps_ok s m \<longleftrightarrow> (\<forall>r t. m = Ret r t \<longrightarrow> step_ok s r t)"

lemma steps_ok_quiet: "quietly s m \<Longrightarrow> sched_inv s \<Longrightarrow> steps_ok s m"
  using quiet_step(1) by (auto simp: steps_ok_def quietly_def)

lemma quiet_trans_part: "quiet s t \<Longrightarrow> sched_part u = sched_part t \<Longrightarrow> quiet s u"
  by (auto simp: quiet_def retabled_def)

lemma prepare_part: "sched_part s = p \<Longrightarrow> keeps sched_part p (syscall_prepare_exec_bootstrap bld i n b s)"
  by (auto simp: syscall_prepare_exec_bootstrap_def Let_def split_beta sched_files.paging_create_user_address_space
      sched_files.elf_load_user_image sched_files.paging_release_user_address_space sched_files.paging_map_user_page
      sched_files.elf_release_user_image)

lemma release_bootstrap_part: "sched_part s = p \<Longrightarrow> keeps sched_part p (syscall_release_bootstrap b s)"
  by (auto simp: syscall_release_bootstrap_def Let_def sched_files.elf_release_user_image
      sched_files.paging_release_user_address_space split: option.split)

lemma step_ok_part: "sched_part t = sched_part s \<Longrightarrow> step_ok t r u \<longleftrightarrow> step_ok s r u"
  using sched_part_eqD[of t s] by (simp add: step_ok_def hands_over_def)

lemma exec_image_steps:
  assumes inv: "sched_inv s" and p0: "sched_part t = sched_part s"
  shows "steps_ok s (exec_image bld i n f t)"
proof (cases "sched_current_user_bootstrap t")
  case None
  then show ?thesis using steps_ok_quiet[OF syscall_result_quiet[OF p0] inv] by (simp add: exec_image_def)
next
  case (Some b)
  have "step_ok s r v" if ex: "exec_image bld i n f t = Ret r v" for r v
  proof -
    from ex Some obtain prepared t1 where t1: "syscall_prepare_exec_bootstrap bld i n (Some b) t = Ret prepared t1"
      and k: "(case prepared of None \<Rightarrow> syscall_result SYS_RESULT_ERROR f t1
         | Some bootstrap \<Rightarrow>
           let bootstrap = (if USER_TEST_EXEC_TRANSFER_FAIL bld then bootstrap\<lparr>trampoline_entry := 0\<rparr> else bootstrap)
           in chain (sched_exec_current bootstrap t1) (\<lambda>next_rsp s.
                if next_rsp = 0 then
                  chain (syscall_release_bootstrap (Some bootstrap) s) (\<lambda>_ s. syscall_result SYS_RESULT_ERROR f s)
                else Ret next_rsp s)) = Ret r v"
      unfolding exec_image_def by (auto simp: chain_Ret_iff)
    have p1: "sched_part t1 = sched_part s" using keeps_Ret[OF prepare_part t1] p0 by simp
    then have inv1: "sched_inv t1" using inv sched_inv_part by blast
    show ?thesis
    proof (cases prepared)
      case None
      then have "syscall_result SYS_RESULT_ERROR f t1 = Ret r v" using k by simp
      then show ?thesis using steps_ok_quiet[OF syscall_result_quiet[OF p1] inv] unfolding steps_ok_def by blast
    next
      case (Some b0)
      define b1 where "b1 = (if USER_TEST_EXEC_TRANSFER_FAIL bld then b0\<lparr>trampoline_entry := 0\<rparr> else b0)"
      from k Some obtain next_rsp t2 where t2: "sched_exec_current b1 t1 = Ret next_rsp t2"
        and k2: "(if next_rsp = 0 then chain (syscall_release_bootstrap (Some b1) t2) (\<lambda>_ s. syscall_result SYS_RESULT_ERROR f s)
           else Ret next_rsp t2) = Ret r v"
        unfolding Some option.case Let_def b1_def[symmetric] chain_Ret_iff by blast
      note st = sched_exec_step[OF inv1 t2]
      show ?thesis
      proof (cases "next_rsp = 0")
        case True
        then have q: "quiet t1 t2" using st by simp
        have "quietly t1 (chain (syscall_release_bootstrap (Some b1) t2) (\<lambda>_ s. syscall_result SYS_RESULT_ERROR f s))"
          unfolding quietly_def
        proof (intro allI impI)
          fix x y assume c: "chain (syscall_release_bootstrap (Some b1) t2) (\<lambda>_ s. syscall_result SYS_RESULT_ERROR f s) = Ret x y"
          have "keeps sched_part (sched_part t2) (chain (syscall_release_bootstrap (Some b1) t2) (\<lambda>_ s. syscall_result SYS_RESULT_ERROR f s))"
            by (auto simp: release_bootstrap_part syscall_result_part)
          then show "quiet t1 y" using quiet_trans_part[OF q] c by simp
        qed
        then have "step_ok t1 r v" using k2 True quiet_step(1)[OF _ inv1] by (auto simp: quietly_def)
        then show ?thesis using step_ok_part[OF p1] by simp
      next
        case False
        then show ?thesis using st k2 step_ok_part[OF p1] by simp
      qed
    qed
  qed
  then show ?thesis by (simp add: steps_ok_def)
qed

lemma sys_exec_steps:
  fixes s :: "'a kernel_state_scheme"
  assumes inv: "sched_inv s"
  shows "steps_ok s (sys_exec bld l a f s)"
proof -
  have part: "steps_ok s (chain m k)" if "keeps sched_part (sched_part s) m"
    "\<And>v t. sched_part t = sched_part s \<Longrightarrow> steps_ok s (k v t)" for m :: "('v, 'a kernel_state_scheme) outcome" and k
    using that by (cases m) (simp_all add: steps_ok_def)
  have err: "steps_ok s (syscall_result SYS_RESULT_ERROR f t)" if "sched_part t = sched_part s" for t
    using steps_ok_quiet[OF syscall_result_quiet[OF that] inv] .
  have close_err: "steps_ok s (chain (vfs_file_close fl t) (\<lambda>_ s. syscall_result SYS_RESULT_ERROR f s))"
    if "sched_part t = sched_part s" for fl t
    using sched_files.vfs_file_close[OF that] err by (rule part)
  have choose: "steps_ok s (if c then x else y)" if "steps_ok s x" "steps_ok s y" for c x y
    using that by simp
  show ?thesis unfolding sys_exec_def
  proof (rule part[OF copy_path_part[OF refl]], rule choose, erule err, rule part, erule sched_files.vfs_open_exec_path,
      rule choose, erule err)
    fix fl and t :: "'a kernel_state_scheme"
    assume t: "sched_part t = sched_part s"
    show "steps_ok s (case vfs_file_executable_image fl t of
          None \<Rightarrow> chain (vfs_file_close fl t) (\<lambda>_ s. syscall_result SYS_RESULT_ERROR f s)
        | Some (img, img_size) \<Rightarrow>
            if img = 0 \<or> img_size = 0 then chain (vfs_file_close fl t) (\<lambda>_ s. syscall_result SYS_RESULT_ERROR f s)
            else chain (vfs_file_close fl t) (\<lambda>r s.
              if r \<noteq> 0 then syscall_result SYS_RESULT_ERROR f s else exec_image bld img img_size f s))"
      unfolding option.case_eq_if split_beta
      by (intro choose close_err[OF t] part[OF sched_files.vfs_file_close[OF t]] err exec_image_steps[OF inv]) assumption+
  qed
qed

section \<open>Entries into the kernel\<close>

lemma kernel_syscall_steps:
  fixes s :: "'a kernel_state_scheme"
  assumes inv: "sched_inv s" and f: "f \<noteq> 0"
  shows "steps_ok s (kernel_syscall_entry bld f s)"
proof -
  let ?s = "syscall_return f SYS_RESULT_OK s"
  have p: "sched_part ?s = sched_part s" by (simp add: syscall_return_def sched_files.stores)
  then have inv': "sched_inv ?s" using inv sched_inv_part by blast
  have tick: "steps_ok s (sched_tick f ?s)" and ex: "steps_ok s (sched_exit_current f ?s)"
    using sched_tick_step[OF inv' _ f] sched_exit_step(1)[OF inv'] step_ok_part[OF p] by (simp_all add: steps_ok_def)
  have q: "steps_ok s m" if "quietly s m" for m using that inv by (rule steps_ok_quiet)
  have result: "steps_ok s (syscall_result v f t)" if "sched_part t = sched_part s" for v t
    by (rule q) (rule syscall_result_quiet[OF that])
  have choose: "steps_ok s (if c then x else y)" if "steps_ok s x" "steps_ok s y" for c x y
    using that by simp
  show ?thesis
    unfolding kernel_syscall_entry_def Let_def option.case_eq_if split_beta
    by (intro choose tick ex result q sys_read_quiet sys_write_quiet sys_open_quiet sys_exec_steps[OF inv] sys_close_quiet
        sys_dup_quiet refl sched_files.serial_write)
qed

lemma kernel_timer_steps:
  fixes s :: "'a kernel_state_scheme"
  assumes inv: "sched_inv s" and r: "r0 \<noteq> 0"
  shows "steps_ok s (kernel_timer_tick r0 s)"
proof -
  have ticks: "sched_part (t\<lparr>kernel_ticks := n\<rparr>) = sched_part t" "sched_part (pic_eoi 0 t) = sched_part t" for t :: "'a kernel_state_scheme" and n
    by (simp_all add: sched_part_def pic_eoi_def io_write8_def)
  obtain t where t: "kernel_timer_tick r0 s = sched_tick r0 t" "sched_part t = sched_part s"
    by (rule that[OF kernel_timer_tick_def[unfolded Let_def]]) (simp add: ticks sched_files.console)
  then show ?thesis
    using sched_tick_step[OF _ _ r, of t] sched_inv_part[OF t(2)] step_ok_part[OF t(2)] inv by (simp add: steps_ok_def)
qed

section \<open>The start\<close>

text \<open>\<open>fresh x s t\<close>: task \<open>x\<close> has been created and waits for its first tick; nothing else the scheduler looks at differs.\<close>

definition fresh :: "task_ref \<Rightarrow> 'a sched_state_scheme \<Rightarrow> 'a sched_state_scheme \<Rightarrow> bool" where
  "fresh x s t \<longleftrightarrow> waits (paging_kernel_pml4 s) (tasks t x)
     \<and> length (task_fd_table (tasks t x)) = length (task_fd_table (tasks s x))
     \<and> tasks t (other_task x) = tasks s (other_task x) \<and> current t = current s \<and> sched_started t = sched_started s
     \<and> paging_kernel_pml4 t = paging_kernel_pml4 s"

lemma freshI:
  assumes "retabled x u t" "tasks u x = y" "waits (paging_kernel_pml4 s) y" "task_fd_table y = task_fd_table (tasks s x)"
    "tasks u (other_task x) = tasks s (other_task x)" "current u = current s" "sched_started u = sched_started s"
    "paging_kernel_pml4 u = paging_kernel_pml4 s"
  shows "fresh x s t"
proof -
  from assms(1) obtain table where "length table = length (task_fd_table (tasks u x))"
    "tasks t = (tasks u)(x := (tasks u x)\<lparr>task_fd_table := table\<rparr>)" "current t = current u"
    "sched_started t = sched_started u" "paging_kernel_pml4 t = paging_kernel_pml4 u" "cr3 t = cr3 u" by (rule retabled_eqs)
  with assms(2-) show ?thesis by (simp add: fresh_def)
qed

lemma build_kernel_stack_part: "sched_part (snd (task_build_kernel_stack e s)) = sched_part s"
proof -
  have fold: "sched_part (snd (fold push xs (a, u))) = sched_part u" for xs a and u :: "'a sched_state_scheme"
    by (induction xs arbitrary: a u) (simp_all add: push_def sched_files.stores)
  show ?thesis unfolding task_build_kernel_stack_def Let_def split_beta
    by (simp only: if_distrib[of snd] if_distrib[of sched_part] snd_conv fold if_cancel sched_files.pages)
qed

lemma create_kernel_fresh:
  assumes "task_create_kernel x n e s = Ret True t"
  shows "fresh x s t"
proof -
  obtain new_rsp s1 where b: "task_build_kernel_stack e s = (new_rsp, s1)" by fastforce
  have p: "sched_part s1 = sched_part s" using build_kernel_stack_part[of e s] b by simp
  note eqs = sched_part_eqD[OF p]
  let ?mk = "\<lambda>y. y\<lparr>rsp := new_rsp, task_cr3 := paging_kernel_address_space s1, state := TASK_RUNNABLE,
      task_kind := TASK_KERNEL, task_id := n\<rparr>"
  from assms b obtain s2 where nz: "new_rsp \<noteq> 0" and i: "initialize_task_fds x (upd_task x ?mk s1) = Ret () s2"
    and f: "seed_task_console x (upd_task x (\<lambda>y. y\<lparr>user_bootstrap := cleared_bootstrap\<rparr>) s2) = Ret True t"
    by (auto simp: task_create_kernel_def Let_def chain_Ret_iff split: if_splits)
  from initialize_task_fds_retabled[OF i] obtain table where t: "length table = length (task_fd_table (tasks (upd_task x ?mk s1) x))"
    "tasks s2 = (tasks (upd_task x ?mk s1))(x := (tasks (upd_task x ?mk s1) x)\<lparr>task_fd_table := table\<rparr>)"
    "current s2 = current (upd_task x ?mk s1)" "sched_started s2 = sched_started (upd_task x ?mk s1)"
    "paging_kernel_pml4 s2 = paging_kernel_pml4 (upd_task x ?mk s1)" "cr3 s2 = cr3 (upd_task x ?mk s1)" by (rule retabled_eqs)
  from seed_task_console_retabled[OF f] obtain table2 where t2:
    "length table2 = length (task_fd_table (tasks (upd_task x (\<lambda>y. y\<lparr>user_bootstrap := cleared_bootstrap\<rparr>) s2) x))"
    "tasks t = (tasks (upd_task x (\<lambda>y. y\<lparr>user_bootstrap := cleared_bootstrap\<rparr>) s2))
       (x := (tasks (upd_task x (\<lambda>y. y\<lparr>user_bootstrap := cleared_bootstrap\<rparr>) s2) x)\<lparr>task_fd_table := table2\<rparr>)"
    "current t = current (upd_task x (\<lambda>y. y\<lparr>user_bootstrap := cleared_bootstrap\<rparr>) s2)"
    "sched_started t = sched_started (upd_task x (\<lambda>y. y\<lparr>user_bootstrap := cleared_bootstrap\<rparr>) s2)"
    "paging_kernel_pml4 t = paging_kernel_pml4 (upd_task x (\<lambda>y. y\<lparr>user_bootstrap := cleared_bootstrap\<rparr>) s2)"
    "cr3 t = cr3 (upd_task x (\<lambda>y. y\<lparr>user_bootstrap := cleared_bootstrap\<rparr>) s2)" by (rule retabled_eqs)
  show ?thesis using t t2 eqs nz
    by (simp add: fresh_def waits_def task_ok_def paging_kernel_address_space_def)
qed

lemma create_user_fresh:
  assumes "task_create_user x n b s = Ret True t"
  shows "fresh x s t"
proof -
  obtain new_rsp s1 where u: "task_build_user_stack b s = (new_rsp, s1)" by fastforce
  have p: "sched_part s1 = sched_part s" using build_user_stack_part[of b s] u by simp
  let ?mk = "\<lambda>y. y\<lparr>rsp := new_rsp, task_cr3 := address_space b, state := TASK_RUNNABLE,
      task_kind := TASK_USER, task_id := n, user_bootstrap := b\<rparr>"
  from assms u obtain s2 where nz: "new_rsp \<noteq> 0" "address_space b \<noteq> 0"
    and i: "initialize_task_fds x (upd_task x ?mk s1) = Ret () s2" and f: "seed_task_console x s2 = Ret True t"
    by (auto simp: task_create_user_def Let_def chain_Ret_iff split: if_splits)
  have "retabled x (upd_task x ?mk s1) t"
    using initialize_task_fds_retabled[OF i] seed_task_console_retabled[OF f] by (rule retabled_trans)
  then show ?thesis
    by (rule freshI[where y = "?mk (tasks s x)"]) (use sched_part_eqD[OF p] nz in \<open>simp_all add: waits_def task_ok_def\<close>)
qed

lemma sched_initialize_inv:
  assumes len: "\<forall>x. length (task_fd_table (tasks s x)) = fd_table_capacity" and i: "sched_initialize bld s = Ret () t"
  shows "sched_inv t" "current t = None"
proof -
  let ?s0 = "s\<lparr>worker_counter := 0, current := None, sched_started := False\<rparr>"
  from i obtain s1 s2 s3 where s: "initialize_task_fds Task0 (upd_task Task0 (reset_task 0) ?s0) = Ret () s1"
    "initialize_task_fds Task1 (upd_task Task1 (reset_task 1) s1) = Ret () s2"
    "task_create_kernel Task0 0 (task_idle bld) s2 = Ret True s3"
    and last: "(if user_task_enabled s3 then chain (task_create_user Task1 1 (user_task_bootstrap s3) s3) (\<lambda>created s. if \<not> created then Halt s else Ret () s)
       else chain (task_create_kernel Task1 1 (task_worker bld) s3) (\<lambda>created s. if \<not> created then Halt s else Ret () s)) = Ret () t"
    by (auto simp: sched_initialize_def Let_def chain_Ret_iff split: if_splits)
  have f4: "fresh Task1 s3 t" using last create_user_fresh create_kernel_fresh by (auto simp: chain_Ret_iff split: if_splits)
  have f3: "fresh Task0 s2 s3" using create_kernel_fresh[OF s(3)] .
  from initialize_task_fds_retabled[OF s(1)] obtain a where a: "length a = length (task_fd_table (tasks (upd_task Task0 (reset_task 0) ?s0) Task0))"
    "tasks s1 = (tasks (upd_task Task0 (reset_task 0) ?s0))(Task0 := (tasks (upd_task Task0 (reset_task 0) ?s0) Task0)\<lparr>task_fd_table := a\<rparr>)"
    "current s1 = current (upd_task Task0 (reset_task 0) ?s0)" "sched_started s1 = sched_started (upd_task Task0 (reset_task 0) ?s0)"
    by (rule retabled_eqs)
  from initialize_task_fds_retabled[OF s(2)] obtain b where b: "length b = length (task_fd_table (tasks (upd_task Task1 (reset_task 1) s1) Task1))"
    "tasks s2 = (tasks (upd_task Task1 (reset_task 1) s1))(Task1 := (tasks (upd_task Task1 (reset_task 1) s1) Task1)\<lparr>task_fd_table := b\<rparr>)"
    "current s2 = current (upd_task Task1 (reset_task 1) s1)" "sched_started s2 = sched_started (upd_task Task1 (reset_task 1) s1)"
    by (rule retabled_eqs)
  have len2: "length (task_fd_table (tasks s2 x)) = fd_table_capacity" for x
    using a b len by (cases x) (simp_all add: reset_task_def)
  have o: "other_task Task0 = Task1" "other_task Task1 = Task0" by (simp_all add: other_task_def)
  show "current t = None" using f3 f4 a b by (simp add: fresh_def)
  then show "sched_inv t" using f3 f4 a b len2[of Task0] len2[of Task1] o
    by (simp add: fresh_def sched_inv_def all_task[of _ Task0])
qed

section \<open>Runs\<close>

text \<open>
  A step is a timer interrupt, a system call, or whatever the running program does to memory in between; it carries the
  stack pointer the kernel returned with. \<open>r0\<close> and \<open>f\<close> are the stack pointer at the entry.
\<close>

inductive kernel_step :: "build \<Rightarrow> 'a kernel_state_scheme \<Rightarrow> addr option \<Rightarrow> 'a kernel_state_scheme \<Rightarrow> bool" for bld where
  interrupt: "r0 \<noteq> 0 \<Longrightarrow> kernel_timer_tick r0 s = Ret r t \<Longrightarrow> kernel_step bld s (Some r) t"
| system_call: "f \<noteq> 0 \<Longrightarrow> kernel_syscall_entry bld f s = Ret r t \<Longrightarrow> kernel_step bld s (Some r) t"
| program: "kernel_step bld s None (s\<lparr>mem := m\<rparr>)"

inductive kernel_run :: "build \<Rightarrow> 'a kernel_state_scheme \<Rightarrow> 'a kernel_state_scheme \<Rightarrow> bool" for bld where
  here: "kernel_run bld s s"
| later: "kernel_run bld s t \<Longrightarrow> kernel_step bld t r u \<Longrightarrow> kernel_run bld s u"

text \<open>A run in which task \<open>c\<close> never has the processor.\<close>

inductive run_without :: "build \<Rightarrow> task_ref \<Rightarrow> 'a kernel_state_scheme \<Rightarrow> 'a kernel_state_scheme \<Rightarrow> bool" for bld c where
  without_here: "current s \<noteq> Some c \<Longrightarrow> run_without bld c s s"
| without_later: "run_without bld c s t \<Longrightarrow> kernel_step bld t r u \<Longrightarrow> current u \<noteq> Some c \<Longrightarrow> run_without bld c s u"

text \<open>States the kernel gets into after \<open>sched_initialize\<close>.\<close>

inductive scheduled :: "build \<Rightarrow> 'a kernel_state_scheme \<Rightarrow> bool" for bld where
  start: "\<forall>x. length (task_fd_table (tasks s x)) = fd_table_capacity \<Longrightarrow> sched_initialize bld s = Ret () t \<Longrightarrow> scheduled bld t"
| step: "scheduled bld s \<Longrightarrow> kernel_step bld s r t \<Longrightarrow> scheduled bld t"

inductive_simps kernel_step_enters: "kernel_step bld s (Some r) t"
inductive_simps kernel_step_program: "kernel_step bld s None t"

lemma kernel_step_ok:
  assumes "kernel_step bld s r t" "sched_inv s"
  shows "sched_inv t" "hands_over s (case r of None \<Rightarrow> 0 | Some p \<Rightarrow> p) t" "r = None \<Longrightarrow> current t = current s"
proof -
  have "step_ok s (case r of None \<Rightarrow> 0 | Some p \<Rightarrow> p) t \<and> (r = None \<longrightarrow> current t = current s)"
  proof (cases r)
    case None
    then obtain m where t: "t = s\<lparr>mem := m\<rparr>" using assms(1) by (auto simp: kernel_step_program)
    have "sched_part (s\<lparr>mem := m\<rparr>) = sched_part s" by (rule sched_files.part_mem)
    then have "quiet s t" unfolding t by (rule quiet_partI)
    from quiet_step[OF this assms(2)] None t show ?thesis by simp
  next
    case (Some p)
    then show ?thesis
      using assms(1) kernel_timer_steps[OF assms(2)] kernel_syscall_steps[OF assms(2), of _ bld]
      by (auto simp: kernel_step_enters steps_ok_def)
  qed
  then show "sched_inv t" "hands_over s (case r of None \<Rightarrow> 0 | Some p \<Rightarrow> p) t" "r = None \<Longrightarrow> current t = current s"
    by (auto simp: step_ok_def)
qed

lemma kernel_run_inv: "kernel_run bld s t \<Longrightarrow> sched_inv s \<Longrightarrow> sched_inv t"
  by (induction rule: kernel_run.induct) (auto intro: kernel_step_ok)

lemma run_without_inv: "run_without bld c s t \<Longrightarrow> sched_inv s \<Longrightarrow> sched_inv t"
  by (induction rule: run_without.induct) (auto intro: kernel_step_ok)

lemma run_without_frozen:
  "run_without bld c s t \<Longrightarrow> sched_inv s \<Longrightarrow> current t \<noteq> Some c \<and> tasks t c = tasks s c \<and> paging_kernel_pml4 t = paging_kernel_pml4 s"
proof (induction rule: run_without.induct)
  case (without_later s t r u)
  from kernel_step_ok(2)[OF without_later.hyps(2)] run_without_inv[OF without_later.hyps(1)] without_later
  show ?case by (auto simp: hands_over_def)
qed simp

section \<open>Ticks in full\<close>

interpretation tick_console: memory_part kernel_ticks
  by unfold_locales simp_all

definition tick_entry :: "'a kernel_state_scheme \<Rightarrow> 'a kernel_state_scheme \<Rightarrow> bool" where
  "tick_entry s t \<longleftrightarrow> sched_part t = sched_part s \<and> kernel_ticks t = kernel_ticks s + 1"

lemma kernel_timer_tick_entry: "\<exists>t. kernel_timer_tick r s = sched_tick r t \<and> tick_entry s t"
proof -
  have p: "sched_part (v\<lparr>kernel_ticks := n\<rparr>) = sched_part v" "sched_part (pic_eoi 0 v) = sched_part v"
    "kernel_ticks (pic_eoi 0 v) = kernel_ticks v" for v :: "'a kernel_state_scheme" and n
    by (simp_all add: sched_part_def pic_eoi_def io_write8_def)
  show ?thesis
    by (rule exI, rule conjI[OF kernel_timer_tick_def[unfolded Let_def]])
      (simp add: tick_entry_def p sched_files.console tick_console.console)
qed

lemma sched_tick_switch:
  assumes "sched_inv s" "current s = Some c" "state (tasks s (other_task c)) = TASK_RUNNABLE"
    "own_space (paging_kernel_pml4 s) (tasks s (other_task c))"
  shows "sched_tick r s = Ret (rsp (tasks s (other_task c))) (run_task (other_task c) (park c r s))"
proof -
  have "waits (paging_kernel_pml4 s) (tasks s (other_task c))" using assms(1-3) by (auto simp: sched_inv_def)
  with assms show ?thesis by (simp add: sched_tick_running start_task_park_other)
qed

lemma timer_switch:
  assumes inv: "sched_inv s" and c: "current s = Some c" and o: "state (tasks s (other_task c)) = TASK_RUNNABLE"
    "own_space (paging_kernel_pml4 s) (tasks s (other_task c))"
  shows "\<exists>t. kernel_timer_tick r s = Ret (rsp (tasks s (other_task c))) t \<and> current t = Some (other_task c)
     \<and> cr3 t = task_cr3 (tasks s (other_task c)) \<and> kernel_ticks t = kernel_ticks s + 1 \<and> paging_kernel_pml4 t = paging_kernel_pml4 s
     \<and> tasks t = (tasks s)(c := (tasks s c)\<lparr>rsp := r, state := TASK_RUNNABLE\<rparr>,
                           other_task c := (tasks s (other_task c))\<lparr>state := TASK_RUNNING\<rparr>)"
proof -
  obtain v where v: "kernel_timer_tick r s = sched_tick r v" "tick_entry s v" using kernel_timer_tick_entry by blast
  then have p: "sched_part v = sched_part s" "kernel_ticks v = kernel_ticks s + 1" by (simp_all add: tick_entry_def)
  note eqs = sched_part_eqD[OF p(1)]
  have "sched_tick r v = Ret (rsp (tasks s (other_task c))) (run_task (other_task c) (park c r v))"
    using sched_tick_switch[of v c r] inv c o eqs sched_inv_part[OF p(1)] by simp
  then show ?thesis using v(1) p(2) eqs by (simp add: run_task_def park_def upd_task_def)
qed

section \<open>Properties\<close>

text \<open>
  C2: Whatever sequence of timer interrupts, system calls and program steps follows \<open>sched_initialize\<close>, at most one task
  is marked running, it is the current one and its address space is active; the other task waits with a saved stack
  pointer, or is done; kernel tasks use the kernel's tables and both descriptor tables have their sixteen entries.
\<close>

theorem scheduler_invariant:
  assumes "scheduled bld s"
  shows "sched_inv s"
  using assms by (induction rule: scheduled.induct) (auto intro: sched_initialize_inv kernel_step_ok)

text \<open>
  C1: A task that a timer interrupt took the processor from with stack pointer \<open>r0\<close> gets it back with exactly
  \<open>r0\<close>, in its own address space and with its descriptor table as it was, no matter what the other task and the
  interrupts did in between.
\<close>

theorem interrupted_task_resumes:
  assumes inv: "sched_inv s" and c: "current s = Some c" and r0: "r0 \<noteq> 0"
    and tick: "kernel_timer_tick r0 s = Ret p t" and away: "run_without bld c t u"
    and again: "kernel_step bld u (Some r) v" "current v = Some c"
  shows "r = r0 \<and> cr3 v = task_cr3 (tasks s c) \<and> tasks v c = (tasks s c)\<lparr>rsp := r0\<rparr>"
proof -
  obtain s1 where s1: "kernel_timer_tick r0 s = sched_tick r0 s1" "tick_entry s s1" using kernel_timer_tick_entry by blast
  then have part: "sched_part s1 = sched_part s" by (simp add: tick_entry_def)
  note eqs = sched_part_eqD[OF part]
  have inv1: "sched_inv s1" "current s1 = Some c" using inv c eqs sched_inv_part[OF part] by simp_all
  have t: "current t \<noteq> Some c" using away by (induction rule: run_without.induct) simp_all
  have tick1: "sched_tick r0 s1 = Ret p t" using tick s1(1) by simp
  have "tasks t c = (tasks s c)\<lparr>rsp := r0, state := TASK_RUNNABLE\<rparr>"
    using tick1 sched_tick_running[OF inv1, of r0] start_task_Ret(5) t eqs
    by (fastforce simp: run_task_def park_def split: if_splits)
  moreover have "sched_inv t" using sched_tick_step[OF inv1(1) tick1 r0] by (simp add: step_ok_def)
  ultimately have u: "tasks u c = (tasks s c)\<lparr>rsp := r0, state := TASK_RUNNABLE\<rparr>" "current u \<noteq> Some c" "sched_inv u"
    using run_without_frozen[OF away] run_without_inv[OF away] by auto
  have "state (tasks s c) = TASK_RUNNING" using inv c by (simp add: sched_inv_def)
  then show ?thesis using kernel_step_ok(2)[OF again(1) u(3)] u(1,2) again(2) by (auto simp: hands_over_def)
qed

text \<open>
  C3: While both tasks are live they take turns: a tick hands the processor to the other task in its address space and
  with its saved stack pointer, and the next tick gives it back to the first with the stack pointer it was interrupted
  with. Neither tick stops the kernel and each counts.
\<close>

theorem ticks_alternate:
  assumes inv: "sched_inv s" and c: "current s = Some c" and o: "state (tasks s (other_task c)) = TASK_RUNNABLE"
    and own: "\<forall>x. own_space (paging_kernel_pml4 s) (tasks s x)" and r: "r0 \<noteq> 0" "r1 \<noteq> 0"
  shows "\<exists>t u. kernel_timer_tick r0 s = Ret (rsp (tasks s (other_task c))) t \<and> current t = Some (other_task c)
     \<and> cr3 t = task_cr3 (tasks s (other_task c))
     \<and> kernel_timer_tick r1 t = Ret r0 u \<and> current u = Some c \<and> cr3 u = cr3 s \<and> kernel_ticks u = kernel_ticks s + 2
     \<and> tasks u = (tasks s)(c := (tasks s c)\<lparr>rsp := r0\<rparr>, other_task c := (tasks s (other_task c))\<lparr>rsp := r1\<rparr>)"
proof -
  obtain t where t: "kernel_timer_tick r0 s = Ret (rsp (tasks s (other_task c))) t" "current t = Some (other_task c)"
     "cr3 t = task_cr3 (tasks s (other_task c))" "kernel_ticks t = kernel_ticks s + 1" "paging_kernel_pml4 t = paging_kernel_pml4 s"
     "tasks t = (tasks s)(c := (tasks s c)\<lparr>rsp := r0, state := TASK_RUNNABLE\<rparr>,
                          other_task c := (tasks s (other_task c))\<lparr>state := TASK_RUNNING\<rparr>)"
    using timer_switch[OF inv c o] own by blast
  have inv_t: "sched_inv t" using kernel_timer_steps[OF inv r(1)] t(1) by (simp add: steps_ok_def step_ok_def)
  have st: "state (tasks s c) = TASK_RUNNING" "cr3 s = task_cr3 (tasks s c)" using inv c by (simp_all add: sched_inv_def)
  have "own_space (paging_kernel_pml4 t) (tasks t c)" "state (tasks t c) = TASK_RUNNABLE"
    using own[rule_format, of c] t(5,6) by (simp_all add: own_space_def)
  from timer_switch[OF inv_t t(2), unfolded other_task_simps, OF this(2,1), of r1] obtain u where u:
    "kernel_timer_tick r1 t = Ret (rsp (tasks t c)) u" "current u = Some c" "cr3 u = task_cr3 (tasks t c)"
    "kernel_ticks u = kernel_ticks t + 1"
    "tasks u = (tasks t)(other_task c := (tasks t (other_task c))\<lparr>rsp := r1, state := TASK_RUNNABLE\<rparr>,
                         c := (tasks t c)\<lparr>state := TASK_RUNNING\<rparr>)" by blast
  have "tasks u = (tasks s)(c := (tasks s c)\<lparr>rsp := r0\<rparr>, other_task c := (tasks s (other_task c))\<lparr>rsp := r1\<rparr>)"
  proof
    fix x
    show "tasks u x = ((tasks s)(c := (tasks s c)\<lparr>rsp := r0\<rparr>, other_task c := (tasks s (other_task c))\<lparr>rsp := r1\<rparr>)) x"
      using u(5) t(6) st o by (cases "x = c") simp_all
  qed
  then show ?thesis using t u st by (intro exI[of _ t] exI[of _ u]) simp
qed

text \<open>
  C19: A task that is done stays as it is: no later tick, system call or program step gives it the processor again.
\<close>

theorem done_task_never_runs:
  assumes "kernel_run bld s t" "sched_inv s" "state (tasks s x) = TASK_DONE"
  shows "tasks t x = tasks s x \<and> current t \<noteq> Some x"
  using assms
proof (induction rule: kernel_run.induct)
  case (here s)
  then show ?case by (auto simp: sched_inv_def)
next
  case (later s t r u)
  then have "tasks t x = tasks s x" "current t \<noteq> Some x" by simp_all
  with kernel_step_ok(2)[OF later.hyps(2) kernel_run_inv[OF later.hyps(1) later.prems(1)]] later.prems(2)
  show ?case by (auto simp: hands_over_def waits_def)
qed

end
