(* ===== verification/StackSpec.thy ===== *)
theory StackSpec
  imports FileSpec KernelSteps
begin

text \<open>
  The stacks \<open>sched_initialize\<close> and \<open>SYS_EXEC\<close> build, read back as the frame \<open>arch_irq0_entry\<close> pops, and the start of
  the scheduler: with enough free pages it comes up.
\<close>

section \<open>Pushing\<close>

lemma push_below:
  assumes "word_aligned sp" "8 \<le> unat sp"
  shows "word_aligned (sp - 8)" "unat (sp - 8) = unat sp - 8"
proof -
  have "(8::u64) \<le> sp" using assms(2) by (simp add: word_le_nat_alt)
  then show u: "unat (sp - 8) = unat sp - 8" by (simp add: unat_sub)
  have "8 dvd unat sp - 8" using assms by (simp add: word_aligned_def dvd_diff_nat)
  then show "word_aligned (sp - 8)" unfolding word_aligned_def u .
qed

lemma fold_push_spec:
  fixes s :: "'a machine_scheme"
  assumes "word_aligned sp" "8 * length vs \<le> unat sp"
  shows "\<exists>t. fold push vs (sp, s) = (sp - 8 * of_nat (length vs), t) \<and> t = s\<lparr>mem := mem t\<rparr>
     \<and> (\<forall>i < length vs. load64 t (sp - 8 * (of_nat i + 1)) = vs ! i)
     \<and> (\<forall>a. unat a < unat sp - 8 * length vs \<or> unat sp \<le> unat a \<longrightarrow> mem t a = mem s a)"
  using assms
proof (induction vs arbitrary: sp s)
  case (Cons v vs)
  let ?p = "sp - 8" and ?s = "store64 (sp - 8) v s"
  have p: "word_aligned ?p" "unat ?p = unat sp - 8" using push_below[of sp] Cons.prems by simp_all
  with Cons.prems(2) have "8 * length vs \<le> unat ?p" by simp
  from Cons.IH[OF p(1) this, of ?s] obtain t where t: "fold push vs (?p, ?s) = (?p - 8 * of_nat (length vs), t)"
    "t = ?s\<lparr>mem := mem t\<rparr>" "\<forall>i < length vs. load64 t (?p - 8 * (of_nat i + 1)) = vs ! i"
    "\<forall>a. unat a < unat ?p - 8 * length vs \<or> unat ?p \<le> unat a \<longrightarrow> mem t a = mem ?s a" by blast
  have here: "load64 t ?p = v"
  proof -
    have "mem t (?p + of_nat i) = mem ?s (?p + of_nat i)" if "i < 8" for i :: nat
    proof -
      have "unat (?p + of_nat i) = unat ?p + i"
      proof -
        have "8 \<le> unat sp" using Cons.prems(2) by simp
        then have "unat sp + i - 8 < 18446744073709551616" using that unat_less64[of sp] by linarith
        then show ?thesis using p(2) that by (simp add: unat_word_ariths unat_of_nat)
      qed
      then show ?thesis using t(4) by simp
    qed
    then have "rd64 (mem t) ?p = rd64 (mem ?s) ?p" unfolding rd64_def by (intro rd_le_cong) simp
    then show ?thesis by (simp add: load64_def store64_def)
  qed
  have others: "mem t a = mem s a" if "unat a < unat sp - 8 * length (v # vs) \<or> unat sp \<le> unat a" for a
  proof -
    have "\<not> a - ?p < 8"
    proof
      assume d: "a - ?p < 8"
      then have "unat ?p + unat (a - ?p) < unat sp" using p(2) Cons.prems(2) by (simp add: word_less_nat_alt)
      then have "unat ?p + unat (a - ?p) < 18446744073709551616" using unat_less64[of sp] by linarith
      then have "unat a = unat ?p + unat (a - ?p)" by (rule unat_offset)
      moreover have "unat (a - ?p) < 8" using d by (simp add: word_less_nat_alt)
      ultimately have "unat sp - 8 \<le> unat a" "unat a < unat sp" using p(2) Cons.prems(2) by auto
      then show False using that by auto
    qed
    moreover have "unat a < unat ?p - 8 * length vs \<or> unat ?p \<le> unat a" using that p(2) by auto
    moreover have "mem ?s a = (if a - ?p < 8 then byte_of v (unat (a - ?p)) else mem s a)" by (simp add: store64_def wr64_def)
    ultimately show ?thesis using t(4) by presburger
  qed
  have nth: "load64 t (sp - 8 * (of_nat i + 1)) = (v # vs) ! i" if "i < length (v # vs)" for i
  proof (cases i)
    case 0
    then show ?thesis using here by simp
  next
    case (Suc j)
    then have "?p - 8 * (of_nat j + 1) = sp - 8 * (of_nat i + 1)" by (simp add: algebra_simps)
    moreover have "load64 t (?p - 8 * (of_nat j + 1)) = vs ! j" using t(3) Suc that by simp
    ultimately show ?thesis using Suc by (simp only: nth_Cons_Suc)
  qed
  have tm: "t = s\<lparr>mem := mem t\<rparr>" by (subst t(2)) (simp add: store64_def)
  have r: "?p - 8 * of_nat (length vs) = sp - 8 * of_nat (length (v # vs))" by (simp add: algebra_simps)
  have "fold push (v # vs) (sp, s) = fold push vs (?p, ?s)" by (simp add: push_def)
  also have "\<dots> = (sp - 8 * of_nat (length (v # vs)), t)" using t(1) r by simp
  finally show ?case using nth others tm by blast
qed simp

text \<open>The same read from the bottom: word \<open>j\<close> above the final stack pointer.\<close>

lemma fold_push_words:
  fixes s :: "'a machine_scheme"
  assumes "word_aligned sp" "8 * length vs \<le> unat sp" "fold push vs (sp, s) = (r, t)" "j < length vs"
  shows "r = sp - 8 * of_nat (length vs)" "load64 t (r + 8 * of_nat j) = vs ! (length vs - 1 - j)"
proof -
  from fold_push_spec[OF assms(1,2), of s] assms(3) have r: "r = sp - 8 * of_nat (length vs)"
    and w: "\<forall>i < length vs. load64 t (sp - 8 * (of_nat i + 1)) = vs ! i" by auto
  show "r = sp - 8 * of_nat (length vs)" by (fact r)
  have "(of_nat (length vs - 1 - j) :: u64) = of_nat (length vs) - 1 - of_nat j" using assms(4) by (simp add: of_nat_diff)
  then have "r + 8 * of_nat j = sp - 8 * (of_nat (length vs - 1 - j) + 1)" unfolding r
    by (simp only:) (simp add: algebra_simps)
  moreover have "load64 t (sp - 8 * (of_nat (length vs - 1 - j) + 1)) = vs ! (length vs - 1 - j)"
    using w[rule_format, of "length vs - 1 - j"] assms(4) by linarith
  ultimately show "load64 t (r + 8 * of_nat j) = vs ! (length vs - 1 - j)" by (simp only:)
qed

lemma page_top:
  assumes "page_aligned p" "unat p + 4096 < 18446744073709551616"
  shows "word_aligned (p + 4096)" "unat (p + 4096) = unat p + 4096"
proof -
  show u: "unat (p + 4096) = unat p + 4096" using assms(2) by (simp add: unat_word_ariths)
  have "page_aligned (p + 4096)" using assms(1) by (rule page_aligned_add) simp
  then show "word_aligned (p + 4096)" by simp
qed

section \<open>Stacks of new tasks\<close>

text \<open>The frame of a new task as \<open>arch_irq0_entry\<close> finds it: fifteen registers, then what \<open>iretq\<close> pops.\<close>

definition frame_word :: "'a machine_scheme \<Rightarrow> addr \<Rightarrow> nat \<Rightarrow> u64" where
  "frame_word s r j = load64 s (r + 8 * of_nat j)"

abbreviation frame_r12 where "frame_r12 s r \<equiv> frame_word s r 3"
abbreviation frame_rip where "frame_rip s r \<equiv> frame_word s r 15"
abbreviation frame_cs where "frame_cs s r \<equiv> frame_word s r 16"
abbreviation frame_rflags where "frame_rflags s r \<equiv> frame_word s r 17"
abbreviation frame_rsp where "frame_rsp s r \<equiv> frame_word s r 18"
abbreviation frame_ss where "frame_ss s r \<equiv> frame_word s r 19"

text \<open>
  C21: The first return to a user task enters ring 3 at the trampoline with interrupts on, on the user's stack, with the
  program's entry point in \<open>r12\<close> and every other register zero; the frame lies in the task's stack page and nothing
  outside the page is written.
\<close>

theorem user_stack_frame:
  assumes page: "page_aligned (user_stack_page b)" "user_stack_page b \<noteq> 0" "unat (user_stack_page b) + 4096 < 18446744073709551616"
    and top: "user_stack_top b \<noteq> 0"
  shows "\<exists>r t. task_build_user_stack b s = (r, t) \<and> r = user_stack_page b + 3936 \<and> r \<noteq> 0 \<and> t = s\<lparr>mem := mem t\<rparr>
     \<and> frame_rip t r = trampoline_entry b \<and> frame_cs t r = 0x23 \<and> frame_rflags t r = 0x202
     \<and> frame_rsp t r = user_stack_top b \<and> frame_ss t r = 0x1B \<and> frame_r12 t r = user_entry b
     \<and> (\<forall>j < 15. j \<noteq> 3 \<longrightarrow> frame_word t r j = 0)
     \<and> (\<forall>a. unat a < unat (user_stack_page b) + 3936 \<or> unat (user_stack_page b) + 4096 \<le> unat a \<longrightarrow> mem t a = mem s a)"
proof -
  let ?vs = "[0x001B, user_stack_top b, 0x202, 0x0023, trampoline_entry b] @ replicate 11 0 @ [user_entry b] @ replicate 3 0 :: u64 list"
  let ?sp = "user_stack_page b + 4096"
  have len: "length ?vs = 20" by simp
  note sp = page_top[OF page(1,3)]
  have fits: "8 * length ?vs \<le> unat ?sp" unfolding len sp(2) by simp
  obtain r t where rt: "fold push ?vs (?sp, s) = (r, t)" by fastforce
  note words = fold_push_words(2)[OF sp(1) fits rt]
  have r: "r = user_stack_page b + 3936" using fold_push_words(1)[OF sp(1) fits rt, of 0] unfolding len by simp
  have vs: "?vs ! (length ?vs - 1 - j) = (if j = 3 then user_entry b else 0)" if "j < 15" for j
  proof -
    have "j \<in> set [0..<15]" using that by simp
    then show ?thesis by (auto simp: upt_rec nth_append nth_Cons')
  qed
  from fold_push_spec[OF sp(1) fits, of s] rt have out: "t = s\<lparr>mem := mem t\<rparr>"
    "\<forall>a. unat a < unat ?sp - 8 * length ?vs \<or> unat ?sp \<le> unat a \<longrightarrow> mem t a = mem s a" by auto
  have "task_build_user_stack b s = (r, t)" using page(2) top rt by (simp only: task_build_user_stack_def if_False)
  moreover have "unat (user_stack_page b + 3936) = unat (user_stack_page b) + 3936" using page(3) by (simp add: unat_word_ariths)
  then have "r \<noteq> 0" unfolding r by (auto simp: unat_eq_0[symmetric] simp del: unat_eq_0)
  moreover have "frame_rip t r = trampoline_entry b" "frame_cs t r = 0x23" "frame_rflags t r = 0x202"
    "frame_rsp t r = user_stack_top b" "frame_ss t r = 0x1B"
    using words[of 15] words[of 16] words[of 17] words[of 18] words[of 19] by (simp_all add: frame_word_def nth_append)
  moreover have "frame_word t r j = (if j = 3 then user_entry b else 0)" if "j < 15" for j
    using words[of j] vs[OF that] that by (simp add: frame_word_def del: append.simps)
  moreover have "\<forall>a. unat a < unat (user_stack_page b) + 3936 \<or> unat (user_stack_page b) + 4096 \<le> unat a \<longrightarrow> mem t a = mem s a"
    using out(2) unfolding len sp(2) by simp
  ultimately show ?thesis using out(1) r by simp
qed

section \<open>The scheduler comes up\<close>

text \<open>A page taken from the allocator is the caller's: writing inside it disturbs neither the free list nor the heap.\<close>

lemma heap_room_page:
  assumes "heap_room s a (Suc k)"
  obtains p t where "palloc_alloc s = (p, t)" "p \<noteq> 0" "page_aligned p" "unat p + 4096 < 18446744073709551616" "heap_frame s t"
    "\<And>m'. (\<And>x. unat x < unat p \<or> unat p + 4096 \<le> unat x \<Longrightarrow> m' x = mem t x) \<Longrightarrow> heap_room (t\<lparr>mem := m'\<rparr>) a k"
proof -
  from assms obtain xs ps0 where h: "heap_inv s xs ps0" "a = allocs (blocks s) xs" "Suc k \<le> length ps0"
    by (auto simp: heap_room_def)
  then obtain p ps where ps: "ps0 = p # ps" by (cases ps0) auto
  from h(1) ps have pi: "palloc_inv s (p # ps)" and ap: "pages_apart (p # ps) (span (blocks s) xs)"
    and l: "heap_list (blocks s) (heap_head s) xs" "coalesced (blocks s) xs" by (simp_all add: heap_inv_def)
  define t where "t = snd (palloc_alloc s)"
  have alloc: "palloc_alloc s = (p, t)" and pit: "palloc_inv t ps" using palloc_alloc_Cons[OF pi] by (auto simp: t_def)
  have t: "mem t = mem s" "blocks t = blocks s" "heap_head t = heap_head s"
    using palloc_alloc_Cons(1)[OF pi] by (simp_all add: t_def)
  have p: "p \<noteq> 0" "page_aligned p" "p \<notin> set ps" "unat p + 4096 < 18446744073709551616"
    using palloc_inv_page[OF pi] palloc_inv_distinct[OF pi] ap by (auto simp: pages_apart_def)
  have "heap_room (t\<lparr>mem := m'\<rparr>) a k"
    if out: "\<And>x. unat x < unat p \<or> unat p + 4096 \<le> unat x \<Longrightarrow> m' x = mem t x" for m'
  proof -
    have "m' x = mem t x" if q: "q \<in> set ps" "x - q < 8" for q x
    proof (rule out)
      have qa: "page_aligned q" "q \<noteq> p" "unat q + 4096 < 18446744073709551616"
        using q(1) palloc_inv_page[OF pi, of q] p(3) ap by (auto simp: pages_apart_def)
      have d: "unat (x - q) < 8" using q(2) by (simp add: word_less_nat_alt)
      have x: "unat x = unat q + unat (x - q)" by (rule unat_offset) (use d qa(3) in linarith)
      from qa(1) p(2) obtain i j where ij: "unat q = 4096 * i" "unat p = 4096 * j" by (auto elim!: page_alignedE)
      with qa(2) have "i \<noteq> j" by (auto simp: word_unat_eq_iff)
      then have "i < j \<or> j < i" by linarith
      then show "unat x < unat p \<or> unat p + 4096 \<le> unat x" using x d ij by linarith
    qed
    moreover have "chain_list (mem t) (free_list_head t) ps" using pit by (simp add: palloc_inv_def)
    ultimately have "chain_list m' (free_list_head t) ps" by (rule chain_list_bytes[rotated]) auto
    then have "palloc_inv (t\<lparr>mem := m'\<rparr>) ps" using pit by (simp add: palloc_inv_def)
    then have "heap_inv (t\<lparr>mem := m'\<rparr>) xs ps" using l ap t by (simp add: heap_inv_def pages_apart_def)
    then show ?thesis using h ps t unfolding heap_room_def by (intro exI[of _ xs] exI[of _ ps]) simp
  qed
  moreover have "heap_frame s t" unfolding t_def by simp
  ultimately show ?thesis using that alloc p by blast
qed

lemma heap_room_kernel_stack:
  assumes "heap_room s a (Suc k)"
  obtains r t where "task_build_kernel_stack e s = (r, t)" "r \<noteq> 0" "heap_room t a k" "heap_frame s t"
proof -
  from heap_room_page[OF assms] obtain p t where p: "palloc_alloc s = (p, t)" "p \<noteq> 0" "page_aligned p"
    "unat p + 4096 < 18446744073709551616" "heap_frame s t"
    "\<And>m'. (\<And>x. unat x < unat p \<or> unat p + 4096 \<le> unat x \<Longrightarrow> m' x = mem t x) \<Longrightarrow> heap_room (t\<lparr>mem := m'\<rparr>) a k" by blast
  let ?vs = "[0x0010, p + 4096 - 8, 0x202, 0x0008, e] @ replicate 15 0 :: u64 list"
  have len: "length ?vs = 20" by simp
  note top = page_top[OF p(3,4)]
  have fits: "8 * length ?vs \<le> unat (p + 4096)" unfolding len top(2) by simp
  from fold_push_spec[OF top(1) fits, of t] obtain u where
    u: "fold push ?vs (p + 4096, t) = (p + 4096 - 8 * of_nat (length ?vs), u)" "u = t\<lparr>mem := mem u\<rparr>"
    "\<forall>x. unat x < unat (p + 4096) - 8 * length ?vs \<or> unat (p + 4096) \<le> unat x \<longrightarrow> mem u x = mem t x" by blast
  have "heap_room (t\<lparr>mem := mem u\<rparr>) a k" by (rule p(6)) (use u(3) top(2) len in auto)
  then have room: "heap_room u a k" using u(2) by simp
  have "heap_frame t (t\<lparr>mem := mem u\<rparr>)" by simp
  then have fr: "heap_frame s u" using heap_frame_trans[OF p(5)] u(2) by simp
  have r: "p + 4096 - 8 * of_nat (length ?vs) = p + 3936" unfolding len by simp
  have "unat (p + 3936) = unat p + 3936" using p(4) by (simp add: unat_word_ariths)
  then have "p + 3936 \<noteq> 0" by (auto simp: unat_eq_0[symmetric] simp del: unat_eq_0)
  moreover have "task_build_kernel_stack e s = (p + 3936, u)"
    using p(1,2) u(1) r unfolding task_build_kernel_stack_def by (simp only: Let_def prod.case if_False)
  ultimately show ?thesis using that room fr by blast
qed

lemma heap_room_sched [simp]:
  "heap_room (upd_task x f s) a k = heap_room s a k"
  "heap_room (s\<lparr>worker_counter := w, current := c, sched_started := b\<rparr>) a k = heap_room s a k"
  by (rule heap_room_cong; simp add: upd_task_def)+

lemma initialize_task_fds_empty:
  "length (task_fd_table (tasks s x)) = fd_table_capacity \<Longrightarrow>
    initialize_task_fds x s = Ret () (upd_task x (\<lambda>y. y\<lparr>task_fd_table := empty_table\<rparr>) s)"
  by (simp add: initialize_task_fds_def fd_table_initialize_empty)

lemma create_kernel_succeeds:
  assumes room: "heap_room s a (k + 8)" and len: "length (task_fd_table (tasks s x)) = fd_table_capacity"
  obtains t b where "task_create_kernel x n e s = Ret True t" "heap_room t b k"
proof -
  from room have "heap_room s a (Suc (k + 7))" by (rule heap_room_less) simp
  from heap_room_kernel_stack[OF this] obtain r s1 where s1: "task_build_kernel_stack e s = (r, s1)" "r \<noteq> 0" "heap_room s1 a (k + 7)" .
  have part: "sched_part s1 = sched_part s" using build_kernel_stack_part[of e s] s1(1) by simp
  let ?mk = "\<lambda>y. y\<lparr>rsp := r, task_cr3 := paging_kernel_address_space s1, state := TASK_RUNNABLE, task_kind := TASK_KERNEL, task_id := n\<rparr>"
  let ?s2 = "upd_task x ?mk s1"
  let ?s3 = "upd_task x (\<lambda>y. y\<lparr>task_fd_table := empty_table\<rparr>) ?s2"
  let ?s4 = "upd_task x (\<lambda>y. y\<lparr>user_bootstrap := cleared_bootstrap\<rparr>) ?s3"
  have i: "initialize_task_fds x ?s2 = Ret () ?s3"
    by (rule initialize_task_fds_empty) (use len sched_part_eqD(1)[OF part] in simp)
  have "heap_room ?s4 a (k + 7)" using s1(3) by simp
  from seed_console_spec[OF this] obtain t table xs ns where
    t: "fd_table_seed_console (Some empty_table) ?s4 = Ret (True, Some table) t" "console_open ?s4 a k t table xs ns" .
  let ?t = "upd_task x (\<lambda>y. y\<lparr>task_fd_table := table\<rparr>) t"
  have "seed_task_console x ?s4 = Ret True ?t" using t(1) by (simp add: seed_task_console_def)
  then have "task_create_kernel x n e s = Ret True ?t" using s1(1,2) i by (simp add: task_create_kernel_def)
  moreover obtain b where "heap_room t b k" using t(2) by (auto simp: console_open_def split: list.splits)
  ultimately show ?thesis using that[of ?t b] by simp
qed

lemma retabled_keeps:
  assumes "retabled x u v"
  shows "user_task_enabled v = user_task_enabled u" "task_kind (tasks v y) = task_kind (tasks u y)"
  using assms by (auto simp: retabled_def sched_part_def upd_task_def)

lemma create_kernel_keeps:
  assumes "task_create_kernel x n e s = Ret True t"
  shows "user_task_enabled t = user_task_enabled s" "task_kind (tasks t x) = TASK_KERNEL"
proof -
  obtain r s1 where b: "task_build_kernel_stack e s = (r, s1)" by fastforce
  have "user_task_enabled s1 = user_task_enabled s"
    using sched_part_eqD(4)[OF build_kernel_stack_part[of e s]] b by simp
  let ?mk = "\<lambda>y. y\<lparr>rsp := r, task_cr3 := paging_kernel_address_space s1, state := TASK_RUNNABLE,
      task_kind := TASK_KERNEL, task_id := n\<rparr>"
  from assms b obtain s2 where i: "initialize_task_fds x (upd_task x ?mk s1) = Ret () s2"
    and f: "seed_task_console x (upd_task x (\<lambda>y. y\<lparr>user_bootstrap := cleared_bootstrap\<rparr>) s2) = Ret True t"
    by (auto simp: task_create_kernel_def Let_def chain_Ret_iff split: if_splits)
  show "user_task_enabled t = user_task_enabled s" "task_kind (tasks t x) = TASK_KERNEL"
    using retabled_keeps[OF initialize_task_fds_retabled[OF i]] retabled_keeps[OF seed_task_console_retabled[OF f]]
      \<open>user_task_enabled s1 = user_task_enabled s\<close> by (simp_all add: upd_task_def)
qed

lemma sched_initialize_succeeds:
  assumes room: "heap_room s a 16" and len: "\<forall>x. length (task_fd_table (tasks s x)) = fd_table_capacity"
    and kernel_only: "\<not> user_task_enabled s"
  shows "\<exists>t b. sched_initialize bld s = Ret () t \<and> sched_inv t \<and> current t = None
     \<and> (\<forall>x. state (tasks t x) = TASK_RUNNABLE \<and> task_kind (tasks t x) = TASK_KERNEL) \<and> heap_room t b 0"
proof -
  let ?s0 = "s\<lparr>worker_counter := 0, current := None, sched_started := False\<rparr>"
  let ?e = "\<lambda>y. y\<lparr>task_fd_table := empty_table\<rparr>"
  let ?s1 = "upd_task Task0 ?e (upd_task Task0 (reset_task 0) ?s0)"
  let ?s2 = "upd_task Task1 ?e (upd_task Task1 (reset_task 1) ?s1)"
  have i: "initialize_task_fds Task0 (upd_task Task0 (reset_task 0) ?s0) = Ret () ?s1"
    "initialize_task_fds Task1 (upd_task Task1 (reset_task 1) ?s1) = Ret () ?s2"
    by (rule initialize_task_fds_empty, use len in \<open>simp add: reset_task_def\<close>)+
  have len2: "length (task_fd_table (tasks ?s2 x)) = fd_table_capacity" for x
    by (cases x) (simp_all add: fd_table_capacity_def)
  have "heap_room ?s2 a (8 + 8)" using room by simp
  from create_kernel_succeeds[OF this len2] obtain s3 b where
    s3: "task_create_kernel Task0 0 (task_idle bld) ?s2 = Ret True s3" "heap_room s3 b 8" .
  have f3: "fresh Task0 ?s2 s3" by (rule create_kernel_fresh[OF s3(1)])
  have en: "\<not> user_task_enabled s3" using create_kernel_keeps(1)[OF s3(1)] kernel_only by (simp add: upd_task_def)
  have o: "other_task Task0 = Task1" "other_task Task1 = Task0" by (simp_all add: other_task_def)
  have "length (task_fd_table (tasks s3 Task1)) = fd_table_capacity" using f3 len2[of Task1] o by (simp add: fresh_def)
  moreover have "heap_room s3 b (0 + 8)" using s3(2) by simp
  ultimately obtain t c where t: "task_create_kernel Task1 1 (task_worker bld) s3 = Ret True t" "heap_room t c 0"
    using create_kernel_succeeds by blast
  have init: "sched_initialize bld s = Ret () t" using i s3(1) t(1) en by (simp add: sched_initialize_def Let_def)
  note inv = sched_initialize_inv[OF len init]
  have kinds: "task_kind (tasks s3 Task0) = TASK_KERNEL" "task_kind (tasks t Task1) = TASK_KERNEL"
    using create_kernel_keeps(2)[OF s3(1)] create_kernel_keeps(2)[OF t(1)] .
  have "tasks t Task0 = tasks s3 Task0" using create_kernel_fresh[OF t(1)] o by (simp add: fresh_def)
  then have "task_kind (tasks t x) = TASK_KERNEL" for x using kinds by (cases x) simp_all
  moreover have "state (tasks t x) = TASK_RUNNABLE" for x using inv by (simp add: sched_inv_def waits_def)
  ultimately show ?thesis using init inv t(2) by blast
qed

text \<open>
  C20: With sixteen free pages \<open>sched_initialize\<close> comes up with its two kernel tasks: it returns, and leaves both tasks
  waiting for their first tick, no task current, and a well-formed heap.
\<close>

theorem sched_initialize_starts:
  assumes "heap_room s a 16" "\<forall>x. length (task_fd_table (tasks s x)) = fd_table_capacity" "\<not> user_task_enabled s"
  shows "\<exists>t b. sched_initialize bld s = Ret () t \<and> sched_inv t \<and> current t = None
     \<and> (\<forall>x. state (tasks t x) = TASK_RUNNABLE \<and> task_kind (tasks t x) = TASK_KERNEL) \<and> heap_room t b 0"
  using assms by (rule sched_initialize_succeeds)

end
