(* ===== verification/Samples.thy ===== *)
theory Samples
  imports StackSpec PagingSpec
begin

text \<open>Concrete kernel states, and the properties of the scheduler and of the file layer applied to them.\<close>

section \<open>States\<close>

definition blank_task :: task where
  "blank_task = \<lparr>rsp = 0, task_cr3 = 0, state = TASK_UNUSED, task_kind = TASK_KERNEL, task_id = 0,
     task_fd_table = empty_table, user_bootstrap = cleared_bootstrap\<rparr>"

definition blank_kernel :: kernel_state where
  "blank_kernel = \<lparr>mem = (\<lambda>a. 0), serial_out = [], cr3 = 0,
     memory_map_buffer = (\<lambda>a. 0), memory_map_size_used = 0, memory_map_descriptor_size = 0, memory_map_descriptor_version = 0,
     memory_map_descriptor_count = 0, memory_map_conventional_region_count = 0, memory_map_conventional_page_count = 0,
     free_list_head = 0, alloc_region_begin = 0, alloc_region_end = 0, free_page_count = 0,
     heap_head = 0, blocks = (\<lambda>a. \<lparr>blk_magic = 0, blk_free = 0, blk_size = 0, blk_next = 0, blk_prev = 0\<rparr>),
     paging_kernel_pml4 = 0x1000, local_ch = 0,
     nodes = (\<lambda>n. \<lparr>node_kind = VFS_NODE_NONE, node_refs = 0, node_ops = None, node_data = NullData\<rparr>),
     files = (\<lambda>f. \<lparr>file_refs = 0, file_node = NullNode, file_offset = 0, file_access = 0\<rparr>),
     self_test_data = (\<lambda>a. \<lparr>self_test_released = 0, self_test_byte = 0, self_test_used = 0\<rparr>),
     fd_inputs = (\<lambda>a. \<lparr>fd_input_released = 0, fd_input_byte = 0, fd_input_used = 0\<rparr>),
     fd_outputs_released = (\<lambda>a. 0), fd_placeholder_of = (\<lambda>a. Placeholder_a), placeholder_released = (\<lambda>a. 0),
     namespace_console_input_data = \<lparr>console_input_byte = 0, console_input_used = 0\<rparr>,
     namespace_banner_data = \<lparr>static_text = [], static_length = 0\<rparr>,
     namespace_executable_data = (\<lambda>i. \<lparr>executable_image = 0, executable_size = 0\<rparr>),
     namespace_bin_entries = replicate 6 end_entry, namespace_ready = False,
     tasks = (\<lambda>t. blank_task), current = None, sched_started = False, user_task_enabled = False,
     user_task_bootstrap = cleared_bootstrap, worker_counter = 0, stack_garbage = (0, 0),
     port_log = [], gdt = replicate 7 0, gdtr = replicate 10 0, tss = replicate 104 0, idt = replicate 256 empty_gate,
     idtr = replicate 10 0, loaded_gdtr = [], loaded_tr = 0, loaded_idtr = [], interrupts_enabled = False, kernel_ticks = 0\<rparr>"

definition blank_build :: build where
  "blank_build = \<lparr>embedded_user_program_registry = [], embedded_first_user_program_image = 0, embedded_first_user_program_size = 0,
     arch_user_program_entry = 0, user_init_main = 0, task_idle = 0x200000, task_worker = 0x201000, bad_exec_image = 0, bad_user_image = 0,
     USER_INIT_ENABLED = False, USER_INIT_USE_ELF = False, USER_TEST_BAD_ELF = False, USER_TEST_BAD_BOOTSTRAP = False,
     USER_TEST_BAD_EXEC_IMAGE = False, USER_TEST_EXEC_TRANSFER_FAIL = False\<rparr>"

text \<open>An empty heap over \<open>n\<close> free pages.\<close>

definition kernel_pool :: "nat \<Rightarrow> kernel_state" where
  "kernel_pool n = blank_kernel\<lparr>mem := mem (pool_state n), free_list_head := free_list_head (pool_state n),
     free_page_count := free_page_count (pool_state n)\<rparr>"

lemma kernel_pool_room: "n \<le> 4096 \<Longrightarrow> heap_room (kernel_pool n) Map.empty n"
proof -
  assume n: "n \<le> 4096"
  have "palloc_inv (kernel_pool n) (rev (pool_pages n))"
    using pool_inv(1)[OF n] by (simp add: palloc_inv_def kernel_pool_def)
  moreover have "unat p + 4096 < 18446744073709551616" if "p \<in> set (pool_pages n)" for p
    using pool_page(3)[OF n that] by simp
  ultimately have "heap_inv (kernel_pool n) [] (rev (pool_pages n))"
    by (simp add: heap_inv_def heap_list_def coalesced_def span_def pages_apart_def)
      (simp add: kernel_pool_def blank_kernel_def)
  then show ?thesis unfolding heap_room_def
    by (intro exI[of _ "[]"] exI[of _ "rev (pool_pages n)"]) (simp add: allocs_def fun_eq_iff pool_pages_def region_pages_def)
qed

text \<open>Two kernel tasks, the first of them running.\<close>

definition sample_task :: "addr \<Rightarrow> task_state \<Rightarrow> task" where
  "sample_task r st = blank_task\<lparr>rsp := r, task_cr3 := 0x1000, state := st\<rparr>"

definition two_tasks :: "task_state \<Rightarrow> kernel_state" where
  "two_tasks st = blank_kernel\<lparr>cr3 := 0x1000, current := Some Task0, sched_started := True,
     tasks := (\<lambda>t. if t = Task0 then sample_task 0x5000 TASK_RUNNING else sample_task 0x6000 st)\<rparr>"

lemma two_tasks_simps [simp]:
  "current (two_tasks st) = Some Task0" "tasks (two_tasks st) Task0 = sample_task 0x5000 TASK_RUNNING"
  "tasks (two_tasks st) Task1 = sample_task 0x6000 st" "cr3 (two_tasks st) = 0x1000" "paging_kernel_pml4 (two_tasks st) = 0x1000"
  "sched_started (two_tasks st)" "kernel_ticks (two_tasks st) = 0"
  by (simp_all add: two_tasks_def blank_kernel_def)

lemma sample_task_simps [simp]:
  "rsp (sample_task r st) = r" "task_cr3 (sample_task r st) = 0x1000" "state (sample_task r st) = st"
  "task_kind (sample_task r st) = TASK_KERNEL" "task_fd_table (sample_task r st) = empty_table"
  "user_bootstrap (sample_task r st) = cleared_bootstrap"
  by (simp_all add: sample_task_def blank_task_def)

lemma other_task_values [simp]: "other_task Task0 = Task1" "other_task Task1 = Task0"
  by (simp_all add: other_task_def)

lemma two_tasks_inv: "st = TASK_RUNNABLE \<or> st = TASK_DONE \<Longrightarrow> sched_inv (two_tasks st)"
  by (auto simp: sched_inv_def waits_def task_ok_def fd_table_capacity_def all_task[of _ Task0])

section \<open>The scheduler\<close>

theorem sched_initialize_starts_witness:
  "\<exists>t. sched_initialize blank_build (kernel_pool 16) = Ret () t \<and> sched_inv t \<and> current t = None"
proof -
  have "\<forall>x. length (task_fd_table (tasks (kernel_pool 16) x)) = fd_table_capacity" "\<not> user_task_enabled (kernel_pool 16)"
    by (simp_all add: kernel_pool_def blank_kernel_def blank_task_def fd_table_capacity_def)
  with sched_initialize_starts [OF kernel_pool_room, where bld = blank_build] show ?thesis by auto
qed

theorem scheduler_invariant_witness:
  "\<exists>(s :: kernel_state) t. scheduled blank_build s \<and> current s = None \<and> kernel_step blank_build s None t \<and> sched_inv t"
proof -
  have len: "\<forall>x. length (task_fd_table (tasks (kernel_pool 16) x)) = fd_table_capacity" and en: "\<not> user_task_enabled (kernel_pool 16)"
    by (simp_all add: kernel_pool_def blank_kernel_def blank_task_def fd_table_capacity_def)
  from sched_initialize_succeeds[OF kernel_pool_room len en, of blank_build] obtain s where
    s: "sched_initialize blank_build (kernel_pool 16) = Ret () s" "current s = None" by auto
  have sch: "scheduled blank_build s" by (rule scheduled.start[OF len s(1)])
  have st: "kernel_step blank_build s None (s\<lparr>mem := \<lambda>a. 0\<rparr>)" by (rule kernel_step.program)
  from scheduler_invariant [OF scheduled.step[OF sch st]] sch st s(2) show ?thesis by blast
qed

theorem ticks_alternate_witness:
  "\<exists>t u. kernel_timer_tick 0x7000 (two_tasks TASK_RUNNABLE) = Ret 0x6000 t \<and> kernel_timer_tick 0x8000 t = Ret 0x7000 u"
proof -
  have "\<forall>x. own_space (paging_kernel_pml4 (two_tasks TASK_RUNNABLE)) (tasks (two_tasks TASK_RUNNABLE) x)"
    by (simp add: all_task[of _ Task0] own_space_def)
  with ticks_alternate [OF two_tasks_inv, of TASK_RUNNABLE Task0 "0x7000" "0x8000"] show ?thesis by auto
qed

theorem interrupted_task_resumes_witness:
  "\<exists>t v. kernel_timer_tick 0x7000 (two_tasks TASK_RUNNABLE) = Ret 0x6000 t \<and> kernel_step blank_build t (Some 0x7000) v
     \<and> tasks v Task0 = (sample_task 0x5000 TASK_RUNNING)\<lparr>rsp := 0x7000\<rparr>"
proof -
  let ?s = "two_tasks TASK_RUNNABLE"
  have inv: "sched_inv ?s" by (simp add: two_tasks_inv)
  obtain t where t: "kernel_timer_tick 0x7000 ?s = Ret 0x6000 t" "current t = Some Task1" "paging_kernel_pml4 t = 0x1000"
    "tasks t = (tasks ?s)(Task0 := (tasks ?s Task0)\<lparr>rsp := 0x7000, state := TASK_RUNNABLE\<rparr>, Task1 := (tasks ?s Task1)\<lparr>state := TASK_RUNNING\<rparr>)"
    using timer_switch[OF inv, of Task0 "0x7000"] by (auto simp: own_space_def)
  have inv_t: "sched_inv t" using kernel_timer_steps[OF inv, of "0x7000"] t(1) by (simp add: steps_ok_def step_ok_def)
  obtain v where v: "kernel_timer_tick 0x8000 t = Ret 0x7000 v" "current v = Some Task0"
    using timer_switch[OF inv_t t(2), of "0x8000"] t(3,4) by (auto simp: own_space_def)
  have away: "run_without blank_build Task0 t t" using t(2) by (intro run_without.without_here) simp
  have st: "kernel_step blank_build t (Some 0x7000) v" by (rule kernel_step.interrupt[OF _ v(1)]) simp
  from interrupted_task_resumes [OF inv _ _ t(1) away st v(2)] t(1) st show ?thesis by auto
qed

theorem done_task_never_runs_witness:
  "tasks ((two_tasks TASK_DONE)\<lparr>mem := \<lambda>a. 1\<rparr>) Task1 = sample_task 0x6000 TASK_DONE"
proof -
  have "kernel_run blank_build (two_tasks TASK_DONE) ((two_tasks TASK_DONE)\<lparr>mem := \<lambda>a. 1\<rparr>)"
    using kernel_run.later[OF kernel_run.here kernel_step.program] .
  from done_task_never_runs [OF this two_tasks_inv, of Task1] show ?thesis by simp
qed

theorem user_stack_frame_witness:
  "\<exists>t. task_build_user_stack (cleared_bootstrap\<lparr>user_stack_page := 0x3000, user_stack_top := 0x40200000\<rparr>) blank_kernel = (0x3F60, t)
     \<and> frame_rsp t 0x3F60 = 0x40200000"
  using user_stack_frame [of "cleared_bootstrap\<lparr>user_stack_page := 0x3000, user_stack_top := 0x40200000\<rparr>" blank_kernel]
  by (auto simp: page_aligned_def)

section \<open>Files\<close>

definition live_file :: "kernel_state" where
  "live_file = put_file 0x9020 (new_file ConsoleOutputNode VFS_ACCESS_WRITE) blank_kernel"

theorem retain_close_roundtrip_witness:
  "\<exists>t. vfs_file_retain 0x9020 live_file = (0, t) \<and> vfs_file_close 0x9020 t = Ret 0 live_file"
  using retain_close_roundtrip [of "0x9020" live_file] by (auto simp: live_file_def new_file_def)

definition static_node :: vfs_node where
  "static_node = \<lparr>node_kind = VFS_NODE_STATIC_TEXT, node_refs = 0, node_ops = Some static_text_ops, node_data = BannerData\<rparr>"

theorem open_close_roundtrip_witness:
  "\<exists>f t u. vfs_file_open BannerNode VFS_ACCESS_READ (put_node BannerNode static_node (kernel_pool 1)) = Ret f t \<and> f \<noteq> 0
     \<and> vfs_file_close f t = Ret 0 u"
proof -
  have "heap_room (put_node BannerNode static_node (kernel_pool 1)) Map.empty (Suc 0)" using kernel_pool_room[of 1] by simp
  from open_close_roundtrip [OF this, of BannerNode VFS_ACCESS_READ] show ?thesis
    by (auto simp: static_node_def openable_def static_text_ops_def vfs_open_flags_valid_def VFS_ACCESS_READ_def VFS_ACCESS_WRITE_def)
qed

end
