(* ===== verification/FdSpec.thy ===== *)
theory FdSpec
  imports Samples
begin

text \<open>
  Properties of \<open>src/kernel/fd.c\<close>: which descriptor an open file gets, duplicating and closing, and the console
  descriptors of a task from \<open>fd_table_seed_console\<close> to \<open>fd_table_close_all\<close>.
\<close>

section \<open>Installing\<close>

lemma first_unused_None: "first_unused i t = None \<longleftrightarrow> (\<forall>e \<in> set t. used e \<noteq> 0)"
  by (induction i t rule: first_unused.induct) auto

lemma first_unused_Some:
  "first_unused i t = Some n \<Longrightarrow> \<exists>j < length t. n = i + j \<and> used (t ! j) = 0 \<and> (\<forall>m < j. used (t ! m) \<noteq> 0)"
proof (induction i t rule: first_unused.induct)
  case (2 i e es)
  show ?case
  proof (cases "used e = 0")
    case True
    with 2 show ?thesis by (intro exI[of _ 0]) simp
  next
    case False
    with 2 obtain j where j: "j < length es" "n = i + 1 + j" "used (es ! j) = 0" "\<forall>m < j. used (es ! m) \<noteq> 0" by auto
    have "used ((e # es) ! m) \<noteq> 0" if "m < Suc j" for m using that j(4) False by (cases m) auto
    with j show ?thesis by (intro exI[of _ "Suc j"]) simp
  qed
qed simp

lemma unat_fd: "n < 16 \<Longrightarrow> unat (of_nat n :: i32) = n"
  by (simp add: unat_of_nat)

lemma fd_table_get_nth:
  "n < 16 \<Longrightarrow> fd_table_get (Some t) (of_nat n) = (if used (t ! n) = 0 then None else Some (t ! n))"
  by (simp add: fd_table_get_def fd_in_range_nat unat_fd)

lemma install_cases:
  assumes "length t = 16" "k \<noteq> FD_KIND_NONE" "f \<noteq> 0"
  obtains (full) "\<forall>m < 16. used (t ! m) \<noteq> 0" "fd_table_install (Some t) k f = (- 1, Some t)"
  | (found) n where "n < 16" "used (t ! n) = 0" "\<forall>m < n. used (t ! m) \<noteq> 0"
      "fd_table_install (Some t) k f = (of_nat n, Some (t[n := \<lparr>used = 1, kind = k, entry_file = f\<rparr>]))"
proof (cases "first_unused 0 t")
  case None
  then have "\<forall>m < 16. used (t ! m) \<noteq> 0" using assms(1) nth_mem[of _ t] by (auto simp: first_unused_None)
  then show ?thesis using full None assms by (simp add: fd_table_install_def)
next
  case (Some n)
  from first_unused_Some[OF this] assms(1) have "n < 16" "used (t ! n) = 0" "\<forall>m < n. used (t ! m) \<noteq> 0" by auto
  then show ?thesis using found Some assms by (simp add: fd_table_install_def)
qed

text \<open>
  C24: \<open>fd_table_install\<close> hands out the lowest descriptor that is not in use, which then names the file, leaves the other
  fifteen as they were, and refuses with -1 and an unchanged table exactly when all sixteen are in use.
\<close>

theorem fd_table_install_lowest:
  assumes "length t = 16" "k \<noteq> FD_KIND_NONE" "f \<noteq> 0"
  shows "if \<forall>m < 16. used (t ! m) \<noteq> 0 then fd_table_install (Some t) k f = (- 1, Some t)
     else \<exists>n u. fd_table_install (Some t) k f = (of_nat n, Some u) \<and> n < 16 \<and> length u = 16
        \<and> fd_table_get (Some t) (of_nat n) = None \<and> (\<forall>m < n. fd_table_get (Some t) (of_nat m) \<noteq> None)
        \<and> fd_table_get (Some u) (of_nat n) = Some \<lparr>used = 1, kind = k, entry_file = f\<rparr>
        \<and> (\<forall>m < 16. m \<noteq> n \<longrightarrow> u ! m = t ! m)"
  using assms
proof (cases rule: install_cases)
  case (found n)
  then have "\<not> (\<forall>m < 16. used (t ! m) \<noteq> 0)" by blast
  moreover have "\<forall>m < n. fd_table_get (Some t) (of_nat m) \<noteq> None" using found(1,3) by (auto simp: fd_table_get_nth)
  ultimately show ?thesis using found assms(1) by (auto simp: fd_table_get_nth)
qed simp

theorem fd_table_install_lowest_witness:
  "\<exists>u. fd_table_install (Some (empty_table[0 := console_entry 0x9020])) FD_KIND_CONSOLE 0x9040 = (1, Some u)"
proof -
  have "first_unused 0 (empty_table[0 := console_entry 0x9020]) = Some 1" by (rule first_unused_console)
  then have i: "fd_table_install (Some (empty_table[0 := console_entry 0x9020])) FD_KIND_CONSOLE 0x9040
    = (1, Some (empty_table[0 := console_entry 0x9020, 1 := console_entry 0x9040]))" by (simp add: install_console)
  show ?thesis
    using fd_table_install_lowest [of "empty_table[0 := console_entry 0x9020]" FD_KIND_CONSOLE "0x9040"] i by simp
qed

section \<open>Duplicating\<close>

definition live_entry :: "'a vfs_state_scheme \<Rightarrow> fd_entry \<Rightarrow> bool" where
  "live_entry s e \<longleftrightarrow> kind e \<noteq> FD_KIND_NONE \<and> entry_file e \<noteq> 0 \<and> file_node (files s (entry_file e)) \<noteq> NullNode
     \<and> file_refs (files s (entry_file e)) \<noteq> 0 \<and> file_refs (files s (entry_file e)) \<noteq> - 1"

lemma retain_then_close:
  assumes "live_entry s e"
  obtains t where "vfs_file_retain (entry_file e) s = (0, t)" "vfs_file_close (entry_file e) t = Ret 0 s"
    "files t = (files s)(entry_file e := (files s (entry_file e))\<lparr>file_refs := file_refs (files s (entry_file e)) + 1\<rparr>)"
proof -
  let ?f = "entry_file e" and ?t = "put_file (entry_file e) ((files s (entry_file e))\<lparr>file_refs := file_refs (files s (entry_file e)) + 1\<rparr>) s"
  have nz: "file_refs (files s ?f) + 1 \<noteq> 0" "file_refs (files s ?f) + 1 \<noteq> 1"
    using assms by (auto simp: live_entry_def eq_neg_iff_add_eq_0)
  have "vfs_file_close ?f ?t = Ret 0 (put_file ?f ((files ?t ?f)\<lparr>file_refs := file_refs (files ?t ?f) - 1\<rparr>) ?t)"
    by (rule vfs_file_close_shared) (use assms nz in \<open>simp_all add: live_entry_def\<close>)
  then have "vfs_file_close ?f ?t = Ret 0 s" by (simp add: put_file_def)
  then show ?thesis using that[of ?t] assms by (simp add: live_entry_def vfs_file_retain_live)
qed

text \<open>
  C25: Duplicating a descriptor and closing the duplicate is the identity: the duplicate is a descriptor that was unused, it
  names the same file with one more reference, and after closing it the state is the one before and its slot is free
  again. When the table is full \<open>fd_table_dup\<close> fails with -1 and changes nothing at all.
\<close>

theorem dup_close_roundtrip:
  assumes len: "length t = 16" and e: "fd_table_get (Some t) d = Some e" and live: "live_entry s e"
  shows "if \<forall>m < 16. used (t ! m) \<noteq> 0 then fd_table_dup (Some t) d s = Ret (- 1, Some t) s
     else \<exists>n u v. fd_table_dup (Some t) d s = Ret (of_nat n, Some u) v \<and> n < 16 \<and> used (t ! n) = 0
        \<and> fd_table_get (Some u) (of_nat n) = Some \<lparr>used = 1, kind = kind e, entry_file = entry_file e\<rparr>
        \<and> file_refs (files v (entry_file e)) = file_refs (files s (entry_file e)) + 1
        \<and> fd_table_close (Some u) (of_nat n) v = Ret (0, Some (t[n := empty_entry])) s"
proof -
  have e0: "kind e \<noteq> FD_KIND_NONE" "entry_file e \<noteq> 0" using live by (simp_all add: live_entry_def)
  obtain v where v: "vfs_file_retain (entry_file e) s = (0, v)" "vfs_file_close (entry_file e) v = Ret 0 s"
    "files v = (files s)(entry_file e := (files s (entry_file e))\<lparr>file_refs := file_refs (files s (entry_file e)) + 1\<rparr>)"
    using retain_then_close[OF live] .
  show ?thesis using len e0
  proof (cases rule: install_cases)
    case full
    then show ?thesis using e v by (simp add: fd_table_dup_def)
  next
    case (found n)
    let ?u = "t[n := \<lparr>used = 1, kind = kind e, entry_file = entry_file e\<rparr>]"
    have "\<not> sint (of_nat n :: i32) < 0" using sint_small[OF found(1)] by simp
    then have "fd_table_dup (Some t) d s = Ret (of_nat n, Some ?u) v" using e v found(4) by (simp add: fd_table_dup_def)
    moreover have "fd_table_close (Some ?u) (of_nat n) v = Ret (0, Some (t[n := empty_entry])) s"
      using found(1) len v(2) by (simp add: fd_table_close_def fd_in_range_nat unat_fd)
    moreover have "fd_table_get (Some ?u) (of_nat n) = Some \<lparr>used = 1, kind = kind e, entry_file = entry_file e\<rparr>"
      using found(1) len by (simp add: fd_table_get_nth)
    moreover have "\<not> (\<forall>m < 16. used (t ! m) \<noteq> 0)" using found by blast
    ultimately show ?thesis using found(1,2) v(3) by auto
  qed
qed

theorem dup_close_roundtrip_witness:
  "\<exists>n u v. fd_table_dup (Some (empty_table[0 := console_entry 0x9020])) 0 live_file = Ret (of_nat n, Some u) v
     \<and> fd_table_close (Some u) (of_nat n) v = Ret (0, Some (empty_table[0 := console_entry 0x9020, n := empty_entry])) live_file"
proof -
  let ?t = "empty_table[0 := console_entry 0x9020]"
  have g: "fd_table_get (Some ?t) 0 = Some (console_entry 0x9020)"
    using fd_table_get_nth[of 0 ?t] by (simp add: console_entry_def)
  have l: "live_entry live_file (console_entry 0x9020)"
    by (simp add: live_entry_def console_entry_def live_file_def new_file_def)
  have "\<not> (\<forall>m < 16. used (?t ! m) \<noteq> 0)" by (auto intro!: exI[of _ 1] simp: empty_entry_def)
  with dup_close_roundtrip [OF _ g l] show ?thesis by auto
qed

section \<open>The console of a task\<close>

lemma if_None_iff: "(if b then None else Some x) \<noteq> None \<longleftrightarrow> \<not> b"
  by simp

lemma console_table_used:
  assumes n: "n < 16"
  shows "used (console_table x y z ! n) \<noteq> 0 \<longleftrightarrow> n < 3"
proof -
  have len: "length empty_table = 16" and e: "used (empty_table ! n) = 0"
    using n by (simp_all add: empty_table_def empty_entry_def)
  have c: "used (console_entry f) \<noteq> 0" for f by (simp add: console_entry_def)
  have "console_table x y z ! n = (if n = 2 then console_entry z else if n = 1 then console_entry y
    else if n = 0 then console_entry x else empty_table ! n)"
    unfolding console_table_def using n len by (simp only: nth_list_update length_list_update) auto
  then show ?thesis using c e by (cases "n < 3") auto
qed

text \<open>
  C26: The console descriptors come and go without a trace: \<open>fd_table_seed_console\<close> opens exactly the descriptors 0, 1 and 2,
  and \<open>fd_table_close_all\<close> then empties the table and gives every allocation back, the two nodes and their data included;
  no other file or node has changed.
\<close>

theorem console_descriptors_roundtrip:
  assumes "heap_room s a (k + 7)"
  shows "\<exists>table t u. fd_table_seed_console (Some empty_table) s = Ret (True, Some table) t
     \<and> (\<forall>n < 16. fd_table_get (Some table) (of_nat n) \<noteq> None \<longleftrightarrow> n < 3)
     \<and> fd_table_close_all (Some table) t = Ret (Some empty_table) u \<and> heap_room u a k
     \<and> (\<forall>f. a f \<noteq> None \<longrightarrow> files u f = files s f \<and> nodes u (HeapNode f) = nodes s (HeapNode f))"
proof -
  from seed_console_spec[OF assms] obtain t table xs ns where
    t: "fd_table_seed_console (Some empty_table) s = Ret (True, Some table) t" "console_open s a k t table xs ns" .
  obtain u where u: "fd_table_close_all (Some table) t = Ret (Some empty_table) u" "heap_room u a k"
      "\<And>f. a f \<noteq> None \<Longrightarrow> files u f = files s f" "\<And>f. a f \<noteq> None \<Longrightarrow> nodes u (HeapNode f) = nodes s (HeapNode f)"
    apply (rule console_close_spec[OF t(2)])
    subgoal premises p for u by (rule that[of u]) (use p in simp_all)
    done
  obtain x y z where table: "table = console_table x y z" using t(2) by (auto simp: console_open_def split: list.splits)
  have "fd_table_get (Some table) (of_nat n) \<noteq> None \<longleftrightarrow> n < 3" if "n < 16" for n
  proof -
    have "fd_table_get (Some table) (of_nat n) \<noteq> None \<longleftrightarrow> used (console_table x y z ! n) \<noteq> 0"
      unfolding table fd_table_get_nth[OF that] by (rule if_None_iff)
    also have "\<dots> \<longleftrightarrow> n < 3" by (rule console_table_used[OF that])
    finally show ?thesis .
  qed
  then show ?thesis using t(1) u by (intro exI[of _ table] exI[of _ t] exI[of _ u]) blast
qed

theorem console_descriptors_roundtrip_witness:
  "\<exists>table t u. fd_table_seed_console (Some empty_table) (kernel_pool 7) = Ret (True, Some table) t
     \<and> fd_table_close_all (Some table) t = Ret (Some empty_table) u \<and> heap_room u Map.empty 0"
proof -
  have "heap_room (kernel_pool 7) Map.empty (0 + 7)" using kernel_pool_room[of 7] by simp
  from console_descriptors_roundtrip [OF this] show ?thesis by blast
qed

end
