(* ===== verification/NameSpec.thy ===== *)
theory NameSpec
  imports FdSpec
begin

text \<open>
  The name space of \<open>src/kernel/vfs.c\<close>: the path walk against a reference that first splits the path into components and
  then looks them up, and what \<open>vfs_namespace_initialize\<close> makes reachable under which path.
\<close>

section \<open>The reference lookup\<close>

text \<open>The characters of a C string, and the components between its slashes.\<close>

definition c_string :: "string \<Rightarrow> string" where
  "c_string p = takeWhile (\<lambda>c. c \<noteq> CHR 0x00) p"

fun components :: "string \<Rightarrow> string list" where
  "components [] = [[]]"
| "components (c # cs) = (if c = CHR 0x2F then [] # components cs
     else case components cs of [] \<Rightarrow> [[c]] | w # ws \<Rightarrow> (c # w) # ws)"

definition component_ok :: "string \<Rightarrow> bool" where
  "component_ok w \<longleftrightarrow> w \<noteq> [] \<and> length w \<le> 15"

definition find_entry :: "vfs_namespace_entry list \<Rightarrow> string \<Rightarrow> vfs_namespace_entry option" where
  "find_entry entries w =
     find (\<lambda>e. c_string (the (entry_name e)) = c_string w) (takeWhile (\<lambda>e. entry_name e \<noteq> None) entries)"

fun resolve :: "vfs_namespace_entry list \<Rightarrow> string list \<Rightarrow> 'a vfs_state_scheme \<Rightarrow> node_ref" where
  "resolve entries [] s = NullNode"
| "resolve entries (w # ws) s = (case find_entry entries w of None \<Rightarrow> NullNode
     | Some e \<Rightarrow> if ws = [] then entry_node e
         else case entries_of (entry_children e) s of None \<Rightarrow> NullNode | Some children \<Rightarrow> resolve children ws s)"

definition path_reference :: "string \<Rightarrow> 'a vfs_state_scheme \<Rightarrow> node_ref" where
  "path_reference p s =
    (if \<not> namespace_ready s then NullNode
     else case c_string p of [] \<Rightarrow> NullNode
     | c # q \<Rightarrow> if c = CHR 0x2F \<and> list_all component_ok (components q) then resolve namespace_root_entries (components q) s
         else NullNode)"

section \<open>The walk implements it\<close>

lemma c_string_simps [simp]:
  "c_string [] = []" "c_string (c # cs) = (if c = CHR 0x00 then [] else c # c_string cs)"
  by (simp_all add: c_string_def)

lemma c_string_c_string [simp]: "c_string (c_string w) = c_string w"
  by (induction w) auto

lemma at_end_c_string: "at_end p \<longleftrightarrow> c_string p = []"
  by (cases p) (auto simp: at_end_def)

lemma string_equal_c_string: "string_equal a b \<longleftrightarrow> c_string a = c_string b"
  by (induction a b rule: string_equal.induct) (auto simp: at_end_c_string)

lemma vfs_find_child_find_entry: "vfs_find_child entries w = find_entry entries w"
  by (induction entries) (auto simp: find_entry_def string_equal_c_string split: option.splits)

lemma read_component_take:
  "n < 16 \<Longrightarrow> read_component n cs =
    (let w = takeWhile (\<lambda>c. c \<noteq> CHR 0x2F) (c_string cs) in
     if n + length w \<ge> 16 then None else Some (w, drop (length w) cs))"
  by (induction n cs rule: read_component.induct) (auto simp: Let_def)

lemma components_take:
  "components cs = (let w = takeWhile (\<lambda>c. c \<noteq> CHR 0x2F) cs in
     w # (if drop (length w) cs = [] then [] else components (tl (drop (length w) cs))))"
  by (induction cs) (auto simp: Let_def)

lemma c_string_drop:
  "c_string (drop (length (takeWhile P (c_string cs))) cs) = drop (length (takeWhile P (c_string cs))) (c_string cs)"
  by (induction cs) auto

lemma c_string_tl: "\<not> at_end cs \<Longrightarrow> c_string (tl cs) = tl (c_string cs)"
  by (cases cs) (auto simp: at_end_def)

lemma components_nonempty: "components cs \<noteq> []"
  by (subst components_take) (simp add: Let_def)

lemma walk_from_resolve:
  "walk_from entries p s =
    (if list_all component_ok (components (c_string p)) then resolve entries (components (c_string p)) s else NullNode)"
proof (induction entries p s rule: walk_from.induct)
  case (1 entries p s)
  let ?q = "c_string p"
  let ?w = "takeWhile (\<lambda>c. c \<noteq> CHR 0x2F) ?q"
  let ?after = "drop (length ?w) p"
  have split: "components ?q = ?w # (if at_end ?after then [] else components (c_string (tl ?after)))"
    by (subst components_take) (simp add: Let_def at_end_c_string c_string_drop c_string_tl)
  have empty: "\<not> list_all component_ok (components [])" by (simp add: component_ok_def)
  show ?case
  proof (cases "component_ok ?w")
    case False
    then have "read_component 0 p = None \<or> (\<exists>r. read_component 0 p = Some ([], r))"
      by (auto simp: component_ok_def read_component_take Let_def)
    then show ?thesis using False unfolding split by (subst walk_from.simps) auto
  next
    case True
    then have r: "read_component 0 p = Some (?w, ?after)" "?w \<noteq> []"
      by (auto simp: component_ok_def read_component_take Let_def)
    show ?thesis
    proof (cases "at_end ?after")
      case e: True
      then show ?thesis using True r unfolding split
        by (subst walk_from.simps) (simp add: vfs_find_child_find_entry split: option.split)
    next
      case e: False
      have ne: "components (c_string (tl ?after)) \<noteq> []" by (rule components_nonempty)
      have IH: "walk_from children (tl ?after) s =
          (if list_all component_ok (components (c_string (tl ?after)))
           then resolve children (components (c_string (tl ?after))) s else NullNode)"
        if "find_entry entries ?w = Some e'" "entries_of (entry_children e') s = Some children" "\<not> at_end (tl ?after)" for e' children
        using 1[OF r(1) _ r(2) _ e that(2)] that by (simp add: vfs_find_child_find_entry)
      show ?thesis
      proof (cases "at_end (tl ?after)")
        case a: True
        then have "components (c_string (tl ?after)) = [[]]" by (simp add: at_end_c_string)
        then show ?thesis using True r e a unfolding split
          by (subst walk_from.simps) (simp add: vfs_find_child_find_entry component_ok_def split: option.split)
      next
        case a: False
        show ?thesis using True r e a IH ne unfolding split
          by (subst walk_from.simps) (auto simp: vfs_find_child_find_entry split: option.split)
      qed
    qed
  qed
qed

text \<open>
  C22: \<open>vfs_walk_path\<close> finds exactly the node the reference finds: the path up to its NUL starts with a slash, all its
  components are non-empty and at most 15 characters long (a trailing or a double slash is an error), and each is looked up
  by name in the directory the previous one leads to. A null path finds nothing.
\<close>

theorem walk_path_reference:
  "vfs_walk_path p s = (case p of None \<Rightarrow> NullNode | Some q \<Rightarrow> path_reference q s)"
proof (cases p)
  case (Some q)
  show ?thesis
  proof (cases "c_string q")
    case Nil
    then show ?thesis using Some by (simp add: vfs_walk_path_def path_reference_def at_end_c_string)
  next
    case (Cons c cs)
    then obtain r where r: "q = c # r" "c \<noteq> CHR 0x00" "cs = c_string r" by (cases q) (auto split: if_splits)
    have "components [] = [[]]" by simp
    then show ?thesis using Some Cons r
      by (auto simp: vfs_walk_path_def path_reference_def at_end_c_string walk_from_resolve component_ok_def)
  qed
qed (simp add: vfs_walk_path_def)

section \<open>What the boot makes reachable\<close>

definition program_entry :: "nat \<Rightarrow> embedded_user_program \<Rightarrow> vfs_namespace_entry" where
  "program_entry i p = \<lparr>entry_name = Some (program_name p), entry_node = ExecutableNode i, entry_children = NoChildren\<rparr>"

definition program_node :: "nat \<Rightarrow> vfs_node" where
  "program_node i = \<lparr>node_kind = VFS_NODE_EXECUTABLE, node_refs = 0, node_ops = Some executable_ops, node_data = ExecutableData i\<rparr>"

definition program_data :: "build \<Rightarrow> embedded_user_program \<Rightarrow> vfs_executable_data" where
  "program_data bld p = (case vfs_program_image bld p of
     None \<Rightarrow> \<lparr>executable_image = 0, executable_size = 0\<rparr> | Some (a, n) \<Rightarrow> \<lparr>executable_image = a, executable_size = n\<rparr>)"

lemma vfs_node_initialize_Ret:
  "node \<noteq> NullNode \<Longrightarrow> k \<noteq> VFS_NODE_NONE \<Longrightarrow>
   vfs_node_initialize node k (Some ops) data s
     = Ret () (s\<lparr>nodes := (nodes s)(node := \<lparr>node_kind = k, node_refs = 0, node_ops = Some ops, node_data = data\<rparr>)\<rparr>)"
  by (simp add: vfs_node_initialize_def put_node_def)

lemma namespace_programs_spec:
  assumes "i + length ps \<le> length (namespace_bin_entries s)" "\<forall>p \<in> set ps. vfs_program_image bld p \<noteq> None"
  shows "\<exists>t. namespace_programs bld i ps s = Ret (i + length ps) t
     \<and> length (namespace_bin_entries t) = length (namespace_bin_entries s)
     \<and> (\<forall>j. i \<le> j \<and> j < i + length ps \<longrightarrow> nodes t (ExecutableNode j) = program_node j
           \<and> namespace_executable_data t j = program_data bld (ps ! (j - i))
           \<and> namespace_bin_entries t ! j = program_entry j (ps ! (j - i)))
     \<and> (\<forall>j < i. namespace_executable_data t j = namespace_executable_data s j
           \<and> namespace_bin_entries t ! j = namespace_bin_entries s ! j)
     \<and> (\<forall>n. (\<forall>j \<ge> i. n \<noteq> ExecutableNode j) \<longrightarrow> nodes t n = nodes s n)"
  using assms
proof (induction ps arbitrary: i s)
  case (Cons p ps)
  obtain a n where im: "vfs_program_image bld p = Some (a, n)" using Cons.prems(2) by fastforce
  let ?s = "s\<lparr>namespace_executable_data := (namespace_executable_data s)(i := \<lparr>executable_image = a, executable_size = n\<rparr>),
    nodes := (nodes s)(ExecutableNode i := program_node i),
    namespace_bin_entries := (namespace_bin_entries s)[i := program_entry i p]\<rparr>"
  have step: "namespace_programs bld i (p # ps) s = namespace_programs bld (Suc i) ps ?s"
    by (simp add: im Let_def vfs_node_initialize_Ret program_node_def program_entry_def)
  have "Suc i + length ps \<le> length (namespace_bin_entries ?s)" "\<forall>p \<in> set ps. vfs_program_image bld p \<noteq> None"
    using Cons.prems by simp_all
  from Cons.IH[OF this] obtain t where t: "namespace_programs bld (Suc i) ps ?s = Ret (Suc i + length ps) t"
    "length (namespace_bin_entries t) = length (namespace_bin_entries ?s)"
    "\<And>j. Suc i \<le> j \<Longrightarrow> j < Suc i + length ps \<Longrightarrow> nodes t (ExecutableNode j) = program_node j
      \<and> namespace_executable_data t j = program_data bld (ps ! (j - Suc i))
      \<and> namespace_bin_entries t ! j = program_entry j (ps ! (j - Suc i))"
    "\<And>j. j < Suc i \<Longrightarrow> namespace_executable_data t j = namespace_executable_data ?s j
      \<and> namespace_bin_entries t ! j = namespace_bin_entries ?s ! j"
    "\<And>n. (\<forall>j \<ge> Suc i. n \<noteq> ExecutableNode j) \<Longrightarrow> nodes t n = nodes ?s n" by blast
  have "nodes t (ExecutableNode j) = program_node j \<and> namespace_executable_data t j = program_data bld ((p # ps) ! (j - i))
      \<and> namespace_bin_entries t ! j = program_entry j ((p # ps) ! (j - i))" if "i \<le> j" "j < i + length (p # ps)" for j
  proof (cases "j = i")
    case True
    then show ?thesis using t(4)[of i] t(5)[of "ExecutableNode i"] Cons.prems(1) by (simp add: program_data_def im)
  next
    case False
    then have "j - i = Suc (j - Suc i)" "Suc i \<le> j" using that(1) by linarith+
    then show ?thesis using t(3)[of j] that(2) by simp
  qed
  moreover have "nodes t n = nodes s n" if "\<forall>j \<ge> i. n \<noteq> ExecutableNode j" for n
    using that t(5)[of n] by auto
  ultimately show ?case using step t(1,2,4) by (intro exI[of _ t]) simp
qed (auto simp: not_less[symmetric])

lemma namespace_programs_fail:
  "\<exists>p \<in> set ps. vfs_program_image bld p = None \<Longrightarrow> halts (namespace_programs bld i ps s)"
proof (induction ps arbitrary: i s)
  case (Cons p ps)
  show ?case
  proof (cases "vfs_program_image bld p")
    case None
    then show ?thesis by (simp add: vfs_fail_def arch_halt_forever_def)
  next
    case (Some x)
    then show ?thesis using Cons by (cases x) (simp add: Let_def vfs_node_initialize_Ret)
  qed
qed simp

lemma find_program_entry:
  assumes bin: "\<forall>j < length ps. bin ! j = program_entry j (ps ! j)" "bin ! length ps = end_entry" "length ps < length bin"
    and i: "i < length ps" "\<forall>j < i. c_string (program_name (ps ! j)) \<noteq> c_string (program_name (ps ! i))"
  shows "find_entry bin (c_string (program_name (ps ! i))) = Some (program_entry i (ps ! i))"
proof -
  let ?es = "map (\<lambda>j. program_entry j (ps ! j)) [0..<length ps]"
  have "take (length ps) bin = ?es"
    by (rule nth_equalityI) (use bin in auto)
  then have "bin = ?es @ end_entry # drop (Suc (length ps)) bin"
    using id_take_nth_drop[OF bin(3)] bin(2) by simp
  then have "takeWhile (\<lambda>e. entry_name e \<noteq> None) bin = takeWhile (\<lambda>e. entry_name e \<noteq> None) (?es @ end_entry # drop (Suc (length ps)) bin)"
    by (rule arg_cong)
  also have "\<dots> = ?es"
    by (subst takeWhile_append2) (auto simp: program_entry_def end_entry_def)
  finally have "takeWhile (\<lambda>e. entry_name e \<noteq> None) bin = ?es" .
  then show ?thesis
    using i by (auto simp: find_entry_def find_Some_iff program_entry_def intro!: exI[of _ i])
qed

definition good_name :: "string \<Rightarrow> bool" where
  "good_name w \<longleftrightarrow> component_ok (c_string w) \<and> CHR 0x2F \<notin> set (c_string w)"

lemma components_name: "CHR 0x2F \<notin> set w \<Longrightarrow> components w = [w]"
  by (induction w) auto

lemma walk_bin:
  assumes "namespace_ready t" "good_name w"
  shows "vfs_walk_path (Some (''/bin/'' @ w)) t = (case find_entry (namespace_bin_entries t) (c_string w) of None \<Rightarrow> NullNode | Some e \<Rightarrow> entry_node e)"
  using assms components_name[of "c_string w"]
  by (simp add: vfs_walk_path_def at_end_c_string walk_from_resolve good_name_def component_ok_def find_entry_def
    namespace_root_entries_def entries_of_def split: option.split)

lemma initialize_fixed_nodes:
  fixes bld
  defines "ps \<equiv> embedded_user_program_registry bld"
  assumes "length (namespace_bin_entries s) = 6"
  shows "\<exists>s0. length (namespace_bin_entries s0) = 6 \<and> vfs_namespace_initialize bld s
    = (if 5 < length ps then vfs_fail ''vfs init fail'' s0
       else chain (namespace_programs bld 0 ps s0) (\<lambda>index s.
         Ret () (s\<lparr>namespace_bin_entries := (namespace_bin_entries s)[index := end_entry], namespace_ready := True\<rparr>)))"
proof -
  have n: "(6 < n + 1 \<or> 5 < n) = (5 < n)" for n :: nat by auto
  show ?thesis
    unfolding ps_def
    apply (intro exI conjI[rotated])
     apply (simp only: vfs_namespace_initialize_def Let_def vfs_node_initialize_Ret node_ref.distinct vfs_node_kind.distinct
        chain.simps not_False_eq_True n)
    using assms by simp
qed

text \<open>
  C23: The boot makes the name space reachable: when at most five programs are built in and each has an image,
  \<open>vfs_namespace_initialize\<close> returns, the fixed paths lead to their nodes, and the path of a program, the first of its
  name, leads to an executable node through which exactly the image of that program is read. In every other case the
  kernel halts.
\<close>

theorem namespace_reachable:
  assumes "length (namespace_bin_entries s) = 6"
  shows "let ps = embedded_user_program_registry bld in
    if length ps \<le> 5 \<and> (\<forall>p \<in> set ps. vfs_program_image bld p \<noteq> None)
    then \<exists>t. vfs_namespace_initialize bld s = Ret () t
      \<and> vfs_walk_path (Some ''/dev'') t = DevNode \<and> vfs_walk_path (Some ''/dev/console'') t = ConsoleOutputNode
      \<and> vfs_walk_path (Some ''/etc/banner'') t = BannerNode \<and> vfs_walk_path (Some ''/'') t = NullNode
      \<and> (\<forall>i < length ps. good_name (program_name (ps ! i))
            \<and> (\<forall>j < i. c_string (program_name (ps ! j)) \<noteq> c_string (program_name (ps ! i))) \<longrightarrow>
          vfs_walk_path (Some (''/bin/'' @ program_name (ps ! i))) t = ExecutableNode i
          \<and> nodes t (ExecutableNode i) = program_node i \<and> namespace_executable_data t i = program_data bld (ps ! i))
    else halts (vfs_namespace_initialize bld s)"
proof -
  let ?ps = "embedded_user_program_registry bld"
  obtain s0 where s0: "length (namespace_bin_entries s0) = 6" "vfs_namespace_initialize bld s
    = (if 5 < length ?ps then vfs_fail ''vfs init fail'' s0
       else chain (namespace_programs bld 0 ?ps s0) (\<lambda>index s.
         Ret () (s\<lparr>namespace_bin_entries := (namespace_bin_entries s)[index := end_entry], namespace_ready := True\<rparr>)))"
    using initialize_fixed_nodes[OF assms] by blast
  show ?thesis
  proof (cases "length ?ps \<le> 5 \<and> (\<forall>p \<in> set ?ps. vfs_program_image bld p \<noteq> None)")
    case False
    then have "\<exists>p \<in> set ?ps. vfs_program_image bld p = None" if "length ?ps \<le> 5" using that by metis
    then have "halts (namespace_programs bld 0 ?ps s0)" if "length ?ps \<le> 5" using that by (blast intro: namespace_programs_fail)
    then have "halts (vfs_namespace_initialize bld s)"
      by (cases "length ?ps \<le> 5"; cases "namespace_programs bld 0 ?ps s0") (auto simp: s0(2) vfs_fail_def arch_halt_forever_def)
    then show ?thesis unfolding Let_def if_not_P[OF False] .
  next
    case True
    with s0(1) obtain u where u: "namespace_programs bld 0 ?ps s0 = Ret (length ?ps) u" "length (namespace_bin_entries u) = 6"
      "\<And>j. j < length ?ps \<Longrightarrow> nodes u (ExecutableNode j) = program_node j
        \<and> namespace_executable_data u j = program_data bld (?ps ! j) \<and> namespace_bin_entries u ! j = program_entry j (?ps ! j)"
      using namespace_programs_spec[of 0 ?ps s0 bld] by auto
    let ?t = "u\<lparr>namespace_bin_entries := (namespace_bin_entries u)[length ?ps := end_entry], namespace_ready := True\<rparr>"
    have t: "vfs_namespace_initialize bld s = Ret () ?t" using s0(2) u(1) True by simp
    have "vfs_walk_path (Some (''/bin/'' @ program_name (?ps ! i))) ?t = ExecutableNode i"
      if "i < length ?ps" "good_name (program_name (?ps ! i))"
        "\<forall>j < i. c_string (program_name (?ps ! j)) \<noteq> c_string (program_name (?ps ! i))" for i
    proof -
      have "find_entry (namespace_bin_entries ?t) (c_string (program_name (?ps ! i))) = Some (program_entry i (?ps ! i))"
        by (rule find_program_entry) (use that u True in simp_all)
      then show ?thesis by (subst walk_bin) (use that in \<open>simp_all add: program_entry_def\<close>)
    qed
    moreover have "vfs_walk_path (Some ''/dev'') ?t = DevNode" "vfs_walk_path (Some ''/dev/console'') ?t = ConsoleOutputNode"
      "vfs_walk_path (Some ''/etc/banner'') ?t = BannerNode" "vfs_walk_path (Some ''/'') ?t = NullNode"
      by (simp_all add: vfs_walk_path_def at_end_c_string walk_from_resolve component_ok_def find_entry_def entries_of_def
        namespace_root_entries_def namespace_dev_entries_def namespace_etc_entries_def)
    ultimately show ?thesis unfolding Let_def if_P[OF True] using t u(3) by (intro exI[of _ ?t]) auto
  qed
qed

definition one_program :: build where
  "one_program = blank_build\<lparr>embedded_user_program_registry := [\<lparr>program_name = ''init'', program_image = 0x300000, program_size = 64\<rparr>]\<rparr>"

theorem namespace_reachable_witness:
  "\<exists>(t :: kernel_state). vfs_namespace_initialize one_program blank_kernel = Ret () t
     \<and> vfs_walk_path (Some ''/bin/init'') t = ExecutableNode 0
     \<and> namespace_executable_data t 0 = \<lparr>executable_image = 0x300000, executable_size = 64\<rparr>"
proof -
  have len: "length (namespace_bin_entries blank_kernel) = 6" by (simp add: blank_kernel_def)
  have "good_name ''init''" by (simp add: good_name_def component_ok_def)
  with namespace_reachable [OF len, of one_program] show ?thesis
    by (auto simp: one_program_def blank_build_def vfs_program_image_def program_data_def)
qed

end
