(* ===== verification/User.thy ===== *)
theory User
  imports Core
begin

text \<open>
  The programs of \<open>src/user\<close>: \<open>syscall.h\<close>, the variants of \<open>init.c\<close> the build selects with a macro, \<open>pulse.c\<close>,
  \<open>pulse2.c\<close> and \<open>echo.c\<close>. A program runs over the \<open>int $0x80\<close> instruction, \<open>trap\<close>, which takes the number and the
  arguments the wrapper loads into registers. \<open>Ret\<close> is its return to the program; \<open>Halt\<close> is a call after which the
  program is not resumed. Local arrays and the locals whose address is taken are at addresses the compiler chose, which
  are parameters; the program writes them through the page tables like the processor.
\<close>

type_synonym 'a trap = "u64 \<Rightarrow> u64 list \<Rightarrow> 'a machine_scheme \<Rightarrow> (u64, 'a machine_scheme) outcome"
type_synonym ('v, 'a) action = "'a machine_scheme \<Rightarrow> ('v, 'a machine_scheme) outcome"

definition SYS_OPEN_READ :: u64 where "SYS_OPEN_READ = 1"
definition SYS_OPEN_WRITE :: u64 where "SYS_OPEN_WRITE = 2"

section \<open>syscall.h\<close>

definition user_syscall0 :: "'a trap \<Rightarrow> u64 \<Rightarrow> (u64, 'a) action" where
  "user_syscall0 trap number s = trap number [] s"

definition user_syscall1 :: "'a trap \<Rightarrow> u64 \<Rightarrow> u64 \<Rightarrow> (u64, 'a) action" where
  "user_syscall1 trap number arg0 s = trap number [arg0] s"

definition user_syscall2 :: "'a trap \<Rightarrow> u64 \<Rightarrow> u64 \<Rightarrow> u64 \<Rightarrow> (u64, 'a) action" where
  "user_syscall2 trap number arg0 arg1 s = trap number [arg0, arg1] s"

definition user_syscall3 :: "'a trap \<Rightarrow> u64 \<Rightarrow> u64 \<Rightarrow> u64 \<Rightarrow> u64 \<Rightarrow> (u64, 'a) action" where
  "user_syscall3 trap number arg0 arg1 arg2 s = trap number [arg0, arg1, arg2] s"

definition user_sys_putc :: "'a trap \<Rightarrow> char \<Rightarrow> (unit, 'a) action" where
  "user_sys_putc trap ch s = chain (user_syscall1 trap SYS_PUTC (ucast (char_to_byte ch)) s) (\<lambda>_ s. Ret () s)"

definition user_sys_yield :: "'a trap \<Rightarrow> (unit, 'a) action" where
  "user_sys_yield trap s = chain (user_syscall0 trap SYS_YIELD s) (\<lambda>_ s. Ret () s)"

definition user_sys_get_ticks :: "'a trap \<Rightarrow> (u64, 'a) action" where
  "user_sys_get_ticks trap s = user_syscall0 trap SYS_GET_TICKS s"

definition user_sys_exit :: "'a trap \<Rightarrow> (unit, 'a) action" where
  "user_sys_exit trap s = chain (user_syscall0 trap SYS_EXIT s) (\<lambda>_ s. Ret () s)"

text \<open>An \<open>int\<close> is sign-extended to the argument register; the \<open>int64_t\<close> results keep the bits of \<open>rax\<close>.\<close>

definition user_sys_read :: "'a trap \<Rightarrow> i32 \<Rightarrow> addr \<Rightarrow> u64 \<Rightarrow> (u64, 'a) action" where
  "user_sys_read trap fd buffer count s = user_syscall3 trap SYS_READ (scast fd) buffer count s"

definition user_sys_write :: "'a trap \<Rightarrow> i32 \<Rightarrow> addr \<Rightarrow> u64 \<Rightarrow> (u64, 'a) action" where
  "user_sys_write trap fd buffer count s = user_syscall3 trap SYS_WRITE (scast fd) buffer count s"

definition user_sys_close :: "'a trap \<Rightarrow> i32 \<Rightarrow> (u64, 'a) action" where
  "user_sys_close trap fd s = user_syscall1 trap SYS_CLOSE (scast fd) s"

definition user_sys_dup :: "'a trap \<Rightarrow> i32 \<Rightarrow> (u64, 'a) action" where
  "user_sys_dup trap fd s = user_syscall1 trap SYS_DUP (scast fd) s"

definition user_sys_open :: "'a trap \<Rightarrow> addr \<Rightarrow> (u64, 'a) action" where
  "user_sys_open trap path s = user_syscall2 trap SYS_OPEN path SYS_OPEN_READ s"

definition user_sys_open_mode :: "'a trap \<Rightarrow> addr \<Rightarrow> u64 \<Rightarrow> (u64, 'a) action" where
  "user_sys_open_mode trap path flags s = user_syscall2 trap SYS_OPEN path flags s"

definition user_sys_exec :: "'a trap \<Rightarrow> addr \<Rightarrow> (u64, 'a) action" where
  "user_sys_exec trap path s = user_syscall1 trap SYS_EXEC path s"

section \<open>Statements the programs share\<close>

text \<open>\<open>array[0] = ...; array[1] = ...; ...\<close> with the characters of a text, and the same with a NUL behind it.\<close>

primrec store_chars :: "addr \<Rightarrow> string \<Rightarrow> (unit, 'a) action" where
  "store_chars a [] s = Ret () s"
| "store_chars a (c # cs) s = chain (store8 a (char_to_byte c) s) (\<lambda>_ s. store_chars (a + 1) cs s)"

definition store_string :: "addr \<Rightarrow> string \<Rightarrow> (unit, 'a) action" where
  "store_string a text s = store_chars a (text @ [CHR 0x00]) s"

text \<open>\<open>user_sys_putc('!'); user_sys_exit();\<close>, after which the code goes on if the call ever returned.\<close>

definition complain :: "'a trap \<Rightarrow> (unit, 'a) action" where
  "complain trap s = chain (user_sys_putc trap (CHR 0x21) s) (\<lambda>_ s. user_sys_exit trap s)"

definition complain_if :: "'a trap \<Rightarrow> bool \<Rightarrow> (unit, 'a) action" where
  "complain_if trap c s = (if c then complain trap s else Ret () s)"

text \<open>\<open>a || b\<close>: the second call is made only when the first condition is false.\<close>

definition or_else :: "(bool, 'a) action \<Rightarrow> (bool, 'a) action \<Rightarrow> (bool, 'a) action" where
  "or_else a b s = chain (a s) (\<lambda>c s. if c then Ret True s else b s)"

definition test :: "(u64, 'a) action \<Rightarrow> (u64 \<Rightarrow> bool) \<Rightarrow> (bool, 'a) action" where
  "test a p s = chain (a s) (\<lambda>r s. Ret (p r) s)"

definition negative :: "u64 \<Rightarrow> bool" where
  "negative r \<longleftrightarrow> sint r < 0"

text \<open>\<open>if (user_sys_write(1, ok, n) != n) complain; user_sys_exit();\<close>, the end of most programs.\<close>

definition report :: "'a trap \<Rightarrow> addr \<Rightarrow> u64 \<Rightarrow> (unit, 'a) action" where
  "report trap ok count s =
     chain (user_sys_write trap 1 ok count s) (\<lambda>r s.
     chain (complain_if trap (r \<noteq> count) s) (\<lambda>_ s. user_sys_exit trap s))"

text \<open>The endless loop that prints a letter every \<open>period\<close> ticks.\<close>

definition heartbeat_body :: "'a trap \<Rightarrow> u32 \<Rightarrow> char \<Rightarrow> u64 \<times> u32 \<Rightarrow> 'a machine_scheme \<Rightarrow> (u64 \<times> u32, 'a machine_scheme) outcome" where
  "heartbeat_body trap period letter = (\<lambda>(previous, budget) s.
     chain (user_sys_get_ticks trap s) (\<lambda>ticks s.
       if ticks = previous then Ret (previous, budget) s
       else
         let previous = ticks;
             budget = budget - 1
         in if budget = 0 then
              chain (user_sys_putc trap letter s) (\<lambda>_ s. chain (user_sys_yield trap s) (\<lambda>_ s. Ret (previous, period) s))
            else chain (user_sys_yield trap s) (\<lambda>_ s. Ret (previous, budget) s)))"

definition heartbeat :: "'a trap \<Rightarrow> char \<Rightarrow> u32 \<Rightarrow> char \<Rightarrow> (unit, 'a) action" where
  "heartbeat trap hello period letter s =
     chain (user_sys_putc trap hello s) (\<lambda>_ s.
     chain (user_sys_get_ticks trap s) (\<lambda>previous s.
     chain (c_while (\<lambda>_ _. True) (heartbeat_body trap period letter) (previous, period) s) (\<lambda>_ s. Ret () s)))"

section \<open>init.c: descriptors\<close>

text \<open>One turn of the two loops of \<open>USER_TEST_DUP_FULL\<close>.\<close>

definition dup_full_open :: "'a trap \<Rightarrow> nat \<times> u64 list \<Rightarrow> 'a machine_scheme \<Rightarrow> (nat \<times> u64 list, 'a machine_scheme) outcome" where
  "dup_full_open trap = (\<lambda>(index, duplicates) s.
     chain (user_sys_dup trap 1 s) (\<lambda>fd s.
     chain (complain_if trap (negative fd) s) (\<lambda>_ s. Ret (index + 1, duplicates[index := fd]) s)))"

definition dup_full_close :: "'a trap \<Rightarrow> u64 list \<Rightarrow> nat \<Rightarrow> 'a machine_scheme \<Rightarrow> (nat, 'a machine_scheme) outcome" where
  "dup_full_close trap duplicates index s =
     chain (user_sys_close trap (ucast (duplicates ! index)) s) (\<lambda>r s.
     chain (complain_if trap (r \<noteq> 0) s) (\<lambda>_ s. Ret (index + 1) s))"

definition user_init_dup_full :: "'a trap \<Rightarrow> addr \<Rightarrow> (unit, 'a) action" where
  "user_init_dup_full trap ok s =
     chain (c_while (\<lambda>(index, _) s. index < 13) (dup_full_open trap) (0, replicate 16 (- 1)) s) (\<lambda>(_, duplicates) s.
     chain (user_sys_dup trap 1 s) (\<lambda>r s.
     chain (complain_if trap (r \<noteq> - 1) s) (\<lambda>_ s.
     chain (c_while (\<lambda>index s. index < 13) (dup_full_close trap duplicates) 0 s) (\<lambda>_ s.
     chain (store_chars ok (''dupfull ok'' @ [CHR 0x0A]) s) (\<lambda>_ s. report trap ok 11 s)))))"

definition user_init_fd_invalid :: "'a trap \<Rightarrow> addr \<Rightarrow> (unit, 'a) action" where
  "user_init_fd_invalid trap ok s =
     chain (or_else (test (user_sys_close trap (- 1)) (\<lambda>r. r \<noteq> - 1))
           (or_else (test (user_sys_close trap 99) (\<lambda>r. r \<noteq> - 1))
           (or_else (test (user_sys_dup trap (- 1)) (\<lambda>r. r \<noteq> - 1))
                    (test (user_sys_dup trap 99) (\<lambda>r. r \<noteq> - 1)))) s) (\<lambda>bad s.
     chain (complain_if trap bad s) (\<lambda>_ s.
     chain (store_chars ok (''fdinvalid ok'' @ [CHR 0x0A]) s) (\<lambda>_ s. report trap ok 13 s)))"

definition user_init_rw_invalid :: "'a trap \<Rightarrow> addr \<Rightarrow> addr \<Rightarrow> (unit, 'a) action" where
  "user_init_rw_invalid trap value ok s =
     chain (store_chars value ''R'' s) (\<lambda>_ s.
     chain (or_else (test (user_sys_read trap (- 1) value 1) (\<lambda>r. r \<noteq> - 1))
           (or_else (test (user_sys_read trap 99 value 1) (\<lambda>r. r \<noteq> - 1))
           (or_else (test (user_sys_write trap (- 1) value 1) (\<lambda>r. r \<noteq> - 1))
                    (test (user_sys_write trap 99 value 1) (\<lambda>r. r \<noteq> - 1)))) s) (\<lambda>bad s.
     chain (complain_if trap bad s) (\<lambda>_ s.
     chain (store_chars ok (''rwinvalid ok'' @ [CHR 0x0A]) s) (\<lambda>_ s. report trap ok 13 s))))"

text \<open>\<open>fd < 0 || user_sys_close((int)fd) != 0\<close> makes no call when the open failed.\<close>

definition user_init_fd_closed :: "'a trap \<Rightarrow> addr \<Rightarrow> addr \<Rightarrow> addr \<Rightarrow> (unit, 'a) action" where
  "user_init_fd_closed trap banner value ok s =
     chain (store_string banner ''/etc/banner'' s) (\<lambda>_ s.
     chain (user_sys_open trap banner s) (\<lambda>fd s.
     chain (or_else (\<lambda>s. Ret (negative fd) s) (test (user_sys_close trap (ucast fd)) (\<lambda>r. r \<noteq> 0)) s) (\<lambda>bad s.
     chain (complain_if trap bad s) (\<lambda>_ s.
     chain (store_chars value ''C'' s) (\<lambda>_ s.
     chain (or_else (test (user_sys_read trap (ucast fd) value 1) (\<lambda>r. r \<noteq> - 1))
           (or_else (test (user_sys_write trap (ucast fd) value 1) (\<lambda>r. r \<noteq> - 1))
           (or_else (test (user_sys_dup trap (ucast fd)) (\<lambda>r. r \<noteq> - 1))
                    (test (user_sys_close trap (ucast fd)) (\<lambda>r. r \<noteq> - 1)))) s) (\<lambda>bad s.
     chain (complain_if trap bad s) (\<lambda>_ s.
     chain (store_chars ok (''fdclosed ok'' @ [CHR 0x0A]) s) (\<lambda>_ s. report trap ok 12 s))))))))"

definition user_init_bad_pointers :: "'a trap \<Rightarrow> addr \<Rightarrow> (unit, 'a) action" where
  "user_init_bad_pointers trap ok s =
     chain (or_else (test (user_sys_read trap 0 0 1) (\<lambda>r. r \<noteq> - 1))
           (or_else (test (user_sys_write trap 1 0 1) (\<lambda>r. r \<noteq> - 1))
           (or_else (test (user_sys_read trap 0 0x50000000 1) (\<lambda>r. r \<noteq> - 1))
           (or_else (test (user_sys_write trap 1 0x401FFFFF 2) (\<lambda>r. r \<noteq> - 1))
           (or_else (test (user_sys_open trap 0x50000000) (\<lambda>r. r \<noteq> - 1))
                    (test (user_sys_exec trap 0x50000000) (\<lambda>r. r \<noteq> - 1)))))) s) (\<lambda>bad s.
     chain (complain_if trap bad s) (\<lambda>_ s.
     chain (store_chars ok (''ptr ok'' @ [CHR 0x0A]) s) (\<lambda>_ s. report trap ok 7 s)))"

definition user_init_fd_write :: "'a trap \<Rightarrow> addr \<Rightarrow> addr \<Rightarrow> (unit, 'a) action" where
  "user_init_fd_write trap out1 out2 s =
     chain (store_chars out1 ''F'' s) (\<lambda>_ s.
     chain (store_chars out2 ''D'' s) (\<lambda>_ s.
     chain (user_sys_write trap 1 out1 1 s) (\<lambda>r s.
     chain (complain_if trap (r \<noteq> 1) s) (\<lambda>_ s.
     chain (user_sys_dup trap 1 s) (\<lambda>dup_fd s.
     chain (complain_if trap (negative dup_fd) s) (\<lambda>_ s.
     chain (or_else (test (user_sys_write trap (ucast dup_fd) out2 1) (\<lambda>r. r \<noteq> 1))
                    (test (user_sys_close trap (ucast dup_fd)) (\<lambda>r. r \<noteq> 0)) s) (\<lambda>bad s.
     chain (complain_if trap bad s) (\<lambda>_ s. user_sys_exit trap s))))))))"

definition char_differs :: "addr \<Rightarrow> char \<Rightarrow> (bool, 'a) action" where
  "char_differs a c s = chain (load8 a s) (\<lambda>b s. Ret (byte_to_char b \<noteq> c) s)"

definition user_init_fd_read :: "'a trap \<Rightarrow> addr \<Rightarrow> (unit, 'a) action" where
  "user_init_fd_read trap ch s =
     chain (store_chars ch [CHR 0x00] s) (\<lambda>_ s.
     chain (or_else (test (user_sys_read trap 0 ch 1) (\<lambda>r. r \<noteq> 1))
           (or_else (char_differs ch (CHR 0x40))
                    (test (user_sys_write trap 1 ch 1) (\<lambda>r. r \<noteq> 1))) s) (\<lambda>bad s.
     chain (complain_if trap bad s) (\<lambda>_ s. user_sys_exit trap s)))"

definition user_init_open :: "'a trap \<Rightarrow> addr \<Rightarrow> addr \<Rightarrow> addr \<Rightarrow> (unit, 'a) action" where
  "user_init_open trap ch path ok s =
     chain (store_string path ''/etc/banner'' s) (\<lambda>_ s.
     chain (user_sys_open trap path s) (\<lambda>fd s.
     chain (store_chars ok ''O'' s) (\<lambda>_ s.
     chain (store_chars ch [CHR 0x00] s) (\<lambda>_ s.
     chain (or_else (\<lambda>s. Ret (negative fd) s)
           (or_else (test (user_sys_read trap (ucast fd) ch 1) (\<lambda>r. r \<noteq> 1))
           (or_else (char_differs ch (CHR ''p''))
                    (test (user_sys_close trap (ucast fd)) (\<lambda>r. r \<noteq> 0)))) s) (\<lambda>bad s.
     chain (complain_if trap bad s) (\<lambda>_ s.
     chain (or_else (test (user_sys_write trap 1 ok 1) (\<lambda>r. r \<noteq> 1)) (test (user_sys_write trap 1 ch 1) (\<lambda>r. r \<noteq> 1)) s) (\<lambda>bad s.
     chain (complain_if trap bad s) (\<lambda>_ s. user_sys_exit trap s))))))))"

definition user_init_open_flags :: "'a trap \<Rightarrow> addr \<Rightarrow> addr \<Rightarrow> addr \<Rightarrow> addr \<Rightarrow> addr \<Rightarrow> (unit, 'a) action" where
  "user_init_open_flags trap banner console devdir ch ok s =
     chain (store_string banner ''/etc/banner'' s) (\<lambda>_ s.
     chain (store_string console ''/dev/console'' s) (\<lambda>_ s.
     chain (store_string devdir ''/dev'' s) (\<lambda>_ s.
     chain (or_else (test (user_sys_open_mode trap banner SYS_OPEN_WRITE) (\<lambda>r. r \<noteq> - 1))
           (or_else (test (user_sys_open_mode trap console SYS_OPEN_READ) (\<lambda>r. r \<noteq> - 1))
           (or_else (test (user_sys_open_mode trap devdir SYS_OPEN_READ) (\<lambda>r. r \<noteq> - 1))
                    (test (user_sys_open_mode trap banner (SYS_OPEN_READ OR SYS_OPEN_WRITE)) (\<lambda>r. r \<noteq> - 1)))) s) (\<lambda>bad s.
     chain (complain_if trap bad s) (\<lambda>_ s.
     chain (user_sys_open_mode trap banner SYS_OPEN_READ s) (\<lambda>fd s.
     chain (store_chars ch [CHR 0x00] s) (\<lambda>_ s.
     chain (store_chars ok ''A'' s) (\<lambda>_ s.
     chain (or_else (\<lambda>s. Ret (negative fd) s)
           (or_else (test (user_sys_read trap (ucast fd) ch 1) (\<lambda>r. r \<noteq> 1))
           (or_else (char_differs ch (CHR ''p''))
                    (test (user_sys_close trap (ucast fd)) (\<lambda>r. r \<noteq> 0)))) s) (\<lambda>bad s.
     chain (complain_if trap bad s) (\<lambda>_ s.
     chain (user_sys_write trap 1 ok 1 s) (\<lambda>r s.
     chain (complain_if trap (r \<noteq> 1) s) (\<lambda>_ s. user_sys_exit trap s))))))))))))"

definition user_init_open_invalid :: "'a trap \<Rightarrow> addr \<Rightarrow> addr \<Rightarrow> (unit, 'a) action" where
  "user_init_open_invalid trap banner ok s =
     chain (store_string banner ''/etc/banner'' s) (\<lambda>_ s.
     chain (or_else (test (user_sys_open_mode trap banner 0) (\<lambda>r. r \<noteq> - 1))
                    (test (user_sys_open_mode trap banner 0x80000000) (\<lambda>r. r \<noteq> - 1)) s) (\<lambda>bad s.
     chain (complain_if trap bad s) (\<lambda>_ s.
     chain (store_chars ok (''openinvalid ok'' @ [CHR 0x0A]) s) (\<lambda>_ s. report trap ok 15 s))))"

section \<open>init.c: exec\<close>

text \<open>\<open>if (user_sys_exec(path) != -1) complain;\<close> and the programs that want it to succeed.\<close>

definition exec_must_fail :: "'a trap \<Rightarrow> addr \<Rightarrow> (unit, 'a) action" where
  "exec_must_fail trap path s = chain (user_sys_exec trap path s) (\<lambda>r s. complain_if trap (r \<noteq> - 1) s)"

definition exec_must_work :: "'a trap \<Rightarrow> addr \<Rightarrow> (unit, 'a) action" where
  "exec_must_work trap path s =
     chain (user_sys_exec trap path s) (\<lambda>r s. chain (complain_if trap (r = - 1) s) (\<lambda>_ s. complain trap s))"

definition user_init_exec_loop :: "'a trap \<Rightarrow> addr \<Rightarrow> (unit, 'a) action" where
  "user_init_exec_loop trap path s =
     chain (store_string path ''/bin/pulse'' s) (\<lambda>_ s. exec_must_work trap path s)"

definition user_init_exec_bad_loop :: "'a trap \<Rightarrow> addr \<Rightarrow> addr \<Rightarrow> (unit, 'a) action" where
  "user_init_exec_bad_loop trap path ok s =
     chain (store_string path ''/bin/pulse'' s) (\<lambda>_ s.
     chain (user_sys_get_ticks trap s) (\<lambda>ticks s.
     chain (c_while (\<lambda>ticks s. ticks < 4) (\<lambda>_ s. chain (exec_must_fail trap path s) (\<lambda>_ s. user_sys_get_ticks trap s)) ticks s) (\<lambda>_ s.
     chain (store_string ok (''execbad ok'' @ [CHR 0x0A]) s) (\<lambda>_ s. report trap ok 11 s))))"

definition user_init_exec_transfer_fail :: "'a trap \<Rightarrow> addr \<Rightarrow> addr \<Rightarrow> (unit, 'a) action" where
  "user_init_exec_transfer_fail trap path ok s =
     chain (store_string path ''/bin/pulse'' s) (\<lambda>_ s.
     chain (exec_must_fail trap path s) (\<lambda>_ s.
     chain (store_string ok (''execxfer ok'' @ [CHR 0x0A]) s) (\<lambda>_ s. report trap ok 12 s)))"

definition user_init_exec_registry :: "'a trap \<Rightarrow> addr \<Rightarrow> addr \<Rightarrow> (unit, 'a) action" where
  "user_init_exec_registry trap pulse missing s =
     chain (store_string missing ''/bin/missing'' s) (\<lambda>_ s.
     chain (store_string pulse ''/bin/pulse'' s) (\<lambda>_ s.
     chain (exec_must_fail trap missing s) (\<lambda>_ s. exec_must_work trap pulse s)))"

definition user_init_exec_paths :: "'a trap \<Rightarrow> addr \<Rightarrow> addr \<Rightarrow> addr \<Rightarrow> (unit, 'a) action" where
  "user_init_exec_paths trap trailing doubled ok s =
     chain (store_string trailing ''/bin/pulse/'' s) (\<lambda>_ s.
     chain (store_string doubled ''/bin//pulse'' s) (\<lambda>_ s.
     chain (or_else (test (user_sys_exec trap trailing) (\<lambda>r. r \<noteq> - 1)) (test (user_sys_exec trap doubled) (\<lambda>r. r \<noteq> - 1)) s) (\<lambda>bad s.
     chain (complain_if trap bad s) (\<lambda>_ s.
     chain (store_string ok (''execpath ok'' @ [CHR 0x0A]) s) (\<lambda>_ s. report trap ok 12 s)))))"

definition user_init_exec_dir_root :: "'a trap \<Rightarrow> addr \<Rightarrow> addr \<Rightarrow> (unit, 'a) action" where
  "user_init_exec_dir_root trap root ok s =
     chain (store_string root ''/'' s) (\<lambda>_ s.
     chain (exec_must_fail trap root s) (\<lambda>_ s.
     chain (store_string ok (''execroot ok'' @ [CHR 0x0A]) s) (\<lambda>_ s. report trap ok 12 s)))"

definition user_init_exec_noent :: "'a trap \<Rightarrow> addr \<Rightarrow> addr \<Rightarrow> (unit, 'a) action" where
  "user_init_exec_noent trap path ok s =
     chain (store_string path ''/bin/nope'' s) (\<lambda>_ s.
     chain (exec_must_fail trap path s) (\<lambda>_ s.
     chain (store_string ok (''execnoent ok'' @ [CHR 0x0A]) s) (\<lambda>_ s. report trap ok 13 s)))"

definition user_init_exec_nonexec :: "'a trap \<Rightarrow> addr \<Rightarrow> addr \<Rightarrow> (unit, 'a) action" where
  "user_init_exec_nonexec trap path ok s =
     chain (store_string path ''/etc/banner'' s) (\<lambda>_ s.
     chain (exec_must_fail trap path s) (\<lambda>_ s.
     chain (store_string ok (''execnonexec ok'' @ [CHR 0x0A]) s) (\<lambda>_ s. report trap ok 15 s)))"

definition user_init_exec_bad_elf2 :: "'a trap \<Rightarrow> addr \<Rightarrow> addr \<Rightarrow> (unit, 'a) action" where
  "user_init_exec_bad_elf2 trap path ok s =
     chain (store_string path ''/bin/badelf2'' s) (\<lambda>_ s.
     chain (exec_must_fail trap path s) (\<lambda>_ s.
     chain (store_string ok (''execbadelf2 ok'' @ [CHR 0x0A]) s) (\<lambda>_ s. report trap ok 15 s)))"

definition user_init_exec_bad_paths :: "'a trap \<Rightarrow> addr \<Rightarrow> addr \<Rightarrow> addr \<Rightarrow> addr \<Rightarrow> addr \<Rightarrow> addr \<Rightarrow> (unit, 'a) action" where
  "user_init_exec_bad_paths trap relative nothing doubleslash tripleslash trailing ok s =
     chain (store_string relative ''bin/pulse'' s) (\<lambda>_ s.
     chain (store_string nothing [] s) (\<lambda>_ s.
     chain (store_string doubleslash ''//'' s) (\<lambda>_ s.
     chain (store_string tripleslash ''///'' s) (\<lambda>_ s.
     chain (store_string trailing ''/bin/'' s) (\<lambda>_ s.
     chain (or_else (test (user_sys_exec trap relative) (\<lambda>r. r \<noteq> - 1))
           (or_else (test (user_sys_exec trap nothing) (\<lambda>r. r \<noteq> - 1))
           (or_else (test (user_sys_exec trap doubleslash) (\<lambda>r. r \<noteq> - 1))
           (or_else (test (user_sys_exec trap tripleslash) (\<lambda>r. r \<noteq> - 1))
                    (test (user_sys_exec trap trailing) (\<lambda>r. r \<noteq> - 1))))) s) (\<lambda>bad s.
     chain (complain_if trap bad s) (\<lambda>_ s.
     chain (store_string ok (''execbadpaths ok'' @ [CHR 0x0A]) s) (\<lambda>_ s. report trap ok 16 s))))))))"

definition user_init_exec_second :: "'a trap \<Rightarrow> addr \<Rightarrow> (unit, 'a) action" where
  "user_init_exec_second trap path s =
     chain (store_string path ''/bin/pulse2'' s) (\<lambda>_ s.
     chain (user_sys_exec trap path s) (\<lambda>r s.
     chain (complain_if trap (r = - 1) s) (\<lambda>_ s. user_sys_exit trap s)))"

definition user_init_exec :: "'a trap \<Rightarrow> addr \<Rightarrow> addr \<Rightarrow> (unit, 'a) action" where
  "user_init_exec trap path bad s =
     chain (store_string bad ''/etc/banner'' s) (\<lambda>_ s.
     chain (store_string path ''/bin/pulse'' s) (\<lambda>_ s.
     chain (exec_must_fail trap bad s) (\<lambda>_ s. exec_must_work trap path s)))"

section \<open>init.c: the other variants\<close>

definition user_init_bad_syscall :: "'a trap \<Rightarrow> (unit, 'a) action" where
  "user_init_bad_syscall trap s =
     chain (user_syscall1 trap 0xFFFF 0 s) (\<lambda>result s.
     chain (if result = - 1 then user_sys_putc trap (CHR ''V'') s else user_sys_putc trap (CHR ''X'') s) (\<lambda>_ s.
     user_sys_exit trap s))"

definition yield_stress_body :: "'a trap \<Rightarrow> u32 \<Rightarrow> 'a machine_scheme \<Rightarrow> (u32, 'a machine_scheme) outcome" where
  "yield_stress_body trap budget s =
     chain (user_sys_yield trap s) (\<lambda>_ s.
       let budget = budget - 1
       in if budget = 0 then chain (user_sys_putc trap (CHR ''y'') s) (\<lambda>_ s. Ret 128 s) else Ret budget s)"

definition user_init_yield_stress :: "'a trap \<Rightarrow> (unit, 'a) action" where
  "user_init_yield_stress trap s =
     chain (user_sys_putc trap (CHR ''Y'') s) (\<lambda>_ s.
     chain (c_while (\<lambda>_ _. True) (yield_stress_body trap) 128 s) (\<lambda>_ s. Ret () s))"

definition user_init_heartbeat :: "'a trap \<Rightarrow> (unit, 'a) action" where
  "user_init_heartbeat trap s = heartbeat trap (CHR ''U'') 16 (CHR ''u'') s"

section \<open>pulse.c, pulse2.c, echo.c\<close>

definition pulse_exec_loop :: "'a trap \<Rightarrow> addr \<Rightarrow> addr \<Rightarrow> (unit, 'a) action" where
  "pulse_exec_loop trap path ok s =
     chain (user_sys_get_ticks trap s) (\<lambda>ticks s.
     chain (if ticks < 4 then chain (store_string path ''/bin/pulse'' s) (\<lambda>_ s. exec_must_work trap path s) else Ret () s) (\<lambda>_ s.
     chain (store_chars ok (''execloop ok'' @ [CHR 0x0A]) s) (\<lambda>_ s. report trap ok 12 s)))"

definition pulse_exec_registry :: "'a trap \<Rightarrow> addr \<Rightarrow> (unit, 'a) action" where
  "pulse_exec_registry trap path s =
     chain (store_string path ''/bin/echo'' s) (\<lambda>_ s. exec_must_work trap path s)"

definition pulse_heartbeat :: "'a trap \<Rightarrow> (unit, 'a) action" where
  "pulse_heartbeat trap s = heartbeat trap (CHR ''P'') 8 (CHR ''p'') s"

definition pulse2_exec_second :: "'a trap \<Rightarrow> addr \<Rightarrow> (unit, 'a) action" where
  "pulse2_exec_second trap ok s =
     chain (store_chars ok (''pulse2 ok'' @ [CHR 0x0A]) s) (\<lambda>_ s. report trap ok 10 s)"

definition pulse2_heartbeat :: "'a trap \<Rightarrow> (unit, 'a) action" where
  "pulse2_heartbeat trap s = heartbeat trap (CHR ''2'') 8 (CHR ''2'') s"

definition echo_exec_registry :: "'a trap \<Rightarrow> addr \<Rightarrow> (unit, 'a) action" where
  "echo_exec_registry trap ok s =
     chain (store_chars ok (''execreg ok'' @ [CHR 0x0A]) s) (\<lambda>_ s. report trap ok 11 s)"

definition echo_heartbeat :: "'a trap \<Rightarrow> (unit, 'a) action" where
  "echo_heartbeat trap s = heartbeat trap (CHR ''E'') 8 (CHR ''e'') s"

section \<open>user_init_main\<close>

text \<open>The macro the build defines, and where the compiler put the locals of the chosen variant.\<close>

datatype init_variant = TEST_DUP_FULL | TEST_FD_INVALID | TEST_RW_INVALID | TEST_FD_CLOSED | TEST_BAD_POINTERS
  | TEST_EXEC_LOOP | TEST_EXEC_BAD_LOOP | TEST_EXEC_TRANSFER_FAIL | TEST_EXEC_REGISTRY | TEST_EXEC_PATHS
  | TEST_EXEC_DIR_ROOT | TEST_EXEC_NOENT | TEST_EXEC_NONEXEC | TEST_EXEC_BAD_ELF2 | TEST_EXEC_BAD_PATHS
  | TEST_EXEC_SECOND | TEST_FD_WRITE | TEST_FD_READ | TEST_OPEN | TEST_OPEN_FLAGS | TEST_OPEN_INVALID | TEST_EXEC
  | TEST_BAD_SYSCALL | TEST_YIELD_STRESS | NO_TEST

definition user_init_main_of :: "init_variant \<Rightarrow> (string \<Rightarrow> addr) \<Rightarrow> 'a trap \<Rightarrow> (unit, 'a) action" where
  "user_init_main_of variant at trap s = (case variant of
     TEST_DUP_FULL \<Rightarrow> user_init_dup_full trap (at ''ok'') s
   | TEST_FD_INVALID \<Rightarrow> user_init_fd_invalid trap (at ''ok'') s
   | TEST_RW_INVALID \<Rightarrow> user_init_rw_invalid trap (at ''value'') (at ''ok'') s
   | TEST_FD_CLOSED \<Rightarrow> user_init_fd_closed trap (at ''banner'') (at ''value'') (at ''ok'') s
   | TEST_BAD_POINTERS \<Rightarrow> user_init_bad_pointers trap (at ''ok'') s
   | TEST_EXEC_LOOP \<Rightarrow> user_init_exec_loop trap (at ''path'') s
   | TEST_EXEC_BAD_LOOP \<Rightarrow> user_init_exec_bad_loop trap (at ''path'') (at ''ok'') s
   | TEST_EXEC_TRANSFER_FAIL \<Rightarrow> user_init_exec_transfer_fail trap (at ''path'') (at ''ok'') s
   | TEST_EXEC_REGISTRY \<Rightarrow> user_init_exec_registry trap (at ''pulse'') (at ''missing'') s
   | TEST_EXEC_PATHS \<Rightarrow> user_init_exec_paths trap (at ''trailing'') (at ''doubled'') (at ''ok'') s
   | TEST_EXEC_DIR_ROOT \<Rightarrow> user_init_exec_dir_root trap (at ''root'') (at ''ok'') s
   | TEST_EXEC_NOENT \<Rightarrow> user_init_exec_noent trap (at ''path'') (at ''ok'') s
   | TEST_EXEC_NONEXEC \<Rightarrow> user_init_exec_nonexec trap (at ''path'') (at ''ok'') s
   | TEST_EXEC_BAD_ELF2 \<Rightarrow> user_init_exec_bad_elf2 trap (at ''path'') (at ''ok'') s
   | TEST_EXEC_BAD_PATHS \<Rightarrow> user_init_exec_bad_paths trap (at ''relative'') (at ''empty'') (at ''doubleslash'')
       (at ''tripleslash'') (at ''trailing'') (at ''ok'') s
   | TEST_EXEC_SECOND \<Rightarrow> user_init_exec_second trap (at ''path'') s
   | TEST_FD_WRITE \<Rightarrow> user_init_fd_write trap (at ''out1'') (at ''out2'') s
   | TEST_FD_READ \<Rightarrow> user_init_fd_read trap (at ''ch'') s
   | TEST_OPEN \<Rightarrow> user_init_open trap (at ''ch'') (at ''path'') (at ''ok'') s
   | TEST_OPEN_FLAGS \<Rightarrow> user_init_open_flags trap (at ''banner'') (at ''console'') (at ''devdir'') (at ''ch'') (at ''ok'') s
   | TEST_OPEN_INVALID \<Rightarrow> user_init_open_invalid trap (at ''banner'') (at ''ok'') s
   | TEST_EXEC \<Rightarrow> user_init_exec trap (at ''path'') (at ''bad'') s
   | TEST_BAD_SYSCALL \<Rightarrow> user_init_bad_syscall trap s
   | TEST_YIELD_STRESS \<Rightarrow> user_init_yield_stress trap s
   | NO_TEST \<Rightarrow> user_init_heartbeat trap s)"

end
