(* ===== verification/SyscallSpec.thy ===== *)
theory SyscallSpec
  imports NameSpec User
begin

text \<open>
  What the system calls of \<open>src/kernel/core.c\<close> do with the pointers of a user task: which buffers and which paths they
  accept, that an accepted one is read without a page fault, and that a refused call leaves nothing behind but its
  result.
\<close>

section \<open>Memory outside the page tables\<close>

text \<open>The bytes the page tables of \<open>ow\<close> and the free list of \<open>ps\<close> are made of.\<close>

definition covered :: "owners \<Rightarrow> addr list \<Rightarrow> addr set" where
  "covered ow ps = {x. x AND NOT 4095 \<in> dom ow \<union> set ps}"

lemma load64_page_cong:
  assumes "page_aligned p" "i < 512" "\<And>x. x AND NOT 4095 = p \<Longrightarrow> mem t x = mem s x"
  shows "load64 t (p + 8 * i) = load64 s (p + 8 * i)"
proof -
  have "mem t (p + 8 * i + of_nat k) = mem s (p + 8 * i + of_nat k)" if "k < 8" for k
  proof -
    have n: "8 * unat i + k < 4096" using that assms(2) by (simp add: word_less_nat_alt)
    have "p + 8 * i + of_nat k = p + of_nat (8 * unat i + k)" by simp
    then show ?thesis using same_page_offset(1)[OF assms(1) n] assms(3) by metis
  qed
  then show ?thesis unfolding load64_def rd64_def by (intro rd_le_cong) simp
qed

lemma entry_outside:
  assumes "\<forall>x \<in> covered ow ps. mem t x = mem s x" "p \<in> dom ow \<union> set ps" "page_aligned p" "i < 512"
  shows "entry_at t p i = entry_at s p i"
  unfolding entry_at_def by (rule load64_page_cong[OF assms(3,4)]) (use assms(1,2) in \<open>auto simp: covered_def\<close>)

lemma table_inv_outside:
  assumes inv: "table_inv s K ow ps" and m: "\<forall>x \<in> covered ow ps. mem t x = mem s x"
    and f: "free_list_head t = free_list_head s" "free_page_count t = free_page_count s"
  shows "table_inv t K ow ps"
proof -
  note i = inv[unfolded table_inv_def]
  have e: "entry_at t p j = entry_at s p j" if "ow p = Some (r, q)" "j < 512" for p r q j
    by (rule entry_outside[OF m]) (use that ownedD[OF table_invD(3)[OF inv] that(1)] in auto)
  have rd: "rd64 (mem t) p = rd64 (mem s) p" if "p \<in> set ps" for p
    using entry_outside[OF m, of p 0] that palloc_inv_page[of s ps p] i by (simp add: entry_at_def load64_def)
  have "palloc_inv t ps"
    using i rd f by (auto simp: palloc_inv_def intro!: chain_list_cong[of "mem s"])
  moreover have "child_ok t K ow" using i e unfolding child_ok_def by metis
  moreover have "parent_ok t ow" using i e unfolding parent_ok_def by metis
  moreover have "rights_ok t ow" by (rule rights_ok_cong[OF table_invD(7,4)[OF inv] e])
  ultimately show ?thesis using i by (simp add: table_inv_def)
qed

lemma leaf_outside:
  assumes inv: "table_inv s K ow ps" and m: "\<forall>x \<in> covered ow []. mem t x = mem s x"
  shows "ow x = Some (r, q) \<Longrightarrow> length q + length is \<le> 4 \<Longrightarrow> \<forall>j \<in> set is. j < 512 \<Longrightarrow> leaf t x is = leaf s x is"
proof (induction "is" arbitrary: x r q rule: induct_list012)
  case (2 j)
  have "page_aligned x" using ownedD[OF table_invD(3)[OF inv] 2(1)] by simp
  moreover have "x \<in> dom ow \<union> set []" using 2(1) by auto
  moreover have "j < 512" using 2(3) by simp
  ultimately have "entry_at t x j = entry_at s x j" using entry_outside[OF m] by blast
  then show ?case by simp
next
  case (3 j k js)
  have pg: "page_aligned x" using ownedD[OF table_invD(3)[OF inv] 3(3)] by simp
  have "x \<in> dom ow \<union> set []" using 3(3) by auto
  moreover have j: "j < 512" using 3(5) by simp
  ultimately have e: "entry_at t x j = entry_at s x j" using entry_outside[OF m] pg by blast
  show ?case
  proof (cases "is_present (entry_at s x j)")
    case True
    from child_okD[OF table_invD(4)[OF inv] 3(3) _ _ True] 3(4,5) obtain r' where "ow (entry_address (entry_at s x j)) = Some (r', q @ [j])" by auto
    from 3(2)[OF this] 3(4,5) show ?thesis using e True by simp
  next
    case False
    then show ?thesis using e by simp
  qed
qed simp

lemma translate_tables:
  assumes "table_inv s K ow ps" "\<forall>x \<in> covered ow []. mem t x = mem s x" "ow r = Some (r, [])"
  shows "translate t r v = translate s r v"
  using leaf_outside[OF assms(1,2,3), of "indices v"] by (simp add: translate_def indices_def)

lemma translate_outside:
  assumes "table_inv s K ow ps" "\<forall>x \<in> covered ow ps. mem t x = mem s x" "ow r = Some (r, [])"
  shows "translate t r v = translate s r v"
  by (rule translate_tables[OF assms(1) _ assms(3)]) (use assms(2) in \<open>simp add: covered_def\<close>)

text \<open>Pages that leave the free list take nothing from the tables.\<close>

lemma table_inv_pages:
  assumes inv: "table_inv s K ow ps" and m: "\<forall>x \<in> covered ow []. mem t x = mem s x"
    and p: "palloc_inv t ps'" "\<forall>q \<in> set ps'. pointer_ok q \<and> q \<notin> dom ow"
  shows "table_inv t K ow ps'"
proof -
  note i = inv[unfolded table_inv_def]
  have e: "entry_at t u j = entry_at s u j" if "ow u = Some (r, q)" "j < 512" for u r q j
    by (rule entry_outside[OF m]) (use that ownedD[OF table_invD(3)[OF inv] that(1)] in auto)
  have "child_ok t K ow" using i e unfolding child_ok_def by metis
  moreover have "parent_ok t ow" using i e unfolding parent_ok_def by metis
  moreover have "rights_ok t ow" by (rule rights_ok_cong[OF table_invD(7,4)[OF inv] e])
  moreover have "owned ow ps'" using i p(2) unfolding owned_def by blast
  ultimately show ?thesis using i p by (auto simp: table_inv_def)
qed

lemma table_inv_shrink:
  assumes inv: "table_inv s K ow ps" and m: "\<forall>x \<in> covered ow []. mem t x = mem s x"
    and p: "palloc_inv t ps'" "set ps' \<subseteq> set ps"
  shows "table_inv t K ow ps'"
proof (rule table_inv_pages[OF inv m p(1)])
  have "q \<notin> dom ow" if "q \<in> set ps'" for q
    using ownedD[OF table_invD(3)[OF inv], of q] that p(2) by auto
  then show "\<forall>q \<in> set ps'. pointer_ok q \<and> q \<notin> dom ow" using table_invD(2)[OF inv] p(2) by blast
qed

section \<open>Buffers\<close>

lemma range_in_layout_iff:
  "syscall_user_range_in_layout (Some l) a n \<longleftrightarrow> trampoline_base l \<le> a \<and> unat a + unat n \<le> unat (stack_top l) \<and> a < stack_top l"
proof (cases "n = 0")
  case True
  then show ?thesis by (auto simp: syscall_user_range_in_layout_def word_less_nat_alt word_le_nat_alt)
next
  case False
  then have n: "unat (n - 1) = unat n - 1" "0 < unat n" by (simp_all add: unat_minus_one unat_gt_0)
  define e where "e = a + (n - 1)"
  have m: "unat e = (unat a + (unat n - 1)) mod 18446744073709551616" by (simp add: e_def unat_word_ariths n(1))
  have e: "unat e = unat a + (unat n - 1) \<and> unat a + (unat n - 1) < 18446744073709551616
      \<or> unat e = unat a + (unat n - 1) - 18446744073709551616 \<and> 18446744073709551616 \<le> unat a + (unat n - 1)"
  proof (cases "unat a + (unat n - 1) < 18446744073709551616")
    case False
    then have "unat e = (unat a + (unat n - 1) - 18446744073709551616) mod 18446744073709551616"
      using m by (simp add: le_mod_geq)
    moreover have "unat a + (unat n - 1) - 18446744073709551616 < 18446744073709551616"
      using unat_less64[of a] unat_less64[of n] by linarith
    ultimately show ?thesis using False by simp
  qed (use m in simp)
  have "syscall_user_range_in_layout (Some l) a n \<longleftrightarrow> trampoline_base l \<le> a \<and> a < stack_top l \<and> a \<le> e \<and> e < stack_top l"
    using False by (auto simp: syscall_user_range_in_layout_def e_def Let_def not_le not_less)
  moreover have "a \<le> e \<and> e < stack_top l \<longleftrightarrow> unat a + unat n \<le> unat (stack_top l)"
    using e n(2) unat_less64[of a] unat_less64[of n] unat_less64[of "stack_top l"]
    unfolding word_less_nat_alt word_le_nat_alt by linarith
  ultimately show ?thesis by blast
qed

text \<open>The buffers a call accepts: empty, or inside the window of the task and accessible to it byte by byte.\<close>

definition buffer_ok :: "user_virtual_layout \<Rightarrow> 'a machine_scheme \<Rightarrow> addr \<Rightarrow> u64 \<Rightarrow> bool" where
  "buffer_ok l s a n \<longleftrightarrow> n = 0 \<or> (a \<noteq> 0 \<and> trampoline_base l \<le> a \<and> unat a + unat n \<le> unat (stack_top l)
     \<and> (\<forall>k < unat n. user_accessible s (cr3 s) (a + of_nat k)))"

lemma buffer_valid_spec:
  assumes "table_inv s K ow ps" "ow (cr3 s) = Some (cr3 s, [])"
  shows "syscall_user_buffer_valid (cr3 s) (Some l) a n s = Ret (buffer_ok l s a n) s"
proof (cases "n = 0")
  case False
  have "0 < unat n" using False by (simp add: unat_gt_0)
  then have "unat a + unat n \<le> unat (stack_top l) \<Longrightarrow> a < stack_top l" by (simp add: word_less_nat_alt)
  moreover have "unat a + unat n \<le> unat (stack_top l) \<Longrightarrow> unat a + unat n \<le> 18446744073709551616"
    using unat_less64[of "stack_top l"] by linarith
  ultimately show ?thesis using False
    by (auto simp: syscall_user_buffer_valid_def syscall_buffer_valid_def user_range_mapped_spec[OF assms] range_in_layout_iff buffer_ok_def)
qed (simp add: syscall_user_buffer_valid_def syscall_buffer_valid_def buffer_ok_def)

lemma buffer_ok_load:
  assumes "buffer_ok l s a n" "k < unat n"
  obtains e where "translate s (cr3 s) (a + of_nat k) = Some e"
  using assms by (auto simp: buffer_ok_def user_accessible_def)

text \<open>What user code reads at a mapped address.\<close>

definition user_byte :: "'a machine_scheme \<Rightarrow> addr \<Rightarrow> u8" where
  "user_byte s a = mem s (physical_at (the (translate s (cr3 s) a)) a)"

lemma load8_mapped: "user_accessible s (cr3 s) a \<Longrightarrow> load8 a s = Ret (user_byte s a) s"
  by (auto simp: load8_def user_byte_def user_accessible_def)

section \<open>Paths\<close>

text \<open>The byte \<open>k\<close> of the path at \<open>src\<close> may be read.\<close>

definition path_byte_ok :: "user_virtual_layout \<Rightarrow> 'a machine_scheme \<Rightarrow> addr \<Rightarrow> nat \<Rightarrow> bool" where
  "path_byte_ok l s src k \<longleftrightarrow> unat src + k < 18446744073709551616 \<and> trampoline_base l \<le> src + of_nat k
     \<and> src + of_nat k < stack_top l \<and> user_accessible s (cr3 s) (src + of_nat k)"

text \<open>From \<open>dst\<close> on, \<open>p\<close> is what stands in user memory at \<open>src\<close>, ended by a NUL within \<open>left\<close> bytes.\<close>

definition path_from :: "user_virtual_layout \<Rightarrow> 'a machine_scheme \<Rightarrow> addr \<Rightarrow> string \<Rightarrow> nat \<Rightarrow> string \<Rightarrow> bool" where
  "path_from l s src dst left p \<longleftrightarrow> (\<exists>q. p = dst @ q \<and> length q < left \<and> (dst = [] \<longrightarrow> q \<noteq> [] \<and> hd q = CHR 0x2F)
     \<and> (\<forall>k. length dst \<le> k \<longrightarrow> k \<le> length p \<longrightarrow> path_byte_ok l s src k)
     \<and> (\<forall>k. length dst \<le> k \<longrightarrow> k < length p \<longrightarrow> user_byte s (src + of_nat k) \<noteq> 0 \<and> p ! k = byte_to_char (user_byte s (src + of_nat k)))
     \<and> user_byte s (src + of_nat (length p)) = 0)"

lemma path_from_0: "\<not> path_from l s src dst 0 p"
  by (simp add: path_from_def)

lemma path_from_bad: "\<not> path_byte_ok l s src (length dst) \<Longrightarrow> \<not> path_from l s src dst left p"
  by (auto simp: path_from_def)

lemma byte_to_char_0: "byte_to_char b = CHR 0x00 \<longleftrightarrow> b = 0"
proof
  assume "byte_to_char b = CHR 0x00"
  then have "of_char (byte_to_char b) = (0::nat)" by simp
  moreover have "of_char (byte_to_char b) = unat b"
    using unsigned_less[of b, where ?'a = nat] by (simp add: byte_to_char_def)
  ultimately show "b = 0" by (simp add: unat_eq_0)
qed (simp add: byte_to_char_def char_of_def)

lemma path_from_end:
  assumes "path_byte_ok l s src (length dst)" "user_byte s (src + of_nat (length dst)) = 0" "dst \<noteq> []"
  shows "path_from l s src dst (Suc left) p \<longleftrightarrow> p = dst"
proof
  assume "path_from l s src dst (Suc left) p"
  then obtain q where q: "p = dst @ q" "\<forall>k. length dst \<le> k \<longrightarrow> k < length p \<longrightarrow> user_byte s (src + of_nat k) \<noteq> 0"
    by (auto simp: path_from_def)
  then have "\<not> length dst < length p" using assms(2) by auto
  then show "p = dst" using q by simp
next
  assume p: "p = dst"
  have "path_byte_ok l s src k" if "length dst \<le> k" "k \<le> length dst" for k using that assms(1) by simp
  then show "path_from l s src dst (Suc left) p" unfolding p path_from_def using assms by (intro exI[of _ "[]"]) auto
qed

lemma path_from_step:
  fixes dst src s
  defines "b \<equiv> user_byte s (src + of_nat (length dst))"
  assumes ok: "path_byte_ok l s src (length dst)" and b: "b \<noteq> 0" "dst = [] \<longrightarrow> byte_to_char b = CHR 0x2F"
  shows "path_from l s src dst (Suc left) p \<longleftrightarrow> path_from l s src (dst @ [byte_to_char b]) left p"
proof
  assume "path_from l s src dst (Suc left) p"
  then obtain q where q: "p = dst @ q" "length q < Suc left"
    "\<forall>k. length dst \<le> k \<longrightarrow> k \<le> length p \<longrightarrow> path_byte_ok l s src k"
    "\<forall>k. length dst \<le> k \<longrightarrow> k < length p \<longrightarrow> user_byte s (src + of_nat k) \<noteq> 0 \<and> p ! k = byte_to_char (user_byte s (src + of_nat k))"
    "user_byte s (src + of_nat (length p)) = 0" unfolding path_from_def by blast
  have "q \<noteq> []" using q(1,5) b(1) by (auto simp: b_def)
  then obtain c r where r: "q = c # r" by (cases q) auto
  have "c = byte_to_char b" using q(4)[rule_format, of "length dst"] q(1) r by (simp add: b_def nth_append)
  then show "path_from l s src (dst @ [byte_to_char b]) left p"
    unfolding path_from_def using q r by (intro exI[of _ r]) (auto simp: Suc_le_eq)
next
  assume "path_from l s src (dst @ [byte_to_char b]) left p"
  then obtain r where r: "p = (dst @ [byte_to_char b]) @ r" "length r < left"
    "\<forall>k. length (dst @ [byte_to_char b]) \<le> k \<longrightarrow> k \<le> length p \<longrightarrow> path_byte_ok l s src k"
    "\<forall>k. length (dst @ [byte_to_char b]) \<le> k \<longrightarrow> k < length p \<longrightarrow>
       user_byte s (src + of_nat k) \<noteq> 0 \<and> p ! k = byte_to_char (user_byte s (src + of_nat k))"
    "user_byte s (src + of_nat (length p)) = 0" unfolding path_from_def by blast
  have k1: "path_byte_ok l s src k" if "length dst \<le> k" "k \<le> length p" for k
    using that r(3) ok by (cases "k = length dst") auto
  have k2: "user_byte s (src + of_nat k) \<noteq> 0 \<and> p ! k = byte_to_char (user_byte s (src + of_nat k))"
    if "length dst \<le> k" "k < length p" for k
  proof (cases "k = length dst")
    case True
    then show ?thesis using b(1) r(1) by (simp add: b_def nth_append)
  next
    case False
    then show ?thesis using that r(4) by simp
  qed
  show "path_from l s src dst (Suc left) p"
    unfolding path_from_def using r(1,2,5) b(2) k1 k2 by (intro exI[of _ "byte_to_char b # r"]) auto
qed

lemma copy_path_loop_spec:
  assumes inv: "table_inv s K ow ps" and root: "ow (cr3 s) = Some (cr3 s, [])"
  shows "length dst + left < 18446744073709551616 \<Longrightarrow>
    \<exists>r. copy_path_loop left dst src (cr3 s) (Some l) s = Ret r s \<and> (\<forall>p. r = Some p \<longleftrightarrow> path_from l s src dst left p)"
proof (induction left arbitrary: dst)
  case 0
  then show ?case by (simp add: path_from_0)
next
  case (Suc left)
  define a where "a = src + of_nat (length dst)"
  have wrap: "a < src \<longleftrightarrow> \<not> unat src + length dst < 18446744073709551616"
  proof (cases "unat src + length dst < 18446744073709551616")
    case True
    then have "unat a = unat src + length dst" using Suc.prems by (simp add: a_def unat_word_ariths unat_of_nat)
    then show ?thesis using True by (simp add: word_less_nat_alt)
  next
    case False
    moreover have "unat src + length dst - 18446744073709551616 < 18446744073709551616"
      using Suc.prems unat_less64[of src] by linarith
    ultimately have "unat a = unat src + length dst - 18446744073709551616"
      using Suc.prems by (simp add: a_def unat_word_ariths unat_of_nat le_mod_geq)
    then show ?thesis using False Suc.prems by (simp add: word_less_nat_alt)
  qed
  have mapped: "paging_user_range_mapped (cr3 s) a 1 s = Ret (user_accessible s (cr3 s) a) s"
    using user_range_mapped_spec[OF inv root, of a 1] unat_less64[of a] by (simp add: Suc_leI)
  have layout: "syscall_user_range_in_layout (Some l) a 1 \<longleftrightarrow> trampoline_base l \<le> a \<and> a < stack_top l"
    by (auto simp: range_in_layout_iff word_less_nat_alt)
  have ok: "path_byte_ok l s src (length dst) \<longleftrightarrow> \<not> a < src \<and> syscall_user_range_in_layout (Some l) a 1 \<and> user_accessible s (cr3 s) a"
    unfolding path_byte_ok_def wrap layout by (auto simp: a_def)
  have c: "copy_path_loop (Suc left) dst src (cr3 s) (Some l) s =
    (if \<not> path_byte_ok l s src (length dst) then Ret None s
     else if dst = [] \<and> byte_to_char (user_byte s a) \<noteq> CHR 0x2F then Ret None s
     else if user_byte s a = 0 then Ret (Some dst) s
     else copy_path_loop left (dst @ [byte_to_char (user_byte s a)]) src (cr3 s) (Some l) s)"
    unfolding ok copy_path_loop.simps Let_def a_def[symmetric] by (simp add: mapped load8_mapped)
  show ?case
  proof (cases "path_byte_ok l s src (length dst)")
    case False
    then show ?thesis using path_from_bad[OF False] c by simp
  next
    case good: True
    show ?thesis
    proof (cases "dst = [] \<and> byte_to_char (user_byte s a) \<noteq> CHR 0x2F")
      case True
      have "\<not> path_from l s src dst (Suc left) p" for p
      proof
        assume "path_from l s src dst (Suc left) p"
        then obtain q where "p = q" "q \<noteq> []" "hd q = CHR 0x2F" "p ! 0 = byte_to_char (user_byte s src)"
          using True unfolding path_from_def by force
        moreover have "dst = []" using True by simp
        ultimately show False using True by (auto simp: a_def hd_conv_nth)
      qed
      then show ?thesis using c good True by simp
    next
      case h: False
      show ?thesis
      proof (cases "user_byte s a = 0")
        case True
        then have "dst \<noteq> []" using h byte_to_char_0[of "user_byte s a"] by auto
        then show ?thesis using c good h True path_from_end[OF good] by (auto simp: a_def)
      next
        case False
        have "length (dst @ [byte_to_char (user_byte s a)]) + left < 18446744073709551616" using Suc.prems by simp
        from Suc.IH[OF this] show ?thesis
          using c good h False path_from_step[OF good] by (auto simp: a_def)
      qed
    qed
  qed
qed

text \<open>
  C9: \<open>syscall_copy_path\<close> always returns, never faults and changes nothing, whatever pointer a program passes; it accepts
  exactly the paths of at most 62 characters that start with a slash, end in a NUL, and lie byte by byte, the NUL
  included, inside the window of the task where user code may read; and it copies exactly their characters.
\<close>

theorem syscall_copy_path_exact:
  assumes "table_inv s K ow ps" "ow (cr3 s) = Some (cr3 s, [])"
  shows "\<exists>r. syscall_copy_path 64 src (cr3 s) (Some l) s = Ret r s
    \<and> (\<forall>p. r = Some p \<longleftrightarrow> src \<noteq> 0 \<and> length p < 63 \<and> p \<noteq> [] \<and> hd p = CHR 0x2F
        \<and> (\<forall>k \<le> length p. path_byte_ok l s src k)
        \<and> (\<forall>k < length p. user_byte s (src + of_nat k) \<noteq> 0 \<and> p ! k = byte_to_char (user_byte s (src + of_nat k)))
        \<and> user_byte s (src + of_nat (length p)) = 0)"
proof (cases "src = 0")
  case False
  from copy_path_loop_spec[OF assms, of "[]" 63 src l] obtain r where
    r: "copy_path_loop 63 [] src (cr3 s) (Some l) s = Ret r s" "\<And>p. r = Some p \<longleftrightarrow> path_from l s src [] 63 p" by auto
  show ?thesis using False r by (intro exI[of _ r]) (auto simp: syscall_copy_path_def path_from_def)
qed (simp add: syscall_copy_path_def)

section \<open>Writing to the console\<close>

lemma leaf_same_mem: "mem t = mem s \<Longrightarrow> leaf t x is = leaf s x is"
  by (induction "is" arbitrary: x rule: induct_list012) (simp_all add: entry_at_def load64_def)

lemma translate_mem:
  assumes "mem t = mem s"
  shows "translate t r v = translate s r v"
  by (simp add: translate_def leaf_same_mem[OF assms])

lemma user_mem:
  assumes "mem t = mem s" "cr3 t = cr3 s"
  shows "user_accessible t r v = user_accessible s r v" "user_byte t v = user_byte s v"
  using assms translate_mem[OF assms(1)] by (simp_all add: user_accessible_def user_byte_def)

definition user_text :: "'a machine_scheme \<Rightarrow> addr \<Rightarrow> nat \<Rightarrow> string" where
  "user_text s a n = map (\<lambda>k. byte_to_char (user_byte s (a + of_nat k))) [0..<n]"

lemma serial_write_user:
  assumes acc: "\<forall>k < unat n. user_accessible s (cr3 s) (a + of_nat k)"
  shows "serial_write_buffer (Pointer a) n s = Ret () (serial_write (user_text s a (unat n)) s)"
proof -
  define I where "I = (\<lambda>i t. \<exists>k \<le> unat n. i = (of_nat k :: u64) \<and> t = serial_write (user_text s a k) s)"
  have I0: "I 0 s" unfolding I_def by (intro exI[of _ 0]) (simp add: user_text_def serial_write_def)
  have body: "\<exists>i' t'. serial_write_body (Pointer a) i t = Ret i' t' \<and> I i' t' \<and> unat n - unat i' < unat n - unat i"
    if inv: "I i t" and lt: "i < n" for i t
  proof -
    from inv obtain k where k: "k \<le> unat n" "i = of_nat k" "t = serial_write (user_text s a k) s" by (auto simp: I_def)
    have "k < 18446744073709551616" using k(1) unat_less64[of n] by linarith
    then have u: "unat i = k" using k(2) by (simp add: unat_of_nat)
    then have kn: "k < unat n" using lt by (simp add: word_less_nat_alt)
    have "k < unat n" by (fact kn)
    moreover have "Suc k < 18446744073709551616" using kn unat_less64[of n] by linarith
    ultimately have u1: "unat (i + 1) = Suc k" using u by (simp add: unat_word_ariths)
    have same: "mem t = mem s" "cr3 t = cr3 s" using k(3) by (simp_all add: serial_write_def)
    have "load8 (a + i) t = Ret (user_byte s (a + i)) t"
      using load8_mapped[of t "a + i"] acc kn k(2) user_mem[OF same] same by simp
    then have "serial_write_body (Pointer a) i t = Ret (i + 1) (serial_write [byte_to_char (user_byte s (a + i))] t)"
      by (simp add: serial_write_body_def buffer_load_def)
    moreover have "serial_write [byte_to_char (user_byte s (a + i))] t = serial_write (user_text s a (Suc k)) s"
      using k by (simp add: serial_write_def user_text_def)
    moreover have "i + 1 = of_nat (Suc k)" using k(2) by simp
    moreover have "Suc k \<le> unat n" "unat n - unat (i + 1) < unat n - unat i" using kn u u1 by simp_all
    ultimately show ?thesis unfolding I_def by blast
  qed
  have "\<exists>i t. c_while (\<lambda>i s. i < n) (serial_write_body (Pointer a)) 0 s = Ret i t \<and> I i t \<and> \<not> i < n"
    by (rule c_while_rule[where I = I and M = "\<lambda>i t. unat n - unat i", OF I0]) (rule body)
  then obtain i t where
    r: "c_while (\<lambda>i s. i < n) (serial_write_body (Pointer a)) 0 s = Ret i t" "I i t" "\<not> i < n" by blast
  from r(2) obtain k where k: "k \<le> unat n" "i = of_nat k" "t = serial_write (user_text s a k) s" by (auto simp: I_def)
  have "k < 18446744073709551616" using k(1) unat_less64[of n] by linarith
  then have "unat i = k" using k(2) by (simp add: unat_of_nat)
  then have "k = unat n" using k(1) r(3) by (simp add: word_less_nat_alt)
  then show ?thesis using r(1) k(3) by (simp add: serial_write_buffer_def)
qed

text \<open>The file writes to a console the way \<open>fd_table_seed_console\<close> made it.\<close>

definition writes_console :: "'a vfs_state_scheme \<Rightarrow> addr \<Rightarrow> bool" where
  "writes_console s f \<longleftrightarrow> f \<noteq> 0 \<and> file_node (files s f) \<noteq> NullNode
     \<and> node_ops (nodes s (file_node (files s f))) = Some fd_console_output_ops
     \<and> node_data (nodes s (file_node (files s f))) \<noteq> NullData \<and> file_access (files s f) AND VFS_ACCESS_WRITE \<noteq> 0"

definition console_written :: "addr \<Rightarrow> addr \<Rightarrow> u64 \<Rightarrow> 'a vfs_state_scheme \<Rightarrow> 'a vfs_state_scheme" where
  "console_written f a n s = advance_offset f n (serial_write (user_text s a (unat n)) s)"

lemma vfs_file_write_console:
  assumes w: "writes_console s f" and b: "buffer_ok l s a n"
  shows "vfs_file_write f (Pointer a) n s = Ret (ucast n) (console_written f a n s)"
proof -
  have acc: "\<forall>k < unat n. user_accessible s (cr3 s) (a + of_nat k)" using b by (auto simp: buffer_ok_def)
  have "vfs_file_write f (Pointer a) n s = fd_console_output_write f (Pointer a) n s"
    using w by (simp add: vfs_file_write_def writes_console_def fd_console_output_ops_def call_write_def)
  also have "\<dots> = Ret (ucast n) (console_written f a n s)"
  proof (cases "n = 0")
    case True
    then show ?thesis using w
      by (simp add: fd_console_output_write_def writes_console_def console_written_def user_text_def serial_write_def)
  next
    case False
    then show ?thesis using w b serial_write_user[OF acc]
      by (simp add: fd_console_output_write_def writes_console_def console_written_def buffer_null_def buffer_ok_def)
  qed
  finally show ?thesis .
qed

lemma int_result_small:
  assumes "unat n < 2147483648"
  shows "int_result (ucast n) = n"
proof -
  have "ucast n = (of_nat (unat n) :: i32)" by simp
  then have "sint (ucast n :: i32) = signed_take_bit 31 (int (unat n))" by (simp only: signed_of_nat) simp
  also have "\<dots> = int (unat n)"
  proof (rule signed_take_bit_int_eq_self)
    show "- (2 ^ 31) \<le> int (unat n)" by (rule order_trans[of _ 0]) (simp, rule of_nat_0_le_iff)
    have "int (unat n) < int 2147483648" using assms by (simp only: of_nat_less_iff)
    then show "int (unat n) < 2 ^ 31" by simp
  qed
  finally have "of_int (sint (ucast n :: i32)) = n" by simp
  then show ?thesis unfolding int_result_def of_int_sint .
qed

section \<open>The calls\<close>

lemmas call_numbers = SYS_PUTC_def SYS_YIELD_def SYS_GET_TICKS_def SYS_EXIT_def SYS_READ_def SYS_WRITE_def SYS_CLOSE_def
  SYS_DUP_def SYS_OPEN_def SYS_EXEC_def

text \<open>
  The path a program passes: the text at the pointer, when it starts with a slash, ends in a NUL within 63 bytes and can
  be read to the end. A null, relative, too long or partly unreadable path is none (\<open>syscall_copy_path_exact\<close>).
\<close>

definition path_at :: "user_virtual_layout \<Rightarrow> 'a machine_scheme \<Rightarrow> addr \<Rightarrow> string \<Rightarrow> bool" where
  "path_at l s src p \<longleftrightarrow> src \<noteq> 0 \<and> path_from l s src [] 63 p"

text \<open>A node that can be opened with the flags, and one that can be executed.\<close>

definition can_open :: "'a vfs_state_scheme \<Rightarrow> node_ref \<Rightarrow> u32 \<Rightarrow> bool" where
  "can_open s node access \<longleftrightarrow> node \<noteq> NullNode \<and> node_kind (nodes s node) \<noteq> VFS_NODE_DIRECTORY \<and> access \<in> {1, 2, 3}
     \<and> (case node_ops (nodes s node) of None \<Rightarrow> False
        | Some ops \<Rightarrow> (access \<noteq> 2 \<longrightarrow> op_read ops \<noteq> None) \<and> (access \<noteq> 1 \<longrightarrow> op_write ops \<noteq> None))"

definition can_execute :: "'a vfs_state_scheme \<Rightarrow> node_ref \<Rightarrow> bool" where
  "can_execute s node \<longleftrightarrow> node \<noteq> NullNode \<and> node_kind (nodes s node) = VFS_NODE_EXECUTABLE"

text \<open>
  The calls a task may not make: an unknown number, a descriptor that is not open, a buffer that is not the task's, a
  path that cannot be read, that names nothing, or names what cannot be opened or executed, and the four calls with
  pointers from a task that has no address space of its own.
\<close>

definition refused :: "'a sched_state_scheme \<Rightarrow> u64 \<Rightarrow> u64 \<Rightarrow> u64 \<Rightarrow> u64 \<Rightarrow> bool" where
  "refused s number rdi rsi rdx \<longleftrightarrow> 9 < number
     \<or> number \<in> {SYS_CLOSE, SYS_DUP} \<and> fd_table_get (sched_current_fd_table s) (ucast rdi) = None
     \<or> (case sched_current_user_context s of
          None \<Rightarrow> number \<in> {SYS_READ, SYS_WRITE, SYS_OPEN, SYS_EXEC}
        | Some (l, sp) \<Rightarrow>
            number \<in> {SYS_READ, SYS_WRITE}
              \<and> (\<not> buffer_ok l s rsi rdx \<or> fd_table_get (sched_current_fd_table s) (ucast rdi) = None)
          \<or> number = SYS_OPEN \<and> (\<forall>p. path_at l s rdi p \<longrightarrow> \<not> can_open s (vfs_walk_path (Some p) s) (ucast rsi))
          \<or> number = SYS_EXEC \<and> (\<forall>p. path_at l s rdi p \<longrightarrow> \<not> can_execute s (vfs_walk_path (Some p) s)))"

text \<open>The active page tables are the task's, as they are whenever a user task runs.\<close>

definition own_tables :: "'a sched_state_scheme \<Rightarrow> addr \<Rightarrow> owners \<Rightarrow> addr list \<Rightarrow> bool" where
  "own_tables s K ow ps \<longleftrightarrow> table_inv s K ow ps \<and> ow (cr3 s) = Some (cr3 s, [])
     \<and> (case sched_current_user_context s of None \<Rightarrow> True | Some (l, sp) \<Rightarrow> sp = cr3 s)"

lemma set_same_table: "sched_current_fd_table s = Some t \<Longrightarrow> set_current_fd_table (Some t) s = s"
  by (auto simp: sched_current_fd_table_def set_current_fd_table_def upd_task_def split: option.splits)

lemma close_none: "fd_table_get (Some t) d = None \<Longrightarrow> fd_table_close (Some t) d s = Ret (- 1, Some t) s"
  by (auto simp: fd_table_get_def fd_table_close_def split: if_splits)

lemma int_result_error: "int_result (- 1) = SYS_RESULT_ERROR"
  by (simp add: int_result_def SYS_RESULT_ERROR_def)

lemma copy_path_at:
  assumes "own_tables s K ow ps"
  obtains r where "syscall_copy_path 64 src (cr3 s) (Some l) s = Ret r s" "\<And>p. r = Some p \<longleftrightarrow> path_at l s src p"
proof (cases "src = 0")
  case True
  then show ?thesis using that[of None] by (simp add: syscall_copy_path_def path_at_def)
next
  case False
  have inv: "table_inv s K ow ps" "ow (cr3 s) = Some (cr3 s, [])" using assms(1) by (simp_all add: own_tables_def)
  from copy_path_loop_spec[OF this, of "[]" 63 src l] obtain r where
    r: "copy_path_loop 63 [] src (cr3 s) (Some l) s = Ret r s" "\<And>p. r = Some p \<longleftrightarrow> path_from l s src [] 63 p" by auto
  show ?thesis using that[of r] r False by (simp add: syscall_copy_path_def path_at_def)
qed

lemma path_at_bad: "\<not> path_byte_ok l s src 0 \<Longrightarrow> \<not> path_at l s src p"
  using path_from_bad[of l s src "[]" 63 p] by (simp add: path_at_def)

lemma open_cannot:
  assumes "\<not> can_open s (vfs_walk_path (Some p) s) access"
  shows "vfs_open_path (Some p) access s = Ret 0 s"
  using assms
  by (auto simp: vfs_open_path_def vfs_file_open_def can_open_def vfs_open_flags_valid_def VFS_ACCESS_READ_def
      VFS_ACCESS_WRITE_def Let_def split: option.splits)

lemma execute_cannot: "\<not> can_execute s (vfs_walk_path (Some p) s) \<Longrightarrow> vfs_open_exec_path (Some p) s = Ret 0 s"
  by (auto simp: vfs_open_exec_path_def can_execute_def Let_def)

lemma refused_calls_spec:
  assumes own: "own_tables s K ow ps"
    and ref: "refused s (frame_rax frame s) (frame_rdi frame s) (frame_rsi frame s) (frame_rdx frame s)"
  shows "kernel_syscall_entry bld frame s = Ret frame (syscall_return frame SYS_RESULT_ERROR s)"
proof -
  note inv = own[unfolded own_tables_def]
  have er: "syscall_result SYS_RESULT_ERROR frame s = Ret frame (syscall_return frame SYS_RESULT_ERROR s)"
    by (simp add: syscall_result_def)
  let ?n = "frame_rax frame s" and ?t = "sched_current_fd_table s"
  have close: "sys_close frame s = Ret frame (syscall_return frame SYS_RESULT_ERROR s)"
    if "fd_table_get ?t (ucast (frame_rdi frame s)) = None"
    using that close_none[of _ "ucast (frame_rdi frame s)" s] set_same_table[of s] er
    by (auto simp: sys_close_def int_result_error split: option.split)
  have dup: "sys_dup frame s = Ret frame (syscall_return frame SYS_RESULT_ERROR s)"
    if "fd_table_get ?t (ucast (frame_rdi frame s)) = None"
    using that set_same_table[of s] er
    by (auto simp: sys_dup_def fd_table_dup_def int_result_error split: option.split)
  have valid: "syscall_user_buffer_valid sp (Some l) a n s = Ret (buffer_ok l s a n) s"
    if "sched_current_user_context s = Some (l, sp)" for l sp a n
    using that inv buffer_valid_spec[of s K ow ps l a n] by simp
  have rd: "sys_read l sp frame s = Ret frame (syscall_return frame SYS_RESULT_ERROR s)"
    if "sched_current_user_context s = Some (l, sp)"
      "\<not> buffer_ok l s (frame_rsi frame s) (frame_rdx frame s) \<or> fd_table_get ?t (ucast (frame_rdi frame s)) = None" for l sp
    using that valid[OF that(1)] er
    by (auto simp: sys_read_def fd_table_read_def int_result_error split: option.split)
  have wr: "sys_write l sp frame s = Ret frame (syscall_return frame SYS_RESULT_ERROR s)"
    if "sched_current_user_context s = Some (l, sp)"
      "\<not> buffer_ok l s (frame_rsi frame s) (frame_rdx frame s) \<or> fd_table_get ?t (ucast (frame_rdi frame s)) = None" for l sp
    using that valid[OF that(1)] er
    by (auto simp: sys_write_def fd_table_write_def int_result_error split: option.split)
  have opn: "sys_open l sp frame s = Ret frame (syscall_return frame SYS_RESULT_ERROR s)"
    if ctx: "sched_current_user_context s = Some (l, sp)"
      and no: "\<forall>p. path_at l s (frame_rdi frame s) p \<longrightarrow> \<not> can_open s (vfs_walk_path (Some p) s) (ucast (frame_rsi frame s))" for l sp
  proof -
    obtain r where r: "syscall_copy_path 64 (frame_rdi frame s) (cr3 s) (Some l) s = Ret r s"
      "\<And>p. r = Some p \<longleftrightarrow> path_at l s (frame_rdi frame s) p" using copy_path_at[OF own] by blast
    have "vfs_open_path (Some p) (ucast (frame_rsi frame s)) s = Ret 0 s" if "r = Some p" for p
      using open_cannot no r(2) that by blast
    then show ?thesis using ctx inv er r(1) by (cases r) (auto simp: sys_open_def split: option.split)
  qed
  have exc: "sys_exec bld l sp frame s = Ret frame (syscall_return frame SYS_RESULT_ERROR s)"
    if ctx: "sched_current_user_context s = Some (l, sp)"
      and no: "\<forall>p. path_at l s (frame_rdi frame s) p \<longrightarrow> \<not> can_execute s (vfs_walk_path (Some p) s)" for l sp
  proof -
    obtain r where r: "syscall_copy_path 64 (frame_rdi frame s) (cr3 s) (Some l) s = Ret r s"
      "\<And>p. r = Some p \<longleftrightarrow> path_at l s (frame_rdi frame s) p" using copy_path_at[OF own] by blast
    have "vfs_open_exec_path (Some p) s = Ret 0 s" if "r = Some p" for p using execute_cannot no r(2) that by blast
    then show ?thesis using ctx inv er r(1) by (cases r) (auto simp: sys_exec_def)
  qed
  consider "9 < ?n" | "?n = SYS_CLOSE" | "?n = SYS_DUP" | "?n = SYS_READ" | "?n = SYS_WRITE" | "?n = SYS_OPEN" | "?n = SYS_EXEC"
    using ref by (auto simp: refused_def split: option.splits)
  then show ?thesis
  proof cases
    case 1
    then show ?thesis using er by (auto simp: kernel_syscall_entry_def call_numbers Let_def)
  qed (use ref close dup rd wr opn exc er in
      \<open>auto simp: kernel_syscall_entry_def refused_def call_numbers Let_def split: option.splits\<close>)
qed

text \<open>
  C11: A refused call is an error and nothing else. Refused are an unknown number; a close, duplicate, read or write of a
  descriptor that is not open; a read or write whose buffer is not the task's; an open or an exec whose path is null,
  relative, too long, not readable to its end, or names nothing; an open of a directory, with invalid flags, or for an
  access the node has no operation for; and an exec of a node that is not executable. The kernel then returns to the same
  frame with -1 in \<open>rax\<close> and nothing else in the state has changed, neither a table nor the console; it does not fault
  on the pointer.
\<close>

theorem refused_calls:
  assumes "own_tables s K ow ps"
    and "refused s (frame_rax frame s) (frame_rdi frame s) (frame_rsi frame s) (frame_rdx frame s)"
  shows "kernel_syscall_entry bld frame s = Ret frame (syscall_return frame (- 1) s)"
  using refused_calls_spec[OF assms] by (simp add: SYS_RESULT_ERROR_def)

lemma console_write_spec:
  assumes own: "own_tables s K ow ps" and ctx: "sched_current_user_context s = Some (l, sp)"
    and n: "frame_rax frame s = SYS_WRITE" and e: "fd_table_get (sched_current_fd_table s) (ucast (frame_rdi frame s)) = Some e"
    and w: "writes_console s (entry_file e)" and top: "unat (stack_top l) < 2147483648"
  shows "kernel_syscall_entry bld frame s =
    (if buffer_ok l s (frame_rsi frame s) (frame_rdx frame s)
     then Ret frame (syscall_return frame (frame_rdx frame s) (console_written (entry_file e) (frame_rsi frame s) (frame_rdx frame s) s))
     else Ret frame (syscall_return frame (- 1) s))"
proof -
  obtain t where t: "sched_current_fd_table s = Some t" using e by (cases "sched_current_fd_table s") (auto simp: fd_table_get_def)
  note inv = own[unfolded own_tables_def]
  have valid: "syscall_user_buffer_valid sp (Some l) a n s = Ret (buffer_ok l s a n) s" for a n
    using ctx inv buffer_valid_spec[of s K ow ps l a n] by simp
  have small: "int_result (ucast n) = n" if "buffer_ok l s a n" for a n
  proof -
    have "n = 0 \<or> unat n \<le> unat (stack_top l)" using that by (auto simp: buffer_ok_def)
    then have "unat n < 2147483648" using top by auto
    then show ?thesis by (rule int_result_small)
  qed
  have "kernel_syscall_entry bld frame s = sys_write l sp frame s"
    using n ctx by (simp add: kernel_syscall_entry_def call_numbers Let_def)
  then show ?thesis using t e valid vfs_file_write_console[OF w] small
    by (auto simp: sys_write_def fd_table_write_def syscall_result_def SYS_RESULT_ERROR_def)
qed

text \<open>
  C10: \<open>SYS_WRITE\<close> on a console descriptor: when the buffer is empty, or all its bytes are the task's to read, exactly its
  bytes appear on the console, in order, and the call returns their number; any other buffer is refused with -1 and
  nothing is printed. It never faults.
\<close>

theorem console_write_exact:
  assumes "own_tables s K ow ps" "sched_current_user_context s = Some (l, sp)" "unat (stack_top l) < 2147483648"
    and "frame_rax frame s = SYS_WRITE" "fd_table_get (sched_current_fd_table s) (ucast (frame_rdi frame s)) = Some e"
    and "writes_console s (entry_file e)"
  shows "\<exists>t. kernel_syscall_entry bld frame s = Ret frame t
    \<and> (if buffer_ok l s (frame_rsi frame s) (frame_rdx frame s)
       then frame_rax frame t = frame_rdx frame s
         \<and> serial_out t = serial_out s @ user_text s (frame_rsi frame s) (unat (frame_rdx frame s))
       else frame_rax frame t = - 1 \<and> serial_out t = serial_out s)"
  using console_write_spec[OF assms(1,2,4,5,6,3), of bld]
  by (auto simp: syscall_return_def frame_rax_def load64_def store64_def console_written_def advance_offset_def
      put_file_def serial_write_def)

end
