(* ===== verification/Abi.thy ===== *)
theory Abi
  imports SyscallSpec
begin

text \<open>
  The programs of \<open>src/user\<close> on the kernel: the contract of the system calls they rely on, as a locale; what the
  programs print under it; and the kernel with its entry code as an instance.
\<close>

section \<open>The contract\<close>

text \<open>\<open>in_stack a n\<close>: the \<open>n\<close> bytes at \<open>a\<close> are in the stack page of the program.\<close>

definition in_stack :: "addr \<Rightarrow> nat \<Rightarrow> bool" where
  "in_stack a n \<longleftrightarrow> 0x401FF000 \<le> unat a \<and> unat a + n \<le> 0x40200000"

text \<open>The calls that a running user program must see refused.\<close>

definition bad_call :: "u64 \<Rightarrow> u64 list \<Rightarrow> bool" where
  "bad_call number args \<longleftrightarrow> 9 < number \<and> args = [0]
     \<or> number \<in> {SYS_CLOSE, SYS_DUP} \<and> args \<in> {[- 1], [99]}
     \<or> number \<in> {SYS_READ, SYS_WRITE} \<and> (\<exists>d a n. args = [d, a, n] \<and> (d \<in> {- 1, 99}
          \<or> n \<noteq> 0 \<and> (unat a < 0x40000000 \<or> 0x40200000 < unat a + unat n)))
     \<or> number = SYS_OPEN \<and> args = [0x50000000, 1] \<or> number = SYS_EXEC \<and> args = [0x50000000]"

lemma char_byte_char [simp]: "byte_to_char (char_to_byte c) = c"
proof -
  have "of_char c < (256::nat)" by simp
  then have "unat (of_nat (of_char c) :: u8) = of_char c" by (simp add: unat_of_nat)
  then show ?thesis by (simp add: byte_to_char_def char_to_byte_def)
qed

locale console_abi =
  fixes trap :: "'a trap" and ready :: "'a machine_scheme \<Rightarrow> bool" and byte :: "'a machine_scheme \<Rightarrow> addr \<Rightarrow> u8"
  assumes store: "ready s \<Longrightarrow> in_stack a 1 \<Longrightarrow> \<exists>t. store8 a b s = Ret () t \<and> ready t \<and> serial_out t = serial_out s
      \<and> (\<forall>x. in_stack x 1 \<longrightarrow> byte t x = (if x = a then b else byte s x))"
    and refuse: "ready s \<Longrightarrow> bad_call number args \<Longrightarrow> \<exists>t. trap number args s = Ret (- 1) t \<and> ready t
      \<and> serial_out t = serial_out s \<and> (\<forall>x. in_stack x 1 \<longrightarrow> byte t x = byte s x)"
    and putc: "ready s \<Longrightarrow> \<exists>t. trap SYS_PUTC [ucast c] s = Ret 0 t \<and> ready t \<and> serial_out t = serial_out s @ [byte_to_char c]"
    and prints: "ready s \<Longrightarrow> in_stack a (unat n) \<Longrightarrow> \<exists>t. trap SYS_WRITE [1, a, n] s = Ret n t \<and> ready t
      \<and> serial_out t = serial_out s @ map (\<lambda>k. byte_to_char (byte s (a + of_nat k))) [0..<unat n]"
begin

lemma putc_prints: "ready s \<Longrightarrow> \<exists>t. user_sys_putc trap c s = Ret () t \<and> ready t \<and> serial_out t = serial_out s @ [c]"
proof -
  assume r: "ready s"
  then show ?thesis using putc[OF r, of "char_to_byte c"] by (auto simp: user_sys_putc_def user_syscall1_def)
qed

lemma stack_offset: "in_stack a n \<Longrightarrow> k < n \<Longrightarrow> in_stack (a + of_nat k) 1 \<and> unat (a + of_nat k) = unat a + k"
proof -
  assume a: "in_stack a n" and k: "k < n"
  then have "unat a + k < 18446744073709551616" by (simp add: in_stack_def)
  moreover have "k < 18446744073709551616" using calculation by linarith
  ultimately have "unat (a + of_nat k) = unat a + k" by (simp add: unat_word_ariths unat_of_nat)
  then show ?thesis using a k by (simp add: in_stack_def)
qed

lemma store_chars_stack:
  "ready s \<Longrightarrow> in_stack a (length cs) \<Longrightarrow> \<exists>t. store_chars a cs s = Ret () t \<and> ready t \<and> serial_out t = serial_out s
     \<and> (\<forall>k < length cs. byte t (a + of_nat k) = char_to_byte (cs ! k))
     \<and> (\<forall>x. in_stack x 1 \<and> unat x < unat a \<longrightarrow> byte t x = byte s x)"
proof (induction cs arbitrary: a s)
  case (Cons c cs)
  have a1: "in_stack a 1" using stack_offset[OF Cons.prems(2), of 0] by simp
  from store[OF Cons.prems(1) a1, of "char_to_byte c"] obtain u where u: "store8 a (char_to_byte c) s = Ret () u" "ready u"
    "serial_out u = serial_out s" "\<forall>x. in_stack x 1 \<longrightarrow> byte u x = (if x = a then char_to_byte c else byte s x)" by blast
  show ?case
  proof (cases cs)
    case Nil
    then show ?thesis using u a1 by (intro exI[of _ u]) auto
  next
    case (Cons c' cs')
    then have n: "unat (a + 1) = unat a + 1" "in_stack (a + 1) (length cs)"
      using stack_offset[OF Cons.prems(2), of 1] Cons.prems(2) by (auto simp: in_stack_def)
    from Cons.IH[OF u(2) n(2)] obtain t where t: "store_chars (a + 1) cs u = Ret () t" "ready t" "serial_out t = serial_out u"
      "\<forall>k < length cs. byte t (a + 1 + of_nat k) = char_to_byte (cs ! k)"
      "\<forall>x. in_stack x 1 \<and> unat x < unat (a + 1) \<longrightarrow> byte t x = byte u x" by blast
    have "byte t (a + of_nat k) = char_to_byte ((c # cs) ! k)" if "k < length (c # cs)" for k
    proof (cases k)
      case 0
      then show ?thesis using t(5) u(4) a1 n(1) by simp
    next
      case (Suc j)
      then show ?thesis using t(4) that by (simp add: add.assoc)
    qed
    moreover have "byte t x = byte s x" if "in_stack x 1" "unat x < unat a" for x
      using that t(5) u(4) n(1) by auto
    ultimately show ?thesis using u(1,3) t(1-3) by (intro exI[of _ t]) simp
  qed
qed simp

text \<open>The end of a program that found nothing wrong: the text is on the console and \<open>user_sys_exit\<close> is the next call.\<close>

definition says :: "string \<Rightarrow> 'a machine_scheme \<Rightarrow> (unit, 'a machine_scheme) outcome \<Rightarrow> bool" where
  "says m s r \<longleftrightarrow> (\<exists>t. r = user_sys_exit trap t \<and> ready t \<and> serial_out t = serial_out s @ m)"

lemma report_says:
  assumes r: "ready s" and a: "in_stack ok (length m)" and n: "unat n = length m"
  shows "says m s (chain (store_chars ok m s) (\<lambda>_ s. report trap ok n s))"
proof -
  from store_chars_stack[OF r a] obtain t where t: "store_chars ok m s = Ret () t" "ready t" "serial_out t = serial_out s"
    "\<forall>k < length m. byte t (ok + of_nat k) = char_to_byte (m ! k)" by blast
  have whole: "map (\<lambda>k. byte_to_char (byte t (ok + of_nat k))) [0..<length m] = m"
    using t(4) by (intro nth_equalityI) auto
  have "in_stack ok (unat n)" using a n by simp
  from prints[OF t(2) this] obtain u where u: "trap SYS_WRITE [1, ok, n] t = Ret n u" "ready u" "serial_out u = serial_out s @ m"
    using t(3) whole n by auto
  have "chain (store_chars ok m s) (\<lambda>_ s. report trap ok n s) = user_sys_exit trap u"
    using t(1) u(1) by (simp add: report_def user_sys_write_def user_syscall3_def complain_if_def)
  then show ?thesis using u by (auto simp: says_def)
qed

definition silent :: "'a machine_scheme \<Rightarrow> 'a machine_scheme \<Rightarrow> bool" where
  "silent s t \<longleftrightarrow> ready t \<and> serial_out t = serial_out s"

lemma says_silent: "silent s t \<Longrightarrow> says m t r \<Longrightarrow> says m s r"
  by (simp add: silent_def says_def)

text \<open>A chain of calls that must all fail.\<close>

definition fails :: "'a machine_scheme \<Rightarrow> (bool, 'a) action \<Rightarrow> bool" where
  "fails s0 a \<longleftrightarrow> (\<forall>s. silent s0 s \<longrightarrow> (\<exists>t. a s = Ret False t \<and> silent s0 t))"

lemma fails_or_else:
  assumes "fails s0 a" "fails s0 b"
  shows "fails s0 (or_else a b)"
  unfolding fails_def
proof (intro allI impI)
  fix s assume "silent s0 s"
  then obtain t where t: "a s = Ret False t" "silent s0 t" using assms(1) by (auto simp: fails_def)
  then obtain u where "b t = Ret False u" "silent s0 u" using assms(2) by (auto simp: fails_def)
  with t show "\<exists>t. or_else a b s = Ret False t \<and> silent s0 t" by (simp add: or_else_def)
qed

lemma fails_test:
  assumes "bad_call n args" "\<And>s. call s = trap n args s"
  shows "fails s0 (test call (\<lambda>r. r \<noteq> - 1))"
  unfolding fails_def test_def
proof (intro allI impI)
  fix s assume "silent s0 s"
  then show "\<exists>t. chain (call s) (\<lambda>r s. Ret (r \<noteq> - 1) s) = Ret False t \<and> silent s0 t"
    using refuse[OF _ assms(1), of s] by (auto simp: assms(2) silent_def)
qed

lemmas call_unfolds = user_sys_close_def user_sys_dup_def user_sys_read_def user_sys_write_def user_sys_open_def
  user_sys_exec_def user_syscall1_def user_syscall2_def user_syscall3_def

lemma fails_calls:
  "bad_call SYS_CLOSE [scast d] \<Longrightarrow> fails s (test (user_sys_close trap d) (\<lambda>r. r \<noteq> - 1))"
  "bad_call SYS_DUP [scast d] \<Longrightarrow> fails s (test (user_sys_dup trap d) (\<lambda>r. r \<noteq> - 1))"
  "bad_call SYS_READ [scast d, a, n] \<Longrightarrow> fails s (test (user_sys_read trap d a n) (\<lambda>r. r \<noteq> - 1))"
  "bad_call SYS_WRITE [scast d, a, n] \<Longrightarrow> fails s (test (user_sys_write trap d a n) (\<lambda>r. r \<noteq> - 1))"
  "bad_call SYS_OPEN [a, SYS_OPEN_READ] \<Longrightarrow> fails s (test (user_sys_open trap a) (\<lambda>r. r \<noteq> - 1))"
  "bad_call SYS_EXEC [a] \<Longrightarrow> fails s (test (user_sys_exec trap a) (\<lambda>r. r \<noteq> - 1))"
  by (erule fails_test, simp add: call_unfolds)+

lemma checks_say:
  assumes "fails s a" "ready s" "length m = len" "in_stack ok len" "unat n = len"
  shows "says m s (chain (a s) (\<lambda>bad s. chain (complain_if trap bad s) (\<lambda>_ s. chain (store_chars ok m s) (\<lambda>_ s. report trap ok n s))))"
proof -
  obtain t where t: "a s = Ret False t" "silent s t" using assms(1,2) by (auto simp: fails_def silent_def)
  have "says m t (chain (store_chars ok m t) (\<lambda>_ s. report trap ok n s))"
    using t(2) assms(3-5) by (intro report_says) (simp_all add: silent_def)
  then show ?thesis using says_silent[OF t(2)] t(1) by (simp add: complain_if_def)
qed

text \<open>The programs.\<close>

lemma fd_invalid_says:
  assumes "ready s" "in_stack ok 13"
  shows "says (''fdinvalid ok'' @ [CHR 0x0A]) s (user_init_fd_invalid trap ok s)"
  unfolding user_init_fd_invalid_def
  by (rule checks_say[where len = 13]) (use assms in \<open>simp_all add: bad_call_def fails_or_else fails_calls\<close>)

lemma bad_pointers_says:
  assumes "ready s" "in_stack ok 7"
  shows "says (''ptr ok'' @ [CHR 0x0A]) s (user_init_bad_pointers trap ok s)"
  unfolding user_init_bad_pointers_def
  by (rule checks_say[where len = 7]) (use assms in \<open>simp_all add: bad_call_def fails_or_else fails_calls SYS_OPEN_READ_def\<close>)

lemma rw_invalid_says:
  assumes "ready s" "in_stack ok 13" "in_stack v 1"
  shows "says (''rwinvalid ok'' @ [CHR 0x0A]) s (user_init_rw_invalid trap v ok s)"
proof -
  obtain t where t: "store_chars v ''R'' s = Ret () t" "silent s t"
    using store_chars_stack[OF assms(1), of v "''R''"] assms(3) by (auto simp: silent_def)
  show ?thesis
    unfolding user_init_rw_invalid_def t(1) chain.simps(1)
    by (rule says_silent[OF t(2)], rule checks_say[where len = 13])
      (use assms t(2) in \<open>simp_all add: bad_call_def fails_or_else fails_calls silent_def\<close>)
qed

lemma bad_syscall_says:
  assumes "ready s"
  shows "says ''V'' s (user_init_bad_syscall trap s)"
proof -
  have "bad_call 0xFFFF [0]" by (simp add: bad_call_def)
  from refuse[OF assms this] obtain t where t: "trap 0xFFFF [0] s = Ret (- 1) t" "ready t" "serial_out t = serial_out s" by blast
  from putc_prints[OF t(2), of "CHR ''V''"] obtain u where "user_sys_putc trap (CHR ''V'') t = Ret () u" "ready u"
    "serial_out u = serial_out t @ ''V''" by blast
  with t show ?thesis by (auto simp: says_def user_init_bad_syscall_def user_syscall1_def)
qed

end

section \<open>The kernel as an instance\<close>

text \<open>
  \<open>int $0x80\<close> of a user program: the processor switches to the stack of the task state segment, which ends at \<open>rsp0\<close>,
  pushes its five words, and \<open>arch_syscall_entry\<close> the fifteen registers; the number is in slot 14 and the arguments in
  the slots 8, 9 and 11 of the frame, the other words are what the registers hold. When \<open>kernel_syscall_entry\<close> returns
  the same frame, the registers are popped and the program goes on with \<open>rax\<close>; any other frame is another task's.
\<close>

definition trap_frame_words :: "u64 list \<Rightarrow> u64 \<Rightarrow> u64 list \<Rightarrow> u64 list" where
  "trap_frame_words regs number args = fold (\<lambda>(j, v) r. r[j := v]) (zip [8, 9, 11] args) (regs[14 := number])"

definition int80 :: "build \<Rightarrow> addr \<Rightarrow> ('a kernel_state_scheme \<Rightarrow> nat \<Rightarrow> u64) \<Rightarrow> u64 \<Rightarrow> u64 list \<Rightarrow> 'a kernel_state_scheme
    \<Rightarrow> (u64, 'a kernel_state_scheme) outcome" where
  "int80 bld rsp0 regs number args s =
    (let (frame, s) = fold push (rev (trap_frame_words (map (regs s) [0..<20]) number args)) (rsp0, s)
     in chain (kernel_syscall_entry bld frame s) (\<lambda>r s. if r = frame then Ret (frame_rax frame s) s else Halt s))"

text \<open>
  A user task runs on its own page tables with its console open; its stack page is mapped for it, and neither that page
  nor the kernel stack page \<open>P\<close> is a page table or on the free list.
\<close>

definition user_ready :: "addr \<Rightarrow> addr \<Rightarrow> owners \<Rightarrow> addr list \<Rightarrow> 'a sched_state_scheme \<Rightarrow> bool" where
  "user_ready P K ow ps s \<longleftrightarrow> own_tables s K ow ps \<and> sched_current_user_context s = Some (first_user_layout, cr3 s)
     \<and> page_aligned P \<and> unat P + 4096 < 18446744073709551616 \<and> P \<notin> dom ow \<union> set ps
     \<and> (\<exists>e. fd_table_get (sched_current_fd_table s) 1 = Some e \<and> writes_console s (entry_file e))
     \<and> (\<exists>x. translate s (cr3 s) 0x401FF000 = Some x \<and> x AND paging_user \<noteq> 0 \<and> entry_address x \<notin> dom ow \<union> set ps \<union> {P})"

lemma physical_parts:
  "physical_at e v AND NOT 4095 = entry_address e" "physical_at e v AND 4095 = v AND 4095"
proof -
  have m: "paging_address_mask AND NOT 4095 = paging_address_mask" "paging_address_mask AND 4095 = 0"
    by (simp_all add: paging_address_mask_def)
  have z: "(v AND 4095) AND NOT 4095 = 0" "(v AND 4095) AND 4095 = v AND 4095"
    by (simp_all only: and.assoc) simp_all
  have e: "entry_address e AND NOT 4095 = entry_address e" "entry_address e AND 4095 = 0"
    unfolding entry_address_def and.assoc m by simp_all
  show "physical_at e v AND NOT 4095 = entry_address e" "physical_at e v AND 4095 = v AND 4095"
    unfolding physical_at_def and_or_distrib e z by simp_all
qed

lemma word_split_page: "(v AND NOT 4095) OR (v AND 4095) = (v :: addr)"
proof -
  have "(v AND NOT 4095) OR (v AND 4095) = v AND (NOT 4095 OR 4095)" by (rule bit_word_eqI) (auto simp only: bit_simps)
  then show ?thesis by simp
qed

lemma in_stack_page:
  assumes "in_stack x 1"
  shows "x AND NOT 4095 = 0x401FF000" "translate s r x = translate s r 0x401FF000"
proof -
  have d: "unat x div 4096 = 0x401FF" using assms by (intro div_nat_eqI) (simp_all add: in_stack_def)
  then have "unat (x AND NOT 4095) = unat (0x401FF000 :: addr)" by (simp add: unat_page_floor_minus)
  then show p: "x AND NOT 4095 = 0x401FF000" by (simp only: word_unat_eq_iff)
  show "translate s r x = translate s r 0x401FF000"
    by (intro translate_same_page same_page_div) (simp add: d)
qed

lemma stack_entry:
  assumes "user_ready P K ow ps s"
  obtains x where "\<forall>a. in_stack a 1 \<longrightarrow> translate s (cr3 s) a = Some x" "x AND paging_user \<noteq> 0"
    "entry_address x \<notin> dom ow \<union> set ps" "entry_address x \<noteq> P"
  using assms in_stack_page(2) unfolding user_ready_def by (metis UnCI insertCI)

text \<open>What a step may change without the task noticing.\<close>

definition unnoticed :: "owners \<Rightarrow> addr list \<Rightarrow> 'a sched_state_scheme \<Rightarrow> 'a sched_state_scheme \<Rightarrow> bool" where
  "unnoticed ow ps s t \<longleftrightarrow> (\<forall>x \<in> covered ow ps. mem t x = mem s x) \<and> free_list_head t = free_list_head s
     \<and> free_page_count t = free_page_count s \<and> cr3 t = cr3 s \<and> current t = current s \<and> tasks t = tasks s
     \<and> nodes t = nodes s \<and> (\<forall>f. file_node (files t f) = file_node (files s f) \<and> file_access (files t f) = file_access (files s f))"

lemma unnoticed_refl [simp]: "unnoticed ow ps s s"
  by (simp add: unnoticed_def)

lemma unnoticed_trans: "unnoticed ow ps s t \<Longrightarrow> unnoticed ow ps t u \<Longrightarrow> unnoticed ow ps s u"
  by (simp add: unnoticed_def)

lemma unnoticed_translate:
  assumes "user_ready P K ow ps s" "unnoticed ow ps s t"
  shows "translate t (cr3 t) v = translate s (cr3 s) v"
proof -
  have "table_inv s K ow ps" "ow (cr3 s) = Some (cr3 s, [])" using assms(1) by (simp_all add: user_ready_def own_tables_def)
  then show ?thesis using translate_outside[of s K ow ps t "cr3 s" v] assms(2) by (simp add: unnoticed_def)
qed

lemma user_ready_step:
  assumes r: "user_ready P K ow ps s" and u: "unnoticed ow ps s t"
  shows "user_ready P K ow ps t"
proof -
  have c: "sched_current_user_context t = sched_current_user_context s" "sched_current_fd_table t = sched_current_fd_table s"
  proof -
    have e: "tasks t = tasks s" "current t = current s" using u by (simp_all add: unnoticed_def)
    show "sched_current_user_context t = sched_current_user_context s" "sched_current_fd_table t = sched_current_fd_table s"
      unfolding sched_current_user_context_def running_user_def sched_current_fd_table_def e by (rule refl)+
  qed
  have "table_inv t K ow ps"
    by (rule table_inv_outside[of s]) (use r u in \<open>simp_all add: user_ready_def own_tables_def unnoticed_def\<close>)
  moreover have "writes_console t f = writes_console s f" for f
    using u by (simp add: writes_console_def unnoticed_def)
  moreover have "cr3 t = cr3 s" using u by (simp add: unnoticed_def)
  ultimately show ?thesis
    using r unnoticed_translate[OF r u, of "0x401FF000"] unfolding user_ready_def own_tables_def c by simp
qed

text \<open>Bytes of the user stack, read after memory elsewhere has changed.\<close>

lemma user_byte_step:
  assumes r: "user_ready P K ow ps s" and u: "unnoticed ow ps s t" and a: "in_stack a 1"
    and m: "\<And>x. x AND NOT 4095 \<noteq> P \<Longrightarrow> mem t x = mem s x"
  shows "user_byte t a = user_byte s a"
proof -
  obtain x where x: "\<forall>a. in_stack a 1 \<longrightarrow> translate s (cr3 s) a = Some x" "x AND paging_user \<noteq> 0"
    "entry_address x \<notin> dom ow \<union> set ps" "entry_address x \<noteq> P" by (rule stack_entry[OF r])
  have "mem t (physical_at x a) = mem s (physical_at x a)" using m[of "physical_at x a"] x(4) unfolding physical_parts by blast
  then show ?thesis using x(1) a unnoticed_translate[OF r u, of a] by (simp add: user_byte_def)
qed

lemma user_store:
  assumes r: "user_ready P K ow ps s" and a: "in_stack a 1"
  shows "\<exists>t. store8 a b s = Ret () t \<and> user_ready P K ow ps t \<and> serial_out t = serial_out s
    \<and> (\<forall>x. in_stack x 1 \<longrightarrow> user_byte t x = (if x = a then b else user_byte s x))"
proof -
  obtain x where x: "\<forall>a. in_stack a 1 \<longrightarrow> translate s (cr3 s) a = Some x" "x AND paging_user \<noteq> 0"
    "entry_address x \<notin> dom ow \<union> set ps" "entry_address x \<noteq> P" by (rule stack_entry[OF r])
  let ?t = "s\<lparr>mem := (mem s)(physical_at x a := b)\<rparr>"
  have "physical_at x a \<notin> covered ow ps" using x(3) unfolding covered_def mem_Collect_eq physical_parts .
  then have u: "unnoticed ow ps s ?t" by (auto simp: unnoticed_def)
  have "user_byte ?t y = (if y = a then b else user_byte s y)" if y: "in_stack y 1" for y
  proof -
    have "physical_at x y = physical_at x a \<longleftrightarrow> y = a"
    proof
      assume p: "physical_at x y = physical_at x a"
      then have "y AND 4095 = a AND 4095" using physical_parts(2)[of x y] physical_parts(2)[of x a] by simp
      moreover have "y AND NOT 4095 = a AND NOT 4095" using in_stack_page(1) y a by simp
      ultimately show "y = a" using word_split_page[of y] word_split_page[of a] by metis
    qed simp
    then show ?thesis using x(1) y unnoticed_translate[OF r u, of y] by (simp add: user_byte_def)
  qed
  moreover have "store8 a b s = Ret () ?t" using x(1) a by (simp add: store8_def)
  ultimately show ?thesis using user_ready_step[OF r u] by (intro exI[of _ ?t]) simp
qed

text \<open>Entering the kernel: the frame is at \<open>P + 3936\<close> and its words are where the kernel looks for them.\<close>

lemma outside_page:
  assumes "page_aligned P" "unat P + 4096 < 18446744073709551616" "x AND NOT 4095 \<noteq> P"
  shows "unat x < unat P \<or> unat P + 4096 \<le> unat x"
proof (rule ccontr)
  assume "\<not> ?thesis"
  then have i: "unat P \<le> unat x" "unat x < unat P + 4096" by simp_all
  then have d: "unat x - unat P = unat (x - P)" by (simp add: unat_sub word_le_nat_alt)
  have "x = P + of_nat (unat x - unat P)" unfolding d by simp
  then show False using same_page_offset(1)[OF assms(1), of "unat x - unat P"] assms(3) i by simp
qed

lemma covered_off: "P \<notin> dom ow \<union> set ps \<Longrightarrow> x \<in> covered ow ps \<Longrightarrow> x AND NOT 4095 \<noteq> P"
  by (auto simp: covered_def)

lemma frame_words:
  assumes r: "user_ready P K ow ps s" and w: "length ws = 20"
  obtains t where "fold push (rev ws) (P + 4096, s) = (P + 3936, t)" "t = s\<lparr>mem := mem t\<rparr>"
    "\<forall>x. x AND NOT 4095 \<noteq> P \<longrightarrow> mem t x = mem s x" "unnoticed ow ps s t"
    "frame_rdi (P + 3936) t = ws ! 8" "frame_rsi (P + 3936) t = ws ! 9" "frame_rdx (P + 3936) t = ws ! 11" "frame_rax (P + 3936) t = ws ! 14"
proof -
  have P: "page_aligned P" "unat P + 4096 < 18446744073709551616" "P \<notin> dom ow \<union> set ps" using r by (simp_all add: user_ready_def)
  note top = page_top[OF P(1,2)]
  have len: "8 * length (rev ws) \<le> unat (P + 4096)" using top(2) w by simp
  from fold_push_spec[OF top(1) len, of s] obtain t where t: "fold push (rev ws) (P + 4096, s) = (P + 4096 - 8 * of_nat (length (rev ws)), t)"
    "t = s\<lparr>mem := mem t\<rparr>" "\<forall>a. unat a < unat (P + 4096) - 8 * length (rev ws) \<or> unat (P + 4096) \<le> unat a \<longrightarrow> mem t a = mem s a" by blast
  have rsp: "P + 4096 - 8 * of_nat (length (rev ws)) = P + 3936" using w by simp
  have fr: "fold push (rev ws) (P + 4096, s) = (P + 3936, t)" using t(1) unfolding rsp .
  have m: "mem t x = mem s x" if "x AND NOT 4095 \<noteq> P" for x
    using outside_page[OF P(1,2) that] t(3) top(2) w by auto
  have word: "load64 t (P + 3936 + 8 * of_nat j) = ws ! j" if "j < 20" for j
    using fold_push_words(2)[OF top(1) len fr, of j] that w by (simp add: rev_nth)
  have c: "\<forall>x \<in> covered ow ps. mem t x = mem s x" using m covered_off[OF P(3)] by blast
  have "unnoticed ow ps s (s\<lparr>mem := mem t\<rparr>)" using c by (simp add: unnoticed_def)
  then have "unnoticed ow ps s t" using t(2) by simp
  show ?thesis
    by (rule that[OF fr t(2) _ \<open>unnoticed ow ps s t\<close>]) (use m word[of 8] word[of 9] word[of 11] word[of 14] in
        \<open>simp_all add: frame_rdi_def frame_rsi_def frame_rdx_def frame_rax_def add.assoc\<close>)
qed

lemma return_in_page:
  assumes "page_aligned P" "x AND NOT 4095 \<noteq> P"
  shows "mem (syscall_return (P + 3936) v s) x = mem s x"
proof -
  have "\<not> x - (P + 3936 + 112) < 8"
  proof
    assume d: "x - (P + 3936 + 112) < 8"
    define k where "k = unat (x - (P + 3936 + 112))"
    have k: "k < 8" using d by (simp add: k_def word_less_nat_alt)
    have "of_nat k = x - (P + 3936 + 112)" by (simp add: k_def)
    then have "x = P + of_nat (4048 + k)" by simp
    then show False using same_page_offset(1)[OF assms(1), of "4048 + k"] k assms(2) by simp
  qed
  then show ?thesis by (simp add: syscall_return_def store64_def wr64_def)
qed

lemma frame_rax_return: "frame_rax f (syscall_return f v s) = v"
  by (simp add: frame_rax_def syscall_return_def load64_def store64_def)

text \<open>A call that returns to its frame with a result and changes nothing else the task can notice.\<close>

lemma int80_returns:
  assumes r: "user_ready P K ow ps s"
    and k: "\<And>t. user_ready P K ow ps t \<Longrightarrow> unnoticed ow ps s t \<Longrightarrow> serial_out t = serial_out s
       \<Longrightarrow> (\<forall>x. in_stack x 1 \<longrightarrow> user_byte t x = user_byte s x)
       \<Longrightarrow> frame_rax (P + 3936) t = trap_frame_words (map (regs s) [0..<20]) number args ! 14 \<Longrightarrow> frame_rdi (P + 3936) t = trap_frame_words (map (regs s) [0..<20]) number args ! 8
       \<Longrightarrow> frame_rsi (P + 3936) t = trap_frame_words (map (regs s) [0..<20]) number args ! 9 \<Longrightarrow> frame_rdx (P + 3936) t = trap_frame_words (map (regs s) [0..<20]) number args ! 11
       \<Longrightarrow> \<exists>u. kernel_syscall_entry bld (P + 3936) t = Ret (P + 3936) (syscall_return (P + 3936) v u) \<and> unnoticed ow ps t u
            \<and> mem u = mem t \<and> serial_out u = serial_out s @ m"
  shows "\<exists>u. int80 bld (P + 4096) regs number args s = Ret v u \<and> user_ready P K ow ps u \<and> serial_out u = serial_out s @ m
    \<and> (\<forall>x. in_stack x 1 \<longrightarrow> user_byte u x = user_byte s x)"
proof -
  have P: "page_aligned P" "P \<notin> dom ow \<union> set ps" using r by (simp_all add: user_ready_def)
  have len: "length (trap_frame_words (map (regs s) [0..<20]) number args) = 20"
  proof -
    have "length (fold (\<lambda>(j, v) r. r[j := v]) xs l) = length l" for xs :: "(nat \<times> u64) list" and l
      by (induction xs arbitrary: l) auto
    then show ?thesis by (simp add: trap_frame_words_def)
  qed
  obtain t where t: "fold push (rev (trap_frame_words (map (regs s) [0..<20]) number args)) (P + 4096, s) = (P + 3936, t)" "t = s\<lparr>mem := mem t\<rparr>"
    "\<forall>x. x AND NOT 4095 \<noteq> P \<longrightarrow> mem t x = mem s x" "unnoticed ow ps s t"
    "frame_rdi (P + 3936) t = trap_frame_words (map (regs s) [0..<20]) number args ! 8" "frame_rsi (P + 3936) t = trap_frame_words (map (regs s) [0..<20]) number args ! 9"
    "frame_rdx (P + 3936) t = trap_frame_words (map (regs s) [0..<20]) number args ! 11" "frame_rax (P + 3936) t = trap_frame_words (map (regs s) [0..<20]) number args ! 14"
    by (rule frame_words[OF r len])
  have rt: "user_ready P K ow ps t" by (rule user_ready_step[OF r t(4)])
  have so: "serial_out t = serial_out s" by (subst t(2)) simp
  have bt: "\<forall>x. in_stack x 1 \<longrightarrow> user_byte t x = user_byte s x" using user_byte_step[OF r t(4)] t(3) by blast
  from k[OF rt t(4) so bt t(8,5,6,7)] obtain u where u: "kernel_syscall_entry bld (P + 3936) t = Ret (P + 3936) (syscall_return (P + 3936) v u)"
    "unnoticed ow ps t u" "mem u = mem t" "serial_out u = serial_out s @ m" by blast
  let ?u = "syscall_return (P + 3936) v u"
  have m: "mem ?u x = mem u x" if "x AND NOT 4095 \<noteq> P" for x by (rule return_in_page[OF P(1) that])
  have "\<forall>x \<in> covered ow ps. mem ?u x = mem u x" using m covered_off[OF P(2)] by blast
  then have "unnoticed ow ps u ?u" by (simp add: unnoticed_def) (simp add: syscall_return_def store64_def)
  then have uu: "unnoticed ow ps t ?u" by (rule unnoticed_trans[OF u(2)])
  have "user_byte ?u x = user_byte s x" if "in_stack x 1" for x
    using user_byte_step[OF rt uu that] m u(3) bt that by simp
  moreover have "int80 bld (P + 4096) regs number args s = Ret v ?u"
    by (simp add: int80_def t(1) u(1) frame_rax_return)
  moreover have "serial_out ?u = serial_out u" by (simp add: syscall_return_def store64_def)
  ultimately show ?thesis using user_ready_step[OF rt uu] u(4) by (intro exI[of _ ?u]) simp
qed

lemma trap_frame_slots:
  assumes "length regs = 20"
  shows "trap_frame_words regs n [a] ! 14 = n" "trap_frame_words regs n [a] ! 8 = a"
    "trap_frame_words regs n [a, b] ! 14 = n" "trap_frame_words regs n [a, b] ! 8 = a"
    "trap_frame_words regs n [a, b, c] ! 14 = n" "trap_frame_words regs n [a, b, c] ! 8 = a"
    "trap_frame_words regs n [a, b, c] ! 9 = b" "trap_frame_words regs n [a, b, c] ! 11 = c"
  using assms by (simp_all add: trap_frame_words_def)

lemma never_open: "fd_table_get T (- 1) = None" "fd_table_get T 99 = None"
  by (auto simp: fd_table_get_def fd_in_range_def fd_table_capacity_def split: option.split)

lemma bad_call_refused:
  assumes r: "user_ready P K ow ps t" and b: "bad_call number args" and len: "length regs = 20"
    and n: "frame_rax f t = trap_frame_words regs number args ! 14" "frame_rdi f t = trap_frame_words regs number args ! 8"
      "frame_rsi f t = trap_frame_words regs number args ! 9" "frame_rdx f t = trap_frame_words regs number args ! 11"
  shows "kernel_syscall_entry bld f t = Ret f (syscall_return f (- 1) t)"
proof -
  have own: "own_tables t K ow ps" and ctx: "sched_current_user_context t = Some (first_user_layout, cr3 t)"
    using r by (simp_all add: user_ready_def)
  have m: "(ucast (- 1 :: u64) :: i32) = - 1" by (rule bit_word_eqI) (simp add: bit_simps)
  have buf: "\<not> buffer_ok first_user_layout t a n" if "n \<noteq> 0" "unat a < 0x40000000 \<or> 0x40200000 < unat a + unat n" for a n
    using that by (auto simp: buffer_ok_def first_user_layout_def word_le_nat_alt)
  have no_path: "\<not> path_at first_user_layout t 0x50000000 p" for p
    by (rule path_at_bad) (simp add: path_byte_ok_def first_user_layout_def)
  note slots = trap_frame_slots[OF len]
  consider (unknown) "9 < number" "args = [0]"
    | (descriptor) d where "number \<in> {SYS_CLOSE, SYS_DUP}" "args = [d]" "d = - 1 \<or> d = 99"
    | (buffer) d a n where "number \<in> {SYS_READ, SYS_WRITE}" "args = [d, a, n]"
        "(d = - 1 \<or> d = 99) \<or> n \<noteq> 0 \<and> (unat a < 0x40000000 \<or> 0x40200000 < unat a + unat n)"
    | (path) "number = SYS_OPEN \<and> args = [0x50000000, 1] \<or> number = SYS_EXEC \<and> args = [0x50000000]"
    using b unfolding bad_call_def by blast
  then have "refused t (frame_rax f t) (frame_rdi f t) (frame_rsi f t) (frame_rdx f t)"
  proof cases
    case unknown
    then show ?thesis unfolding n refused_def by (simp add: slots)
  next
    case (descriptor d)
    then have "fd_table_get (sched_current_fd_table t) (ucast d) = None" using never_open m by auto
    then show ?thesis using descriptor unfolding n refused_def by (simp add: slots)
  next
    case (buffer d a n)
    then have "fd_table_get (sched_current_fd_table t) (ucast d) = None \<or> \<not> buffer_ok first_user_layout t a n"
      using never_open m buf[of n a] by auto
    then show ?thesis using buffer ctx unfolding assms(4-7) refused_def by (auto simp: slots)
  next
    case path
    then show ?thesis using ctx no_path unfolding n refused_def by (auto simp: slots)
  qed
  then show ?thesis by (rule refused_calls_spec[OF own, unfolded SYS_RESULT_ERROR_def])
qed

lemma int80_refuse:
  fixes s :: "'a kernel_state_scheme"
  assumes "user_ready P K ow ps s" "bad_call number args"
  shows "\<exists>t. int80 bld (P + 4096) regs number args s = Ret (- 1) t \<and> user_ready P K ow ps t \<and> serial_out t = serial_out s
    \<and> (\<forall>x. in_stack x 1 \<longrightarrow> user_byte t x = user_byte s x)"
proof -
  have "\<exists>u. int80 bld (P + 4096) regs number args s = Ret (- 1) u \<and> user_ready P K ow ps u \<and> serial_out u = serial_out s @ []
    \<and> (\<forall>x. in_stack x 1 \<longrightarrow> user_byte u x = user_byte s x)"
  proof (rule int80_returns[where regs = regs, OF assms(1)])
    fix t :: "'a kernel_state_scheme"
    assume t: "user_ready P K ow ps t" "serial_out t = serial_out s"
      "frame_rax (P + 3936) t = trap_frame_words (map (regs s) [0..<20]) number args ! 14" "frame_rdi (P + 3936) t = trap_frame_words (map (regs s) [0..<20]) number args ! 8"
      "frame_rsi (P + 3936) t = trap_frame_words (map (regs s) [0..<20]) number args ! 9" "frame_rdx (P + 3936) t = trap_frame_words (map (regs s) [0..<20]) number args ! 11"
    show "\<exists>u. kernel_syscall_entry bld (P + 3936) t = Ret (P + 3936) (syscall_return (P + 3936) (- 1) u) \<and> unnoticed ow ps t u
      \<and> mem u = mem t \<and> serial_out u = serial_out s @ []"
      using bad_call_refused[OF t(1) assms(2) _ t(3-6), of bld] t(2) by (intro exI[of _ t]) simp
  qed
  then show ?thesis by simp
qed

lemma int80_putc:
  fixes s :: "'a kernel_state_scheme"
  assumes "user_ready P K ow ps s"
  shows "\<exists>t. int80 bld (P + 4096) regs SYS_PUTC [ucast (c :: u8)] s = Ret 0 t \<and> user_ready P K ow ps t
    \<and> serial_out t = serial_out s @ [byte_to_char c]"
proof -
  have "(ucast c :: u64) AND 0xFF = take_bit 8 (ucast c)" by (simp add: take_bit_eq_mask mask_eq_exp_minus_1)
  then have c: "ucast ((ucast c :: u64) AND 0xFF) = c" by (simp only:) (rule bit_word_eqI, auto simp: bit_simps)
  have "\<exists>u. int80 bld (P + 4096) regs SYS_PUTC [ucast c] s = Ret 0 u \<and> user_ready P K ow ps u
    \<and> serial_out u = serial_out s @ [byte_to_char c] \<and> (\<forall>x. in_stack x 1 \<longrightarrow> user_byte u x = user_byte s x)"
  proof (rule int80_returns[where regs = regs, OF assms])
    fix t :: "'a kernel_state_scheme"
    assume t: "serial_out t = serial_out s" "frame_rax (P + 3936) t = trap_frame_words (map (regs s) [0..<20]) SYS_PUTC [ucast c] ! 14"
      "frame_rdi (P + 3936) t = trap_frame_words (map (regs s) [0..<20]) SYS_PUTC [ucast c] ! 8"
    have "frame_rax (P + 3936) t = SYS_PUTC" "frame_rdi (P + 3936) t = ucast c"
      using t(2,3) by (simp_all add: trap_frame_slots)
    then have "kernel_syscall_entry bld (P + 3936) t
      = Ret (P + 3936) (syscall_return (P + 3936) 0 (serial_write [byte_to_char c] t))"
      by (simp add: kernel_syscall_entry_def syscall_result_def SYS_RESULT_OK_def c)
    then show "\<exists>u. kernel_syscall_entry bld (P + 3936) t = Ret (P + 3936) (syscall_return (P + 3936) 0 u) \<and> unnoticed ow ps t u
      \<and> mem u = mem t \<and> serial_out u = serial_out s @ [byte_to_char c]"
      using t(1) by (intro exI[of _ "serial_write [byte_to_char c] t"]) (simp add: unnoticed_def serial_write_def)
  qed
  then show ?thesis by blast
qed

lemma int80_write:
  fixes s :: "'a kernel_state_scheme"
  assumes r: "user_ready P K ow ps s" and a: "in_stack a (unat n)"
  shows "\<exists>t. int80 bld (P + 4096) regs SYS_WRITE [1, a, n] s = Ret n t \<and> user_ready P K ow ps t
    \<and> serial_out t = serial_out s @ map (\<lambda>k. byte_to_char (user_byte s (a + of_nat k))) [0..<unat n]"
proof -
  have off: "in_stack (a + of_nat k) 1" if "k < unat n" for k
  proof -
    have "unat a + k < 18446744073709551616" "k < 18446744073709551616" using a that by (simp_all add: in_stack_def)
    then have "unat (a + of_nat k) = unat a + k" by (simp add: unat_word_ariths unat_of_nat)
    then show ?thesis using a that by (simp add: in_stack_def)
  qed
  let ?m = "map (\<lambda>k. byte_to_char (user_byte s (a + of_nat k))) [0..<unat n]"
  have "\<exists>u. int80 bld (P + 4096) regs SYS_WRITE [1, a, n] s = Ret n u \<and> user_ready P K ow ps u
    \<and> serial_out u = serial_out s @ ?m \<and> (\<forall>x. in_stack x 1 \<longrightarrow> user_byte u x = user_byte s x)"
  proof (rule int80_returns[where regs = regs, OF r])
    fix t :: "'a kernel_state_scheme"
    assume t: "user_ready P K ow ps t" "serial_out t = serial_out s"
      "\<forall>x. in_stack x 1 \<longrightarrow> user_byte t x = user_byte s x"
      "frame_rax (P + 3936) t = trap_frame_words (map (regs s) [0..<20]) SYS_WRITE [1, a, n] ! 14"
      "frame_rdi (P + 3936) t = trap_frame_words (map (regs s) [0..<20]) SYS_WRITE [1, a, n] ! 8"
      "frame_rsi (P + 3936) t = trap_frame_words (map (regs s) [0..<20]) SYS_WRITE [1, a, n] ! 9"
      "frame_rdx (P + 3936) t = trap_frame_words (map (regs s) [0..<20]) SYS_WRITE [1, a, n] ! 11"
    have f: "frame_rax (P + 3936) t = SYS_WRITE" "frame_rdi (P + 3936) t = 1" "frame_rsi (P + 3936) t = a" "frame_rdx (P + 3936) t = n"
      using t(4-7) by (simp_all add: trap_frame_slots)
    obtain e where e: "fd_table_get (sched_current_fd_table t) 1 = Some e" "writes_console t (entry_file e)"
      using t(1) by (auto simp: user_ready_def)
    obtain x where x: "\<forall>a. in_stack a 1 \<longrightarrow> translate t (cr3 t) a = Some x" "x AND paging_user \<noteq> 0"
      "entry_address x \<notin> dom ow \<union> set ps" "entry_address x \<noteq> P" by (rule stack_entry[OF t(1)])
    have "a \<noteq> 0" using a by (auto simp: in_stack_def)
    moreover have "trampoline_base first_user_layout \<le> a" "unat a + unat n \<le> unat (stack_top first_user_layout)"
      using a by (simp_all add: in_stack_def first_user_layout_def word_le_nat_alt)
    moreover have "user_accessible t (cr3 t) (a + of_nat k)" if "k < unat n" for k
      using x(1,2) off[OF that] by (simp add: user_accessible_def)
    ultimately have b: "buffer_ok first_user_layout t a n" by (simp add: buffer_ok_def)
    have "own_tables t K ow ps" "sched_current_user_context t = Some (first_user_layout, cr3 t)"
      using t(1) by (simp_all add: user_ready_def)
    moreover have "fd_table_get (sched_current_fd_table t) (ucast (frame_rdi (P + 3936) t)) = Some e" using e(1) f(2) by simp
    moreover have "unat (stack_top first_user_layout) < 2147483648" by (simp add: first_user_layout_def)
    ultimately have k: "kernel_syscall_entry bld (P + 3936) t = Ret (P + 3936) (syscall_return (P + 3936) n (console_written (entry_file e) a n t))"
      using console_write_spec[OF _ _ f(1) _ e(2), of K ow ps first_user_layout "cr3 t" bld] b f(3,4) by simp
    have "user_text t a (unat n) = ?m"
      using t(3) off by (auto simp: user_text_def)
    then have "unnoticed ow ps t (console_written (entry_file e) a n t) \<and> mem (console_written (entry_file e) a n t) = mem t
      \<and> serial_out (console_written (entry_file e) a n t) = serial_out s @ ?m"
      using t(2) by (simp add: unnoticed_def console_written_def advance_offset_def put_file_def serial_write_def)
    with k show "\<exists>u. kernel_syscall_entry bld (P + 3936) t = Ret (P + 3936) (syscall_return (P + 3936) n u) \<and> unnoticed ow ps t u
      \<and> mem u = mem t \<and> serial_out u = serial_out s @ ?m" by blast
  qed
  then show ?thesis by blast
qed

interpretation kernel_abi: console_abi "int80 bld (P + 4096) regs" "user_ready P K ow ps" user_byte for bld P regs K ow ps
  by unfold_locales (erule user_store int80_refuse int80_putc int80_write, assumption?)+

section \<open>The test programs pass\<close>

text \<open>What the programs that check the error paths report, each with the locals it needs.\<close>

definition passes :: "(init_variant \<times> string) list" where
  "passes = [(TEST_FD_INVALID, ''fdinvalid ok'' @ [CHR 0x0A]), (TEST_RW_INVALID, ''rwinvalid ok'' @ [CHR 0x0A]),
     (TEST_BAD_POINTERS, ''ptr ok'' @ [CHR 0x0A]), (TEST_BAD_SYSCALL, ''V'')]"

text \<open>
  C4: The programs and the kernel together: each of the four \<open>init.c\<close> variants that test the error paths, run as a user
  task through \<open>int $0x80\<close> on any kernel state that is ready for it, prints exactly its success line, byte by byte
  through the page tables, and then makes its final \<open>user_sys_exit\<close> call; none of them complains, faults or stops
  earlier.
\<close>

theorem init_tests_pass:
  assumes "user_ready P K ow ps s" "in_stack (at ''ok'') 13" "in_stack (at ''value'') 1" "(v, m) \<in> set passes"
  shows "\<exists>t. user_init_main_of v at (int80 bld (P + 4096) regs) s = user_sys_exit (int80 bld (P + 4096) regs) t
    \<and> serial_out t = serial_out s @ m \<and> user_ready P K ow ps t"
proof -
  have "in_stack (at ''ok'') 7" using assms(2) by (simp add: in_stack_def)
  then show ?thesis
    using assms(4) kernel_abi.fd_invalid_says[OF assms(1,2), of bld regs] kernel_abi.rw_invalid_says[OF assms(1-3), of bld regs]
      kernel_abi.bad_pointers_says[OF assms(1), of "at ''ok''" bld regs] kernel_abi.bad_syscall_says[OF assms(1), of bld regs]
    by (auto simp: passes_def user_init_main_of_def kernel_abi.says_def)
qed

end
