(* ===== verification/AbiSamples.thy ===== *)
theory AbiSamples
  imports Abi
begin

text \<open>A kernel state with a running user task, and the properties of the system calls and of the programs applied to it.\<close>

section \<open>A user task\<close>

text \<open>The address space of \<open>two_roots\<close> with one stack page mapped.\<close>

lemma mapped_stack:
  "\<exists>s ow ps. table_inv (s :: paging_state) 0x02000000 ow ps \<and> ow 0x02001000 = Some (0x02001000, [])
     \<and> translate s 0x02001000 0x401FF000 = Some (PagingMap.user_entry 0x02100000)
     \<and> (\<forall>p \<in> dom ow \<union> set ps. p \<in> dom two_owners \<or> 0x03000000 \<le> unat p \<and> unat p < 0x04000000)"
proof -
  have o: "two_owners 0x02001000 = Some (0x02001000, [])" "(0x02001000 :: addr) \<noteq> 0x02000000" by (simp_all add: two_owners_def)
  have top: "is_present (entry_at two_roots 0x02001000 (pml4_index 0x401FF000))"
    using two_roots_entries[of "0x02001000" 0] by (simp add: pml4_index_def is_present_def paging_present_def)
  have l: "length (rev (pool_pages 16)) = 16" by (simp add: pool_pages_def region_pages_def)
  from map_user_page_spec[OF two_roots_inv o two_roots_kernel top, of "0x02100000"] obtain t ow ps where t:
    "table_inv t 0x02000000 ow ps" "two_owners \<subseteq>\<^sub>m ow" "\<exists>ns. rev (pool_pages 16) = ns @ ps \<and> dom ow = dom two_owners \<union> set ns"
    "if paging_map_user_page 0x02001000 0x401FF000 0x02100000 two_roots = Ret () t then
       (\<forall>x v. two_owners x = Some (x, []) \<longrightarrow> translate t x v =
         (if x = 0x02001000 \<and> same_page v 0x401FF000 then Some (PagingMap.user_entry 0x02100000) else translate two_roots x v))
     else paging_map_user_page 0x02001000 0x401FF000 0x02100000 two_roots = Halt t \<and> length (rev (pool_pages 16)) \<le> 5
       \<and> (\<forall>x v. two_owners x = Some (x, []) \<longrightarrow> translate t x v = translate two_roots x v)" by blast
  from t(3) obtain ns where ns: "rev (pool_pages 16) = ns @ ps" "dom ow = dom two_owners \<union> set ns" by blast
  have tr: "translate t 0x02001000 0x401FF000 = Some (PagingMap.user_entry 0x02100000)"
    using t(4) o(1) l by (simp add: same_page_def split: if_splits)
  have "p \<in> dom two_owners \<or> 0x03000000 \<le> unat p \<and> unat p < 0x04000000" if "p \<in> dom ow \<union> set ps" for p
  proof -
    have "set ns \<union> set ps = set (pool_pages 16)" using arg_cong[OF ns(1), of set] by simp
    then have "p \<in> dom two_owners \<or> p \<in> set (pool_pages 16)" using that ns(2) by auto
    then show ?thesis using pool_page[of 16 p] by auto
  qed
  with t(1) tr map_le_Some[OF t(2) o(1)] show ?thesis by blast
qed

definition user_task :: task where
  "user_task = blank_task\<lparr>state := TASK_RUNNING, task_kind := TASK_USER, task_fd_table := console_table 0x9020 0x9060 0x90A0,
     user_bootstrap := cleared_bootstrap\<lparr>layout := first_user_layout, address_space := 0x02001000\<rparr>\<rparr>"

definition user_kernel :: "paging_state \<Rightarrow> kernel_state" where
  "user_kernel s = blank_kernel\<lparr>mem := mem s, free_list_head := free_list_head s, free_page_count := free_page_count s,
     cr3 := 0x02001000, current := Some Task0, tasks := (\<lambda>_. user_task),
     nodes := (\<lambda>_. output_node 2 0x8020), files := (\<lambda>_. new_file (HeapNode 0x8040) VFS_ACCESS_WRITE)\<rparr>"

lemma user_kernel_ready: "\<exists>s ow ps. user_ready 0x05000000 0x02000000 ow ps (user_kernel s)"
proof -
  obtain s :: paging_state and ow ps where s: "table_inv s 0x02000000 ow ps" "ow 0x02001000 = Some (0x02001000, [])"
    "translate s 0x02001000 0x401FF000 = Some (PagingMap.user_entry 0x02100000)"
    "\<forall>p \<in> dom ow \<union> set ps. p \<in> dom two_owners \<or> 0x03000000 \<le> unat p \<and> unat p < 0x04000000"
    using mapped_stack by blast
  let ?k = "user_kernel s"
  have "table_inv ?k 0x02000000 ow ps" by (rule table_inv_outside[OF s(1)]) (simp_all add: user_kernel_def)
  moreover have "translate ?k 0x02001000 v = translate s 0x02001000 v" for v by (rule translate_mem) (simp add: user_kernel_def)
  moreover have c: "cr3 ?k = 0x02001000" "sched_current_fd_table ?k = Some (console_table 0x9020 0x9060 0x90A0)"
    "sched_current_user_context ?k = Some (first_user_layout, 0x02001000)"
    by (simp_all add: user_kernel_def sched_current_fd_table_def sched_current_user_context_def running_user_def user_task_def)
  moreover have "fd_table_get (Some (console_table 0x9020 0x9060 0x90A0)) 1 = Some (console_entry 0x9060)"
    using fd_table_get_nth[of 1 "console_table 0x9020 0x9060 0x90A0"]
    by (simp add: console_table_def empty_table_def console_entry_def)
  moreover have "writes_console ?k (entry_file (console_entry 0x9060))"
    by (simp add: writes_console_def console_entry_def user_kernel_def output_node_def new_file_def VFS_ACCESS_WRITE_def)
  moreover have "0x05000000 \<notin> dom ow \<union> set ps" "0x02100000 \<notin> dom ow \<union> set ps"
    using s(4)[rule_format, of "0x05000000"] s(4)[rule_format, of "0x02100000"] by (auto simp: two_owners_def)
  moreover have "PagingMap.user_entry 0x02100000 AND paging_user \<noteq> 0" "entry_address (PagingMap.user_entry 0x02100000) = 0x02100000"
    using user_entry_present(2) user_entry_address[of "0x02100000"] by simp_all
  ultimately have "user_ready 0x05000000 0x02000000 ow ps ?k"
    using s(2,3) by (simp add: user_ready_def own_tables_def page_aligned_def)
  then show ?thesis by blast
qed

section \<open>The properties on it\<close>

theorem init_tests_pass_witness:
  "\<exists>(s :: kernel_state) t. user_init_main_of TEST_BAD_SYSCALL (\<lambda>_. 0x401FF800) (int80 blank_build 0x05001000 (\<lambda>_ _. 7)) s
      = user_sys_exit (int80 blank_build 0x05001000 (\<lambda>_ _. 7)) t \<and> serial_out t = serial_out s @ ''V''"
proof -
  obtain s ow ps where r: "user_ready 0x05000000 0x02000000 ow ps (user_kernel s)" using user_kernel_ready by blast
  have "in_stack 0x401FF800 13" "in_stack 0x401FF800 1" "(TEST_BAD_SYSCALL, ''V'') \<in> set passes"
    by (simp_all add: in_stack_def passes_def)
  from init_tests_pass [OF r this, where bld = blank_build and regs = "\<lambda>_ _. 7"] show ?thesis by auto
qed

text \<open>The task in the kernel, with a frame of the given words.\<close>

lemma user_kernel_frame:
  assumes "length ws = 20"
  obtains t ow ps where "user_ready 0x05000000 0x02000000 ow ps (t :: kernel_state)"
    "frame_rdi 0x05000F60 t = ws ! 8" "frame_rsi 0x05000F60 t = ws ! 9" "frame_rdx 0x05000F60 t = ws ! 11" "frame_rax 0x05000F60 t = ws ! 14"
proof -
  obtain s ow ps where r: "user_ready 0x05000000 0x02000000 ow ps (user_kernel s)" using user_kernel_ready by blast
  obtain t where "unnoticed ow ps (user_kernel s) t" "frame_rdi (0x05000000 + 3936) t = ws ! 8" "frame_rsi (0x05000000 + 3936) t = ws ! 9"
    "frame_rdx (0x05000000 + 3936) t = ws ! 11" "frame_rax (0x05000000 + 3936) t = ws ! 14"
    by (rule frame_words[OF r assms]) blast
  then show ?thesis using that[of ow ps t] user_ready_step[OF r, of t] by simp
qed

theorem refused_calls_witness:
  "\<exists>t :: kernel_state. kernel_syscall_entry blank_build 0x05000F60 t = Ret 0x05000F60 (syscall_return 0x05000F60 (- 1) t)
     \<and> frame_rax 0x05000F60 t = 42"
proof -
  have "length (replicate 20 (42 :: u64)) = 20" by simp
  then obtain t :: kernel_state and ow ps where t: "user_ready 0x05000000 0x02000000 ow ps t"
    "frame_rdi 0x05000F60 t = 42" "frame_rsi 0x05000F60 t = 42" "frame_rdx 0x05000F60 t = 42" "frame_rax 0x05000F60 t = 42"
    by (rule user_kernel_frame) simp
  have "own_tables t 0x02000000 ow ps" using t(1) by (simp add: user_ready_def)
  from refused_calls [OF this, of "0x05000F60" blank_build] t(5) show ?thesis by (auto simp: refused_def)
qed

theorem console_write_exact_witness:
  "\<exists>(s :: kernel_state) t. kernel_syscall_entry blank_build 0x05000F60 s = Ret 0x05000F60 t \<and> frame_rax 0x05000F60 t = - 1
     \<and> serial_out t = serial_out s"
proof -
  define ws where "ws = (replicate 20 (1::u64))[9 := 0x50000000, 11 := 3, 14 := 5]"
  have "length ws = 20" by (simp add: ws_def)
  then obtain t :: kernel_state and ow ps where t: "user_ready 0x05000000 0x02000000 ow ps t"
    "frame_rdi 0x05000F60 t = 1" "frame_rsi 0x05000F60 t = 0x50000000" "frame_rdx 0x05000F60 t = 3" "frame_rax 0x05000F60 t = SYS_WRITE"
    by (rule user_kernel_frame) (simp add: ws_def SYS_WRITE_def)
  obtain e where e: "fd_table_get (sched_current_fd_table t) 1 = Some e" "writes_console t (entry_file e)"
    and own: "own_tables t 0x02000000 ow ps" "sched_current_user_context t = Some (first_user_layout, cr3 t)"
    using t(1) by (auto simp: user_ready_def)
  have "\<not> buffer_ok first_user_layout t 0x50000000 3" by (simp add: buffer_ok_def first_user_layout_def)
  moreover have "unat (stack_top first_user_layout) < 2147483648" by (simp add: first_user_layout_def)
  ultimately show ?thesis
    using console_write_exact [OF own _ t(5) _ e(2), of blank_build] e(1) t(2-4) by auto
qed

theorem syscall_copy_path_exact_witness:
  "\<exists>s :: kernel_state. syscall_copy_path 64 0x50000000 0x02001000 (Some first_user_layout) s = Ret None s"
proof -
  obtain s ow ps where r: "user_ready 0x05000000 0x02000000 ow ps (user_kernel s)" using user_kernel_ready by blast
  let ?s = "user_kernel s"
  have "table_inv ?s 0x02000000 ow ps" "ow (cr3 ?s) = Some (cr3 ?s, [])" using r by (simp_all add: user_ready_def own_tables_def)
  from syscall_copy_path_exact [OF this, of "0x50000000" first_user_layout] obtain x where
    x: "syscall_copy_path 64 0x50000000 (cr3 ?s) (Some first_user_layout) ?s = Ret x ?s"
    "\<And>p. x = Some p \<Longrightarrow> path_byte_ok first_user_layout ?s 0x50000000 0" by auto
  have "\<not> path_byte_ok first_user_layout ?s 0x50000000 0" by (simp add: path_byte_ok_def first_user_layout_def)
  then have "x = None" using x(2) by (cases x) auto
  moreover have "cr3 ?s = 0x02001000" by (simp add: user_kernel_def)
  ultimately show ?thesis using x(1) by auto
qed

end
