(* ===== verification/ElfSpec.thy ===== *)
theory ElfSpec
  imports AbiSamples
begin

text \<open>
  What the checks of \<open>src/kernel/elf.c\<close> buy: every segment of an accepted image is read from the image and written into
  the load window, and nowhere else.
\<close>

section \<open>Copying\<close>

lemma memory_zero_eq: "memory_zero p n s = s\<lparr>mem := \<lambda>a. if a - p < n then 0 else mem s a\<rparr>"
proof -
  have f: "fold (\<lambda>i s. s\<lparr>mem := (mem s)(p + of_nat i := 0)\<rparr>) xs s = s\<lparr>mem := fold (\<lambda>i m. m(p + of_nat i := 0)) xs (mem s)\<rparr>" for xs
    by (induction xs arbitrary: s) simp_all
  show ?thesis unfolding memory_zero_def f zero_fold[OF less_imp_le[OF unat_less64]] by (simp add: word_less_nat_alt)
qed

lemma memory_copy_eq:
  fixes s :: "'a machine_scheme"
  assumes "\<And>i. i < unat n \<Longrightarrow> \<not> src + of_nat i - dst < n"
  shows "memory_copy dst src n s = s\<lparr>mem := \<lambda>a. if a - dst < n then mem s (src + (a - dst)) else mem s a\<rparr>"
proof -
  define f where "f = (\<lambda>i (s :: 'a machine_scheme). s\<lparr>mem := (mem s)(dst + of_nat i := mem s (src + of_nat i))\<rparr>)"
  define g where "g = (\<lambda>k a. if unat (a - dst) < k then mem s (src + (a - dst)) else mem s a)"
  have "fold f [0..<k] s = s\<lparr>mem := g k\<rparr>" if "k \<le> unat n" for k
    using that
  proof (induction k)
    case (Suc k)
    then have kn: "k < unat n" by simp
    then have "k < 18446744073709551616" using unat_less64[of n] by linarith
    then have u: "unat (of_nat k :: u64) = k" by (simp add: unat_of_nat)
    have "\<not> unat (src + of_nat k - dst) < k" using assms[OF kn] kn by (simp add: word_less_nat_alt)
    then have src: "g k (src + of_nat k) = mem s (src + of_nat k)" by (simp add: g_def)
    have "a = dst + of_nat k \<longleftrightarrow> unat (a - dst) = k" for a
    proof
      assume "unat (a - dst) = k"
      then have "a - dst = of_nat k" by auto
      then show "a = dst + of_nat k" by (simp add: diff_eq_eq add.commute)
    qed (simp add: u)
    then have "(g k)(dst + of_nat k := g k (src + of_nat k)) = g (Suc k)"
      unfolding src by (auto simp: fun_eq_iff g_def less_Suc_eq)
    moreover have "fold f [0..<Suc k] s = f k (s\<lparr>mem := g k\<rparr>)" using Suc by simp
    ultimately show ?case by (simp add: f_def)
  qed (simp add: g_def)
  from this[of "unat n"] show ?thesis unfolding memory_copy_def f_def g_def by (simp add: word_less_nat_alt)
qed

section \<open>Accepted headers\<close>

definition is_load :: "elf64_program_header \<Rightarrow> bool" where
  "is_load p \<longleftrightarrow> ph_type p = elf_phdr_type_load"

lemma count_load_segments_valid:
  "count_load_segments n ps k = Some c \<Longrightarrow> p \<in> set ps \<Longrightarrow> validate_load_segment n p"
  by (induction n ps k rule: count_load_segments.induct) (auto split: if_splits)

lemma validated:
  assumes "validate_program_headers ps phnum n" "p \<in> set ps"
  shows "validate_load_segment n p"
  using assms count_load_segments_valid by (auto simp: validate_program_headers_def split: if_splits option.splits)

lemma validate_load_segmentD:
  assumes "validate_load_segment n p" "is_load p"
  shows "ph_filesz p \<le> ph_memsz p" "unat (ph_offset p) + unat (ph_filesz p) \<le> unat n"
    "unat (ph_vaddr p + ph_memsz p) = unat (ph_vaddr p) + unat (ph_memsz p)" "0 < ph_memsz p"
proof -
  have v: "ph_memsz p \<noteq> 0" "\<not> ph_memsz p < ph_filesz p" "range_fits n (ph_offset p) (ph_filesz p)"
    "\<not> ph_vaddr p + ph_memsz p < ph_vaddr p"
    using assms by (auto simp: validate_load_segment_def is_load_def split: if_splits)
  show "ph_filesz p \<le> ph_memsz p" "0 < ph_memsz p" using v by (simp_all add: not_less word_gt_0)
  have "\<not> n < ph_offset p" "\<not> n - ph_offset p < ph_filesz p" using v(3) by (auto simp: range_fits_def split: if_splits)
  then show "unat (ph_offset p) + unat (ph_filesz p) \<le> unat n"
    by (simp add: not_less word_le_nat_alt unat_sub)
  show "unat (ph_vaddr p + ph_memsz p) = unat (ph_vaddr p) + unat (ph_memsz p)"
    using v(4) by (simp add: not_less no_olen_add_nat[symmetric] unat_plus_simple[symmetric])
qed

lemma load_span_fold:
  "fold load_span_step ps (lo, hi, f) = (lo', hi', f') \<Longrightarrow>
    (f \<longrightarrow> f' \<and> lo' \<le> lo \<and> hi \<le> hi')
    \<and> (\<forall>p \<in> set ps. is_load p \<longrightarrow> f' \<and> lo' \<le> ph_vaddr p \<and> ph_vaddr p + ph_memsz p \<le> hi')"
proof (induction ps arbitrary: lo hi f)
  case (Cons p ps)
  obtain lo1 hi1 f1 where s: "load_span_step p (lo, hi, f) = (lo1, hi1, f1)" by (metis prod_cases3)
  have IH: "(f1 \<longrightarrow> f' \<and> lo' \<le> lo1 \<and> hi1 \<le> hi')
    \<and> (\<forall>p \<in> set ps. is_load p \<longrightarrow> f' \<and> lo' \<le> ph_vaddr p \<and> ph_vaddr p + ph_memsz p \<le> hi')"
    by (rule Cons.IH) (use Cons.prems s in simp)
  show ?case
  proof (cases "is_load p")
    case True
    then have "f1" "lo1 \<le> ph_vaddr p" "ph_vaddr p + ph_memsz p \<le> hi1" "f \<longrightarrow> lo1 \<le> lo \<and> hi \<le> hi1"
      using s by (auto simp: load_span_step_def is_load_def Let_def split: if_splits)
    then show ?thesis using IH by (auto intro: order_trans)
  next
    case False
    then have "lo1 = lo" "hi1 = hi" "f1 = f" using s by (simp_all add: load_span_step_def is_load_def)
    then show ?thesis using IH False by auto
  qed
qed simp

lemma load_span_covers:
  assumes "compute_load_span ps = Some (b, e)" "p \<in> set ps" "is_load p"
  shows "b \<le> ph_vaddr p" "ph_vaddr p + ph_memsz p \<le> e" "b < e"
proof -
  obtain lo hi f where r: "fold load_span_step ps (0, 0, False) = (lo, hi, f)" by (metis prod_cases3)
  have be: "b = align_down lo" "e = elf_align_up hi" "b < e"
    using assms(1) unfolding compute_load_span_def r by (auto simp: Let_def split: if_splits)
  have in_span: "lo \<le> ph_vaddr p" "ph_vaddr p + ph_memsz p \<le> hi" using load_span_fold[OF r] assms(2,3) by auto
  show "b < e" by (fact be(3))
  show "b \<le> ph_vaddr p" unfolding be(1) align_down_def using page_floor_le[of lo] in_span(1) by (rule order_trans)
  have "hi \<le> e"
  proof (cases "unat hi + 4095 < 18446744073709551616")
    case True
    have "unat hi + 4095 = 4096 * ((unat hi + 4095) div 4096) + (unat hi + 4095) mod 4096" "(unat hi + 4095) mod 4096 < 4096" by simp_all
    then have "unat hi \<le> 4096 * ((unat hi + 4095) div 4096)" by linarith
    then show ?thesis unfolding be(2) elf_align_up_def word_le_nat_alt unat_page_ceil[OF True] .
  next
    case False
    moreover have "unat hi + 4095 - 18446744073709551616 < 18446744073709551616" using unat_less64[of hi] by linarith
    ultimately have "unat (hi + 4095) = unat hi + 4095 - 18446744073709551616"
      by (simp add: unat_word_ariths le_mod_geq)
    then have "unat (hi + 4095) < 4096" using unat_less64[of hi] by linarith
    then have "unat ((hi + 4095) AND NOT 4095) = 0" unfolding unat_page_floor by simp
    then have "e = 0" by (simp add: be(2) elf_align_up_def unat_eq_0)
    then show ?thesis using be(3) by simp
  qed
  then show "ph_vaddr p + ph_memsz p \<le> e" using in_span(2) by (rule order_trans[rotated])
qed

lemma entry_covered:
  "entry_in_load_segment ps entry \<Longrightarrow> \<exists>p \<in> set ps. is_load p \<and> ph_vaddr p \<le> entry \<and> entry < ph_vaddr p + ph_memsz p"
  by (induction ps entry rule: entry_in_load_segment.induct) (auto simp: is_load_def split: if_splits)

lemma entry_inside:
  assumes "compute_load_span ps = Some (b, e)" "entry_in_load_segment ps entry"
  shows "entry - b < e - b"
proof -
  from entry_covered[OF assms(2)] obtain q where q: "q \<in> set ps" "is_load q" "ph_vaddr q \<le> entry" "entry < ph_vaddr q + ph_memsz q" by blast
  note c = load_span_covers[OF assms(1) q(1,2)]
  have "b \<le> entry" "entry < e" using c q(3,4) by (auto intro: order_trans order_less_le_trans)
  then show ?thesis by (simp add: word_less_nat_alt word_le_nat_alt unat_sub)
qed

lemma window_offset:
  assumes v: "validate_program_headers ps phnum n" "compute_load_span ps = Some (b, e)" "p \<in> set ps" "is_load p"
  shows "unat (ph_vaddr p - b) + unat (ph_memsz p) \<le> unat (e - b)"
proof -
  note d = validate_load_segmentD[OF validated[OF v(1,3)] v(4)]
  note c = load_span_covers[OF v(2-4)]
  have "unat (ph_vaddr p - b) = unat (ph_vaddr p) - unat b" "unat (e - b) = unat e - unat b"
    using c by (simp_all add: unat_sub order_less_imp_le)
  moreover have "unat (ph_vaddr p) + unat (ph_memsz p) \<le> unat e" "unat b \<le> unat (ph_vaddr p)"
    using c d(3) by (simp_all add: word_le_nat_alt)
  ultimately show ?thesis by linarith
qed

section \<open>Loading a segment\<close>

lemma offset_sum:
  fixes x d :: u64
  assumes "x - (first + d) < m" "unat d + unat m \<le> unat w"
  shows "x - first < w"
proof -
  have e: "x - first = (x - (first + d)) + d" by simp
  have "unat (x - (first + d)) < unat m" using assms(1) by (simp add: word_less_nat_alt)
  moreover have "unat (x - (first + d)) + unat d < 18446744073709551616"
    using calculation assms(2) unat_less64[of w] by linarith
  ultimately have "unat ((x - (first + d)) + d) = unat (x - (first + d)) + unat d" by (subst unat_word_ariths(1)) simp
  then have "unat (x - first) = unat (x - (first + d)) + unat d" using e by metis
  then show ?thesis using \<open>unat (x - (first + d)) < unat m\<close> assms(2) by (simp add: word_less_nat_alt)
qed

lemma split_range:
  fixes d f m :: u64
  assumes "f \<le> m"
  shows "d - f < m - f \<longleftrightarrow> f \<le> d \<and> d < m"
proof (cases "f \<le> d")
  case True
  then show ?thesis using assms by (simp add: word_less_nat_alt word_le_nat_alt unat_sub) linarith
next
  case False
  then have "unat d < unat f" "unat f \<le> unat m" using assms by (simp_all add: word_le_nat_alt)
  moreover have "unat (d - f) = 18446744073709551616 + unat d - unat f"
    using False by (simp add: unat_sub_if' word_le_nat_alt)
  ultimately have "\<not> unat (d - f) < unat (m - f)" unfolding unat_sub[OF assms] using unat_less64[of m] by linarith
  then show ?thesis using False by (simp add: word_less_nat_alt)
qed

lemma load_segment_spec:
  assumes checks: "validate_program_headers ps phnum n" "compute_load_span ps = Some (b, e)" "p \<in> set ps" "is_load p"
    and apart: "\<forall>i < unat n. \<not> img + of_nat i - first < e - b"
  shows "load_segment img p b first s = (True, s\<lparr>mem := \<lambda>a.
        if a - (first + (ph_vaddr p - b)) < ph_filesz p then mem s (img + ph_offset p + (a - (first + (ph_vaddr p - b))))
        else if a - (first + (ph_vaddr p - b)) < ph_memsz p then 0 else mem s a\<rparr>)
    \<and> unat (ph_offset p) + unat (ph_filesz p) \<le> unat n
    \<and> (\<forall>a. a - (first + (ph_vaddr p - b)) < ph_memsz p \<longrightarrow> a - first < e - b)"
proof -
  let ?d = "ph_vaddr p - b" and ?dst = "first + (ph_vaddr p - b)" and ?src = "img + ph_offset p"
  note d = validate_load_segmentD[OF validated[OF checks(1,3)] checks(4)]
  note w = window_offset[OF checks]
  have inside: "\<forall>a. a - ?dst < ph_memsz p \<longrightarrow> a - first < e - b" using offset_sum[OF _ w] by blast
  have overlap: "\<not> ?src + of_nat i - ?dst < ph_filesz p" if "i < unat (ph_filesz p)" for i
  proof
    assume "?src + of_nat i - ?dst < ph_filesz p"
    then have "?src + of_nat i - first < e - b" using inside d(1) by (meson order_less_le_trans)
    moreover have "unat (ph_offset p) + i < unat n" using that d(2) by linarith
    moreover have "?src + of_nat i = img + of_nat (unat (ph_offset p) + i)" by (simp add: add.assoc)
    ultimately show False using apart by metis
  qed
  have copy: "memory_copy ?dst ?src (ph_filesz p) s
    = s\<lparr>mem := \<lambda>a. if a - ?dst < ph_filesz p then mem s (?src + (a - ?dst)) else mem s a\<rparr>"
    by (rule memory_copy_eq) (rule overlap)
  have "a - (?dst + ph_filesz p) < ph_memsz p - ph_filesz p \<longleftrightarrow> ph_filesz p \<le> a - ?dst \<and> a - ?dst < ph_memsz p" for a
    using split_range[OF d(1), of "a - ?dst"] by (simp add: algebra_simps)
  then have pointwise: "(if a - (?dst + ph_filesz p) < ph_memsz p - ph_filesz p then 0
      else if a - ?dst < ph_filesz p then mem s (?src + (a - ?dst)) else mem s a)
    = (if a - ?dst < ph_filesz p then mem s (?src + (a - ?dst)) else if a - ?dst < ph_memsz p then 0 else mem s a)" for a
    using leD[of "ph_filesz p" "a - ?dst"] not_less[of "a - ?dst" "ph_filesz p"] by (cases "a - ?dst < ph_filesz p") auto
  then have mem: "memory_zero (?dst + ph_filesz p) (ph_memsz p - ph_filesz p) (memory_copy ?dst ?src (ph_filesz p) s)
    = s\<lparr>mem := \<lambda>a. if a - ?dst < ph_filesz p then mem s (?src + (a - ?dst)) else if a - ?dst < ph_memsz p then 0 else mem s a\<rparr>"
    unfolding copy memory_zero_eq by (simp add: pointwise cong: if_cong)
  have "\<not> ph_vaddr p < b" using load_span_covers(1)[OF checks(2-4)] by (simp add: not_less)
  then have "load_segment img p b first s = (True, memory_zero (?dst + ph_filesz p) (ph_memsz p - ph_filesz p) (memory_copy ?dst ?src (ph_filesz p) s))"
    using checks(4) by (simp add: load_segment_def is_load_def Let_def)
  then show ?thesis using mem inside d(2) by simp
qed

end
