(* ===== verification/TypeSpec.thy ===== *)
theory TypeSpec
  imports ElfSpec
begin

text \<open>
  The type of a descriptor table, and that every table the kernel works with has it: an entry is either free and blank or
  in use with a real kind and a file, and the system calls, the scheduler and the start keep it so.
\<close>

section \<open>Typed tables\<close>

definition entry_typed :: "fd_entry \<Rightarrow> bool" where
  "entry_typed e \<longleftrightarrow> e = empty_entry \<or> (used e = 1 \<and> kind e \<noteq> FD_KIND_NONE \<and> entry_file e \<noteq> 0)"

definition table_typed :: "fd_table \<Rightarrow> bool" where
  "table_typed t \<longleftrightarrow> length t = fd_table_capacity \<and> (\<forall>e \<in> set t. entry_typed e)"

lemma table_typed_update: "table_typed t \<Longrightarrow> entry_typed e \<Longrightarrow> table_typed (t[i := e])"
  using set_update_subset_insert[of t i e] by (auto simp: table_typed_def)

lemma entry_typed_empty [simp]: "entry_typed empty_entry"
  by (simp add: entry_typed_def)

lemma table_typed_empty [simp]: "table_typed empty_table"
  by (simp add: table_typed_def empty_table_def fd_table_capacity_def)

lemma install_typed:
  assumes "table_typed t"
  obtains u where "snd (fd_table_install (Some t) k f) = Some u" "table_typed u"
proof -
  have "\<exists>u. snd (fd_table_install (Some t) k f) = Some u \<and> table_typed u"
    using assms by (auto simp: fd_table_install_def entry_typed_def split: option.split intro!: table_typed_update)
  then show ?thesis using that by blast
qed

definition gives_typed :: "('a \<times> fd_table option, 's) outcome \<Rightarrow> bool" where
  "gives_typed m \<longleftrightarrow> (\<forall>r u s. m = Ret (r, u) s \<longrightarrow> (\<exists>v. u = Some v \<and> table_typed v))"

lemma gives_typedD: "gives_typed m \<Longrightarrow> m = Ret (r, u) s \<Longrightarrow> \<exists>v. u = Some v \<and> table_typed v"
  by (simp add: gives_typed_def)

lemma gives_typed_simps [simp]:
  "gives_typed (Ret x s) \<longleftrightarrow> (\<exists>v. snd x = Some v \<and> table_typed v)" "gives_typed (Halt s)" "gives_typed Diverge"
  by (cases x; simp add: gives_typed_def)+

lemma gives_typed_chain: "(\<And>v s. gives_typed (k v s)) \<Longrightarrow> gives_typed (chain m k)"
  by (cases m) simp_all

lemma dup_typed: "table_typed t \<Longrightarrow> gives_typed (fd_table_dup (Some t) d s)"
  by (rule install_typed[of t "kind (the (fd_table_get (Some t) d))" "entry_file (the (fd_table_get (Some t) d))"])
    (auto simp: fd_table_dup_def Let_def split_beta intro!: gives_typed_chain split: option.split)

lemma close_typed: "table_typed t \<Longrightarrow> gives_typed (fd_table_close (Some t) d s)"
  by (auto simp: fd_table_close_def intro!: gives_typed_chain table_typed_update)

lemma close_from_typed: "close_from ds t s = Ret u v \<Longrightarrow> table_typed t \<Longrightarrow> table_typed u"
proof (induction ds arbitrary: t s)
  case (Cons d ds)
  show ?case
  proof (cases "used (t ! d) = 0")
    case False
    with Cons.prems obtain r t' s' where c: "fd_table_close (Some t) (of_nat d) s = Ret (r, t') s'"
      "close_from ds (case t' of None \<Rightarrow> t | Some u \<Rightarrow> u) s' = Ret u v"
      by (auto simp: chain_Ret_iff)
    from gives_typedD[OF close_typed[OF Cons.prems(2)] c(1)] Cons.IH[OF c(2)] show ?thesis by auto
  qed (use Cons in simp)
qed simp

lemma close_all_typed: "table_typed t \<Longrightarrow> fd_table_close_all (Some t) s = Ret u v \<Longrightarrow> table_typed (the u)"
  using close_from_typed by (fastforce simp: fd_table_close_all_def chain_Ret_iff)

lemma seed_fails_typed: "table_typed t \<Longrightarrow> gives_typed (seed_fails a b c t s)"
  by (auto simp: seed_fails_def intro!: gives_typed_chain)

lemma seed_install_typed:
  assumes "table_typed t"
  shows "gives_typed (seed_install a b c t s)"
proof -
  obtain t1 where t1: "snd (fd_table_install (Some t) FD_KIND_CONSOLE a) = Some t1" "table_typed t1"
    using install_typed[OF assms] .
  obtain t2 where t2: "snd (fd_table_install (Some t1) FD_KIND_CONSOLE b) = Some t2" "table_typed t2"
    using install_typed[OF t1(2)] .
  obtain t3 where t3: "snd (fd_table_install (Some t2) FD_KIND_CONSOLE c) = Some t3" "table_typed t3"
    using install_typed[OF t2(2)] .
  show ?thesis using t1 t2 t3 by (simp add: seed_fails_typed seed_install_def Let_def split_beta)
qed

lemma seed_console_typed: "table_typed t \<Longrightarrow> gives_typed (fd_table_seed_console (Some t) s)"
  by (auto simp: fd_table_seed_console_def Let_def seed_fails_typed seed_install_typed intro!: gives_typed_chain)

section \<open>The scheduler\<close>

definition tables_typed :: "'a sched_state_scheme \<Rightarrow> bool" where
  "tables_typed s \<longleftrightarrow> (\<forall>x. table_typed (task_fd_table (tasks s x)))"

text \<open>An outcome that keeps every table typed.\<close>

definition typed :: "('v, 'a sched_state_scheme) outcome \<Rightarrow> bool" where
  "typed m \<longleftrightarrow> (\<forall>v t. m = Ret v t \<longrightarrow> tables_typed t)"

lemma typed_simps [simp]: "typed (Ret v s) \<longleftrightarrow> tables_typed s" "typed (Halt s)" "typed Diverge"
  by (simp_all add: typed_def)

lemma typedD: "typed m \<Longrightarrow> m = Ret v t \<Longrightarrow> tables_typed t"
  by (simp add: typed_def)

lemma typed_chain: "typed m \<Longrightarrow> (\<And>v t. tables_typed t \<Longrightarrow> typed (k v t)) \<Longrightarrow> typed (chain m k)"
  by (cases m) simp_all

lemma typed_if: "(c \<Longrightarrow> typed m) \<Longrightarrow> (\<not> c \<Longrightarrow> typed n) \<Longrightarrow> typed (if c then m else n)"
  by simp

lemma tables_typed_part: "sched_part t = sched_part s \<Longrightarrow> tables_typed t = tables_typed s"
  using sched_part_eqD(1)[of t s] by (simp add: tables_typed_def)

lemma typed_part: "tables_typed s \<Longrightarrow> keeps sched_part (sched_part s) m \<Longrightarrow> typed m"
  using tables_typed_part[of _ s] by (cases m) auto

lemma tables_typed_task: "tables_typed s \<Longrightarrow> table_typed (task_fd_table (tasks s c))"
  by (simp add: tables_typed_def)

lemma tables_typed_upd:
  "tables_typed s \<Longrightarrow> table_typed (task_fd_table (f (tasks s c))) \<Longrightarrow> tables_typed (upd_task c f s)"
  by (simp add: tables_typed_def)

lemma tables_typed_simps [simp]:
  "tables_typed (s\<lparr>current := n\<rparr>) = tables_typed s" "tables_typed (s\<lparr>sched_started := b\<rparr>) = tables_typed s"
  "tables_typed (paging_activate p s) = tables_typed s"
  "task_fd_table (f (tasks s c)) = task_fd_table (tasks s c) \<Longrightarrow> tables_typed s \<Longrightarrow> tables_typed (upd_task c f s)"
  by (simp_all add: tables_typed_def paging_activate_def arch_load_cr3_def)

lemma typed_option: "typed n \<Longrightarrow> (\<And>x. y = Some x \<Longrightarrow> typed (m x)) \<Longrightarrow> typed (case y of None \<Rightarrow> n | Some x \<Rightarrow> m x)"
  by (cases y) simp_all

lemma typed_fail [simp]: "typed (sched_fail msg s)"
  by (simp add: sched_fail_def)

lemma close_all_task_typed:
  assumes s: "tables_typed s"
    and k: "\<And>u t. tables_typed (upd_task c (\<lambda>x. x\<lparr>task_fd_table := the u\<rparr>) t) \<Longrightarrow> typed (k u t)"
  shows "typed (chain (fd_table_close_all (Some (task_fd_table (tasks s c))) s) k)"
proof (cases "fd_table_close_all (Some (task_fd_table (tasks s c))) s")
  case (Ret u t)
  have "table_typed (the u)" using close_all_typed[OF tables_typed_task[OF s] Ret] .
  moreover have "tables_typed t" using typedD[OF typed_part[OF s sched_files.fd_table_close_all[OF refl]] Ret] .
  ultimately show ?thesis using Ret k by (simp add: tables_typed_upd)
qed simp_all

lemma initialize_task_fds_typed:
  assumes "tables_typed s"
  shows "typed (initialize_task_fds c s)"
  using tables_typed_task[OF assms, of c] assms
  by (simp add: initialize_task_fds_def fd_table_initialize_empty table_typed_def[of "task_fd_table _"] tables_typed_upd)

lemma seed_task_console_typed:
  assumes "tables_typed s"
  shows "typed (seed_task_console c s)"
proof (cases "fd_table_seed_console (Some (task_fd_table (tasks s c))) s")
  case (Ret x t)
  obtain b u where x: "x = (b, u)" by (cases x)
  from gives_typedD[OF seed_console_typed[OF tables_typed_task[OF assms]] Ret[unfolded x]] obtain w where "u = Some w" "table_typed w"
    by blast
  moreover have "tables_typed t" using typedD[OF typed_part[OF assms sched_files.fd_table_seed_console[OF refl]] Ret] .
  ultimately show ?thesis using Ret x by (simp add: seed_task_console_def tables_typed_upd)
qed (simp_all add: seed_task_console_def)

lemma start_task_typed:
  assumes "tables_typed s"
  shows "typed (start_task c msg s)"
proof -
  have "typed (sched_validate_task x st m t)" if "tables_typed t" for x st m and t :: "'a sched_state_scheme"
    using that by (auto simp: sched_validate_task_def split: option.split)
  then show ?thesis using assms unfolding start_task_def Let_def
    by (intro typed_chain) simp_all
qed

lemma select_next_typed: "tables_typed s \<Longrightarrow> typed (sched_select_next c s)"
  by (simp add: sched_select_next_def)

lemma sched_tick_typed:
  assumes "tables_typed s"
  shows "typed (sched_tick r s)"
  unfolding sched_tick_def Let_def
  by (intro typed_if typed_option typed_chain[OF select_next_typed] start_task_typed) (simp_all add: assms)

lemma release_user_bootstrap_typed: "tables_typed s \<Longrightarrow> typed (sched_release_user_bootstrap b s)"
  by (erule typed_part) (rule release_user_bootstrap_part, rule refl)

lemma sched_exit_typed:
  assumes "tables_typed s"
  shows "typed (sched_exit_current r s)"
  unfolding sched_exit_current_def Let_def
  by (intro typed_if typed_option close_all_task_typed[OF assms] typed_chain[OF select_next_typed] typed_chain[OF start_task_typed]
      typed_chain[OF release_user_bootstrap_typed]) simp_all

lemma sched_exec_typed:
  assumes "tables_typed s"
  shows "typed (sched_exec_current b s)"
proof -
  have p: "sched_part (snd (task_build_user_stack b s)) = sched_part s" by (rule build_user_stack_part)
  note p = sched_part_eqD(1)[OF p] tables_typed_part[OF p]
  show ?thesis unfolding sched_exec_current_def Let_def split_beta
    by (intro typed_if typed_option close_all_task_typed typed_chain[OF initialize_task_fds_typed]
        typed_chain[OF seed_task_console_typed] typed_chain[OF release_user_bootstrap_typed]) (simp_all add: assms p)
qed

section \<open>System calls\<close>

lemma syscall_result_typed: "tables_typed s \<Longrightarrow> typed (syscall_result v f s)"
  by (erule typed_part) (rule syscall_result_part, rule refl)

lemma set_table_typed: "tables_typed s \<Longrightarrow> table_typed t \<Longrightarrow> tables_typed (set_current_fd_table (Some t) s)"
  by (auto simp: set_current_fd_table_def intro: tables_typed_upd split: option.split)

lemma current_table_typed: "tables_typed s \<Longrightarrow> sched_current_fd_table s = Some t \<Longrightarrow> table_typed t"
  by (auto simp: sched_current_fd_table_def tables_typed_def split: option.splits)

text \<open>A step that does not touch the scheduler, and then the rest.\<close>

lemma typed_then:
  "keeps sched_part (sched_part s) m \<Longrightarrow> tables_typed s \<Longrightarrow> (\<And>v t. tables_typed t \<Longrightarrow> typed (k v t)) \<Longrightarrow> typed (chain m k)"
  by (rule typed_chain[OF typed_part])

lemma table_call_typed:
  assumes "tables_typed s" "gives_typed m" "keeps sched_part (sched_part s) m"
  shows "typed (chain m (\<lambda>(r, table') s. syscall_result (g r) f (set_current_fd_table table' s)))"
proof (cases m)
  case (Ret x t)
  obtain r u where x: "x = (r, u)" by (cases x)
  from gives_typedD[OF assms(2)] Ret x obtain w where "u = Some w" "table_typed w" by blast
  moreover have "tables_typed t" using typedD[OF typed_part[OF assms(1,3)] Ret] .
  ultimately show ?thesis using Ret x by (simp add: syscall_result_typed set_table_typed)
qed simp_all

lemma sys_read_typed: "tables_typed s \<Longrightarrow> typed (sys_read l a f s)"
  unfolding sys_read_def
  by (intro typed_option typed_if typed_then[OF buffer_valid_part[OF refl]] typed_then[OF sched_files.fd_table_read[OF refl]]
      syscall_result_typed; assumption)

lemma sys_write_typed: "tables_typed s \<Longrightarrow> typed (sys_write l a f s)"
  unfolding sys_write_def
  by (intro typed_option typed_if typed_then[OF buffer_valid_part[OF refl]] typed_then[OF sched_files.fd_table_write[OF refl]]
      syscall_result_typed; assumption)

lemma sys_close_typed: "tables_typed s \<Longrightarrow> typed (sys_close f s)"
  unfolding sys_close_def
  by (rule typed_option, erule syscall_result_typed, rule table_call_typed, assumption, rule close_typed,
      rule current_table_typed, assumption+, rule sched_files.fd_table_close, rule refl)

lemma sys_dup_typed: "tables_typed s \<Longrightarrow> typed (sys_dup f s)"
  unfolding sys_dup_def
  by (rule typed_option, erule syscall_result_typed, rule table_call_typed, assumption, rule dup_typed,
      rule current_table_typed, assumption+, rule sched_files.fd_table_dup, rule refl)

lemma install_file_typed:
  assumes "table_typed table" "tables_typed u"
  shows "typed (let (fd, table') = fd_table_install (Some table) k file
          in if sint fd < 0 then chain (vfs_file_close file u) (\<lambda>_ s. syscall_result SYS_RESULT_ERROR f s)
             else syscall_result (int_result fd) f (set_current_fd_table table' u))"
proof -
  obtain w where w: "snd (fd_table_install (Some table) k file) = Some w" "table_typed w"
    using install_typed[OF assms(1)] .
  show ?thesis unfolding Let_def split_beta w(1)
    by (intro typed_if typed_then[OF sched_files.vfs_file_close[OF refl]] syscall_result_typed set_table_typed assms w; assumption)
qed

lemma sys_open_typed:
  fixes s :: "'a kernel_state_scheme"
  assumes "tables_typed s"
  shows "typed (sys_open l a f s)"
  unfolding sys_open_def
  by (intro typed_option typed_if typed_then[OF copy_path_part[OF refl]] typed_then[OF sched_files.vfs_open_path[OF refl]]
      syscall_result_typed; (unfold Let_def)?; (assumption | rule assms)?)
    (rule install_file_typed[unfolded Let_def] current_table_typed assms | assumption)+

lemma release_bootstrap_typed: "tables_typed s \<Longrightarrow> typed (syscall_release_bootstrap b s)"
  by (erule typed_part) (rule release_bootstrap_part, rule refl)

lemma exec_image_typed:
  assumes "tables_typed s"
  shows "typed (exec_image bld i n f s)"
  unfolding exec_image_def Let_def
  by (intro typed_option typed_if typed_then[OF prepare_part[OF refl]] typed_chain[OF sched_exec_typed]
      typed_chain[OF release_bootstrap_typed] syscall_result_typed; (assumption | rule assms | simp)?)

lemma sys_exec_typed:
  fixes s :: "'a kernel_state_scheme"
  assumes "tables_typed s"
  shows "typed (sys_exec bld l a f s)"
  unfolding sys_exec_def split_beta
  by (intro typed_option typed_if typed_then[OF copy_path_part[OF refl]] typed_then[OF sched_files.vfs_open_exec_path[OF refl]]
      typed_then[OF sched_files.vfs_file_close[OF refl]] exec_image_typed syscall_result_typed; (assumption | rule assms)?)

lemma kernel_syscall_typed:
  fixes s :: "'a kernel_state_scheme"
  assumes "tables_typed s"
  shows "typed (kernel_syscall_entry bld f s)"
proof -
  have t: "tables_typed (syscall_return f v s)" for v
    using syscall_result_typed[OF assms, of v f] by (simp add: syscall_result_def)
  have w: "tables_typed (serial_write u s)" for u
    by (rule iffD2[OF tables_typed_part[OF sched_files.serial_write] assms])
  show ?thesis unfolding kernel_syscall_entry_def Let_def option.case_eq_if split_beta
    by (intro typed_if sched_tick_typed sched_exit_typed sys_read_typed sys_write_typed sys_close_typed sys_dup_typed sys_open_typed sys_exec_typed syscall_result_typed
        assms t w)
qed

section \<open>Reachable states\<close>

lemma initialize_task_fds_blank:
  "length (task_fd_table (tasks s c)) = fd_table_capacity \<Longrightarrow>
    initialize_task_fds c s = Ret () (upd_task c (\<lambda>x. x\<lparr>task_fd_table := empty_table\<rparr>) s)"
  by (simp add: initialize_task_fds_def fd_table_initialize_empty)

lemma create_kernel_typed:
  assumes "tables_typed s"
  shows "typed (task_create_kernel c n e s)"
proof -
  have p: "tables_typed (snd (task_build_kernel_stack e s))"
    by (rule iffD2[OF tables_typed_part[OF build_kernel_stack_part] assms])
  show ?thesis unfolding task_create_kernel_def Let_def split_beta
    by (intro typed_if typed_chain[OF initialize_task_fds_typed] seed_task_console_typed) (simp_all add: p)
qed

lemma create_user_typed:
  assumes "tables_typed s"
  shows "typed (task_create_user c n b s)"
proof -
  have p: "tables_typed (snd (task_build_user_stack b s))"
    by (rule iffD2[OF tables_typed_part[OF build_user_stack_part] assms])
  show ?thesis unfolding task_create_user_def Let_def split_beta
    by (intro typed_if typed_chain[OF initialize_task_fds_typed] seed_task_console_typed) (simp_all add: p assms)
qed

lemma sched_initialize_typed:
  assumes "\<forall>x. length (task_fd_table (tasks s x)) = fd_table_capacity"
  shows "typed (sched_initialize bld s)"
proof -
  define s0 where "s0 = upd_task Task0 (reset_task 0) (s\<lparr>worker_counter := 0, current := None, sched_started := False\<rparr>)"
  define s1 where "s1 = upd_task Task1 (reset_task 1) (upd_task Task0 (\<lambda>x. x\<lparr>task_fd_table := empty_table\<rparr>) s0)"
  define s2 where "s2 = upd_task Task1 (\<lambda>x. x\<lparr>task_fd_table := empty_table\<rparr>) s1"
  have l: "length (task_fd_table (tasks s0 Task0)) = fd_table_capacity" "length (task_fd_table (tasks s1 Task1)) = fd_table_capacity"
    using assms by (simp_all add: s0_def s1_def reset_task_def)
  have "task_fd_table (tasks s2 x) = empty_table" for x by (cases x) (simp_all add: s2_def s1_def reset_task_def)
  then have t: "tables_typed s2" by (simp add: tables_typed_def)
  show ?thesis unfolding sched_initialize_def Let_def s0_def[symmetric] initialize_task_fds_blank[OF l(1)] chain.simps
      s1_def[symmetric] initialize_task_fds_blank[OF l(2)] s2_def[symmetric]
    by (intro typed_if typed_chain[OF create_kernel_typed] typed_chain[OF create_user_typed]; simp add: t)
qed

lemma kernel_step_typed: "kernel_step bld s r t \<Longrightarrow> tables_typed s \<Longrightarrow> tables_typed t"
proof (induction rule: kernel_step.induct)
  case (interrupt r0 s r t)
  obtain v where v: "kernel_timer_tick r0 s = sched_tick r0 v" "tick_entry s v" using kernel_timer_tick_entry by blast
  then have p: "sched_part v = sched_part s" by (simp add: tick_entry_def)
  have "tables_typed v" by (rule iffD2[OF tables_typed_part[OF p] interrupt.prems])
  then show ?case using typedD[OF sched_tick_typed] interrupt(2) v(1) by simp
next
  case (system_call f s r t)
  then show ?case using typedD[OF kernel_syscall_typed] by blast
next
  case (program s m)
  then show ?case by (simp add: tables_typed_def)
qed

lemma fd_in_range_unat:
  assumes "fd_in_range d"
  shows "unat d < 16"
proof -
  obtain n where n: "sint d = int n" "n < 16"
    using assms zero_le_imp_eq_int[of "sint d"] by (auto simp: fd_in_range_def fd_table_capacity_def not_less)
  have "d = of_int (sint d)" by simp
  then have "d = of_nat n" unfolding n(1) by simp
  then show ?thesis using n(2) by (simp add: unat_of_nat)
qed

lemma fd_table_get_typed: "table_typed t \<Longrightarrow> fd_table_get (Some t) d = Some e \<Longrightarrow> kind e \<noteq> FD_KIND_NONE \<and> entry_file e \<noteq> 0"
proof -
  assume t: "table_typed t" and g: "fd_table_get (Some t) d = Some e"
  then have "e = t ! unat d" "fd_in_range d" and u: "used e \<noteq> 0" by (auto simp: fd_table_get_def split: if_splits)
  moreover from calculation(2) have "unat d < length t" using t fd_in_range_unat[of d] by (simp add: table_typed_def fd_table_capacity_def)
  ultimately have "entry_typed e" using t by (simp add: table_typed_def)
  then show ?thesis using u by (auto simp: entry_typed_def empty_entry_def)
qed

text \<open>
  C12: In every state the kernel reaches from \<open>sched_initialize\<close> through ticks, system calls and program steps, the
  descriptor tables of both tasks are well-typed: sixteen entries, each either blank or marked in use with 1, a real kind
  and a file. So a descriptor that \<open>fd_table_get\<close> accepts always has a kind and a file that is not null.
\<close>

theorem descriptor_tables_typed:
  assumes "scheduled bld s"
  shows "table_typed (task_fd_table (tasks s x))
    \<and> (fd_table_get (Some (task_fd_table (tasks s x))) d = Some e \<longrightarrow> kind e \<noteq> FD_KIND_NONE \<and> entry_file e \<noteq> 0)"
proof -
  have "tables_typed s" using assms
    by (induction rule: scheduled.induct) (auto intro: typedD[OF sched_initialize_typed] kernel_step_typed)
  then show ?thesis using fd_table_get_typed by (auto simp: tables_typed_def)
qed

theorem descriptor_tables_typed_witness:
  "\<exists>s :: kernel_state. scheduled blank_build s \<and> table_typed (task_fd_table (tasks s Task1))"
proof -
  have len: "\<forall>x. length (task_fd_table (tasks (kernel_pool 16) x)) = fd_table_capacity" and en: "\<not> user_task_enabled (kernel_pool 16)"
    by (simp_all add: kernel_pool_def blank_kernel_def blank_task_def fd_table_capacity_def)
  from sched_initialize_succeeds[OF kernel_pool_room len en, of blank_build] obtain s where
    s: "sched_initialize blank_build (kernel_pool 16) = Ret () s" by auto
  have "scheduled blank_build s" by (rule scheduled.start[OF len s])
  with descriptor_tables_typed [OF this, where x = Task1] show ?thesis by blast
qed

end
