(* ===== verification/BootSpec.thy ===== *)
theory BootSpec
  imports SchedSpec
begin

text \<open>
  What the boot of \<open>src/kernel/core.c\<close> leaves alone after it has built the descriptor tables: no self test, no allocator,
  neither the paging nor the scheduler touches the tables or the registers that name them.
\<close>

section \<open>The tables as an observation\<close>

definition tables_part ::
  "'a kernel_state_scheme \<Rightarrow> (u64 list \<times> u8 list \<times> u8 list \<times> idt_entry list \<times> u8 list) \<times> u8 list \<times> u16 \<times> u8 list" where
  "tables_part s = ((gdt s, gdtr s, tss s, idt s, idtr s), loaded_gdtr s, loaded_tr s, loaded_idtr s)"

interpretation table_files: file_part tables_part
  by unfold_locales (simp_all add: tables_part_def)

lemma tables_part_fields [simp]:
  "tables_part (s\<lparr>memory_map_buffer := a\<rparr>) = tables_part s" "tables_part (s\<lparr>memory_map_size_used := n1\<rparr>) = tables_part s"
  "tables_part (s\<lparr>memory_map_descriptor_size := n2\<rparr>) = tables_part s" "tables_part (s\<lparr>memory_map_descriptor_version := n3\<rparr>) = tables_part s"
  "tables_part (s\<lparr>memory_map_descriptor_count := n4\<rparr>) = tables_part s"
  "tables_part (s\<lparr>memory_map_conventional_region_count := n5\<rparr>) = tables_part s"
  "tables_part (s\<lparr>memory_map_conventional_page_count := n6\<rparr>) = tables_part s"
  "tables_part (s\<lparr>alloc_region_begin := r1\<rparr>) = tables_part s" "tables_part (s\<lparr>alloc_region_end := r2\<rparr>) = tables_part s"
  "tables_part (s\<lparr>paging_kernel_pml4 := r3\<rparr>) = tables_part s" "tables_part (s\<lparr>cr3 := r4\<rparr>) = tables_part s"
  "tables_part (s\<lparr>namespace_executable_data := d1\<rparr>) = tables_part s" "tables_part (s\<lparr>namespace_bin_entries := d2\<rparr>) = tables_part s"
  "tables_part (s\<lparr>namespace_banner_data := d3\<rparr>) = tables_part s" "tables_part (s\<lparr>namespace_ready := d4\<rparr>) = tables_part s"
  "tables_part (s\<lparr>worker_counter := c1\<rparr>) = tables_part s" "tables_part (s\<lparr>current := c2\<rparr>) = tables_part s"
  "tables_part (s\<lparr>sched_started := c3\<rparr>) = tables_part s" "tables_part (s\<lparr>tasks := c4\<rparr>) = tables_part s"
  "tables_part (s\<lparr>user_task_enabled := c5\<rparr>) = tables_part s" "tables_part (s\<lparr>user_task_bootstrap := c6\<rparr>) = tables_part s"
  "tables_part (s\<lparr>port_log := p1\<rparr>) = tables_part s" "tables_part (s\<lparr>interrupts_enabled := p2\<rparr>) = tables_part s"
  "tables_part (s\<lparr>kernel_ticks := p3\<rparr>) = tables_part s"
  by (simp_all add: tables_part_def)

text \<open>The rules that every proof below uses: the layers of the frame theory, at the tables.\<close>

lemmas table_rules = table_files.mutations table_files.file_fields table_files.objects table_files.fails

named_theorems boot_keeps \<open>operations of the boot that leave the tables alone\<close>

section \<open>Memory\<close>

lemma palloc_initialize_tables [boot_keeps]: "tables_part s = p \<Longrightarrow> keeps tables_part p (palloc_initialize s)"
  unfolding palloc_initialize_def Let_def
  by (auto simp: palloc_init_body_def table_rules Let_def intro!: keeps_while split: prod.split)

lemma palloc_self_test_tables: "tables_part (palloc_self_test s) = tables_part s"
  by (simp add: palloc_self_test_def Let_def split_beta table_rules)

lemma heap_initialize_tables: "tables_part (heap_initialize s) = tables_part s"
  by (simp add: heap_initialize_def table_rules)

lemma heap_self_test_tables [boot_keeps]: "tables_part s = p \<Longrightarrow> keeps tables_part p (heap_self_test s)"
  by (auto simp: heap_self_test_def table_files.kmalloc table_files.kzalloc table_files.kfree table_rules)

lemma paging_initialize_tables [boot_keeps]: "tables_part s = p \<Longrightarrow> keeps tables_part p (paging_initialize s)"
  by (auto simp: paging_initialize_def Let_def split_beta table_files.tables table_files.map_page_4k arch_halt_forever_def
      identity_body_def arch_load_cr3_def intro!: keeps_while)

lemma memmap_print_summary_tables: "tables_part (memmap_print_summary s) = tables_part s"
  by (simp add: memmap_print_summary_def Let_def table_rules)

lemma memmap_parse_tables: "tables_part s = p \<Longrightarrow> keeps tables_part p (memmap_parse n d v s)"
  by (auto simp: memmap_parse_def memmap_parse_body_def Let_def intro!: keeps_while)

lemma memmap_capture_and_exit_tables [boot_keeps]:
  "tables_part s = p \<Longrightarrow> keeps tables_part p (memmap_capture_and_exit g e h fw s)"
  by (auto simp: memmap_capture_and_exit_def Let_def split_beta memmap_parse_tables)

section \<open>Files\<close>

lemma namespace_programs_tables:
  "tables_part s = p \<Longrightarrow> keeps tables_part p (namespace_programs bld n ps s)"
  by (induction bld n ps s rule: namespace_programs.induct)
    (auto simp: Let_def table_rules table_files.vfs_node_initialize split: option.split)

lemma vfs_namespace_initialize_tables [boot_keeps]:
  "tables_part s = p \<Longrightarrow> keeps tables_part p (vfs_namespace_initialize bld s)"
  by (auto simp: vfs_namespace_initialize_def Let_def table_rules table_files.vfs_node_initialize namespace_programs_tables)

lemma test_tables:
  "tables_part s = p \<Longrightarrow> keeps tables_part p (vfs_test_fails s)" "tables_part s = p \<Longrightarrow> keeps tables_part p (fd_test_fails s)"
  by (simp_all add: vfs_test_fails_def fd_test_fails_def table_rules)

lemma test_executable_tables:
  assumes "tables_part s = p" "\<And>t. tables_part t = p \<Longrightarrow> keeps tables_part p (k t)"
  shows "keeps tables_part p (test_executable path k s)"
  unfolding test_executable_def
  using assms by (auto simp: table_files.vfs_open_exec_path table_files.vfs_file_close test_tables split: option.split)

lemma test_refused_tables:
  assumes "keeps tables_part p (open s)" "\<And>t. tables_part t = p \<Longrightarrow> keeps tables_part p (k t)"
  shows "keeps tables_part p (test_refused open k s)"
  unfolding test_refused_def using assms by (auto simp: test_tables)

lemma vfs_test_refused_paths_tables: "tables_part s = p \<Longrightarrow> keeps tables_part p (vfs_test_refused_paths s)"
  unfolding vfs_test_refused_paths_def
  by (intro test_refused_tables) (simp_all add: table_files.vfs_open_path table_files.vfs_open_exec_path table_rules)

lemma vfs_test_banner_tables: "tables_part s = p \<Longrightarrow> keeps tables_part p (vfs_test_banner s)"
  unfolding vfs_test_banner_def vfs_test_console_def Let_def
  by (auto simp: table_files.vfs_open_path table_files.vfs_file_read table_files.vfs_file_write table_files.vfs_file_close
      table_rules test_tables intro!: test_executable_tables vfs_test_refused_paths_tables)

lemma vfs_self_test_tables [boot_keeps]: "tables_part s = p \<Longrightarrow> keeps tables_part p (vfs_self_test s)"
  unfolding vfs_self_test_def Let_def
  by (auto simp: table_files.kzalloc table_files.kfree table_files.vfs_node_initialize table_files.vfs_file_open
      table_files.vfs_file_read table_files.vfs_file_write table_files.vfs_file_retain table_files.vfs_file_close
      table_rules test_tables split_beta intro!: vfs_test_banner_tables)

lemma install_placeholder_tables: "tables_part s = p \<Longrightarrow> keeps tables_part p (install_placeholder t r s)"
  by (auto simp: install_placeholder_def fd_make_placeholder_file_def Let_def table_files.kzalloc table_files.kfree
      table_files.vfs_node_initialize table_files.vfs_file_open table_rules)

lemma fill_table_tables: "tables_part s = p \<Longrightarrow> keeps tables_part p (fill_table ns t s)"
  by (induction ns arbitrary: t s) (auto simp: install_placeholder_tables)

lemma clear_released_tables: "tables_part (clear_released r s) = tables_part s"
  by (simp add: clear_released_def table_rules)

lemmas fd_tables = table_files.fd_table_initialize table_files.fd_table_dup table_files.fd_table_read table_files.fd_table_write
  table_files.fd_table_close table_files.fd_table_close_all table_files.fd_table_seed_console install_placeholder_tables
  fill_table_tables clear_released_tables test_tables table_rules

lemma fd_test_full_tables: "tables_part s = p \<Longrightarrow> keeps tables_part p (fd_test_full t s)"
  by (auto simp: fd_test_full_def fd_tables)

lemma fd_test_console_tables: "tables_part s = p \<Longrightarrow> keeps tables_part p (fd_test_console t s)"
  by (auto simp: fd_test_console_def fd_tables fd_test_full_tables)

lemma fd_self_test_tables [boot_keeps]: "tables_part s = p \<Longrightarrow> keeps tables_part p (fd_self_test t s)"
  by (auto simp: fd_self_test_def Let_def fd_tables fd_test_console_tables)

section \<open>Devices and tasks\<close>

lemma io_write8_tables: "tables_part (io_write8 port v s) = tables_part s"
  by (simp add: io_write8_def)

lemma device_tables:
  "tables_part (serial_init s) = tables_part s" "tables_part (pic_initialize m s) = tables_part s" "tables_part (pit_initialize f s) = tables_part s"
  by (simp_all add: serial_init_def pic_initialize_def pit_initialize_def io_wait_def Let_def io_write8_tables)

lemma core_fail_tables: "tables_part s = p \<Longrightarrow> keeps tables_part p (core_fail text s)"
  by (simp add: core_fail_def arch_halt_forever_def table_rules)

lemma configure_elf_tables: "tables_part s = p \<Longrightarrow> keeps tables_part p (configure_elf bld b s)"
  by (auto simp: configure_elf_def Let_def split_beta table_files.elf_load_user_image table_files.paging_map_user_page core_fail_tables)

lemma configure_linked_tables: "tables_part s = p \<Longrightarrow> keeps tables_part p (configure_linked bld b s)"
  by (auto simp: configure_linked_def Let_def split_beta table_rules table_files.paging_map_user_page core_fail_tables)

lemma sched_enable_user_task_tables: "tables_part s = p \<Longrightarrow> keeps tables_part p (sched_enable_user_task b s)"
  by (simp add: sched_enable_user_task_def sched_fail_def arch_halt_forever_def table_rules)

lemma configure_first_user_task_tables [boot_keeps]:
  "tables_part s = p \<Longrightarrow> keeps tables_part p (configure_first_user_task bld s)"
  by (auto simp: configure_first_user_task_def Let_def split_beta table_files.paging_create_user_address_space core_fail_tables
      configure_elf_tables configure_linked_tables sched_enable_user_task_tables)

lemma push_tables:
  "tables_part (snd (push v x)) = tables_part (snd x)" "tables_part (snd ((push v ^^ n) x)) = tables_part (snd x)"
  by (simp_all add: push_def split_beta table_rules, induction n, simp_all add: split_beta table_rules)

lemma upd_task_tables: "tables_part (upd_task t f s) = tables_part s"
  by (simp add: upd_task_def)

lemma stack_tables:
  "tables_part (snd (task_build_kernel_stack e s)) = tables_part s" "tables_part (snd (task_build_user_stack b s)) = tables_part s"
  by (simp_all add: task_build_kernel_stack_def task_build_user_stack_def Let_def split_beta push_tables table_rules)

lemma task_fd_tables:
  "tables_part s = p \<Longrightarrow> keeps tables_part p (seed_task_console t s)" "tables_part s = p \<Longrightarrow> keeps tables_part p (initialize_task_fds t s)"
  by (auto simp: seed_task_console_def initialize_task_fds_def fd_tables upd_task_tables)

lemma task_create_tables:
  "tables_part s = p \<Longrightarrow> keeps tables_part p (task_create_kernel t n e s)" "tables_part s = p \<Longrightarrow> keeps tables_part p (task_create_user t n b s)"
  by (auto simp: task_create_kernel_def task_create_user_def Let_def split_beta stack_tables upd_task_tables task_fd_tables)

lemma sched_initialize_tables [boot_keeps]: "tables_part s = p \<Longrightarrow> keeps tables_part p (sched_initialize bld s)"
  by (auto simp: sched_initialize_def Let_def task_fd_tables task_create_tables upd_task_tables)

lemmas boot_rules = boot_keeps table_rules palloc_self_test_tables heap_initialize_tables memmap_print_summary_tables device_tables
  core_fail_tables

end
