(* ===== verification/DeviceSpec.thy ===== *)
theory DeviceSpec
  imports TypeSpec BootSpec
begin

text \<open>
  What the processor reads out of the tables that \<open>gdt.c\<close> and \<open>idt.c\<close> build: the decoding of gates, segment
  descriptors and the task state segment is the architecture's, the encoding the code's.
\<close>

section \<open>Decoding\<close>


datatype gate = Gate (target: addr) (code_selector: u16) (gate_type: u8) (ring: u8)

text \<open>A gate whose present bit is clear raises a fault instead of a call.\<close>

definition decode_gate :: "idt_entry \<Rightarrow> gate option" where
  "decode_gate e = (if bit (type_attributes e) 7
     then Some (Gate (ucast (offset_low e) OR push_bit 16 (ucast (offset_mid e)) OR push_bit 32 (ucast (offset_high e)))
       (selector e) (type_attributes e AND 0x0F) (drop_bit 5 (type_attributes e) AND 3))
     else None)"





section \<open>Encoding and decoding\<close>

lemma low_bits:
  "(0xFF :: 'a :: len word) = mask 8" "(0xFFFF :: 'a word) = mask 16" "(0xFFFFFF :: 'a word) = mask 24"
  "(0xFFFFFFFF :: 'a word) = mask 32" "(0x0F :: 'a word) = mask 4"
  by (simp_all add: mask_eq_exp_minus_1)

lemma decode_idt_gate:
  "decode_gate (idt_gate h a) = (if bit a 7 then Some (Gate h 0x08 (a AND 0x0F) (drop_bit 5 a AND 3)) else None)"
proof -
  have "ucast (ucast (h AND 0xFFFF) :: u16) OR push_bit 16 (ucast (ucast (drop_bit 16 h AND 0xFFFF) :: u16))
    OR push_bit 32 (ucast (ucast (drop_bit 32 h AND 0xFFFFFFFF) :: u32)) = h"
    unfolding low_bits
  proof (rule bit_word_eqI)
    fix n :: nat assume n: "n < LENGTH(64)"
    consider "n < 16" | "16 \<le> n" "n < 32" "n - 16 < 16" "16 + (n - 16) = n" | "32 \<le> n" "\<not> n - 16 < 16" "32 + (n - 32) = n" "n - 32 < 32"
      using n by force
    then show "bit (ucast (ucast (h AND mask 16) :: u16) OR push_bit 16 (ucast (ucast (drop_bit 16 h AND mask 16) :: u16))
        OR push_bit 32 (ucast (ucast (drop_bit 32 h AND mask 32) :: u32)) :: u64) n = bit h n"
      by cases (use n in \<open>auto simp: bit_simps\<close>)
  qed
  then show ?thesis by (simp add: decode_gate_def idt_gate_def)
qed

lemma decode_gates [simp]:
  "decode_gate (idt_gate h 0x8E) = Some (Gate h 0x08 0x0E 0)" "decode_gate (idt_gate h 0xEE) = Some (Gate h 0x08 0x0E 3)"
  "decode_gate empty_gate = None"
  by (simp_all add: decode_idt_gate, simp add: decode_gate_def empty_gate_def)








section \<open>The tables after the boot\<close>











lemma write_le16_length [simp]: "length (write_le16 at v b) = length b"
  by (simp add: write_le16_def)



section \<open>The boot\<close>

text \<open>Where a run ends: \<open>R\<close> holds when it returns and \<open>H\<close> when the machine halts.\<close>

definition ends :: "('s \<Rightarrow> bool) \<Rightarrow> ('s \<Rightarrow> bool) \<Rightarrow> ('v, 's) outcome \<Rightarrow> bool" where
  "ends R H m \<longleftrightarrow> (case m of Ret v t \<Rightarrow> R t | Halt t \<Rightarrow> H t | Diverge \<Rightarrow> True)"

lemma ends_simps [simp]: "ends R H (Ret v t) = R t" "ends R H (Halt t) = H t" "ends R H Diverge"
  by (simp_all add: ends_def)







section \<open>A machine without memory\<close>

text \<open>Nothing is free and the heap is empty, so that every allocation fails.\<close>

definition dry :: "'a heap_state_scheme \<Rightarrow> bool" where
  "dry s \<longleftrightarrow> free_list_head s = 0 \<and> heap_head s = 0"





lemma dry_write [simp]: "dry (write_line text s) = dry s" "dry (write_text text s) = dry s"
  by (simp_all add: dry_def write_line_def write_text_def serial_write_def)

lemma dry_fields [simp]: "dry (s\<lparr>nodes := a\<rparr>) = dry s" "dry (put_node n v s) = dry s" "dry (clear_released r s) = dry s"
  "dry (s\<lparr>namespace_console_input_data := b\<rparr>) = dry s" "dry (s\<lparr>namespace_banner_data := c\<rparr>) = dry s"
  "dry (s\<lparr>namespace_bin_entries := d\<rparr>) = dry s" "dry (s\<lparr>namespace_ready := e\<rparr>) = dry s"
  by (simp_all add: dry_def put_node_def clear_released_def)












end
