(* ===== verification/LoadWindow.thy ===== *)
theory LoadWindow
  imports ElfSpec
begin

text \<open>
  The loader on physical memory: which bytes its checks look at, what the window holds once the segments are copied, and
  which pages leave the free list for it.
\<close>

section \<open>Reading the headers\<close>

lemma header_cong:
  assumes "\<And>i. i < 64 \<Longrightarrow> m (a + of_nat i) = m' (a + of_nat i)"
  shows "elf64_header_at m a = elf64_header_at m' a"
proof -
  have r: "rd_le m (a + of_nat k) j = rd_le m' (a + of_nat k) j" if "k + j \<le> 64" for k j
    by (rule rd_le_cong) (use assms[of "k + _"] that in \<open>simp add: add.assoc\<close>)
  show ?thesis
    using r[of 16 2] r[of 18 2] r[of 20 4] r[of 24 8] r[of 32 8] r[of 40 8] r[of 48 4] r[of 52 2] r[of 54 2] r[of 56 2]
      r[of 58 2] r[of 60 2] r[of 62 2] assms
    by (simp add: elf64_header_at_def rd64_def)
qed

lemma program_header_cong:
  assumes "\<And>i. i < 56 \<Longrightarrow> m (a + of_nat i) = m' (a + of_nat i)"
  shows "elf64_program_header_at m a = elf64_program_header_at m' a"
proof -
  have r: "rd_le m (a + of_nat k) j = rd_le m' (a + of_nat k) j" if "k + j \<le> 56" for k j
    by (rule rd_le_cong) (use assms[of "k + _"] that in \<open>simp add: add.assoc\<close>)
  show ?thesis
    using r[of 0 4] r[of 4 4] r[of 8 8] r[of 16 8] r[of 24 8] r[of 32 8] r[of 40 8] r[of 48 8]
    by (simp add: elf64_program_header_at_def rd64_def)
qed

lemma unat_less16: "unat (w :: u16) < 65536"
  using unsigned_less[of w] by simp

text \<open>The bytes the checks vouch for.\<close>

lemma validate_headerD:
  assumes "validate_header h n"
  shows "64 \<le> unat n" "unat (eh_phoff h) + unat (eh_phnum h) * 56 \<le> unat n"
proof -
  have v: "\<not> n < 64" "ucast (eh_phentsize h) = (56 :: u64)" "range_fits n (eh_phoff h) (ucast (eh_phnum h) * ucast (eh_phentsize h))"
    using assms by (auto simp: validate_header_def sizeof_elf64_header_def sizeof_elf64_program_header_def split: if_splits)
  show "64 \<le> unat n" using v(1) by (simp add: not_less word_le_nat_alt)
  have l: "unat (eh_phnum h) < 65536" by (rule unat_less16)
  have "unat (ucast (eh_phnum h) :: u64) = unat (eh_phnum h)"
    using l by (simp add: unsigned_ucast_eq take_bit_nat_eq_self)
  then have u: "unat ((ucast (eh_phnum h) :: u64) * 56) = unat (eh_phnum h) * 56"
    using l by (simp add: unat_word_ariths)
  have "\<not> n < eh_phoff h" "\<not> n - eh_phoff h < ucast (eh_phnum h) * 56"
    using v(2,3) by (auto simp: range_fits_def split: if_splits)
  then show "unat (eh_phoff h) + unat (eh_phnum h) * 56 \<le> unat n"
    using u by (simp add: not_less word_le_nat_alt unat_sub)
qed

text \<open>\<open>same_image m m' img n\<close>: the image at \<open>img\<close> has the same bytes in both memories.\<close>

definition same_image :: "memory \<Rightarrow> memory \<Rightarrow> addr \<Rightarrow> u64 \<Rightarrow> bool" where
  "same_image m m' img n \<longleftrightarrow> (\<forall>i < unat n. m' (img + of_nat i) = m (img + of_nat i))"

lemma same_image_header:
  assumes "same_image m m' img n" "64 \<le> unat n"
  shows "elf64_header_at m' img = elf64_header_at m img"
  by (rule header_cong) (use assms in \<open>simp add: same_image_def\<close>)

lemma same_image_phdr:
  assumes "same_image m m' img n" "unat off + k * 56 \<le> unat n" "i < k"
  shows "phdr_at m' (img + off) i = phdr_at m (img + off) i"
  unfolding phdr_at_def
proof (rule program_header_cong)
  fix j :: nat assume j: "j < 56"
  have "i * 56 + 56 \<le> k * 56" using assms(3) by simp
  then have "unat off + i * 56 + j < unat n" using assms(2) j by linarith
  moreover have "img + off + of_nat i * sizeof_elf64_program_header + of_nat j = img + of_nat (unat off + i * 56 + j)"
    by (simp add: sizeof_elf64_program_header_def)
  ultimately show "m' (img + off + of_nat i * sizeof_elf64_program_header + of_nat j)
      = m (img + off + of_nat i * sizeof_elf64_program_header + of_nat j)"
    using assms(1) by (simp only: same_image_def)
qed

section \<open>The bytes of the window\<close>

text \<open>
  The byte the headers put at offset \<open>off\<close> of the window: of all segments that cover it the last one decides, with a byte
  of the file \<open>f\<close> or with zero; \<open>c\<close> where none does.
\<close>

definition segment_byte :: "elf64_program_header \<Rightarrow> (u64 \<Rightarrow> u8) \<Rightarrow> addr \<Rightarrow> u64 \<Rightarrow> u8 \<Rightarrow> u8" where
  "segment_byte p f b off c =
    (if \<not> is_load p then c
     else if off - (ph_vaddr p - b) < ph_filesz p then f (ph_offset p + (off - (ph_vaddr p - b)))
     else if off - (ph_vaddr p - b) < ph_memsz p then 0 else c)"

primrec image_byte :: "elf64_program_header list \<Rightarrow> (u64 \<Rightarrow> u8) \<Rightarrow> addr \<Rightarrow> u64 \<Rightarrow> u8 \<Rightarrow> u8" where
  "image_byte [] f b off c = c"
| "image_byte (p # ps) f b off c = image_byte ps f b off (segment_byte p f b off c)"

lemma image_byte_append: "image_byte (ps @ qs) f b off c = image_byte qs f b off (image_byte ps f b off c)"
  by (induction ps arbitrary: c) simp_all

text \<open>Window \<open>w\<close> bytes at \<open>first\<close> with contents \<open>g\<close>, the rest of memory \<open>m\<close>.\<close>

definition windowed :: "addr \<Rightarrow> u64 \<Rightarrow> (u64 \<Rightarrow> u8) \<Rightarrow> memory \<Rightarrow> memory" where
  "windowed first w g m = (\<lambda>a. if a - first < w then g (a - first) else m a)"

lemma windowed_image:
  "\<forall>i < unat n. \<not> img + of_nat i - first < w \<Longrightarrow> same_image m (windowed first w g m) img n"
  by (simp add: same_image_def windowed_def)

lemma load_segment_step:
  fixes s :: "'a machine_scheme"
  assumes checks: "validate_program_headers ps phnum n" "compute_load_span ps = Some (b, e)" "p \<in> set ps"
    and apart: "\<forall>i < unat n. \<not> img + of_nat i - first < e - b"
  shows "load_segment img p b first (s\<lparr>mem := windowed first (e - b) g (mem s)\<rparr>)
    = (True, s\<lparr>mem := windowed first (e - b) (\<lambda>off. segment_byte p (\<lambda>i. mem s (img + i)) b off (g off)) (mem s)\<rparr>)"
proof (cases "is_load p")
  case False
  then show ?thesis by (simp add: load_segment_def is_load_def segment_byte_def)
next
  case True
  let ?d = "ph_vaddr p - b" and ?m = "windowed first (e - b) g (mem s)" and ?f = "\<lambda>i. mem s (img + i)"
  note l = load_segment_spec[OF checks True apart, of "s\<lparr>mem := ?m\<rparr>"]
  have "(if a - (first + ?d) < ph_filesz p then ?m (img + ph_offset p + (a - (first + ?d)))
      else if a - (first + ?d) < ph_memsz p then 0 else ?m a)
    = windowed first (e - b) (\<lambda>off. segment_byte p ?f b off (g off)) (mem s) a" for a
  proof -
    have off: "a - (first + ?d) = a - first - ?d" by simp
    show ?thesis
    proof (cases "a - first - ?d < ph_memsz p")
      case inside: True
      then have "a - (first + ?d) < ph_memsz p" by (simp only: off)
      then have w: "a - first < e - b" using l by blast
      have "?m (img + ph_offset p + (a - first - ?d)) = ?f (ph_offset p + (a - first - ?d))" if "a - first - ?d < ph_filesz p"
      proof -
        have "unat (ph_offset p) + unat (a - first - ?d) < unat n" using that l by (simp add: word_less_nat_alt)
        then have "\<not> img + of_nat (unat (ph_offset p) + unat (a - first - ?d)) - first < e - b" using apart by blast
        then show ?thesis by (simp add: windowed_def add.assoc)
      qed
      then show ?thesis using w inside True unfolding off by (simp add: windowed_def segment_byte_def)
    next
      case False
      moreover have "ph_filesz p \<le> ph_memsz p"
        using validate_load_segmentD(1)[OF validated[OF checks(1,3)] True] .
      ultimately have "\<not> a - first - ?d < ph_filesz p" by (meson order_less_le_trans)
      then show ?thesis using False True unfolding off by (simp add: windowed_def segment_byte_def)
    qed
  qed
  then show ?thesis using l by (simp cong: if_cong)
qed

text \<open>Clearing the window.\<close>

lemma clear_window_spec:
  fixes s :: "'a machine_scheme"
  assumes w: "unat w = 4096 * k" and top: "unat first + unat w < 18446744073709551616"
  shows "clear_window first (first + w) s = Ret (first + w) (s\<lparr>mem := windowed first w (\<lambda>_. 0) (mem s)\<rparr>)"
proof -
  have "c_while (\<lambda>page s. page < first + w) (\<lambda>page s. Ret (page + 4096) (memory_zero page 4096 s))
      (first + of_nat j * 4096) (s\<lparr>mem := windowed first (of_nat j * 4096) (\<lambda>_. 0) (mem s)\<rparr>)
    = Ret (first + w) (s\<lparr>mem := windowed first w (\<lambda>_. 0) (mem s)\<rparr>)" if "j \<le> k" for j
    using that
  proof (induction "k - j" arbitrary: j)
    case 0
    have "w = of_nat (unat w)" by simp
    also have "\<dots> = of_nat j * 4096" using w 0 by simp
    finally show ?case by (simp add: c_while_done)
  next
    case (Suc d)
    then have j: "j < k" by simp
    then have "4096 * j + 4096 \<le> unat w" using w by simp
    then have lt: "4096 * j + 4096 < 18446744073709551616" using top by linarith
    let ?x = "of_nat j * 4096 :: addr"
    have x: "unat ?x = 4096 * j" "unat (?x + 4096) = 4096 * j + 4096"
      using lt by (simp_all add: unat_word_ariths unat_of_nat)
    have "unat (first + ?x) = unat first + 4096 * j" "unat (first + w) = unat first + unat w"
      using top x(1) \<open>4096 * j + 4096 \<le> unat w\<close> by (simp_all add: unat_word_ariths)
    then have b: "first + ?x < first + w" using \<open>4096 * j + 4096 \<le> unat w\<close> by (simp add: word_less_nat_alt)
    have le: "?x \<le> ?x + 4096" using x by (simp add: word_le_nat_alt)
    have "memory_zero (first + ?x) 4096 (s\<lparr>mem := windowed first ?x (\<lambda>_. 0) (mem s)\<rparr>)
      = s\<lparr>mem := windowed first (?x + 4096) (\<lambda>_. 0) (mem s)\<rparr>"
    proof -
      have "(if a - (first + ?x) < 4096 then 0 else windowed first ?x (\<lambda>_. 0) (mem s) a)
        = windowed first (?x + 4096) (\<lambda>_. 0) (mem s) a" for a
      proof -
        have "a - (first + ?x) < 4096 \<longleftrightarrow> ?x \<le> a - first \<and> a - first < ?x + 4096"
          using split_range[OF le, of "a - first"] by (simp add: algebra_simps)
        moreover have "a - first < ?x \<Longrightarrow> a - first < ?x + 4096" using le by (rule order_less_le_trans[rotated])
        ultimately show ?thesis unfolding windowed_def by (auto simp: not_le)
      qed
      then show ?thesis by (simp add: memory_zero_eq cong: if_cong)
    qed
    moreover have "?x + 4096 = of_nat (Suc j) * 4096" by (simp add: algebra_simps)
    moreover note Suc.hyps(1)[of "Suc j"]
    ultimately show ?case using Suc.hyps(2) j b by (simp add: c_while_step add.assoc add.commute[of ?x 4096])
  qed
  from this[of 0] show ?thesis unfolding clear_window_def by (simp add: windowed_def)
qed

text \<open>Copying the segments.\<close>

lemma load_segments_spec:
  fixes s :: "'a machine_scheme"
  assumes checks: "validate_program_headers ps phnum n" "compute_load_span ps = Some (b, e)" "ps = phdr_list (mem s) (img + eh_phoff h) (eh_phnum h)"
    and h: "h = elf64_header_at (mem s) img" "validate_header h n"
    and apart: "\<forall>i < unat n. \<not> img + of_nat i - first < e - b"
  shows "\<exists>index. c_while (\<lambda>(index, ok) s. ok \<and> index < eh_phnum (elf64_header_at (mem s) img))
      (load_segments_body img (img + eh_phoff h) b first) (0, True) (s\<lparr>mem := windowed first (e - b) (\<lambda>_. 0) (mem s)\<rparr>)
    = Ret (index, True) (s\<lparr>mem := windowed first (e - b) (\<lambda>off. image_byte ps (\<lambda>i. mem s (img + i)) b off 0) (mem s)\<rparr>)"
proof -
  let ?N = "eh_phnum h" and ?f = "\<lambda>i. mem s (img + i)"
  define st where "st j = s\<lparr>mem := windowed first (e - b) (\<lambda>off. image_byte (take j ps) ?f b off 0) (mem s)\<rparr>" for j
  note v = validate_headerD[OF h(2)]
  have same: "same_image (mem s) (mem (st j)) img n" for j
    using windowed_image[OF apart] by (simp add: st_def)
  have len: "length ps = unat ?N" using checks(3) by (simp add: phdr_list_def)
  have N: "eh_phnum (elf64_header_at (mem (st j)) img) = ?N" for j
    using same_image_header[OF same v(1)] h(1) by simp
  have body: "load_segments_body img (img + eh_phoff h) b first (of_nat j, True) (st j) = Ret (of_nat (Suc j), True) (st (Suc j))"
    if j: "j < unat ?N" for j
  proof -
    have u: "unat (of_nat j :: u16) = j" using j unat_less16[of ?N] by (simp add: unat_of_nat)
    have p: "phdr_at (mem (st j)) (img + eh_phoff h) j = ps ! j"
      using same_image_phdr[OF same v(2) j] checks(3) j by (simp add: phdr_list_def)
    have "ps ! j \<in> set ps" using j len by simp
    note l = load_segment_step[OF checks(1,2) this apart, of "\<lambda>off. image_byte (take j ps) ?f b off 0"]
    have "take (Suc j) ps = take j ps @ [ps ! j]" using j len by (simp add: take_Suc_conv_app_nth)
    then have "load_segment img (ps ! j) b first (st j) = (True, st (Suc j))"
      unfolding st_def l by (simp add: image_byte_append)
    then show ?thesis by (simp add: load_segments_body_def u p)
  qed
  have "\<exists>index. c_while (\<lambda>(index, ok) s. ok \<and> index < eh_phnum (elf64_header_at (mem s) img))
      (load_segments_body img (img + eh_phoff h) b first) (of_nat j, True) (st j) = Ret (index, True) (st (unat ?N))"
    if "j \<le> unat ?N" for j
    using that
  proof (induction "unat ?N - j" arbitrary: j)
    case 0
    then have "j = unat ?N" by simp
    then show ?case by (simp add: c_while_done N)
  next
    case (Suc d)
    then have j: "j < unat ?N" by simp
    then have "(of_nat j :: u16) < ?N" using unat_less16[of ?N] by (simp add: word_less_nat_alt unat_of_nat)
    then show ?case using Suc.hyps(1)[of "Suc j"] Suc.hyps(2) j by (simp add: c_while_step N body)
  qed
  from this[of 0] show ?thesis using len by (simp add: st_def)
qed

section \<open>The pages of the window\<close>

interpretation kernel_root: memory_part paging_kernel_pml4
  by unfold_locales simp_all

text \<open>The pages the loader takes: those of the window that are not left over from the image that is running.\<close>

definition claimed :: "addr \<Rightarrow> nat \<Rightarrow> addr \<Rightarrow> addr \<Rightarrow> addr set" where
  "claimed first k rb re = {p \<in> set (region_pages first k). \<not> page_in_range p rb re}"

lemma take_outside:
  assumes "palloc_inv s ps" "\<forall>a. (\<forall>x \<in> set ps. \<not> a - x < 8) \<longrightarrow> mem t a = mem s a"
  shows "same_outside (set ps) s t"
  unfolding same_outside_def
proof (intro allI impI)
  fix a :: addr assume a: "a AND NOT 4095 \<notin> set ps"
  have "\<not> a - x < 8" if x: "x \<in> set ps" for x
  proof
    assume "a - x < 8"
    then have "unat (a - x) < 4096" by (simp add: word_less_nat_alt)
    moreover have "page_aligned x" using palloc_inv_page[OF assms(1) x] by simp
    ultimately have "(x + of_nat (unat (a - x))) AND NOT 4095 = x" using same_page_offset(1) by blast
    then show False using a x by simp
  qed
  then show "mem t a = mem s a" using assms(2) by blast
qed

lemma table_inv_taken:
  assumes inv: "table_inv s K ow ps" and o: "same_outside (set ps) s t" and p: "palloc_inv t ps'" "set ps' \<subseteq> set ps"
  shows "table_inv t K ow ps'" "ow r = Some (r, []) \<Longrightarrow> translate t r v = translate s r v"
    "ow r = Some (r, []) \<Longrightarrow> i < 512 \<Longrightarrow> entry_at t r i = entry_at s r i"
proof -
  have m: "\<forall>x \<in> covered ow []. mem t x = mem s x"
  proof
    fix x assume "x \<in> covered ow []"
    then obtain y where "ow (x AND NOT 4095) = Some y" by (auto simp: covered_def)
    then have "x AND NOT 4095 \<notin> set ps" using ownedD[OF table_invD(3)[OF inv], of _ "fst y" "snd y"] by simp
    then show "mem t x = mem s x" using o by (simp add: same_outside_def)
  qed
  show "table_inv t K ow ps'" by (rule table_inv_shrink[OF inv m p])
  show "ow r = Some (r, []) \<Longrightarrow> translate t r v = translate s r v" by (rule translate_tables[OF inv m])
  show "ow r = Some (r, []) \<Longrightarrow> i < 512 \<Longrightarrow> entry_at t r i = entry_at s r i"
    by (rule entry_outside[OF m]) (use ownedD[OF table_invD(3)[OF inv], of r r "[]"] in auto)
qed

lemma claim_step:
  fixes s :: "'a paging_state_scheme"
  assumes inv: "table_inv s K ow ps" and p: "page_aligned p" "page_in_range p rb re \<or> p \<in> set ps"
  shows "\<exists>t. claim_page_body rb re (p, True) s = Ret (p + 4096, True) t
    \<and> table_inv t K ow (if page_in_range p rb re then ps else filter (\<lambda>x. x \<noteq> p) ps) \<and> same_outside (set ps) s t"
proof (cases "page_in_range p rb re")
  case True
  then show ?thesis using inv by (simp add: claim_page_body_def)
next
  case False
  note pi = table_invD(1)[OF inv]
  have floor: "p AND NOT 4095 = p" using same_page_offset(1)[OF p(1), of 0] by simp
  from palloc_take_spec[OF pi, of p] obtain t where t: "palloc_take p s = Ret True t" "palloc_inv t (remove1 p ps)"
    "\<forall>a. (\<forall>x \<in> set ps. \<not> a - x < 8) \<longrightarrow> mem t a = mem s a" using p(2) False floor by auto
  have r: "remove1 p ps = filter (\<lambda>x. x \<noteq> p) ps" using palloc_inv_distinct[OF pi] by (rule distinct_remove1_removeAll[THEN trans]) (simp add: removeAll_filter_not_eq eq_commute)
  note o = take_outside[OF pi t(3)]
  have "table_inv t K ow (remove1 p ps)" by (rule table_inv_taken(1)[OF inv o t(2)]) (simp add: set_remove1_subset)
  then show ?thesis using t(1) r o False by (simp add: claim_page_body_def)
qed

lemma region_page_index:
  fixes first :: addr
  assumes "unat first + 4096 * k < 18446744073709551616" "i \<le> k"
  shows "unat (first + of_nat i * 4096) = unat first + 4096 * i"
  by (rule unat_region_page) (use assms in linarith)

lemma region_page_aligned:
  assumes "page_aligned first" "unat first + 4096 * k < 18446744073709551616" "i \<le> k"
  shows "page_aligned (first + of_nat i * 4096)"
proof -
  obtain j where "unat first = 4096 * j" using assms(1) by (rule page_alignedE)
  then have "unat (first + of_nat i * 4096) = 4096 * (j + i)" using region_page_index[OF assms(2,3)] by simp
  then show ?thesis by (simp add: page_aligned_def)
qed

lemma region_page_new:
  fixes first :: addr
  assumes "unat first + 4096 * k < 18446744073709551616" "j \<le> k"
  shows "first + of_nat j * 4096 \<notin> set (region_pages first j)"
proof
  assume "first + of_nat j * 4096 \<in> set (region_pages first j)"
  then obtain i where i: "i < j" "first + of_nat j * 4096 = first + of_nat i * 4096" by (auto simp: region_pages_def)
  then show False using region_page_index[OF assms(1), of i] region_page_index[OF assms] assms(2) by simp
qed

lemma claimed_Suc:
  "claimed first (Suc i) rb re = (if page_in_range (first + of_nat i * 4096) rb re then claimed first i rb re
     else insert (first + of_nat i * 4096) (claimed first i rb re))"
  by (auto simp: claimed_def region_pages_Suc)

text \<open>The loop over the first \<open>m\<close> pages.\<close>

lemma claim_prefix:
  fixes s :: "'a paging_state_scheme"
  assumes inv: "table_inv s K ow ps" and first: "page_aligned first" "unat first + 4096 * k < 18446744073709551616"
  shows "m \<le> k \<Longrightarrow> claimed first m rb re \<subseteq> set ps \<Longrightarrow>
    \<exists>t. c_while (\<lambda>(page, ok) s. ok \<and> page < first + of_nat k * 4096) (claim_page_body rb re) (first, True) s
      = c_while (\<lambda>(page, ok) s. ok \<and> page < first + of_nat k * 4096) (claim_page_body rb re) (first + of_nat m * 4096, True) t
    \<and> table_inv t K ow (filter (\<lambda>p. p \<notin> claimed first m rb re) ps) \<and> same_outside (set ps) s t"
proof (induction m)
  case 0
  then show ?case using inv by (intro exI[of _ s]) (simp add: claimed_def region_pages_def)
next
  case (Suc m)
  let ?e = "first + of_nat k * 4096" and ?p = "first + of_nat m * 4096" and ?ps = "filter (\<lambda>p. p \<notin> claimed first m rb re) ps"
  have m: "m < k" using Suc.prems(1) by simp
  have "claimed first m rb re \<subseteq> set ps" using Suc.prems(2) by (auto simp: claimed_Suc split: if_splits)
  with Suc.IH m obtain t where t: "c_while (\<lambda>(page, ok) s. ok \<and> page < ?e) (claim_page_body rb re) (first, True) s
      = c_while (\<lambda>(page, ok) s. ok \<and> page < ?e) (claim_page_body rb re) (?p, True) t"
    "table_inv t K ow ?ps" "same_outside (set ps) s t" by auto
  have "?p \<notin> claimed first m rb re" using region_page_new[OF first(2) less_imp_le[OF m]] by (simp add: claimed_def)
  then have "page_in_range ?p rb re \<or> ?p \<in> set ?ps" using Suc.prems(2) by (auto simp: claimed_Suc split: if_splits)
  from claim_step[OF t(2) region_page_aligned[OF first less_imp_le[OF m]] this] obtain u where
    u: "claim_page_body rb re (?p, True) t = Ret (?p + 4096, True) u"
    "table_inv u K ow (if page_in_range ?p rb re then ?ps else filter (\<lambda>x. x \<noteq> ?p) ?ps)" "same_outside (set ?ps) t u" by blast
  have "(if page_in_range ?p rb re then ?ps else filter (\<lambda>x. x \<noteq> ?p) ?ps) = filter (\<lambda>p. p \<notin> claimed first (Suc m) rb re) ps"
    by (auto simp: claimed_Suc intro: filter_cong)
  moreover have "same_outside (set ps) s u" by (rule same_outside_trans[OF t(3) u(3)]) auto
  moreover have "?p < ?e" using region_page_index[OF first(2), of m] region_page_index[OF first(2), of k] m by (simp add: word_less_nat_alt)
  moreover have next_page: "?p + 4096 = first + of_nat (Suc m) * 4096" by (simp add: algebra_simps)
  ultimately show ?case using t(1) u(1,2) by (intro exI[of _ u]) (simp add: c_while_step next_page)
qed

lemma claim_window_spec:
  fixes s :: "'a paging_state_scheme"
  assumes inv: "table_inv s K ow ps" and first: "page_aligned first" "unat first + 4096 * k < 18446744073709551616"
    and free: "claimed first k rb re \<subseteq> set ps"
  shows "\<exists>t. claim_window_pages first (first + of_nat k * 4096) rb re s = Ret True t
    \<and> table_inv t K ow (filter (\<lambda>p. p \<notin> claimed first k rb re) ps) \<and> same_outside (set ps) s t
    \<and> paging_kernel_pml4 t = paging_kernel_pml4 s"
proof -
  from claim_prefix[OF inv first order_refl free] obtain t where t:
    "c_while (\<lambda>(page, ok) s. ok \<and> page < first + of_nat k * 4096) (claim_page_body rb re) (first, True) s = Ret (first + of_nat k * 4096, True) t"
    "table_inv t K ow (filter (\<lambda>p. p \<notin> claimed first k rb re) ps)" "same_outside (set ps) s t" by (auto simp: c_while_done)
  then have r: "claim_window_pages first (first + of_nat k * 4096) rb re s = Ret True t" by (simp add: claim_window_pages_def)
  have "paging_kernel_pml4 t = paging_kernel_pml4 s" by (rule keeps_Ret[OF kernel_root.claim_window_pages[OF refl] r])
  then show ?thesis using r t(2,3) by blast
qed

text \<open>Giving pages back.\<close>

lemma palloc_free_outside:
  assumes "page_aligned p" "p \<in> P"
  shows "same_outside P s (palloc_free p s)"
proof (cases "p = 0")
  case False
  have "mem (palloc_free p s) = mem (set_entry p 0 (free_list_head s) s)"
    using False by (simp add: palloc_free_def Let_def set_entry_def store64_def)
  then show ?thesis using same_outside_set_entry[OF assms, of 0 s "free_list_head s"] by (simp add: same_outside_def)
qed simp

lemma free_page_step:
  assumes inv: "table_inv s K ow ps" and p: "page_aligned p" "p \<noteq> 0" "pointer_ok p" "p \<notin> dom ow \<union> set ps"
  shows "table_inv (palloc_free p s) K ow (p # ps)"
    "ow r = Some (r, []) \<Longrightarrow> translate (palloc_free p s) r v = translate s r v"
proof -
  have "same_outside {p} s (palloc_free p s)" by (rule palloc_free_outside[OF p(1)]) simp
  then have m: "\<forall>x \<in> covered ow []. mem (palloc_free p s) x = mem s x"
    using p(4) by (auto simp: covered_def same_outside_def)
  have "palloc_inv (palloc_free p s) (p # ps)" by (rule palloc_free_inv[OF table_invD(1)[OF inv]]) (use p in auto)
  moreover have "\<forall>q \<in> set (p # ps). pointer_ok q \<and> q \<notin> dom ow"
    using p table_invD(2)[OF inv] ownedD[OF table_invD(3)[OF inv]] by fastforce
  ultimately show "table_inv (palloc_free p s) K ow (p # ps)" by (rule table_inv_pages[OF inv m])
  show "ow r = Some (r, []) \<Longrightarrow> translate (palloc_free p s) r v = translate s r v" by (rule translate_tables[OF inv m])
qed

lemma free_prefix:
  fixes s :: "'a paging_state_scheme"
  assumes inv: "table_inv s K ow ps" and first: "page_aligned first" "unat first + 4096 * k < 18446744073709551616"
    and ok: "\<forall>p \<in> claimed first k rb re. p \<noteq> 0 \<and> pointer_ok p \<and> p \<notin> dom ow \<union> set ps"
  shows "m \<le> k \<Longrightarrow>
    \<exists>t qs. free_pages_loop first (first + of_nat k * 4096) rb re s
      = c_while (\<lambda>page s. page < first + of_nat k * 4096)
          (\<lambda>page s. Ret (page + 4096) (if page_in_range page rb re then s else palloc_free page s)) (first + of_nat m * 4096) t
    \<and> table_inv t K ow qs \<and> set qs = claimed first m rb re \<union> set ps \<and> same_outside (claimed first m rb re) s t
    \<and> (\<forall>r v. ow r = Some (r, []) \<longrightarrow> translate t r v = translate s r v)"
proof (induction m)
  case 0
  then show ?case using inv by (intro exI[of _ s] exI[of _ ps]) (simp add: free_pages_loop_def claimed_def region_pages_def)
next
  case (Suc m)
  let ?e = "first + of_nat k * 4096" and ?p = "first + of_nat m * 4096"
  let ?loop = "c_while (\<lambda>page s. page < ?e) (\<lambda>page s. Ret (page + 4096) (if page_in_range page rb re then s else palloc_free page s))"
  have m: "m < k" using Suc.prems by simp
  with Suc.IH obtain t qs where t: "free_pages_loop first ?e rb re s = ?loop ?p t" "table_inv t K ow qs"
    "set qs = claimed first m rb re \<union> set ps" "same_outside (claimed first m rb re) s t"
    "\<forall>r v. ow r = Some (r, []) \<longrightarrow> translate t r v = translate s r v" by auto
  have "?p < ?e" using region_page_index[OF first(2), of m] region_page_index[OF first(2), of k] m by (simp add: word_less_nat_alt)
  moreover have next_page: "?p + 4096 = first + of_nat (Suc m) * 4096" by (simp add: algebra_simps)
  ultimately have run: "free_pages_loop first ?e rb re s = ?loop (first + of_nat (Suc m) * 4096) (if page_in_range ?p rb re then t else palloc_free ?p t)"
    by (simp add: t(1) c_while_step next_page)
  show ?case
  proof (cases "page_in_range ?p rb re")
    case True
    then show ?thesis using run t(2-5) by (intro exI[of _ t] exI[of _ qs]) (simp add: claimed_Suc)
  next
    case False
    have al: "page_aligned ?p" by (rule region_page_aligned[OF first less_imp_le[OF m]])
    have "?p \<in> claimed first k rb re" using False m by (auto simp: claimed_def region_pages_def)
    moreover have "?p \<notin> claimed first m rb re" using region_page_new[OF first(2) less_imp_le[OF m]] by (simp add: claimed_def)
    ultimately have p: "?p \<noteq> 0" "pointer_ok ?p" "?p \<notin> dom ow \<union> set qs" using ok t(3) by auto
    note step = free_page_step[OF t(2) al p]
    have "same_outside (insert ?p (claimed first m rb re)) s t" by (rule same_outside_mono[OF t(4)]) auto
    moreover have "same_outside (insert ?p (claimed first m rb re)) t (palloc_free ?p t)" by (rule palloc_free_outside[OF al]) simp
    ultimately have "same_outside (insert ?p (claimed first m rb re)) s (palloc_free ?p t)" by (rule same_outside_trans) simp
    then show ?thesis using run step t(3,5) False
      by (intro exI[of _ "palloc_free ?p t"] exI[of _ "?p # qs"]) (simp add: claimed_Suc)
  qed
qed

lemma free_pages_spec:
  fixes s :: "'a paging_state_scheme"
  assumes "table_inv s K ow ps" "page_aligned first" "unat first + 4096 * k < 18446744073709551616"
    and "\<forall>p \<in> claimed first k rb re. p \<noteq> 0 \<and> pointer_ok p \<and> p \<notin> dom ow \<union> set ps"
  shows "\<exists>e t qs. free_pages_loop first (first + of_nat k * 4096) rb re s = Ret e t
    \<and> table_inv t K ow qs \<and> set qs = claimed first k rb re \<union> set ps \<and> same_outside (claimed first k rb re) s t
    \<and> (\<forall>r v. ow r = Some (r, []) \<longrightarrow> translate t r v = translate s r v)"
  using free_prefix[OF assms order_refl] by (auto simp: c_while_done)

text \<open>A page of the window that is taken: the pages before it go back.\<close>

lemma claim_window_fails:
  fixes s :: "'a paging_state_scheme"
  assumes inv: "table_inv s K ow ps" and first: "page_aligned first" "unat first + 4096 * k < 18446744073709551616"
    and taken: "\<not> claimed first k rb re \<subseteq> set ps"
  shows "\<exists>t qs. claim_window_pages first (first + of_nat k * 4096) rb re s = Ret False t
    \<and> table_inv t K ow qs \<and> set qs = set ps \<and> same_outside (set ps) s t
    \<and> (\<forall>r v. ow r = Some (r, []) \<longrightarrow> translate t r v = translate s r v)"
proof -
  have "claimed first 0 rb re \<subseteq> set ps" by (simp add: claimed_def region_pages_def)
  then have "\<exists>m < k. (\<forall>i \<le> m. \<not> \<not> claimed first i rb re \<subseteq> set ps) \<and> \<not> claimed first (Suc m) rb re \<subseteq> set ps"
    using ex_least_nat_less[of "\<lambda>j. \<not> claimed first j rb re \<subseteq> set ps" k] taken by blast
  then obtain m where m: "m < k" "claimed first m rb re \<subseteq> set ps" "\<not> claimed first (Suc m) rb re \<subseteq> set ps" by blast
  let ?e = "first + of_nat k * 4096" and ?p = "first + of_nat m * 4096" and ?ps = "filter (\<lambda>p. p \<notin> claimed first m rb re) ps"
  from claim_prefix[OF inv first less_imp_le[OF m(1)] m(2)] obtain t where t:
    "c_while (\<lambda>(page, ok) s. ok \<and> page < ?e) (claim_page_body rb re) (first, True) s
      = c_while (\<lambda>(page, ok) s. ok \<and> page < ?e) (claim_page_body rb re) (?p, True) t"
    "table_inv t K ow ?ps" "same_outside (set ps) s t" by blast
  have p: "\<not> page_in_range ?p rb re" "?p \<notin> set ps" using m(2,3) by (auto simp: claimed_Suc split: if_splits)
  have al: "page_aligned ?p" by (rule region_page_aligned[OF first less_imp_le[OF m(1)]])
  have "?p AND NOT 4095 = ?p" using same_page_offset(1)[OF al, of 0] by simp
  with palloc_take_spec[OF table_invD(1)[OF t(2)], of ?p] p(2) have "palloc_take ?p t = Ret False t" by auto
  then have body: "claim_page_body rb re (?p, True) t = Ret (?p, False) t" using p(1) by (simp add: claim_page_body_def)
  have lt: "?p < ?e" using region_page_index[OF first(2), of m] region_page_index[OF first(2), of k] m(1) by (simp add: word_less_nat_alt)
  have loop: "c_while (\<lambda>(page, ok) s. ok \<and> page < ?e) (claim_page_body rb re) (first, True) s = Ret (?p, False) t"
    using lt body by (simp add: t(1) c_while_step c_while_done)
  have top: "unat first + 4096 * m < 18446744073709551616" using first(2) m(1) by linarith
  have "\<forall>p \<in> claimed first m rb re. p \<noteq> 0 \<and> pointer_ok p \<and> p \<notin> dom ow \<union> set ?ps"
    using m(2) palloc_inv_page[OF table_invD(1)[OF inv]] table_invD(2)[OF inv] ownedD[OF table_invD(3)[OF inv]] by fastforce
  from free_pages_spec[OF t(2) first(1) top this] obtain e u qs where u: "free_pages_loop first ?p rb re t = Ret e u"
    "table_inv u K ow qs" "set qs = claimed first m rb re \<union> set ?ps" "same_outside (claimed first m rb re) t u"
    "\<forall>r v. ow r = Some (r, []) \<longrightarrow> translate u r v = translate t r v" by blast
  have "claim_window_pages first ?e rb re s = Ret False u" by (simp add: claim_window_pages_def loop u(1))
  moreover have "set qs = set ps" using u(3) m(2) by auto
  moreover have "same_outside (set ps) s u" by (rule same_outside_trans[OF t(3) u(4) m(2)])
  moreover have "translate u r v = translate s r v" if "ow r = Some (r, [])" for r v
    using u(5) that table_inv_taken(2)[OF inv t(3) table_invD(1)[OF t(2)] _ that] by simp
  ultimately show ?thesis using u(2) by blast
qed

lemma page_split: "p + of_nat (unat off div 4096) * 4096 + of_nat (unat off mod 4096) = (p + off :: addr)"
proof -
  have "(of_nat (unat off) :: addr) = of_nat (4096 * (unat off div 4096)) + of_nat (unat off mod 4096)"
    unfolding of_nat_add[symmetric] mult_div_mod_eq ..
  moreover have "(of_nat (4096 * (unat off div 4096)) :: addr) = of_nat (unat off div 4096) * 4096"
    by (simp only: of_nat_mult of_nat_numeral mult.commute)
  ultimately have "off = of_nat (unat off div 4096) * 4096 + of_nat (unat off mod 4096)" by (simp add: mult.commute)
  then show ?thesis by (simp only: add.assoc)
qed

lemma window_page:
  assumes "page_aligned first" "unat first + 4096 * k < 18446744073709551616" "unat (a - first) < 4096 * k"
  shows "a AND NOT 4095 \<in> set (region_pages first k)"
proof -
  define d where "d = unat (a - first)"
  have i: "d div 4096 < k" using assms(3) by (simp add: d_def less_mult_imp_div_less mult.commute)
  have a: "a = first + of_nat (d div 4096) * 4096 + of_nat (d mod 4096)" unfolding d_def page_split by simp
  have "page_aligned (first + of_nat (d div 4096) * 4096)" by (rule region_page_aligned[OF assms(1,2) less_imp_le[OF i]])
  from same_page_offset(1)[OF this, of "d mod 4096"] have "a AND NOT 4095 = first + of_nat (d div 4096) * 4096"
    by (subst a) simp
  then show ?thesis using i by (auto simp: region_pages_def)
qed

end
