(* ===== verification/LoadMaps.thy ===== *)
theory LoadMaps
  imports LoadWindow
begin

text \<open>Mapping pages into the window of a task, one after the other, and what the task sees through them.\<close>

section \<open>Mapping into the window of a task\<close>

text \<open>The private tables of space \<open>U\<close> all lie on the path of \<open>base\<close>, so there are at most four, its root included.\<close>

definition user_tables :: "'a paging_state_scheme \<Rightarrow> addr \<Rightarrow> addr \<Rightarrow> owners \<Rightarrow> addr list \<Rightarrow> addr \<Rightarrow> bool" where
  "user_tables s K U ow ps base \<longleftrightarrow> table_inv s K ow ps \<and> paging_kernel_pml4 s = K \<and> ow U = Some (U, []) \<and> U \<noteq> K
     \<and> (\<forall>x p. ow x = Some (U, p) \<longrightarrow> (\<exists>q. indices base = p @ q)) \<and> is_present (entry_at s U (pml4_index base))"

lemma root_tables_card:
  assumes "user_tables s K U ow ps base"
  shows "finite (root_tables ow U)" "card (root_tables ow U) \<le> 4" "1 \<le> card (root_tables ow U)"
proof -
  have i: "table_inv s K ow ps" "ow U = Some (U, [])" and path: "\<And>x p. ow x = Some (U, p) \<Longrightarrow> \<exists>q. indices base = p @ q"
    using assms by (simp_all add: user_tables_def)
  note d = table_invD[OF i(1)]
  let ?f = "\<lambda>x. length (snd (the (ow x)))"
  have inj: "inj_on ?f (root_tables ow U)"
  proof (rule inj_onI)
    fix x y assume "x \<in> root_tables ow U" "y \<in> root_tables ow U" and l: "?f x = ?f y"
    then obtain p q where o: "ow x = Some (U, p)" "ow y = Some (U, q)" by (auto simp: root_tables_def)
    moreover have "length p = length q" using l o by simp
    moreover obtain p' q' where "indices base = p @ p'" "indices base = q @ q'" using path[OF o(1)] path[OF o(2)] by blast
    ultimately have "p = q" by (metis append_eq_append_conv)
    then show "x = y" using owner_unique[OF d(3,5) o(1)] o(2) by blast
  qed
  have range: "?f ` root_tables ow U \<subseteq> {..<4}"
  proof
    fix k assume "k \<in> ?f ` root_tables ow U"
    then obtain x p where "ow x = Some (U, p)" "k = length p" by (auto simp: root_tables_def)
    then show "k \<in> {..<4}" using ownedD[OF d(3)] by fastforce
  qed
  show fin: "finite (root_tables ow U)" using inj finite_subset[OF range] by (simp add: finite_image_iff)
  have "card (root_tables ow U) = card (?f ` root_tables ow U)" using inj by (simp add: card_image)
  also have "\<dots> \<le> card {..<(4::nat)}" by (rule card_mono[OF _ range]) simp
  finally show "card (root_tables ow U) \<le> 4" by simp
  have "U \<in> root_tables ow U" using i(2) by (auto simp: root_tables_def)
  then show "1 \<le> card (root_tables ow U)" using fin by (simp add: Suc_le_eq card_gt_0_iff) blast
qed

text \<open>The tables that are in \<open>ow'\<close> and not in \<open>ow\<close> belong to \<open>U\<close>.\<close>

definition new_tables :: "owners \<Rightarrow> owners \<Rightarrow> addr \<Rightarrow> bool" where
  "new_tables ow ow' U \<longleftrightarrow> (\<forall>y. ow y = None \<longrightarrow> ow' y \<noteq> None \<longrightarrow> (\<exists>p. ow' y = Some (U, p)))"

lemma new_tables_refl [simp]: "new_tables ow ow U"
  by (simp add: new_tables_def)

lemma new_tables_trans:
  assumes "new_tables ow ow1 U" "new_tables ow1 ow2 U" "ow1 \<subseteq>\<^sub>m ow2"
  shows "new_tables ow ow2 U"
  unfolding new_tables_def
proof (intro allI impI)
  fix y assume y: "ow y = None" "ow2 y \<noteq> None"
  show "\<exists>p. ow2 y = Some (U, p)"
  proof (cases "ow1 y")
    case (Some z)
    then have "ow1 y \<noteq> None" by simp
    then obtain p where "ow1 y = Some (U, p)" using assms(1) y(1) unfolding new_tables_def by blast
    then have "ow2 y = Some (U, p)" by (rule map_le_Some[OF assms(3)])
    then show ?thesis by blast
  qed (use assms(2) y(2) in \<open>simp add: new_tables_def\<close>)
qed

text \<open>\<open>mapped s K U ow ps base ms t ow' ps'\<close>: state \<open>t\<close> after the mappings \<open>ms\<close> into space \<open>U\<close>.\<close>

definition mapped :: "'a paging_state_scheme \<Rightarrow> addr \<Rightarrow> addr \<Rightarrow> owners \<Rightarrow> addr list \<Rightarrow> addr \<Rightarrow> (addr \<times> addr) list \<Rightarrow>
    'a paging_state_scheme \<Rightarrow> owners \<Rightarrow> addr list \<Rightarrow> bool" where
  "mapped s K U ow ps base ms t ow' ps' \<longleftrightarrow> user_tables t K U ow' ps' base \<and> same_outside (dom ow \<union> set ps) s t \<and> ow \<subseteq>\<^sub>m ow' \<and> new_tables ow ow' U
     \<and> dom ow' \<union> set ps' = dom ow \<union> set ps \<and> length ps' + card (root_tables ow' U) = length ps + card (root_tables ow U)
     \<and> (\<forall>x v. ow x = Some (x, []) \<longrightarrow> translate t x v = (if x = U then mapped_entry ms v (translate s U v) else translate s x v))"

lemma mapped_refl: "user_tables s K U ow ps base \<Longrightarrow> mapped s K U ow ps base [] s ow ps"
  by (simp add: mapped_def)

lemma mapped_entry_append: "mapped_entry (ms @ ns) v e = mapped_entry ns v (mapped_entry ms v e)"
  by (induction ms arbitrary: e) simp_all

lemma mapped_room:
  assumes "mapped s K U ow ps base ms t ow' ps'" "user_tables s K U ow ps base"
  shows "length ps \<le> length ps' + 3"
  using assms(1) root_tables_card(2)[of t K U ow' ps' base] root_tables_card(3)[OF assms(2)] by (auto simp: mapped_def)

lemma root_tables_grow:
  assumes "ow \<subseteq>\<^sub>m ow'" "dom ow' = dom ow \<union> set ns" "\<forall>x \<in> set ns. ow x = None"
    "\<forall>x. ow x = None \<longrightarrow> ow' x \<noteq> None \<longrightarrow> (\<exists>p q. ow' x = Some (U, p) \<and> p \<noteq> [] \<and> is = p @ q)"
    "finite (root_tables ow U)" "distinct ns"
  shows "card (root_tables ow' U) = card (root_tables ow U) + length ns"
proof -
  have up: "ow' x = Some y" if "ow x = Some y" for x y using map_le_Some[OF assms(1) that] .
  have "root_tables ow' U = root_tables ow U \<union> set ns"
  proof (intro set_eqI iffI)
    fix x assume "x \<in> root_tables ow' U"
    then obtain p where "ow' x = Some (U, p)" by (auto simp: root_tables_def)
    then show "x \<in> root_tables ow U \<union> set ns"
      using assms(2) up[of x] by (cases "ow x") (auto simp: root_tables_def)
  next
    fix x assume x: "x \<in> root_tables ow U \<union> set ns"
    show "x \<in> root_tables ow' U"
    proof (cases "x \<in> set ns")
      case True
      then have "ow x = None" "x \<in> dom ow'" using assms(2,3) by auto
      then have "\<exists>p q. ow' x = Some (U, p) \<and> p \<noteq> [] \<and> is = p @ q" using assms(4) by (metis domIff)
      then show ?thesis unfolding root_tables_def by blast
    next
      case False
      then obtain p where "ow x = Some (U, p)" using x by (auto simp: root_tables_def)
      then show ?thesis using up unfolding root_tables_def by blast
    qed
  qed
  moreover have "root_tables ow U \<inter> set ns = {}" using assms(3) by (auto simp: root_tables_def)
  ultimately show ?thesis using card_Un_disjoint[OF assms(5)] distinct_card[OF assms(6)] by simp
qed

lemma map_page_step:
  assumes m: "mapped s K U ow ps base ms t ow' ps'" and va: "in_window base va" and room: "6 \<le> length ps'"
    and pa: "unat pa < 4503599627370496"
  shows "\<exists>u ow2 ps2. paging_map_user_page U va pa t = Ret () u \<and> paging_mapping_matches U va pa True u
    \<and> mapped s K U ow ps base (ms @ [(va, pa)]) u ow2 ps2"
proof -
  have ut: "table_inv t K ow' ps'" "paging_kernel_pml4 t = K" "ow' U = Some (U, [])" "U \<noteq> K"
      "\<And>x p. ow' x = Some (U, p) \<Longrightarrow> \<exists>q. indices base = p @ q" "is_present (entry_at t U (pml4_index base))"
    and so: "same_outside (dom ow \<union> set ps) s t" and nt: "new_tables ow ow' U" and le: "ow \<subseteq>\<^sub>m ow'" and all: "dom ow' \<union> set ps' = dom ow \<union> set ps"
    and count: "length ps' + card (root_tables ow' U) = length ps + card (root_tables ow U)"
    and tr: "\<And>x v. ow x = Some (x, []) \<Longrightarrow> translate t x v = (if x = U then mapped_entry ms v (translate s U v) else translate s x v)"
    using m by (auto simp: mapped_def user_tables_def)
  have win: "pml4_index va = pml4_index base" "take 3 (indices base) = take 3 (indices va)"
    using va by (simp_all add: in_window_def indices_def)
  have top: "is_present (entry_at t U (pml4_index va))" using ut(6) win(1) by simp
  from map_user_page_spec[OF ut(1,3,4,2) top, of pa] obtain u ow2 ps2 where u: "table_inv u K ow2 ps2" "pages_frame t u" "ow' \<subseteq>\<^sub>m ow2"
    "\<exists>ns. ps' = ns @ ps2 \<and> dom ow2 = dom ow' \<union> set ns"
    "\<forall>x. ow' x = None \<longrightarrow> ow2 x \<noteq> None \<longrightarrow> (\<exists>p q. ow2 x = Some (U, p) \<and> p \<noteq> [] \<and> indices va = p @ q)"
    "same_outside (dom ow' \<union> set ps') t u"
    "if paging_map_user_page U va pa t = Ret () u then
         (\<forall>x v. ow' x = Some (x, []) \<longrightarrow> translate u x v = (if x = U \<and> same_page v va then Some (PagingMap.user_entry pa) else translate t x v))
       else paging_map_user_page U va pa t = Halt u \<and> length ps' \<le> 5
         \<and> (\<forall>x v. ow' x = Some (x, []) \<longrightarrow> translate u x v = translate t x v)" by blast
  have r: "paging_map_user_page U va pa t = Ret () u" using u(7) room by (simp split: if_splits)
  then have tu: "\<And>x v. ow' x = Some (x, []) \<Longrightarrow>
      translate u x v = (if x = U \<and> same_page v va then Some (PagingMap.user_entry pa) else translate t x v)" using u(7) by simp
  obtain ns where ns: "ps' = ns @ ps2" "dom ow2 = dom ow' \<union> set ns" using u(4) by blast
  note d = table_invD[OF ut(1)] and d2 = table_invD[OF u(1)]
  have U2: "ow2 U = Some (U, [])" by (rule map_le_Some[OF u(3) ut(3)])
  have up: "ow' x = Some y" if "ow x = Some y" for x y using map_le_Some[OF le that] .
  have up2: "ow2 x = Some y" if "ow' x = Some y" for x y using map_le_Some[OF u(3) that] .
  have new: "ow' x = None" if "x \<in> set ns" for x
  proof (cases "ow' x")
    case (Some y)
    then show ?thesis using ownedD[OF d(3), of x "fst y" "snd y"] that ns(1) by simp
  qed
  have path: "\<exists>q. indices base = p @ q" if o: "ow2 x = Some (U, p)" for x p
  proof (cases "ow' x")
    case None
    then have "\<exists>p' q. Some (U, p) = Some (U, p') \<and> p' \<noteq> [] \<and> indices va = p' @ q" using u(5) o by (metis option.distinct(1))
    then obtain q where p: "p \<noteq> []" "indices va = p @ q" by auto
    have "length p \<le> 3" using ownedD[OF d2(3) o] by simp
    then have "take (length p) (indices base) = p" using p(2) win(2)
      by (metis append_eq_conv_conj min.absorb1 take_take)
    then show ?thesis by (metis append_take_drop_id)
  next
    case (Some y)
    then show ?thesis using up2[OF Some] o ut(5) by simp
  qed
  have "same_page va va" by (simp add: same_page_def)
  then have tva: "translate u U va = Some (PagingMap.user_entry pa)" using tu[OF ut(3)] by simp
  have "is_present (entry_at u U (pml4_index va))" by (rule translate_top) (simp add: tva)
  then have "user_tables u K U ow2 ps2 base"
    using u(1) pages_frame_kernel[OF u(2)] ut(2,4) U2 path win(1) by (simp add: user_tables_def)
  moreover have "same_outside (dom ow \<union> set ps) s u" by (rule same_outside_trans[OF so u(6)]) (simp add: all)
  moreover have "ow \<subseteq>\<^sub>m ow2" by (rule map_le_trans[OF le u(3)])
  moreover have "new_tables ow ow2 U" by (rule new_tables_trans[OF nt _ u(3)]) (use u(5) in \<open>unfold new_tables_def, blast\<close>)
  moreover have "dom ow2 \<union> set ps2 = dom ow \<union> set ps" using all ns by auto
  moreover have "length ps2 + card (root_tables ow2 U) = length ps + card (root_tables ow U)"
  proof -
    have "finite (root_tables ow' U)" using root_tables_card(1) m by (auto simp: mapped_def)
    moreover have "distinct ns" using palloc_inv_distinct[OF d(1)] ns(1) by simp
    ultimately have "card (root_tables ow2 U) = card (root_tables ow' U) + length ns"
      using root_tables_grow[OF u(3) ns(2) _ u(5)] new by blast
    then show ?thesis using count ns(1) by simp
  qed
  moreover have "translate u x v = (if x = U then mapped_entry (ms @ [(va, pa)]) v (translate s U v) else translate s x v)"
    if "ow x = Some (x, [])" for x v
    using tu[OF up[OF that], of v] tr[OF that, of v] by (cases "x = U") (simp_all add: mapped_entry_append)
  ultimately have "mapped s K U ow ps base (ms @ [(va, pa)]) u ow2 ps2" by (simp add: mapped_def)
  moreover have "paging_mapping_matches U va pa True u"
    unfolding mapping_matches_translate[OF u(1) U2] using tva user_entry_present(2)[of pa] user_entry_address[OF pa] by simp
  ultimately show ?thesis using r by blast
qed

text \<open>The mapping loop of the loader.\<close>

definition image_maps :: "addr \<Rightarrow> addr \<Rightarrow> nat \<Rightarrow> (addr \<times> addr) list" where
  "image_maps base first k = map (\<lambda>i. (base + of_nat i * 4096, first + of_nat i * 4096)) [0..<k]"

lemma map_image_spec:
  assumes ut: "user_tables s K U ow ps base" and room: "9 \<le> length ps" and win: "\<forall>i < k. in_window base (ib + of_nat i * 4096)"
    and k: "k < 65536" and top: "unat first + 4096 * k < 4503599627370496"
  shows "\<exists>index t ow' ps'. c_while (\<lambda>(index, ok) s. ok \<and> index < of_nat k) (map_image_body U ib first) (0, True) s = Ret (index, True) t
    \<and> mapped s K U ow ps base (image_maps ib first k) t ow' ps'"
proof -
  let ?loop = "c_while (\<lambda>(index, ok) s. ok \<and> index < of_nat k) (map_image_body U ib first)"
  have "\<exists>index u ow2 ps2. ?loop (of_nat j, True) t = Ret (index, True) u \<and> mapped s K U ow ps base (image_maps ib first k) u ow2 ps2"
    if "j \<le> k" "mapped s K U ow ps base (image_maps ib first j) t ow' ps'" for j t ow' ps'
    using that
  proof (induction "k - j" arbitrary: j t ow' ps')
    case 0
    then have "j = k" by simp
    then show ?case using 0 by (auto simp: c_while_done)
  next
    case (Suc d)
    then have j: "j < k" by simp
    have n: "unat (of_nat j :: u16) = j" "unat (of_nat k :: u16) = k" using j k by (simp_all add: unat_of_nat)
    then have lt: "(of_nat j :: u16) < of_nat k" using j by (simp add: word_less_nat_alt)
    have idx: "ucast (of_nat j :: u16) = (of_nat j :: u64)"
      using n(1) j k by (simp add: word_unat_eq_iff unsigned_ucast_eq unat_of_nat take_bit_nat_eq_self)
    have "unat first + 4096 * k < 18446744073709551616" using top by linarith
    then have "unat (first + of_nat j * 4096) = unat first + 4096 * j" using j by (rule region_page_index[OF _ less_imp_le])
    then have pa: "unat (first + of_nat j * 4096) < 4503599627370496" using top j by linarith
    have w: "in_window base (ib + of_nat j * 4096)" using win j by blast
    have r: "6 \<le> length ps'" using mapped_room[OF Suc.prems(2) ut] room by linarith
    from map_page_step[OF Suc.prems(2) w r pa] obtain u ow2 ps2 where u:
      "paging_map_user_page U (ib + of_nat j * 4096) (first + of_nat j * 4096) t = Ret () u"
      "paging_mapping_matches U (ib + of_nat j * 4096) (first + of_nat j * 4096) True u"
      "mapped s K U ow ps base (image_maps ib first j @ [(ib + of_nat j * 4096, first + of_nat j * 4096)]) u ow2 ps2" by blast
    have "map_image_body U ib first (of_nat j, True) t = Ret (of_nat (Suc j), True) u"
      using u(1,2) by (simp add: map_image_body_def idx add.commute[of 1])
    moreover have "mapped s K U ow ps base (image_maps ib first (Suc j)) u ow2 ps2" using u(3) by (simp add: image_maps_def)
    ultimately show ?case using Suc.hyps(1)[of "Suc j"] Suc.hyps(2) j lt by (simp add: c_while_step)
  qed
  from this[of 0 s ow ps] mapped_refl[OF ut] show ?thesis by (simp add: image_maps_def)
qed

section \<open>What the task sees\<close>

text \<open>The byte the processor reads at \<open>v\<close> under the root \<open>r\<close>; \<open>None\<close> when the page is not there.\<close>

definition space_byte :: "'a machine_scheme \<Rightarrow> addr \<Rightarrow> addr \<Rightarrow> u8 option" where
  "space_byte s r v = (case translate s r v of None \<Rightarrow> None | Some e \<Rightarrow> Some (mem s (physical_at e v)))"

lemma aligned_low:
  assumes "page_aligned p"
  shows "(p + off) AND 4095 = off AND 4095"
proof -
  obtain c where c: "unat p = 4096 * c" using assms by (rule page_alignedE)
  have "unat (p + off) mod 4096 = (unat p + unat off) mod 18446744073709551616 mod 4096" by (simp only: unat_word_ariths) simp
  also have "\<dots> = (unat p + unat off) mod 4096" by (rule mod_mod_cancel) simp
  also have "\<dots> = unat off mod 4096" by (simp add: c)
  finally show ?thesis unfolding word_unat_eq_iff unat_and_4095 .
qed

lemma physical_user_entry:
  assumes "page_aligned p" "page_aligned q" "unat (q + off) < 4503599627370496"
  shows "physical_at (PagingMap.user_entry (q + off)) (p + off) = q + off"
proof -
  have "(p + off) AND 4095 = (q + off) AND 4095" unfolding aligned_low[OF assms(1)] aligned_low[OF assms(2)] ..
  then show ?thesis unfolding physical_at_def user_entry_address[OF assms(3)]
    by (simp add: bit_eq_iff bit_simps) blast
qed

lemma same_page_low:
  assumes "unat v < 281474976710656" "unat w < 281474976710656"
  shows "same_page v w \<longleftrightarrow> unat v div 4096 = unat w div 4096"
proof
  have t: "take_bit 48 x = x" if "unat x < 281474976710656" for x :: addr
    unfolding word_unat_eq_iff unsigned_take_bit_eq using that by (simp add: take_bit_nat_eq_self)
  have d: "unat (drop_bit 12 x) = unat x div 4096" for x :: addr
    by (simp only: unsigned_drop_bit_eq) (simp add: drop_bit_eq_div take_bit_nat_eq_self)
  assume "same_page v w"
  then have "drop_bit 12 v = drop_bit 12 w" unfolding same_page_def t[OF assms(1)] t[OF assms(2)] .
  then show "unat v div 4096 = unat w div 4096" using d by metis
qed (rule same_page_div)

lemma mapped_entry_none: "\<forall>m \<in> set ms. \<not> same_page v (fst m) \<Longrightarrow> mapped_entry ms v e = e"
  by (induction ms) simp_all

lemma image_maps_entry:
  assumes "page_aligned ib" "page_aligned first" "unat ib + 4096 * k \<le> 281474976710656" "unat first + 4096 * k < 18446744073709551616"
    and off: "unat off < 4096 * k"
  shows "mapped_entry (image_maps ib first k) (ib + off) e = Some (PagingMap.user_entry (first + off))"
proof -
  have b: "unat (ib + of_nat i * 4096) = unat ib + 4096 * i" if "i \<le> k" for i
    by (rule region_page_index[OF _ that]) (use assms(3) in linarith)
  obtain c where c: "unat ib = 4096 * c" using assms(1) by (rule page_alignedE)
  let ?i = "unat off div 4096"
  have i: "?i < k" using off by (simp add: less_mult_imp_div_less mult.commute)
  have v: "unat (ib + off) = unat ib + unat off" using assms(3) off by (simp add: unat_word_ariths)
  have same: "same_page (ib + off) (ib + of_nat j * 4096) \<longleftrightarrow> j = ?i" if "j < k" for j
  proof -
    have "same_page (ib + off) (ib + of_nat j * 4096) \<longleftrightarrow> (4096 * c + unat off) div 4096 = (4096 * c + 4096 * j) div 4096"
      using same_page_low[of "ib + off" "ib + of_nat j * 4096"] v b[of j] that off assms(3) c by simp
    then show ?thesis by auto
  qed
  have split: "image_maps ib first k = image_maps ib first ?i @ (ib + of_nat ?i * 4096, first + of_nat ?i * 4096)
      # map (\<lambda>j. (ib + of_nat j * 4096, first + of_nat j * 4096)) [Suc ?i..<k]"
  proof -
    have "[0..<k] = [0..<?i] @ ?i # [Suc ?i..<k]" using i by (metis le_add1 less_imp_add_positive upt_add_eq_append upt_conv_Cons le0 less_imp_le_nat add_0)
    then show ?thesis by (simp add: image_maps_def)
  qed
  have e: "PagingMap.user_entry (first + of_nat ?i * 4096) = PagingMap.user_entry (first + off)"
  proof -
    have "page_aligned (first + of_nat ?i * 4096)" by (rule region_page_aligned[OF assms(2,4) less_imp_le[OF i]])
    from same_page_offset(1)[OF this, of "unat off mod 4096"] same_page_offset(1)[OF this, of 0]
    have "(first + of_nat ?i * 4096 + of_nat (unat off mod 4096)) AND NOT 4095 = (first + of_nat ?i * 4096) AND NOT 4095" by simp
    moreover have "first + of_nat ?i * 4096 + of_nat (unat off mod 4096) = first + off" by (rule page_split)
    ultimately show ?thesis by (simp add: PagingMap.user_entry_def paging_page_size_def)
  qed
  show ?thesis unfolding split mapped_entry_append using same[OF i] same by (simp add: e mapped_entry_none)
qed

end
