(* ===== verification/LoadSpec.thy ===== *)
theory LoadSpec
  imports LoadMaps
begin

text \<open>
  \<open>elf_load_user_image\<close> as a whole: what it does with memory, with the free pages and with the address space when it
  accepts an image.
\<close>

section \<open>Accepted images\<close>

lemma image_byte_cong:
  assumes "\<forall>p \<in> set ps. validate_load_segment n p" "\<forall>i. unat i < unat n \<longrightarrow> f i = g i"
  shows "image_byte ps f b off c = image_byte ps g b off c"
  using assms(1)
proof (induction ps arbitrary: c)
  case (Cons p ps)
  have "segment_byte p f b off c = segment_byte p g b off c"
  proof (cases "is_load p \<and> off - (ph_vaddr p - b) < ph_filesz p")
    case True
    then have "unat (ph_offset p) + unat (off - (ph_vaddr p - b)) < unat n"
      using validate_load_segmentD(2)[of n p] Cons.prems by (simp add: word_less_nat_alt)
    moreover have "unat (ph_offset p) + unat (off - (ph_vaddr p - b)) < 18446744073709551616"
      using calculation unat_less64[of n] by linarith
    ultimately have "unat (ph_offset p + (off - (ph_vaddr p - b))) < unat n" by (simp add: unat_word_ariths)
    then have "f (ph_offset p + (off - (ph_vaddr p - b))) = g (ph_offset p + (off - (ph_vaddr p - b)))" using assms(2) by blast
    then show ?thesis using True by (simp add: segment_byte_def)
  qed (auto simp: segment_byte_def)
  then show ?case using Cons by simp
qed simp

lemma filter_room:
  assumes "distinct ps" "A \<subseteq> B" "finite B" "card B \<le> k"
  shows "length ps \<le> length (filter (\<lambda>p. p \<notin> A) ps) + k"
proof -
  have "length (filter (\<lambda>p. p \<in> A) ps) = card (set (filter (\<lambda>p. p \<in> A) ps))" by (rule distinct_card[OF distinct_filter[OF assms(1)], symmetric])
  also have "\<dots> \<le> card B" by (rule card_mono[OF assms(3)]) (use assms(2) in auto)
  finally show ?thesis using assms(4) sum_length_filter_compl[of "\<lambda>p. p \<in> A" ps] by linarith
qed

lemma pointer_ok_bound:
  assumes "pointer_ok p"
  shows "unat p < 4503599627370496"
proof -
  have m: "paging_address_mask = push_bit 12 (mask 40)" by (simp add: paging_address_mask_def mask_eq_exp_minus_1)
  have b: "n < 52" if "bit p n" for n
  proof -
    have "bit (p AND paging_address_mask) n" using that assms by (simp add: pointer_ok_def)
    then show ?thesis by (auto simp: m bit_simps)
  qed
  have "p = take_bit 52 p" by (rule bit_word_eqI) (use b in \<open>auto simp: bit_simps\<close>)
  then have "unat p = take_bit 52 (unat p)" by (metis unsigned_take_bit_eq)
  then have "unat p = unat p mod 4503599627370496" by (simp add: take_bit_eq_mod)
  then show ?thesis by (metis mod_less_divisor zero_less_numeral)
qed

lemma load_span_pages:
  assumes "compute_load_span ps = Some (b, e)"
  shows "unat (e - b) = 4096 * (unat (e - b) div 4096)" "b < e"
proof -
  obtain lo hi f where r: "fold load_span_step ps (0, 0, False) = (lo, hi, f)" by (metis prod_cases3)
  have be: "b = align_down lo" "e = elf_align_up hi" "b < e"
    using assms unfolding compute_load_span_def r by (auto simp: Let_def split: if_splits)
  have "unat b = 4096 * (unat lo div 4096)" "unat e = 4096 * (unat (hi + 4095) div 4096)"
    unfolding be(1,2) align_down_def elf_align_up_def by (rule unat_page_floor)+
  moreover have "unat (e - b) = unat e - unat b" using be(3) by (simp add: unat_sub)
  ultimately have "unat (e - b) = 4096 * (unat (hi + 4095) div 4096 - unat lo div 4096)" by (simp add: diff_mult_distrib2)
  then show "unat (e - b) = 4096 * (unat (e - b) div 4096)" by simp
  show "b < e" by (fact be(3))
qed

text \<open>
  \<open>accepted_image m img n hs b e\<close>: the \<open>n\<close> bytes at \<open>img\<close> pass every check of the loader, \<open>hs\<close> are the program headers
  and \<open>b\<close>, \<open>e\<close> the ends of the span.
\<close>

definition accepted_image :: "memory \<Rightarrow> addr \<Rightarrow> u64 \<Rightarrow> elf64_program_header list \<Rightarrow> addr \<Rightarrow> addr \<Rightarrow> bool" where
  "accepted_image m img n hs b e \<longleftrightarrow>
     (let h = elf64_header_at m img
      in validate_header h n \<and> hs = phdr_list m (img + eh_phoff h) (eh_phnum h) \<and> validate_program_headers hs (eh_phnum h) n
         \<and> compute_load_span hs = Some (b, e) \<and> entry_in_load_segment hs (eh_entry h) \<and> e - b \<le> elf_user_load_size)"

lemma accepted_image_cong:
  assumes i: "same_image m m' img n" and acc: "accepted_image m img n hs b e"
  shows "accepted_image m' img n hs b e"
proof -
  let ?h = "elf64_header_at m img"
  have a: "validate_header ?h n" "hs = phdr_list m (img + eh_phoff ?h) (eh_phnum ?h)"
    using acc by (auto simp: accepted_image_def Let_def)
  have h: "elf64_header_at m' img = ?h" by (rule same_image_header[OF i validate_headerD(1)[OF a(1)]])
  have l: "phdr_list m' (img + eh_phoff ?h) (eh_phnum ?h) = phdr_list m (img + eh_phoff ?h) (eh_phnum ?h)"
    unfolding phdr_list_def using same_image_phdr[OF i validate_headerD(2)[OF a(1)]] by simp
  show ?thesis using acc unfolding accepted_image_def Let_def h l .
qed

text \<open>
  \<open>window_free ow ps img n k rb re\<close>: each of the \<open>k\<close> pages of the load window is free, or belongs to the image that is being
  replaced and is neither free nor a table; the new image lies neither in the window nor in a table nor in free memory.
\<close>

definition window_free :: "owners \<Rightarrow> addr list \<Rightarrow> addr \<Rightarrow> u64 \<Rightarrow> nat \<Rightarrow> addr \<Rightarrow> addr \<Rightarrow> bool" where
  "window_free ow ps img n k rb re \<longleftrightarrow>
     (\<forall>p \<in> set (region_pages elf_user_load_base k). if page_in_range p rb re then p \<notin> dom ow \<union> set ps else p \<in> set ps)
     \<and> (\<forall>i < unat n. (img + of_nat i) AND NOT 4095 \<notin> dom ow \<union> set ps \<union> set (region_pages elf_user_load_base k))"

lemma window_apart:
  assumes "window_free ow ps img n k rb re" "owned ow ps"
  shows "set (region_pages elf_user_load_base k) \<inter> (dom ow \<union> set (filter (\<lambda>p. p \<notin> claimed elf_user_load_base k rb re) ps)) = {}"
proof -
  have "p \<notin> dom ow \<union> set (filter (\<lambda>p. p \<notin> claimed elf_user_load_base k rb re) ps)" if "p \<in> set (region_pages elf_user_load_base k)" for p
    using assms(1) that ownedD[OF assms(2), of p] by (auto simp: window_free_def claimed_def split: if_splits)
  then show ?thesis by blast
qed

lemma load_base: "page_aligned elf_user_load_base" "unat elf_user_load_base = 34603008"
  by (simp_all add: elf_user_load_base_def page_aligned_def)

lemma accepted_imageD:
  assumes "accepted_image m img n hs b e"
  shows "unat (e - b) = 4096 * (unat (e - b) div 4096)" "unat (e - b) div 4096 \<le> 256"
    "e - b = of_nat (unat (e - b) div 4096) * 4096" "64 \<le> unat n"
proof -
  have c: "compute_load_span hs = Some (b, e)" "e - b \<le> 0x00100000" "validate_header (elf64_header_at m img) n"
    using assms by (auto simp: accepted_image_def Let_def elf_user_load_size_def)
  show u: "unat (e - b) = 4096 * (unat (e - b) div 4096)" by (rule load_span_pages(1)[OF c(1)])
  show "unat (e - b) div 4096 \<le> 256" using c(2) by (simp add: word_le_nat_alt)
  have "e - b = of_nat (4096 * (unat (e - b) div 4096))" unfolding u[symmetric] by simp
  then show "e - b = of_nat (unat (e - b) div 4096) * 4096" by (simp only: of_nat_mult of_nat_numeral mult.commute)
  show "64 \<le> unat n" by (rule validate_headerD(1)[OF c(3)])
qed

text \<open>A write into the window touches neither a table nor the free list.\<close>

lemma window_write:
  assumes ut: "user_tables s K U ow ps base" and w: "unat w = 4096 * k" "unat first + 4096 * k < 18446744073709551616" "page_aligned first"
    and free: "set (region_pages first k) \<inter> (dom ow \<union> set ps) = {}"
  shows "user_tables (s\<lparr>mem := windowed first w g (mem s)\<rparr>) K U ow ps base"
    and "ow r = Some (r, []) \<Longrightarrow> translate (s\<lparr>mem := windowed first w g (mem s)\<rparr>) r v = translate s r v"
proof -
  let ?t = "s\<lparr>mem := windowed first w g (mem s)\<rparr>"
  have inv: "table_inv s K ow ps" and U: "ow U = Some (U, [])" using ut by (simp_all add: user_tables_def)
  have "\<not> a - first < w" if "a \<in> covered ow ps" for a
  proof
    assume "a - first < w"
    then have "unat (a - first) < 4096 * k" using w(1) by (simp add: word_less_nat_alt)
    then have "a AND NOT 4095 \<in> set (region_pages first k)" by (rule window_page[OF w(3,2)])
    then show False using free that by (auto simp: covered_def)
  qed
  then have m: "\<forall>x \<in> covered ow ps. mem ?t x = mem s x" by (simp add: windowed_def)
  have "table_inv ?t K ow ps" by (rule table_inv_outside[OF inv m]) simp_all
  moreover have "entry_at ?t U (pml4_index base) = entry_at s U (pml4_index base)"
    by (rule entry_outside[OF m]) (use U ownedD[OF table_invD(3)[OF inv] U] in auto)
  ultimately show "user_tables ?t K U ow ps base" using ut by (simp add: user_tables_def)
  show "ow r = Some (r, []) \<Longrightarrow> translate ?t r v = translate s r v" by (rule translate_outside[OF inv m])
qed

text \<open>The bytes the window holds once the segments are in it.\<close>

definition window_bytes :: "memory \<Rightarrow> addr \<Rightarrow> elf64_program_header list \<Rightarrow> addr \<Rightarrow> u64 \<Rightarrow> u8" where
  "window_bytes m img hs b off = image_byte hs (\<lambda>i. m (img + i)) b off 0"

lemma window_bytes_cong:
  assumes img: "same_image m m' img n" and acc: "accepted_image m img n hs b e"
  shows "window_bytes m' img hs b off = window_bytes m img hs b off"
  unfolding window_bytes_def
proof (rule image_byte_cong)
  have "validate_program_headers hs (eh_phnum (elf64_header_at m img)) n" using acc unfolding accepted_image_def Let_def by blast
  then show "\<forall>p \<in> set hs. validate_load_segment n p" using validated by blast
  show "\<forall>i. unat i < unat n \<longrightarrow> m' (img + i) = m (img + i)"
  proof (intro allI impI)
    fix i :: u64 assume "unat i < unat n"
    then show "m' (img + i) = m (img + i)" using img[unfolded same_image_def, rule_format, of "unat i"] by simp
  qed
qed

lemma load_image_spec:
  fixes s :: "'a machine_scheme"
  assumes acc: "accepted_image (mem s0) img n hs b e" and img: "same_image (mem s0) (mem s) img n"
    and w: "w = e - b" and first: "page_aligned first" "unat first + unat w < 18446744073709551616"
    and apart: "\<forall>i < unat n. (img + of_nat i) AND NOT 4095 \<notin> set (region_pages first (unat w div 4096))"
  shows "\<exists>index. c_while (\<lambda>(index, ok) s. ok \<and> index < eh_phnum (elf64_header_at (mem s) img))
      (load_segments_body img (img + eh_phoff (elf64_header_at (mem s0) img)) b first) (0, True) (s\<lparr>mem := windowed first w (\<lambda>_. 0) (mem s)\<rparr>)
    = Ret (index, True) (s\<lparr>mem := windowed first w (window_bytes (mem s0) img hs b) (mem s)\<rparr>)"
    and "same_image (mem s0) (windowed first w g (mem s)) img n"
proof -
  let ?h = "elf64_header_at (mem s0) img"
  have a: "validate_header ?h n" "hs = phdr_list (mem s0) (img + eh_phoff ?h) (eh_phnum ?h)" "validate_program_headers hs (eh_phnum ?h) n"
    "compute_load_span hs = Some (b, e)" using acc by (auto simp: accepted_image_def Let_def)
  have h: "?h = elf64_header_at (mem s) img" using same_image_header[OF img] validate_headerD(1)[OF a(1)] by simp
  have "phdr_at (mem s) (img + eh_phoff ?h) i = phdr_at (mem s0) (img + eh_phoff ?h) i" if "i < unat (eh_phnum ?h)" for i
    by (rule same_image_phdr[OF img validate_headerD(2)[OF a(1)] that])
  then have hs: "hs = phdr_list (mem s) (img + eh_phoff ?h) (eh_phnum ?h)" using a(2) by (simp add: phdr_list_def)
  have u: "unat (e - b) = 4096 * (unat (e - b) div 4096)" by (rule accepted_imageD(1)[OF acc])
  have apart': "\<forall>i < unat n. \<not> img + of_nat i - first < e - b"
  proof (intro allI impI notI)
    fix i assume i: "i < unat n" "img + of_nat i - first < e - b"
    have "(img + of_nat i) AND NOT 4095 \<in> set (region_pages first (unat (e - b) div 4096))"
      by (rule window_page[OF first(1)]) (use i(2) u first(2) w in \<open>simp_all add: word_less_nat_alt\<close>)
    then show False using apart i(1) w by blast
  qed
  have bytes: "image_byte hs (\<lambda>i. mem s (img + i)) b off 0 = window_bytes (mem s0) img hs b off" for off
    using window_bytes_cong[OF img acc] by (simp add: window_bytes_def)
  from load_segments_spec[OF a(3,4) hs h a(1) apart'] show "\<exists>index. c_while (\<lambda>(index, ok) s. ok \<and> index < eh_phnum (elf64_header_at (mem s) img))
      (load_segments_body img (img + eh_phoff ?h) b first) (0, True) (s\<lparr>mem := windowed first w (\<lambda>_. 0) (mem s)\<rparr>)
    = Ret (index, True) (s\<lparr>mem := windowed first w (window_bytes (mem s0) img hs b) (mem s)\<rparr>)"
    unfolding bytes w .
  show "same_image (mem s0) (windowed first w g (mem s)) img n"
    using windowed_image[OF apart', of "mem s" g] img unfolding w same_image_def by metis
qed

lemma load_window_spec:
  fixes s :: "'a paging_state_scheme"
  assumes ut: "user_tables s K U ow ps base" and acc: "accepted_image (mem s) img n hs b e"
    and w: "w = e - b" "k = unat w div 4096" and free: "window_free ow ps img n k rb re"
  shows "\<exists>t1 index t. claim_window_pages elf_user_load_base (elf_user_load_base + w) rb re s = Ret True t1
    \<and> clear_window elf_user_load_base (elf_user_load_base + w) t1
        = Ret (elf_user_load_base + w) (t1\<lparr>mem := windowed elf_user_load_base w (\<lambda>_. 0) (mem t1)\<rparr>)
    \<and> c_while (\<lambda>(index, ok) s. ok \<and> index < eh_phnum (elf64_header_at (mem s) img))
        (load_segments_body img (img + eh_phoff (elf64_header_at (mem s) img)) b elf_user_load_base) (0, True)
        (t1\<lparr>mem := windowed elf_user_load_base w (\<lambda>_. 0) (mem t1)\<rparr>) = Ret (index, True) t
    \<and> user_tables t K U ow (filter (\<lambda>p. p \<notin> claimed elf_user_load_base k rb re) ps) base
    \<and> (\<forall>x v. ow x = Some (x, []) \<longrightarrow> translate t x v = translate s x v)
    \<and> same_image (mem s) (mem t) img n
    \<and> (\<forall>off < w. mem t (elf_user_load_base + off) = window_bytes (mem s) img hs b off)
    \<and> same_outside (set ps \<union> set (region_pages elf_user_load_base k)) s t"
proof -
  let ?F = elf_user_load_base and ?ps = "filter (\<lambda>p. p \<notin> claimed elf_user_load_base k rb re) ps"
  note a = accepted_imageD[OF acc, folded w]
  have top: "unat ?F + 4096 * k < 18446744073709551616" "unat ?F + unat w < 18446744073709551616" using a(1,2) load_base(2) w(2) by linarith+
  have wk: "unat w = 4096 * k" using a(1) w(2) by simp
  have end_eq: "?F + w = ?F + of_nat k * 4096" using a(3) w(2) by simp
  have inv: "table_inv s K ow ps" and U: "ow U = Some (U, [])" using ut by (simp_all add: user_tables_def)
  have cl: "claimed ?F k rb re \<subseteq> set ps" using free by (auto simp: window_free_def claimed_def split: if_splits)
  from claim_window_spec[OF inv load_base(1) top(1) cl] obtain t1 where t1: "claim_window_pages ?F (?F + w) rb re s = Ret True t1"
    "table_inv t1 K ow ?ps" "same_outside (set ps) s t1" "paging_kernel_pml4 t1 = paging_kernel_pml4 s" unfolding end_eq by blast
  have sub: "set ?ps \<subseteq> set ps" by auto
  note tk = table_inv_taken[OF inv t1(3) table_invD(1)[OF t1(2)] sub]
  have ut1: "user_tables t1 K U ow ?ps base" using ut t1(2,4) tk(3)[OF U index_lt(1)] by (simp add: user_tables_def)
  have img1: "same_image (mem s) (mem t1) img n" using free t1(3) by (simp add: same_image_def same_outside_def window_free_def)
  have apart: "\<forall>i < unat n. (img + of_nat i) AND NOT 4095 \<notin> set (region_pages ?F (unat w div 4096))"
    using free w(2) by (simp add: window_free_def)
  let ?t = "t1\<lparr>mem := windowed ?F w (window_bytes (mem s) img hs b) (mem t1)\<rparr>"
  note li = load_image_spec[OF acc img1 w(1) load_base(1) top(2) apart]
  from li(1) obtain index where loop: "c_while (\<lambda>(index, ok) s. ok \<and> index < eh_phnum (elf64_header_at (mem s) img))
        (load_segments_body img (img + eh_phoff (elf64_header_at (mem s) img)) b ?F) (0, True)
        (t1\<lparr>mem := windowed ?F w (\<lambda>_. 0) (mem t1)\<rparr>) = Ret (index, True) ?t" by blast
  note disj = window_apart[OF free table_invD(3)[OF inv]]
  note ww = window_write[OF ut1 wk top(1) load_base(1) disj, where g = "window_bytes (mem s) img hs b"]
  have out: "same_outside (set ps \<union> set (region_pages ?F k)) s ?t"
    unfolding same_outside_def
  proof (intro allI impI)
    fix x :: addr assume x: "x AND NOT 4095 \<notin> set ps \<union> set (region_pages ?F k)"
    have "\<not> x - ?F < w" using window_page[OF load_base(1) top(1), of x] wk x by (auto simp: word_less_nat_alt)
    then show "mem ?t x = mem s x" using t1(3) x by (simp add: windowed_def same_outside_def)
  qed
  have "translate ?t x v = translate s x v" if "ow x = Some (x, [])" for x v using ww(2)[OF that] tk(2)[OF that] by simp
  moreover have "\<forall>off < w. mem ?t (?F + off) = window_bytes (mem s) img hs b off" by (simp add: windowed_def)
  moreover have "same_image (mem s) (mem ?t) img n" using li(2)[of "window_bytes (mem s) img hs b"] by simp
  ultimately show ?thesis using t1(1) clear_window_spec[OF wk top(2), of t1] loop ww(1) out by blast
qed

section \<open>The whole loader\<close>

lemma finish_load_spec:
  fixes s :: "'a paging_state_scheme"
  assumes ut: "user_tables s K U ow (x # ps) base" and room: "6 \<le> length ps" and win: "in_window base (stack_top l - 4096)"
  shows "\<exists>t ow' ps'. elf_finish_load h l U b ue img s = Ret (True, Some (img\<lparr>loaded_stack_page := x, loaded_stack_top := stack_top l,
        load_begin := image_base l, load_end := ue, loaded_entry := image_base l + (eh_entry h - b)\<rparr>)) t
    \<and> mapped (snd (palloc_alloc s)) K U ow ps base [(stack_top l - 4096, x)] t ow' ps'
    \<and> length ps \<le> length ps' + 3
    \<and> (\<forall>y v. ow y = Some (y, []) \<longrightarrow> translate (snd (palloc_alloc s)) y v = translate s y v)"
proof -
  have inv: "table_inv s K ow (x # ps)" and U: "ow U = Some (U, [])" using ut by (simp_all add: user_tables_def)
  note pi = table_invD(1)[OF inv]
  let ?s = "snd (palloc_alloc s)"
  obtain s1 where al: "palloc_alloc s = (x, s1)" using palloc_alloc_Cons(1)[OF pi] by simp
  have "same_outside (set (x # ps)) s ?s" by (simp add: same_outside_def)
  note tk = table_inv_taken[OF inv this palloc_alloc_Cons(2)[OF pi] set_subset_Cons]
  have "paging_kernel_pml4 ?s = paging_kernel_pml4 s" using palloc_alloc_Cons(1)[OF pi] by simp
  then have ut1: "user_tables ?s K U ow ps base" using ut tk(1) tk(3)[OF U index_lt(1)] by (simp add: user_tables_def)
  have x: "x \<noteq> 0" "pointer_ok x" using palloc_inv_page[OF pi, of x] table_invD(2)[OF inv] by simp_all
  from map_page_step[OF mapped_refl[OF ut1] win room pointer_ok_bound[OF x(2)]] obtain t ow2 ps2 where
    t: "paging_map_user_page U (stack_top l - 4096) x ?s = Ret () t" "paging_mapping_matches U (stack_top l - 4096) x True t"
    "mapped ?s K U ow ps base [(stack_top l - 4096, x)] t ow2 ps2" by auto
  have "elf_finish_load h l U b ue img s = Ret (True, Some (img\<lparr>loaded_stack_page := x, loaded_stack_top := stack_top l,
        load_begin := image_base l, load_end := ue, loaded_entry := image_base l + (eh_entry h - b)\<rparr>)) t"
    using x(1) t(1,2) unfolding al by (simp add: elf_finish_load_def al Let_def)
  then show ?thesis using t(3) tk(2) mapped_room[OF t(3) ut1] by blast
qed

definition layout_fits :: "user_virtual_layout \<Rightarrow> u64 \<Rightarrow> bool" where
  "layout_fits l w \<longleftrightarrow> page_aligned (image_base l) \<and> image_base l \<noteq> 0 \<and> 4096 < stack_top l \<and> unat (stack_top l) \<le> 140737488355328
     \<and> unat (image_base l) + unat w \<le> unat (stack_top l - 4096)
     \<and> (\<forall>v. image_base l \<le> v \<and> v < stack_top l \<longrightarrow> in_window (image_base l) v)"

lemma layout_fitsD:
  assumes "layout_fits l w" "unat w = 4096 * k" "1 \<le> k"
  shows "unat (image_base l) + 4096 * k \<le> 281474976710656" "in_window (image_base l) (stack_top l - 4096)"
    "\<forall>i < k. in_window (image_base l) (image_base l + of_nat i * 4096)"
    "image_base l \<le> image_base l + w" "image_base l + w \<le> stack_top l - 4096"
proof -
  have f: "4096 < stack_top l" "unat (stack_top l) \<le> 140737488355328" "unat (image_base l) + unat w \<le> unat (stack_top l - 4096)"
    and win: "\<And>v. image_base l \<le> v \<Longrightarrow> v < stack_top l \<Longrightarrow> in_window (image_base l) v"
    using assms(1) by (auto simp: layout_fits_def)
  have st: "unat (stack_top l - 4096) = unat (stack_top l) - 4096" using f(1) by (simp add: unat_sub)
  have top: "4096 < unat (stack_top l)" using f(1) by (simp add: word_less_nat_alt)
  show b: "unat (image_base l) + 4096 * k \<le> 281474976710656" using f(2,3) st assms(2) by linarith
  have u: "unat (image_base l + w) = unat (image_base l) + unat w" using f(2,3) st by (simp add: unat_word_ariths)
  show "image_base l \<le> image_base l + w" using u by (simp add: word_le_nat_alt)
  show "image_base l + w \<le> stack_top l - 4096" using u f(3) by (simp add: word_le_nat_alt)
  show "in_window (image_base l) (stack_top l - 4096)"
    by (rule win) (use f(3) st top in \<open>simp_all add: word_le_nat_alt word_less_nat_alt\<close>)
  show "\<forall>i < k. in_window (image_base l) (image_base l + of_nat i * 4096)"
  proof (intro allI impI)
    fix i assume i: "i < k"
    have "unat (image_base l + of_nat i * 4096) = unat (image_base l) + 4096 * i"
      by (rule region_page_index[of _ k]) (use b i in linarith)+
    then show "in_window (image_base l) (image_base l + of_nat i * 4096)"
      by (intro win) (use f(3) st top i assms(2) in \<open>simp_all add: word_le_nat_alt word_less_nat_alt\<close>)
  qed
qed

text \<open>The window is the range of one page table; the one layout of the kernel fits every image up to a megabyte.\<close>

lemma window_2m:
  assumes "unat v div 2097152 = unat base div 2097152"
  shows "in_window base v"
proof -
  have d: "unat (drop_bit 21 x) = unat x div 2097152" for x :: addr
    by (simp only: unsigned_drop_bit_eq) (simp add: drop_bit_eq_div take_bit_nat_eq_self)
  have e: "drop_bit 21 v = drop_bit 21 base" using assms d by (simp add: word_unat_eq_iff)
  have "drop_bit 30 x = drop_bit 9 (drop_bit 21 x)" "drop_bit 39 x = drop_bit 18 (drop_bit 21 x)" for x :: addr by simp_all
  then show ?thesis using e unfolding in_window_def pml4_index_def pdpt_index_def pd_index_def by metis
qed

lemma first_layout_fits:
  assumes "unat w \<le> 0x00100000"
  shows "layout_fits first_user_layout w"
proof -
  have "in_window 0x40001000 v" if "0x40001000 \<le> v" "v < 0x40200000" for v :: addr
    by (rule window_2m) (use that in \<open>simp add: word_le_nat_alt word_less_nat_alt\<close>)
  then show ?thesis using assms by (simp add: layout_fits_def first_user_layout_def page_aligned_def)
qed

text \<open>What the loader reports: the image at offset \<open>off\<close> of its entry, with stack page \<open>x\<close>.\<close>

abbreviation image_of :: "user_virtual_layout \<Rightarrow> u64 \<Rightarrow> addr \<Rightarrow> addr \<Rightarrow> u64 \<Rightarrow> addr \<Rightarrow> loaded_user_image" where
  "image_of l w rb re off x \<equiv> \<lparr>load_begin = image_base l, load_end = image_base l + w, load_physical_begin = elf_user_load_base,
     load_physical_end = elf_user_load_base + w, reusable_physical_begin = rb, reusable_physical_end = re,
     loaded_entry = image_base l + off, loaded_stack_page = x, loaded_stack_top = stack_top l\<rparr>"

text \<open>Up to the stack page.\<close>

lemma elf_load_enter:
  fixes s :: "'a paging_state_scheme"
  assumes ut: "user_tables s K U ow ps (image_base l)" and acc: "accepted_image (mem s) img n hs b e"
    and w: "w = e - b" "k = unat w div 4096" and free: "window_free ow ps img n k rb re"
    and room: "card (claimed elf_user_load_base k rb re) + 10 \<le> length ps" and lay: "layout_fits l w"
  shows "\<exists>t2 t3 ow2 ps2. elf_load_user_image img n l U rb re (Some old) s
      = elf_finish_load (elf64_header_at (mem s) img) l U b (image_base l + w) (cleared_image\<lparr>load_physical_begin := elf_user_load_base,
          load_physical_end := elf_user_load_base + w, reusable_physical_begin := rb, reusable_physical_end := re\<rparr>) t3
    \<and> (\<forall>off < w. mem t2 (elf_user_load_base + off) = window_bytes (mem s) img hs b off)
    \<and> (\<forall>x v. ow x = Some (x, []) \<longrightarrow> translate t2 x v = translate s x v)
    \<and> mapped t2 K U ow (filter (\<lambda>p. p \<notin> claimed elf_user_load_base k rb re) ps) (image_base l)
        (image_maps (image_base l) elf_user_load_base k) t3 ow2 ps2
    \<and> length ps \<le> length ps2 + card (claimed elf_user_load_base k rb re) + 3
    \<and> same_outside (set ps \<union> set (region_pages elf_user_load_base k)) s t2"
proof -
  let ?F = elf_user_load_base and ?ps = "filter (\<lambda>p. p \<notin> claimed elf_user_load_base k rb re) ps" and ?h = "elf64_header_at (mem s) img"
  note a = accepted_imageD[OF acc, folded w]
  have c: "validate_header ?h n" "validate_program_headers (phdr_list (mem s) (img + eh_phoff ?h) (eh_phnum ?h)) (eh_phnum ?h) n"
    "compute_load_span (phdr_list (mem s) (img + eh_phoff ?h) (eh_phnum ?h)) = Some (b, e)"
    "entry_in_load_segment (phdr_list (mem s) (img + eh_phoff ?h) (eh_phnum ?h)) (eh_entry ?h)" "\<not> elf_user_load_size < e - b"
    using acc by (auto simp: accepted_image_def Let_def not_less)
  have inv: "table_inv s K ow ps" and U: "ow U = Some (U, [])" using ut by (simp_all add: user_tables_def)
  have nz: "U \<noteq> 0" "image_base l \<noteq> 0" "stack_top l \<noteq> 0" "\<not> stack_top l \<le> 4096"
    using ownedD[OF table_invD(3)[OF inv] U] lay by (auto simp: layout_fits_def not_le)
  have wk: "unat w = 4096 * k" using a(1) w(2) by simp
  have "b < e" by (rule load_span_pages(2)[OF c(3)])
  then have k1: "1 \<le> k" using wk w(1) by (cases k) (auto simp: unat_eq_0)
  note f = layout_fitsD[OF lay wk k1]
  from load_window_spec[OF ut acc w free] obtain t1 index t2 where t2:
    "claim_window_pages ?F (?F + w) rb re s = Ret True t1"
    "clear_window ?F (?F + w) t1 = Ret (?F + w) (t1\<lparr>mem := windowed ?F w (\<lambda>_. 0) (mem t1)\<rparr>)"
    "c_while (\<lambda>(index, ok) s. ok \<and> index < eh_phnum (elf64_header_at (mem s) img)) (load_segments_body img (img + eh_phoff ?h) b ?F) (0, True)
      (t1\<lparr>mem := windowed ?F w (\<lambda>_. 0) (mem t1)\<rparr>) = Ret (index, True) t2"
    "user_tables t2 K U ow ?ps (image_base l)" "\<forall>x v. ow x = Some (x, []) \<longrightarrow> translate t2 x v = translate s x v"
    "same_image (mem s) (mem t2) img n" "\<forall>off < w. mem t2 (?F + off) = window_bytes (mem s) img hs b off"
    "same_outside (set ps \<union> set (region_pages ?F k)) s t2" by blast
  have "claimed ?F k rb re \<subseteq> claimed ?F k rb re" "finite (claimed ?F k rb re)" by (simp_all add: claimed_def)
  note l = filter_room[OF palloc_inv_distinct[OF table_invD(1)[OF inv]] this order_refl]
  then have l9: "9 \<le> length ?ps" using room by linarith
  have top: "k < 65536" "unat ?F + 4096 * k < 4503599627370496" using a(2) w(2) load_base(2) by linarith+
  from map_image_spec[OF t2(4) l9 f(3) top] obtain i2 t3 ow2 ps2 where t3:
    "c_while (\<lambda>(index, ok) s. ok \<and> index < of_nat k) (map_image_body U (image_base l) ?F) (0, True) t2 = Ret (i2, True) t3"
    "mapped t2 K U ow ?ps (image_base l) (image_maps (image_base l) ?F k) t3 ow2 ps2" by blast
  have count: "ucast (w div 4096) = (of_nat k :: u16)"
  proof -
    have "unat (w div 4096) = k" "unat (of_nat k :: u64) = k" using w(2) top(1) by (simp_all add: unat_div unat_of_nat)
    then show ?thesis using top(1) by (simp add: word_unat_eq_iff unsigned_ucast_eq unat_of_nat take_bit_nat_eq_self)
  qed
  have "same_outside (dom ow \<union> set ?ps) t2 t3" using t3(2) by (simp add: mapped_def)
  then have "same_image (mem s) (mem t3) img n"
    using free t2(6) by (auto simp: same_image_def same_outside_def window_free_def)
  then have h3: "elf64_header_at (mem t3) img = ?h" using same_image_header a(4) by blast
  have "elf_load_user_image img n l U rb re (Some old) s
      = elf_finish_load ?h l U b (image_base l + w) (cleared_image\<lparr>load_physical_begin := ?F,
          load_physical_end := ?F + w, reusable_physical_begin := rb, reusable_physical_end := re\<rparr>) t3"
    unfolding elf_load_user_image_def Let_def clear_loaded_user_image_def
    using c(1-4) nz by (simp add: w(1)[symmetric] leD[OF f(4)] leD[OF f(5)] c(5)[folded w(1)] t2(1-3) count t3(1) h3)
  moreover have "length ps \<le> length ps2 + card (claimed ?F k rb re) + 3" using mapped_room[OF t3(2) t2(4)] l by linarith
  ultimately show ?thesis using t2(5,7,8) t3(2) by blast
qed

lemma elf_load_spec:
  fixes s :: "'a paging_state_scheme"
  assumes ut: "user_tables s K U ow ps (image_base l)" and acc: "accepted_image (mem s) img n hs b e"
    and w: "w = e - b" "k = unat w div 4096" and free: "window_free ow ps img n k rb re"
    and room: "card (claimed elf_user_load_base k rb re) + 10 \<le> length ps" and lay: "layout_fits l w"
  shows "\<exists>t x ow' ps'. elf_load_user_image img n l U rb re (Some old) s
      = Ret (True, Some (image_of l w rb re (eh_entry (elf64_header_at (mem s) img) - b) x)) t
    \<and> user_tables t K U ow' ps' (image_base l) \<and> ow \<subseteq>\<^sub>m ow' \<and> new_tables ow ow' U \<and> length ps \<le> length ps' + card (claimed elf_user_load_base k rb re) + 7
    \<and> insert x (dom ow' \<union> set ps') = dom ow \<union> (set ps - claimed elf_user_load_base k rb re)
    \<and> x \<notin> dom ow' \<union> set ps' \<and> x \<in> set ps
    \<and> (\<forall>off < w. mem t (elf_user_load_base + off) = window_bytes (mem s) img hs b off)
    \<and> (\<forall>y v. ow y = Some (y, []) \<longrightarrow> translate t y v = (if y = U
         then mapped_entry (image_maps (image_base l) elf_user_load_base k @ [(stack_top l - 4096, x)]) v (translate s U v)
         else translate s y v))
    \<and> same_outside (dom ow \<union> set ps \<union> set (region_pages elf_user_load_base k)) s t"
proof -
  let ?F = elf_user_load_base and ?ps = "filter (\<lambda>p. p \<notin> claimed elf_user_load_base k rb re) ps"
  have inv: "table_inv s K ow ps" and U: "ow U = Some (U, [])" using ut by (simp_all add: user_tables_def)
  note a = accepted_imageD[OF acc, folded w]
  have wk: "unat w = 4096 * k" using a(1) w(2) by simp
  have top: "unat ?F + 4096 * k < 18446744073709551616" using a(2) w(2) load_base(2) by linarith
  have "b < e" using load_span_pages(2) acc by (auto simp: accepted_image_def Let_def)
  then have k1: "1 \<le> k" using wk w(1) by (cases k) (auto simp: unat_eq_0)
  from elf_load_enter[OF ut acc w free room lay, of old] obtain t2 t3 ow2 ps2 where e:
    "elf_load_user_image img n l U rb re (Some old) s
      = elf_finish_load (elf64_header_at (mem s) img) l U b (image_base l + w) (cleared_image\<lparr>load_physical_begin := ?F,
          load_physical_end := ?F + w, reusable_physical_begin := rb, reusable_physical_end := re\<rparr>) t3"
    "\<forall>off < w. mem t2 (?F + off) = window_bytes (mem s) img hs b off" "\<forall>x v. ow x = Some (x, []) \<longrightarrow> translate t2 x v = translate s x v"
    "mapped t2 K U ow ?ps (image_base l) (image_maps (image_base l) ?F k) t3 ow2 ps2" "length ps \<le> length ps2 + card (claimed ?F k rb re) + 3"
    "same_outside (set ps \<union> set (region_pages ?F k)) s t2" by blast
  from e(5) room obtain x ps3 where ps3: "ps2 = x # ps3" "6 \<le> length ps3" by (cases ps2) auto
  have m: "user_tables t3 K U ow2 (x # ps3) (image_base l)" "same_outside (dom ow \<union> set ?ps) t2 t3" "ow \<subseteq>\<^sub>m ow2"
    "dom ow2 \<union> set (x # ps3) = dom ow \<union> set ?ps"
    "\<And>y v. ow y = Some (y, []) \<Longrightarrow> translate t3 y v = (if y = U then mapped_entry (image_maps (image_base l) ?F k) v (translate t2 U v) else translate t2 y v)"
    and nt: "new_tables ow ow2 U"
    using e(4) unfolding mapped_def ps3(1) by blast+
  let ?u = "snd (palloc_alloc t3)"
  from finish_load_spec[OF m(1) ps3(2) layout_fitsD(2)[OF lay wk k1]] obtain t ow' ps' where t:
    "elf_finish_load (elf64_header_at (mem s) img) l U b (image_base l + w) (cleared_image\<lparr>load_physical_begin := ?F,
          load_physical_end := ?F + w, reusable_physical_begin := rb, reusable_physical_end := re\<rparr>) t3
     = Ret (True, Some (cleared_image\<lparr>load_physical_begin := ?F,
          load_physical_end := ?F + w, reusable_physical_begin := rb, reusable_physical_end := re, loaded_stack_page := x,
          loaded_stack_top := stack_top l, load_begin := image_base l, load_end := image_base l + w,
          loaded_entry := image_base l + (eh_entry (elf64_header_at (mem s) img) - b)\<rparr>)) t"
    "mapped ?u K U ow2 ps3 (image_base l) [(stack_top l - 4096, x)] t ow' ps'" "length ps3 \<le> length ps' + 3"
    "\<And>y v. ow2 y = Some (y, []) \<Longrightarrow> translate ?u y v = translate t3 y v" by blast
  have n: "user_tables t K U ow' ps' (image_base l)" "same_outside (dom ow2 \<union> set ps3) ?u t" "ow2 \<subseteq>\<^sub>m ow'"
    "dom ow' \<union> set ps' = dom ow2 \<union> set ps3"
    "\<And>y v. ow2 y = Some (y, []) \<Longrightarrow> translate t y v = (if y = U then mapped_entry [(stack_top l - 4096, x)] v (translate ?u U v) else translate ?u y v)"
    and nt2: "new_tables ow2 ow' U"
    using t(2) unfolding mapped_def by blast+
  have res: "elf_load_user_image img n l U rb re (Some old) s
      = Ret (True, Some (image_of l w rb re (eh_entry (elf64_header_at (mem s) img) - b) x)) t"
    unfolding e(1) t(1) by (simp add: cleared_image_def)
  have own2: "table_inv t3 K ow2 (x # ps3)" using m(1) by (simp add: user_tables_def)
  have fresh: "x \<notin> dom ow2" "x \<notin> set ps3"
    using ownedD[OF table_invD(3)[OF own2], of x] palloc_inv_distinct[OF table_invD(1)[OF own2]] by auto
  have "x \<notin> dom ow" using fresh(1) map_le_implies_dom_le[OF m(3)] by blast
  then have x: "x \<notin> dom ow' \<union> set ps'" "x \<in> set ps" unfolding n(4) using fresh m(4) by (blast, auto)
  have tr: "translate t y v = (if y = U
         then mapped_entry (image_maps (image_base l) ?F k @ [(stack_top l - 4096, x)]) v (translate s U v)
         else translate s y v)" if "ow y = Some (y, [])" for y v
  proof -
    have "translate t y v = (if y = U then mapped_entry [(stack_top l - 4096, x)] v (translate t3 U v) else translate t3 y v)"
      using n(5)[OF map_le_Some[OF m(3) that], of v] t(4)[OF map_le_Some[OF m(3) that], of v] t(4)[OF map_le_Some[OF m(3) U], of v]
      by (simp del: mapped_entry.simps)
    then show ?thesis
      using m(5)[OF that, of v] m(5)[OF U, of v] e(3)[rule_format, OF that, of v] e(3)[rule_format, OF U, of v]
      by (simp add: mapped_entry_append del: mapped_entry.simps)
  qed
  have "same_outside (dom ow2 \<union> set ps3) t3 t" using n(2) by (simp add: same_outside_def)
  then have out: "same_outside (dom ow \<union> set ?ps) t2 t" by (rule same_outside_trans[OF m(2)]) (use m(4) in auto)
  have bytes: "mem t (?F + off) = window_bytes (mem s) img hs b off" if "off < w" for off
  proof -
    have "(?F + off) AND NOT 4095 \<in> set (region_pages ?F k)"
      by (rule window_page[OF load_base(1) top]) (use that wk in \<open>simp add: word_less_nat_alt\<close>)
    then have "(?F + off) AND NOT 4095 \<notin> dom ow \<union> set ?ps" using window_apart[OF free table_invD(3)[OF inv]] by blast
    then have "mem t (?F + off) = mem t2 (?F + off)" using out unfolding same_outside_def by blast
    then show ?thesis using e(2) that by simp
  qed
  have "same_outside (dom ow \<union> set ps \<union> set (region_pages ?F k)) s t"
    by (rule same_outside_trans[OF same_outside_mono[OF e(6)] out]) auto
  moreover have "insert x (dom ow' \<union> set ps') = dom ow \<union> (set ps - claimed ?F k rb re)" using n(4) m(4) by auto
  moreover have "ow \<subseteq>\<^sub>m ow'" by (rule map_le_trans[OF m(3) n(3)])
  moreover have "length ps \<le> length ps' + card (claimed ?F k rb re) + 7" using t(3) e(5) ps3(1) by simp
  ultimately show ?thesis using res n(1) x tr bytes new_tables_trans[OF nt nt2 n(3)] by blast
qed

text \<open>The mappings of the image and of the stack, read back.\<close>

lemma loaded_view:
  assumes lay: "layout_fits l w" and k: "unat w = 4096 * k" "k \<le> 256" "1 \<le> k"
    and ms: "ms = image_maps (image_base l) elf_user_load_base k @ [(stack_top l - 4096, x)]"
  shows "off < w \<Longrightarrow> mapped_entry ms (image_base l + off) d = Some (PagingMap.user_entry (elf_user_load_base + off))"
    and "same_page v (stack_top l - 4096) \<Longrightarrow> mapped_entry ms v d = Some (PagingMap.user_entry x)"
    and "\<forall>off < w. \<not> same_page v (image_base l + off) \<Longrightarrow> \<not> same_page v (stack_top l - 4096) \<Longrightarrow> mapped_entry ms v d = d"
proof -
  let ?ib = "image_base l" and ?F = elf_user_load_base and ?st = "stack_top l - 4096"
  have f: "page_aligned ?ib" "unat ?ib + unat w \<le> unat ?st" "unat (stack_top l) \<le> 140737488355328" "4096 < stack_top l"
    using lay by (auto simp: layout_fits_def)
  have st: "unat ?st < 281474976710656" using f(3,4) by (simp add: unat_sub)
  have top: "unat ?ib + 4096 * k \<le> 281474976710656" "unat ?F + 4096 * k < 18446744073709551616"
    using f(2) st k(1,2) load_base(2) by linarith+
  show "mapped_entry ms v d = Some (PagingMap.user_entry x)" if "same_page v ?st" using that by (simp add: ms mapped_entry_append)
  show "mapped_entry ms (?ib + off) d = Some (PagingMap.user_entry (?F + off))" if "off < w"
  proof -
    have o: "unat off < 4096 * k" using that k(1) by (simp add: word_less_nat_alt)
    have u: "unat (?ib + off) = unat ?ib + unat off" using o top(1) by (simp add: unat_word_ariths)
    obtain c where c: "unat ?ib = 4096 * c" using f(1) by (rule page_alignedE)
    have "unat (?ib + off) div 4096 < c + k" using u c o by (simp add: less_mult_imp_div_less)
    moreover have "c + k \<le> unat ?st div 4096" using f(2) c k(1) by linarith
    ultimately have "\<not> same_page (?ib + off) ?st" using same_page_low[OF _ st, of "?ib + off"] u o top(1) by simp
    then show ?thesis by (simp add: ms mapped_entry_append image_maps_entry[OF f(1) load_base(1) top o])
  qed
  show "mapped_entry ms v d = d" if "\<forall>off < w. \<not> same_page v (?ib + off)" "\<not> same_page v ?st"
  proof -
    have "\<not> same_page v (?ib + of_nat i * 4096)" if "i < k" for i
    proof -
      have "unat (of_nat i * 4096 :: u64) = 4096 * i" using region_page_index[of 0 k i] that k(2) by simp
      then have "of_nat i * 4096 < w" using that k(1) by (simp add: word_less_nat_alt)
      then show ?thesis using \<open>\<forall>off < w. \<not> same_page v (?ib + off)\<close> by blast
    qed
    then show ?thesis using that(2) by (intro mapped_entry_none) (auto simp: ms image_maps_def)
  qed
qed

text \<open>Reading a byte of the window through the tables.\<close>

lemma window_byte_read:
  assumes "page_aligned ib" "unat w = 4096 * k" "k \<le> 256" "off < w"
    and tr: "translate t U (ib + off) = Some (PagingMap.user_entry (elf_user_load_base + off))"
  shows "space_byte t U (ib + off) = Some (mem t (elf_user_load_base + off))"
proof -
  have "unat off < unat w" using assms(4) by (simp add: word_less_nat_alt)
  then have "unat (elf_user_load_base + off) = unat elf_user_load_base + unat off" "unat off < 1048576"
    using assms(2,3) load_base(2) by (simp_all add: unat_word_ariths)
  then have "unat (elf_user_load_base + off) < 4503599627370496" using load_base(2) by linarith
  then have "physical_at (PagingMap.user_entry (elf_user_load_base + off)) (ib + off) = elf_user_load_base + off"
    by (rule physical_user_entry[OF assms(1) load_base(1)])
  then show ?thesis using tr by (simp add: space_byte_def)
qed

text \<open>
  C6: The ELF loader. An image that passes every check, loaded into an address space whose layout it fits, while the pages
  of the load window are free or belong to the image that is being replaced and at least ten more pages are free: the
  loader succeeds. Afterwards every byte of the span, read through the tables of the task, is the byte the headers give it
  (the file's bytes of the last segment that covers it, zero in the rest of a segment and in the gaps between them); the
  stack page is mapped below the top of the stack; all other addresses of the task and all other address spaces are as
  before. The invariant of the tables holds, and the free pages are the old ones without the claimed window pages, the
  stack page and the new tables.
\<close>

theorem user_image_loaded:
  fixes s :: "'a paging_state_scheme"
  assumes ut: "user_tables s K U ow ps (image_base l)" and acc: "accepted_image (mem s) img n hs b e"
    and w: "w = e - b" "k = unat w div 4096" and free: "window_free ow ps img n k rb re"
    and room: "card (claimed elf_user_load_base k rb re) + 10 \<le> length ps" and lay: "layout_fits l w"
  shows "\<exists>t x ow' ps'. elf_load_user_image img n l U rb re (Some old) s
      = Ret (True, Some \<lparr>load_begin = image_base l, load_end = image_base l + w, load_physical_begin = elf_user_load_base,
          load_physical_end = elf_user_load_base + w, reusable_physical_begin = rb, reusable_physical_end = re,
          loaded_entry = image_base l + (eh_entry (elf64_header_at (mem s) img) - b), loaded_stack_page = x, loaded_stack_top = stack_top l\<rparr>) t
    \<and> eh_entry (elf64_header_at (mem s) img) - b < w
    \<and> (\<forall>off < w. translate t U (image_base l + off) = Some (PagingMap.user_entry (elf_user_load_base + off))
        \<and> space_byte t U (image_base l + off) = Some (window_bytes (mem s) img hs b off))
    \<and> (\<forall>v. same_page v (stack_top l - 4096) \<longrightarrow> translate t U v = Some (PagingMap.user_entry x))
    \<and> (\<forall>v. (\<forall>off < w. \<not> same_page v (image_base l + off)) \<and> \<not> same_page v (stack_top l - 4096) \<longrightarrow> translate t U v = translate s U v)
    \<and> (\<forall>y v. ow y = Some (y, []) \<and> y \<noteq> U \<longrightarrow> translate t y v = translate s y v)
    \<and> table_inv t K ow' ps' \<and> ow \<subseteq>\<^sub>m ow' \<and> x \<in> set ps \<and> x \<notin> dom ow' \<union> set ps'
    \<and> insert x (dom ow' \<union> set ps') = dom ow \<union> (set ps - claimed elf_user_load_base k rb re)"
proof -
  note a = accepted_imageD[OF acc, folded w]
  have c: "compute_load_span hs = Some (b, e)" "entry_in_load_segment hs (eh_entry (elf64_header_at (mem s) img))"
    using acc by (auto simp: accepted_image_def Let_def)
  note entry = entry_inside[OF c, folded w]
  have wk: "unat w = 4096 * k" using a(1) w(2) by simp
  have k: "k \<le> 256" "1 \<le> k" using a(2) w entry wk by (simp, cases k) (auto simp: unat_eq_0)
  have U: "ow U = Some (U, [])" using ut by (simp add: user_tables_def)
  from elf_load_spec[OF assms, of old] obtain t x ow' ps' where t: "elf_load_user_image img n l U rb re (Some old) s
      = Ret (True, Some (image_of l w rb re (eh_entry (elf64_header_at (mem s) img) - b) x)) t"
    "table_inv t K ow' ps'" "ow \<subseteq>\<^sub>m ow'"
    "insert x (dom ow' \<union> set ps') = dom ow \<union> (set ps - claimed elf_user_load_base k rb re)" "x \<notin> dom ow' \<union> set ps'" "x \<in> set ps"
    "\<forall>off < w. mem t (elf_user_load_base + off) = window_bytes (mem s) img hs b off"
    "\<And>y v. ow y = Some (y, []) \<Longrightarrow> translate t y v = (if y = U
         then mapped_entry (image_maps (image_base l) elf_user_load_base k @ [(stack_top l - 4096, x)]) v (translate s U v)
         else translate s y v)" unfolding user_tables_def by blast
  note view = loaded_view[OF lay wk k refl]
  have tr: "translate t U (image_base l + off) = Some (PagingMap.user_entry (elf_user_load_base + off))" if "off < w" for off
    using t(8)[OF U] view(1)[OF that] by simp
  have "page_aligned (image_base l)" using lay by (simp add: layout_fits_def)
  from window_byte_read[OF this wk k(1) _ tr] t(7)
  have "space_byte t U (image_base l + off) = Some (window_bytes (mem s) img hs b off)" if "off < w" for off using that by simp
  moreover have "translate t U v = Some (PagingMap.user_entry x)" if "same_page v (stack_top l - 4096)" for v
    using t(8)[OF U] view(2)[OF that] by simp
  moreover have "translate t U v = translate s U v"
    if "\<forall>off < w. \<not> same_page v (image_base l + off)" "\<not> same_page v (stack_top l - 4096)" for v
    using t(8)[OF U] view(3)[OF that] by simp
  moreover have "translate t y v = translate s y v" if "ow y = Some (y, [])" "y \<noteq> U" for y v using t(8)[OF that(1)] that(2) by simp
  ultimately show ?thesis using t(1-6) entry tr by blast
qed

section \<open>A small program\<close>

text \<open>An image of 128 bytes: the headers, and one segment of 8 bytes of code and 8 bytes of zeros at \<open>0x400000\<close>.\<close>

definition sample_image :: "u8 list" where
  "sample_image =
     [0x7F, 0x45, 0x4C, 0x46, 2, 1, 1, 0, 0, 0, 0, 0, 0, 0, 0, 0, 2, 0, 62, 0, 1, 0, 0, 0, 4, 0, 0x40, 0, 0, 0, 0, 0,
      64, 0, 0, 0, 0, 0, 0, 0, 0, 0, 0, 0, 0, 0, 0, 0, 0, 0, 0, 0, 64, 0, 56, 0, 1, 0, 0, 0, 0, 0, 0, 0,
      1, 0, 0, 0, 5, 0, 0, 0, 120, 0, 0, 0, 0, 0, 0, 0, 0, 0, 0x40, 0, 0, 0, 0, 0, 0, 0, 0, 0, 0, 0, 0, 0,
      8, 0, 0, 0, 0, 0, 0, 0, 16, 0, 0, 0, 0, 0, 0, 0, 0, 0, 0, 0, 0, 0, 0, 0, 11, 12, 13, 14, 15, 16, 17, 18]"

definition sample_byte :: "u64 \<Rightarrow> u8" where
  "sample_byte off = (if unat off < 128 then sample_image ! unat off else 0)"

definition sample_phdrs :: "elf64_program_header list" where
  "sample_phdrs = [\<lparr>ph_type = 1, ph_flags = 5, ph_offset = 120, ph_vaddr = 0x400000, ph_paddr = 0, ph_filesz = 8, ph_memsz = 16, ph_align = 0\<rparr>]"

lemma sample_accepted:
  "accepted_image (\<lambda>a. sample_byte (a - 0x05000000)) 0x05000000 128 sample_phdrs 0x400000 0x401000"
  "eh_entry (elf64_header_at (\<lambda>a. sample_byte (a - 0x05000000)) 0x05000000) = 0x400004"
  by code_simp+

definition loader_state :: paging_state where
  "loader_state = two_roots\<lparr>mem := windowed 0x05000000 4096 sample_byte (mem two_roots)\<rparr>"

lemma sample_pages: "p \<in> dom two_owners \<union> set (rev (pool_pages 16)) \<Longrightarrow> unat p < 0x02100000 \<or> 0x03000000 \<le> unat p \<and> unat p < 0x04000000"
proof -
  assume "p \<in> dom two_owners \<union> set (rev (pool_pages 16))"
  then have "p \<in> dom two_owners \<or> p \<in> set (pool_pages 16)" by auto
  then show ?thesis
  proof
    assume "p \<in> dom two_owners"
    then have "p \<in> {0x02000000, 0x02001000, 0x02002000, 0x02003000, 0x02004000}" by (auto simp: two_owners_def split: if_splits)
    then show ?thesis by auto
  next
    assume "p \<in> set (pool_pages 16)"
    then show ?thesis using pool_page[of 16 p] by simp
  qed
qed

lemma loader_tables:
  "user_tables loader_state 0x02000000 0x02001000 two_owners (rev (pool_pages 16)) 0x40001000"
  "two_owners r = Some (r, []) \<Longrightarrow> translate loader_state r v = translate two_roots r v"
proof -
  have U: "\<exists>q. indices 0x40001000 = p @ q" if "two_owners x = Some (0x02001000, p)" for x p
    using that by (auto simp: two_owners_def split: if_splits)
  have o: "two_owners 0x02001000 = Some (0x02001000, [])" "(0x02001000 :: addr) \<noteq> 0x02000000" by (simp_all add: two_owners_def)
  have ut: "user_tables two_roots 0x02000000 0x02001000 two_owners (rev (pool_pages 16)) 0x40001000"
    unfolding user_tables_def using two_roots_inv two_roots_kernel o U two_roots_top by blast
  have "p \<notin> dom two_owners \<union> set (rev (pool_pages 16))" if "p \<in> set (region_pages 0x05000000 1)" for p
    using that sample_pages[of p] by (auto simp: region_pages_def)
  then have d: "set (region_pages 0x05000000 1) \<inter> (dom two_owners \<union> set (rev (pool_pages 16))) = {}" by blast
  show "user_tables loader_state 0x02000000 0x02001000 two_owners (rev (pool_pages 16)) 0x40001000"
    unfolding loader_state_def by (rule window_write(1)[OF ut _ _ _ d]) (simp_all add: page_aligned_def)
  show "translate loader_state r v = translate two_roots r v" if "two_owners r = Some (r, [])"
    unfolding loader_state_def by (rule window_write(2)[OF ut _ _ _ d that]) (simp_all add: page_aligned_def)
qed

lemma loader_accepted:
  "accepted_image (mem loader_state) 0x05000000 128 sample_phdrs 0x400000 0x401000"
  "eh_entry (elf64_header_at (mem loader_state) 0x05000000) = 0x400004"
proof -
  have "mem loader_state (0x05000000 + of_nat i) = sample_byte (0x05000000 + of_nat i - 0x05000000)" if "i < unat (128 :: u64)" for i
    using that by (simp add: loader_state_def windowed_def word_less_nat_alt unat_of_nat)
  then have i: "same_image (\<lambda>a. sample_byte (a - 0x05000000)) (mem loader_state) 0x05000000 128" by (simp add: same_image_def)
  show "accepted_image (mem loader_state) 0x05000000 128 sample_phdrs 0x400000 0x401000" by (rule accepted_image_cong[OF i sample_accepted(1)])
  have "elf64_header_at (mem loader_state) 0x05000000 = elf64_header_at (\<lambda>a. sample_byte (a - 0x05000000)) 0x05000000"
    by (rule same_image_header[OF i]) simp
  then show "eh_entry (elf64_header_at (mem loader_state) 0x05000000) = 0x400004" using sample_accepted(2) by simp
qed

lemma loader_window: "window_free two_owners (rev (pool_pages 16)) 0x05000000 128 1 0x02100000 0x02200000"
proof -
  have "(0x02100000 :: addr) \<notin> dom two_owners \<union> set (rev (pool_pages 16))" using sample_pages[of "0x02100000"] by auto
  moreover have "(0x05000000 + of_nat i) AND NOT 4095 \<notin> dom two_owners \<union> set (rev (pool_pages 16)) \<union> {0x02100000}" if "i < 128" for i
  proof -
    have "(0x05000000 + of_nat i :: addr) AND NOT 4095 = 0x05000000"
      by (rule same_page_offset(1)) (use that in \<open>simp_all add: page_aligned_def\<close>)
    then show ?thesis using sample_pages[of "0x05000000"] by auto
  qed
  ultimately show ?thesis by (simp add: window_free_def region_pages_def elf_user_load_base_def page_in_range_def)
qed

theorem user_image_loaded_witness:
  "\<exists>t img. elf_load_user_image 0x05000000 128 first_user_layout 0x02001000 0x02100000 0x02200000 (Some cleared_image) loader_state
      = Ret (True, Some img) t \<and> loaded_entry img = 0x40001004
    \<and> space_byte t 0x02001000 0x40001004 = Some 15 \<and> space_byte t 0x02001000 0x40001008 = Some 0"
proof -
  have w: "(4096 :: u64) = 0x401000 - 0x400000" "1 = unat (4096 :: u64) div 4096" by simp_all
  have "claimed elf_user_load_base 1 0x02100000 0x02200000 = {}"
    by (auto simp: claimed_def region_pages_def elf_user_load_base_def page_in_range_def)
  then have room: "card (claimed elf_user_load_base 1 0x02100000 0x02200000) + 10 \<le> length (rev (pool_pages 16))"
    by (simp add: pool_pages_def region_pages_def)
  have ut: "user_tables loader_state 0x02000000 0x02001000 two_owners (rev (pool_pages 16)) (image_base first_user_layout)"
    using loader_tables(1) by (simp add: first_user_layout_def)
  have bytes: "window_bytes (mem loader_state) 0x05000000 sample_phdrs 0x400000 4 = 15"
    "window_bytes (mem loader_state) 0x05000000 sample_phdrs 0x400000 8 = 0"
    by (simp_all add: window_bytes_def sample_phdrs_def segment_byte_def is_load_def elf_phdr_type_load_def loader_state_def windowed_def
        sample_byte_def sample_image_def)
  have fits: "layout_fits first_user_layout 4096" by (rule first_layout_fits) simp
  from user_image_loaded [OF ut loader_accepted(1) w loader_window room fits, of cleared_image] obtain t x where
    t: "elf_load_user_image 0x05000000 128 first_user_layout 0x02001000 0x02100000 0x02200000 (Some cleared_image) loader_state
      = Ret (True, Some \<lparr>load_begin = image_base first_user_layout, load_end = image_base first_user_layout + 4096, load_physical_begin = elf_user_load_base,
          load_physical_end = elf_user_load_base + 4096, reusable_physical_begin = 0x02100000, reusable_physical_end = 0x02200000,
          loaded_entry = image_base first_user_layout + (eh_entry (elf64_header_at (mem loader_state) 0x05000000) - 0x400000),
          loaded_stack_page = x, loaded_stack_top = stack_top first_user_layout\<rparr>) t"
    "\<forall>off < 4096. space_byte t 0x02001000 (image_base first_user_layout + off) = Some (window_bytes (mem loader_state) 0x05000000 sample_phdrs 0x400000 off)"
    by blast
  have "space_byte t 0x02001000 (0x40001000 + off) = Some (window_bytes (mem loader_state) 0x05000000 sample_phdrs 0x400000 off)" if "off < 4096" for off
    using t(2) that by (simp add: first_user_layout_def)
  from this[of 4] this[of 8] t(1) show ?thesis by (simp add: bytes loader_accepted(2) first_user_layout_def)
qed

end
