(* ===== verification/ExecSpec.thy ===== *)
theory ExecSpec
  imports LoadSpec
begin

text \<open>
  \<open>syscall_prepare_exec_bootstrap\<close>: a new address space, the image loaded into it, the trampoline page mapped below it.
\<close>

section \<open>A new address space\<close>

lemma root_owner:
  assumes "owned ow ps" "parent_ok s ow"
  shows "ow x = Some (r, p) \<Longrightarrow> ow r = Some (r, [])"
proof (induction p arbitrary: x rule: rev_induct)
  case Nil
  then show ?case using ownedD[OF assms(1) Nil] by simp
next
  case (snoc i p)
  then obtain u where "ow u = Some (r, p)" using assms(2) unfolding parent_ok_def by blast
  then show ?case by (rule snoc.IH)
qed

lemma create_outside:
  assumes "palloc_inv s (n # ps)" "paging_create_user_address_space s = (n, t)"
  shows "same_outside {n} s t"
proof -
  from alloc_table_spec[OF assms(1)] obtain s1 where a: "alloc_table s = (n, s1)" "n \<noteq> 0" "page_aligned n" "same_outside {n} s s1" by blast
  have t: "t = copy_entries n (paging_kernel_pml4 s1) s1" using assms(2) a(1,2) by (simp add: paging_create_user_address_space_def)
  have "same_outside {n} s1 t" unfolding t copy_entries_def by (rule same_outside_fill[OF a(3)]) simp_all
  then show ?thesis by (rule same_outside_trans[OF a(4)]) simp
qed

lemma new_space:
  assumes inv: "table_inv s K ow (U # ps)" and K: "paging_kernel_pml4 s = K"
    and top: "pml4_index v0 = pml4_index base" "translate s K v0 \<noteq> None"
  shows "\<exists>t. paging_create_user_address_space s = (U, t) \<and> U \<noteq> 0 \<and> paging_address_space_valid U t \<and> user_tables t K U (ow(U \<mapsto> (U, []))) ps base
    \<and> (\<forall>v. translate t U v = translate s K v) \<and> (\<forall>x v. ow x = Some (x, []) \<longrightarrow> translate t x v = translate s x v) \<and> same_outside {U} s t"
proof -
  note d = table_invD[OF inv]
  from create_user_address_space_spec[OF inv K] obtain t where c: "paging_create_user_address_space s = (U, t)" "pages_frame s t" "U \<noteq> 0" "ow U = None"
    "table_inv t K (ow(U \<mapsto> (U, []))) ps" "same_roots s t ow" "\<forall>v. translate t U v = translate s K v"
    "\<forall>i < 512. entry_at t U i = entry_at s K i \<and> entry_at t K i = entry_at s K i" by auto
  have Kt: "paging_kernel_pml4 t = K" using pages_frame_kernel[OF c(2)] K by simp
  have valid: "paging_address_space_valid U t"
    using c(3,8) Kt by (auto simp: paging_address_space_valid_def word_less_nat_alt index_nat)
  have path: "\<exists>q. indices base = p @ q" if o: "(ow(U \<mapsto> (U, []))) x = Some (U, p)" for x p
  proof (cases "x = U")
    case False
    then have "ow U = Some (U, [])" using o root_owner[OF d(3,5), of x U p] by simp
    then show ?thesis using c(4) by simp
  qed (use o in simp)
  have "is_present (entry_at t U (pml4_index base))" using translate_top[OF top(2)] c(8) index_lt(1)[of base] top(1) by simp
  then have "user_tables t K U (ow(U \<mapsto> (U, []))) ps base"
    using c(4,5) Kt path d(6) by (auto simp: user_tables_def)
  then show ?thesis using c(1,3,7) valid same_roots_translate[OF c(6)] create_outside[OF d(1) c(1)] by blast
qed

section \<open>The bootstrap of a program\<close>

text \<open>The range of the image that is running.\<close>

definition reuse_range :: "user_task_bootstrap option \<Rightarrow> addr \<times> addr" where
  "reuse_range cb = (case cb of None \<Rightarrow> (0, 0) | Some b \<Rightarrow> (image_physical_begin b, image_physical_end b))"

text \<open>
  \<open>exec_ready s K ow ps U img n hs b e cb bld\<close>: the state in which the image at \<open>img\<close> can be started, with the image of
  bootstrap \<open>cb\<close> running. \<open>U\<close> is the first free page.
\<close>

definition exec_ready :: "'a paging_state_scheme \<Rightarrow> addr \<Rightarrow> owners \<Rightarrow> addr list \<Rightarrow> addr \<Rightarrow> addr \<Rightarrow> u64 \<Rightarrow>
    elf64_program_header list \<Rightarrow> addr \<Rightarrow> addr \<Rightarrow> user_task_bootstrap option \<Rightarrow> build \<Rightarrow> bool" where
  "exec_ready s K ow ps U img n hs b e cb bld \<longleftrightarrow>
     (let k = unat (e - b) div 4096; rb = fst (reuse_range cb); re = snd (reuse_range cb)
      in table_inv s K ow (U # ps) \<and> paging_kernel_pml4 s = K \<and> translate s K 0 \<noteq> None
       \<and> accepted_image (mem s) img n hs b e \<and> window_free ow (U # ps) img n k rb re
       \<and> U \<notin> set (region_pages elf_user_load_base k) \<and> card (claimed elf_user_load_base k rb re) + 13 \<le> length ps
       \<and> unat (arch_user_program_entry bld) < 4503599627370496)"

text \<open>The mappings of a program with \<open>k\<close> pages, stack page \<open>x\<close> and trampoline page \<open>p\<close>.\<close>

definition program_maps :: "nat \<Rightarrow> addr \<Rightarrow> addr \<Rightarrow> (addr \<times> addr) list" where
  "program_maps k x p = image_maps (image_base first_user_layout) elf_user_load_base k
     @ [(stack_top first_user_layout - 4096, x), (trampoline_base first_user_layout, p)]"

lemma window_free_moved:
  assumes "window_free ow (U # ps) img n k rb re" "U \<notin> set (region_pages elf_user_load_base k)"
  shows "window_free (ow(U \<mapsto> y)) ps img n k rb re"
proof -
  have "if page_in_range p rb re then p \<notin> dom (ow(U \<mapsto> y)) \<union> set ps else p \<in> set ps" if "p \<in> set (region_pages elf_user_load_base k)" for p
  proof -
    have "if page_in_range p rb re then p \<notin> dom ow \<union> set (U # ps) else p \<in> set (U # ps)"
      using assms(1)[unfolded window_free_def] that by blast
    moreover have "p \<noteq> U" using assms(2) that by blast
    ultimately show ?thesis by (auto split: if_splits)
  qed
  moreover have "(img + of_nat i) AND NOT 4095 \<notin> dom (ow(U \<mapsto> y)) \<union> set ps \<union> set (region_pages elf_user_load_base k)" if "i < unat n" for i
    using assms(1) that by (auto simp: window_free_def)
  ultimately show ?thesis unfolding window_free_def by blast
qed

text \<open>The bootstrap of the program in space \<open>U\<close>, with its entry at offset \<open>off\<close>.\<close>

abbreviation program_of :: "addr \<Rightarrow> build \<Rightarrow> u64 \<Rightarrow> u64 \<Rightarrow> addr \<Rightarrow> user_task_bootstrap" where
  "program_of U bld w off x \<equiv> \<lparr>layout = first_user_layout, address_space = U,
     trampoline_entry = trampoline_base first_user_layout + (arch_user_program_entry bld AND 4095),
     user_entry = image_base first_user_layout + off, image_physical_begin = elf_user_load_base,
     image_physical_end = elf_user_load_base + w, user_stack_page = x, user_stack_top = stack_top first_user_layout\<rparr>"

text \<open>The first two steps: the address space and the image in it.\<close>

lemma exec_loaded:
  fixes s :: "'a paging_state_scheme"
  assumes ready: "exec_ready s K ow ps U img n hs b e cb bld" and w: "w = e - b" "k = unat w div 4096" and r: "reuse_range cb = (rb, re)"
  shows "\<exists>s1 t x ow' ps'. paging_create_user_address_space s = (U, s1) \<and> U \<noteq> 0 \<and> paging_address_space_valid U s1
    \<and> elf_load_user_image img n first_user_layout U rb re (Some cleared_image) s1
      = Ret (True, Some (image_of first_user_layout w rb re (eh_entry (elf64_header_at (mem s) img) - b) x)) t
    \<and> user_tables t K U ow' ps' (image_base first_user_layout) \<and> ow(U \<mapsto> (U, [])) \<subseteq>\<^sub>m ow' \<and> new_tables (ow(U \<mapsto> (U, []))) ow' U \<and> 6 \<le> length ps'
    \<and> insert x (dom ow' \<union> set ps') = insert U (dom ow) \<union> (set ps - claimed elf_user_load_base k rb re)
    \<and> x \<notin> dom ow' \<union> set ps' \<and> x \<in> set ps
    \<and> set (region_pages elf_user_load_base k) \<inter> (dom ow' \<union> set ps') = {}
    \<and> (\<forall>off < w. mem t (elf_user_load_base + off) = window_bytes (mem s) img hs b off)
    \<and> (\<forall>v. translate t U v = mapped_entry (image_maps (image_base first_user_layout) elf_user_load_base k
          @ [(stack_top first_user_layout - 4096, x)]) v (translate s K v))
    \<and> (\<forall>y v. ow y = Some (y, []) \<longrightarrow> translate t y v = translate s y v)
    \<and> same_outside (dom ow \<union> insert U (set ps) \<union> set (region_pages elf_user_load_base k)) s t"
proof -
  let ?l = first_user_layout and ?ow = "ow(U \<mapsto> (U, []))"
  have h: "table_inv s K ow (U # ps)" "paging_kernel_pml4 s = K" "translate s K 0 \<noteq> None" "accepted_image (mem s) img n hs b e"
    "window_free ow (U # ps) img n k rb re" "U \<notin> set (region_pages elf_user_load_base k)"
    "card (claimed elf_user_load_base k rb re) + 13 \<le> length ps"
    using ready unfolding exec_ready_def Let_def r by (simp_all add: w)
  have U0: "ow U = None" using ownedD[OF table_invD(3)[OF h(1)], of U] by (cases "ow U") auto
  have "pml4_index 0 = pml4_index (image_base ?l)" by (simp add: first_user_layout_def pml4_index_def)
  from new_space[OF h(1,2) this h(3)] obtain s1 where s1: "paging_create_user_address_space s = (U, s1)" "U \<noteq> 0"
    "paging_address_space_valid U s1" "user_tables s1 K U ?ow ps (image_base ?l)" "\<forall>v. translate s1 U v = translate s K v"
    "\<forall>x v. ow x = Some (x, []) \<longrightarrow> translate s1 x v = translate s x v" "same_outside {U} s s1" by blast
  have img: "same_image (mem s) (mem s1) img n" using s1(7) h(5) by (auto simp: same_image_def same_outside_def window_free_def)
  have acc: "accepted_image (mem s1) img n hs b e" by (rule accepted_image_cong[OF img h(4)])
  have hdr: "elf64_header_at (mem s1) img = elf64_header_at (mem s) img" by (rule same_image_header[OF img accepted_imageD(4)[OF h(4)]])
  note free = window_free_moved[OF h(5,6)]
  have room: "card (claimed elf_user_load_base k rb re) + 10 \<le> length ps" using h(7) by linarith
  have "unat w \<le> 0x00100000" using accepted_imageD(1,2)[OF h(4), folded w(1)] by linarith
  note lay = first_layout_fits[OF this]
  from elf_load_spec[OF s1(4) acc w free room lay, of cleared_image] obtain t x ow' ps' where t:
    "elf_load_user_image img n ?l U rb re (Some cleared_image) s1
      = Ret (True, Some (image_of ?l w rb re (eh_entry (elf64_header_at (mem s1) img) - b) x)) t"
    "user_tables t K U ow' ps' (image_base ?l)" "?ow \<subseteq>\<^sub>m ow'" "length ps \<le> length ps' + card (claimed elf_user_load_base k rb re) + 7"
    "insert x (dom ow' \<union> set ps') = dom ?ow \<union> (set ps - claimed elf_user_load_base k rb re)" "x \<notin> dom ow' \<union> set ps'" "x \<in> set ps"
    "\<forall>off < w. mem t (elf_user_load_base + off) = window_bytes (mem s1) img hs b off"
    "\<forall>y v. ?ow y = Some (y, []) \<longrightarrow> translate t y v = (if y = U
         then mapped_entry (image_maps (image_base ?l) elf_user_load_base k @ [(stack_top ?l - 4096, x)]) v (translate s1 U v)
         else translate s1 y v)" "new_tables ?ow ow' U"
    "same_outside (dom ?ow \<union> set ps \<union> set (region_pages elf_user_load_base k)) s1 t" by blast
  have "same_outside (dom ow \<union> insert U (set ps) \<union> set (region_pages elf_user_load_base k)) s t"
    by (rule same_outside_trans[OF same_outside_mono[OF s1(7)] t(11)]) auto
  moreover have "6 \<le> length ps'" using t(4) h(7) by linarith
  moreover have "set (region_pages elf_user_load_base k) \<inter> (dom ow' \<union> set ps') = {}"
  proof -
    have "owned ?ow ps" using s1(4) table_invD(3) unfolding user_tables_def by blast
    from window_apart[OF free this] have "set (region_pages elf_user_load_base k) \<inter> (dom ?ow \<union> (set ps - claimed elf_user_load_base k rb re)) = {}"
      by (simp add: set_diff_eq)
    then show ?thesis using t(5) by blast
  qed
  moreover have "translate t U v = mapped_entry (image_maps (image_base ?l) elf_user_load_base k @ [(stack_top ?l - 4096, x)]) v (translate s K v)" for v
    using t(9) s1(5) by (simp del: mapped_entry.simps)
  moreover have "translate t y v = translate s y v" if "ow y = Some (y, [])" for y v using t(9) s1(6) U0 that by auto
  moreover have "insert x (dom ow' \<union> set ps') = insert U (dom ow) \<union> (set ps - claimed elf_user_load_base k rb re)" using t(5) by simp
  moreover have "mem t (elf_user_load_base + off) = window_bytes (mem s) img hs b off" if "off < w" for off
    using t(8) that window_bytes_cong[OF img h(4)] by simp
  ultimately show ?thesis using s1(1-3) t(1,2,3,6,7,10) unfolding hdr by blast
qed

lemma same_prefix:
  assumes "length p \<le> n" "\<exists>q. xs = p @ q" "take n xs = take n ys"
  shows "\<exists>q. ys = p @ q"
proof -
  have "p = take (length p) (take n xs)" using assms(1,2) by auto
  then have "p = take (length p) ys" using assms(1,3) by (metis min.absorb1 take_take)
  then show ?thesis by (metis append_take_drop_id)
qed

lemma prepare_exec_spec:
  fixes s :: "'a kernel_state_scheme"
  assumes ready: "exec_ready s K ow ps U img n hs b e cb bld" and w: "w = e - b" "k = unat w div 4096" and r: "reuse_range cb = (rb, re)"
  shows "\<exists>t x ow' ps'. syscall_prepare_exec_bootstrap bld img n cb s
      = Ret (Some (program_of U bld w (eh_entry (elf64_header_at (mem s) img) - b) x)) t
    \<and> table_inv t K ow' ps' \<and> paging_kernel_pml4 t = K \<and> ow(U \<mapsto> (U, [])) \<subseteq>\<^sub>m ow'
    \<and> new_tables (ow(U \<mapsto> (U, []))) ow' U \<and> (\<forall>y p. ow' y = Some (U, p) \<longrightarrow> (\<exists>q. indices 0x40000000 = p @ q))
    \<and> insert x (dom ow' \<union> set ps') = insert U (dom ow) \<union> (set ps - claimed elf_user_load_base k rb re)
    \<and> x \<notin> dom ow' \<union> set ps' \<and> x \<in> set ps
    \<and> (\<forall>off < w. mem t (elf_user_load_base + off) = window_bytes (mem s) img hs b off)
    \<and> (\<forall>v. translate t U v = mapped_entry (program_maps k x (arch_user_program_entry bld AND NOT 4095)) v (translate s K v))
    \<and> (\<forall>y v. ow y = Some (y, []) \<longrightarrow> translate t y v = translate s y v)
    \<and> same_outside (dom ow \<union> insert U (set ps) \<union> set (region_pages elf_user_load_base k)) s t"
proof -
  let ?l = first_user_layout and ?p = "arch_user_program_entry bld AND NOT 4095" and ?F = elf_user_load_base
  from exec_loaded[OF ready w r] obtain s1 t x ow' ps' where t: "paging_create_user_address_space s = (U, s1)" "U \<noteq> 0"
    "paging_address_space_valid U s1" "elf_load_user_image img n ?l U rb re (Some cleared_image) s1
      = Ret (True, Some (image_of ?l w rb re (eh_entry (elf64_header_at (mem s) img) - b) x)) t"
    "user_tables t K U ow' ps' (image_base ?l)" "ow(U \<mapsto> (U, [])) \<subseteq>\<^sub>m ow'" "6 \<le> length ps'"
    "insert x (dom ow' \<union> set ps') = insert U (dom ow) \<union> (set ps - claimed ?F k rb re)" "x \<notin> dom ow' \<union> set ps'" "x \<in> set ps"
    "set (region_pages ?F k) \<inter> (dom ow' \<union> set ps') = {}"
    "\<forall>off < w. mem t (?F + off) = window_bytes (mem s) img hs b off"
    "\<forall>v. translate t U v = mapped_entry (image_maps (image_base ?l) ?F k @ [(stack_top ?l - 4096, x)]) v (translate s K v)"
    "\<forall>y v. ow y = Some (y, []) \<longrightarrow> translate t y v = translate s y v" "new_tables (ow(U \<mapsto> (U, []))) ow' U"
    "same_outside (dom ow \<union> insert U (set ps) \<union> set (region_pages ?F k)) s t" by blast
  have a: "unat w = 4096 * k" "k \<le> 256" using accepted_imageD(1,2)[of "mem s" img n hs b e, folded w] ready w(2)
    unfolding exec_ready_def Let_def by blast+
  have win: "in_window (image_base ?l) (trampoline_base ?l)" by (rule window_2m) (simp add: first_user_layout_def)
  have "unat (arch_user_program_entry bld) < 4503599627370496" using ready by (simp add: exec_ready_def Let_def)
  then have pa: "unat ?p < 4503599627370496" using page_floor_le[of "arch_user_program_entry bld"] unfolding word_le_nat_alt by linarith
  from map_page_step[OF mapped_refl[OF t(5)] win t(7) pa] obtain u ow2 ps2 where u:
    "paging_map_user_page U (trampoline_base ?l) ?p t = Ret () u" "paging_mapping_matches U (trampoline_base ?l) ?p True u"
    "user_tables u K U ow2 ps2 (image_base ?l)" "same_outside (dom ow' \<union> set ps') t u" "ow' \<subseteq>\<^sub>m ow2" "dom ow2 \<union> set ps2 = dom ow' \<union> set ps'"
    "\<forall>x v. ow' x = Some (x, []) \<longrightarrow> translate u x v = (if x = U then mapped_entry [(trampoline_base ?l, ?p)] v (translate t U v) else translate t x v)"
    "new_tables ow' ow2 U"
    unfolding mapped_def by auto
  have "same_outside (dom ow \<union> insert U (set ps) \<union> set (region_pages ?F k)) s u"
    by (rule same_outside_trans[OF t(16) u(4)]) (use t(8) in auto)
  moreover have "syscall_prepare_exec_bootstrap bld img n cb s
      = Ret (Some (program_of U bld w (eh_entry (elf64_header_at (mem s) img) - b) x)) u"
    using t(2,3) u(1,2) by (simp add: syscall_prepare_exec_bootstrap_def t(1) r[unfolded reuse_range_def] t(4))
  moreover have "translate u U v = mapped_entry (program_maps k x ?p) v (translate s K v)" for v
  proof -
    have "ow' U = Some (U, [])" using t(5) by (simp add: user_tables_def)
    then have "translate u U v = mapped_entry [(trampoline_base ?l, ?p)] v (translate t U v)" using u(7) by (simp del: mapped_entry.simps)
    then show ?thesis using t(13) unfolding program_maps_def by (simp add: mapped_entry_append)
  qed
  moreover have "translate u y v = translate s y v" if "ow y = Some (y, [])" for y v
  proof -
    have "table_inv s K ow (U # ps)" using ready by (simp add: exec_ready_def Let_def)
    then have "y \<noteq> U" using ownedD[OF table_invD(3)] that by fastforce
    moreover have "ow' y = Some (y, [])" by (rule map_le_Some[OF t(6)]) (use that \<open>y \<noteq> U\<close> in simp)
    ultimately show ?thesis using u(7) t(14) that by simp
  qed
  moreover have "mem u (?F + off) = window_bytes (mem s) img hs b off" if "off < w" for off
  proof -
    have "(?F + off) AND NOT 4095 \<in> set (region_pages ?F k)"
      by (rule window_page[OF load_base(1)]) (use that a load_base(2) in \<open>simp_all add: word_less_nat_alt\<close>)
    then have "mem u (?F + off) = mem t (?F + off)" using t(11) u(4) unfolding same_outside_def by blast
    then show ?thesis using t(12) that by simp
  qed
  moreover have k: "table_inv u K ow2 ps2" "paging_kernel_pml4 u = K" using u(3) by (simp_all add: user_tables_def)
  moreover have "\<exists>q. indices 0x40000000 = p @ q" if o: "ow2 y = Some (U, p)" for y p
  proof -
    note own = table_invD(3)[OF k(1)]
    have "length p \<le> 3" "\<exists>q. indices (image_base ?l) = p @ q"
      using u(3) ownedD[OF own o] o unfolding user_tables_def by blast+
    moreover have "take 3 (indices (image_base ?l)) = take 3 (indices 0x40000000)"
      by (simp add: indices_def first_user_layout_def pml4_index_def pdpt_index_def pd_index_def)
    ultimately show ?thesis by (rule same_prefix)
  qed
  ultimately show ?thesis
    using map_le_trans[OF t(6) u(5)] new_tables_trans[OF t(15) u(8,5)] t(8-10) unfolding u(6)[symmetric] by blast
qed

section \<open>What the program finds\<close>

lemma program_view:
  assumes k: "unat w = 4096 * k" "k \<le> 256" "1 \<le> k"
  shows "off < w \<Longrightarrow> mapped_entry (program_maps k x p) (0x40001000 + off) d = Some (PagingMap.user_entry (elf_user_load_base + off))"
    and "same_page v 0x401FF000 \<Longrightarrow> mapped_entry (program_maps k x p) v d = Some (PagingMap.user_entry x)"
    and "same_page v 0x40000000 \<Longrightarrow> mapped_entry (program_maps k x p) v d = Some (PagingMap.user_entry p)"
    and "\<forall>off < w. \<not> same_page v (0x40001000 + off) \<Longrightarrow> \<not> same_page v 0x401FF000 \<Longrightarrow> \<not> same_page v 0x40000000 \<Longrightarrow>
      mapped_entry (program_maps k x p) v d = d"
proof -
  let ?l = first_user_layout
  have "layout_fits ?l w" by (rule first_layout_fits) (use k in linarith)
  note view = loaded_view[OF this k refl, unfolded first_user_layout_def, simplified, folded first_user_layout_def]
  have pm: "mapped_entry (program_maps k x p) v d = (if same_page v 0x40000000 then Some (PagingMap.user_entry p)
      else mapped_entry (image_maps 0x40001000 elf_user_load_base k @ [(0x401FF000, x)]) v d)" for v d
    by (simp add: program_maps_def first_user_layout_def mapped_entry_append)
  show "mapped_entry (program_maps k x p) (0x40001000 + off) d = Some (PagingMap.user_entry (elf_user_load_base + off))" if "off < w"
  proof -
    have "unat off < 1048576" using that k by (simp add: word_less_nat_alt)
    then have "unat (0x40001000 + off) = 1073745920 + unat off" by (simp add: unat_word_ariths)
    then have "\<not> same_page (0x40001000 + off) 0x40000000" using same_page_low[of "0x40001000 + off" "0x40000000"] \<open>unat off < 1048576\<close> by simp
    then show ?thesis using view(1)[OF that] by (simp add: pm)
  qed
  show "mapped_entry (program_maps k x p) v d = Some (PagingMap.user_entry x)" if "same_page v 0x401FF000"
  proof -
    have "\<not> same_page v 0x40000000" using that by (simp add: same_page_def)
    then show ?thesis using view(2)[OF that] by (simp add: pm)
  qed
  show "mapped_entry (program_maps k x p) v d = Some (PagingMap.user_entry p)" if "same_page v 0x40000000" using that by (simp add: pm)
  show "mapped_entry (program_maps k x p) v d = d"
    if "\<forall>off < w. \<not> same_page v (0x40001000 + off)" "\<not> same_page v 0x401FF000" "\<not> same_page v 0x40000000"
    using view(3)[OF that(1,2)] that(3) by (simp add: pm)
qed

text \<open>
  C5: Starting a program (\<open>SYS_EXEC\<close>). From a state that is ready for it,
  \<open>syscall_prepare_exec_bootstrap\<close> returns a bootstrap of a new address space in which every byte of the program's span
  reads as its headers say, the stack page lies below \<open>0x40200000\<close>, the trampoline page at \<open>0x40000000\<close> holds the page of
  the trampoline's code, and every other address reads as in the kernel's own tables. No other address space changes. The
  pages that left the free list are the root \<open>U\<close>, the new tables, the stack page and the claimed part of the load window.
\<close>

theorem exec_bootstrap_prepared:
  fixes s :: "'a kernel_state_scheme"
  assumes ready: "exec_ready s K ow ps U img n hs b e cb bld" and w: "w = e - b" "k = unat w div 4096" and r: "reuse_range cb = (rb, re)"
  shows "\<exists>t x ow' ps'. syscall_prepare_exec_bootstrap bld img n cb s
      = Ret (Some \<lparr>layout = first_user_layout, address_space = U, trampoline_entry = 0x40000000 + (arch_user_program_entry bld AND 4095),
          user_entry = 0x40001000 + (eh_entry (elf64_header_at (mem s) img) - b), image_physical_begin = elf_user_load_base,
          image_physical_end = elf_user_load_base + w, user_stack_page = x, user_stack_top = 0x40200000\<rparr>) t
    \<and> eh_entry (elf64_header_at (mem s) img) - b < w
    \<and> (\<forall>off < w. translate t U (0x40001000 + off) = Some (PagingMap.user_entry (elf_user_load_base + off))
        \<and> space_byte t U (0x40001000 + off) = Some (window_bytes (mem s) img hs b off))
    \<and> (\<forall>v. same_page v 0x401FF000 \<longrightarrow> translate t U v = Some (PagingMap.user_entry x))
    \<and> (\<forall>v. same_page v 0x40000000 \<longrightarrow> translate t U v = Some (PagingMap.user_entry (arch_user_program_entry bld AND NOT 4095)))
    \<and> (\<forall>v. (\<forall>off < w. \<not> same_page v (0x40001000 + off)) \<and> \<not> same_page v 0x401FF000 \<and> \<not> same_page v 0x40000000
        \<longrightarrow> translate t U v = translate s K v)
    \<and> (\<forall>y v. ow y = Some (y, []) \<longrightarrow> translate t y v = translate s y v)
    \<and> table_inv t K ow' ps' \<and> ow(U \<mapsto> (U, [])) \<subseteq>\<^sub>m ow' \<and> x \<notin> dom ow' \<union> set ps'
    \<and> insert x (dom ow' \<union> set ps') = insert U (dom ow) \<union> (set ps - claimed elf_user_load_base k rb re)"
proof -
  have acc: "accepted_image (mem s) img n hs b e" using ready by (simp add: exec_ready_def Let_def)
  note a = accepted_imageD[OF acc, folded w]
  have c: "compute_load_span hs = Some (b, e)" "entry_in_load_segment hs (eh_entry (elf64_header_at (mem s) img))"
    using acc by (auto simp: accepted_image_def Let_def)
  note entry = entry_inside[OF c, folded w]
  have wk: "unat w = 4096 * k" using a(1) w(2) by simp
  have k: "k \<le> 256" "1 \<le> k" using a(2) w entry wk by (simp, cases k) (auto simp: unat_eq_0)
  from prepare_exec_spec[OF ready w r] obtain t x ow' ps' where t: "syscall_prepare_exec_bootstrap bld img n cb s
      = Ret (Some (program_of U bld w (eh_entry (elf64_header_at (mem s) img) - b) x)) t"
    "table_inv t K ow' ps'" "ow(U \<mapsto> (U, [])) \<subseteq>\<^sub>m ow'"
    "insert x (dom ow' \<union> set ps') = insert U (dom ow) \<union> (set ps - claimed elf_user_load_base k rb re)" "x \<notin> dom ow' \<union> set ps'"
    "\<forall>off < w. mem t (elf_user_load_base + off) = window_bytes (mem s) img hs b off"
    "\<forall>v. translate t U v = mapped_entry (program_maps k x (arch_user_program_entry bld AND NOT 4095)) v (translate s K v)"
    "\<forall>y v. ow y = Some (y, []) \<longrightarrow> translate t y v = translate s y v" by blast
  note view = program_view[OF wk k, of _ x "arch_user_program_entry bld AND NOT 4095"]
  have tr: "translate t U (0x40001000 + off) = Some (PagingMap.user_entry (elf_user_load_base + off))" if "off < w" for off
    using t(7) view(1)[OF that] by metis
  have "space_byte t U (0x40001000 + off) = Some (window_bytes (mem s) img hs b off)" if "off < w" for off
    using window_byte_read[OF _ wk k(1) that tr[OF that]] t(6) that by (simp add: page_aligned_def)
  moreover have "translate t U v = Some (PagingMap.user_entry x)" if "same_page v 0x401FF000" for v using t(7) view(2)[OF that] by metis
  moreover have "translate t U v = Some (PagingMap.user_entry (arch_user_program_entry bld AND NOT 4095))" if "same_page v 0x40000000" for v
    using t(7) view(3)[OF that] by metis
  moreover have "translate t U v = translate s K v"
    if "\<forall>off < w. \<not> same_page v (0x40001000 + off)" "\<not> same_page v 0x401FF000" "\<not> same_page v 0x40000000" for v
    using t(7) view(4)[OF that] by metis
  ultimately show ?thesis using t(1)[unfolded first_user_layout_def, simplified, folded first_user_layout_def] t(2-5,8) entry tr by blast
qed

section \<open>A kernel that starts a program\<close>

definition old_program :: user_task_bootstrap where
  "old_program = cleared_bootstrap\<lparr>layout := first_user_layout, address_space := 0x02001000,
     image_physical_begin := 0x02100000, image_physical_end := 0x02200000\<rparr>"

definition exec_kernel :: kernel_state where
  "exec_kernel = (user_kernel loader_state)\<lparr>paging_kernel_pml4 := 0x02000000, tasks := (\<lambda>_. user_task\<lparr>user_bootstrap := old_program\<rparr>)\<rparr>"

lemma exec_kernel_tables:
  "table_inv exec_kernel 0x02000000 two_owners (rev (pool_pages 16))" "paging_kernel_pml4 exec_kernel = 0x02000000"
  "two_owners r = Some (r, []) \<Longrightarrow> translate exec_kernel r v = translate two_roots r v" "mem exec_kernel = mem loader_state"
proof -
  show m: "mem exec_kernel = mem loader_state" by (simp add: exec_kernel_def user_kernel_def)
  have f: "free_list_head exec_kernel = free_list_head loader_state" "free_page_count exec_kernel = free_page_count loader_state"
    by (simp_all add: exec_kernel_def user_kernel_def)
  have "table_inv loader_state 0x02000000 two_owners (rev (pool_pages 16))" using loader_tables(1) by (simp add: user_tables_def)
  then show "table_inv exec_kernel 0x02000000 two_owners (rev (pool_pages 16))" by (rule table_inv_outside) (simp_all add: m f)
  show "paging_kernel_pml4 exec_kernel = 0x02000000" by (simp add: exec_kernel_def)
  show "translate exec_kernel r v = translate two_roots r v" if "two_owners r = Some (r, [])"
    using translate_mem[OF m] loader_tables(2)[OF that] by metis
qed

lemma exec_kernel_ready:
  assumes p: "rev (pool_pages 16) = U # ps" and bld: "arch_user_program_entry bld = 0"
  shows "exec_ready exec_kernel 0x02000000 two_owners ps U 0x05000000 128 sample_phdrs 0x400000 0x401000 (Some old_program) bld"
proof -
  have "table_inv exec_kernel 0x02000000 two_owners (U # ps)" using exec_kernel_tables(1) p by simp
  moreover have "translate exec_kernel 0x02000000 0 \<noteq> None"
    using exec_kernel_tables(3)[of "0x02000000" 0] two_roots_zero(1) by (simp add: two_owners_def)
  moreover have "U \<notin> set (region_pages elf_user_load_base 1)"
    using pool_page(2)[of 16 U] p by (auto simp: region_pages_def elf_user_load_base_def dest: arg_cong[of _ _ set])
  moreover have "claimed elf_user_load_base 1 0x02100000 0x02200000 = {}"
    by (auto simp: claimed_def region_pages_def elf_user_load_base_def page_in_range_def)
  moreover have "length ps = 15" using arg_cong[OF p, of length] by (simp add: pool_pages_def region_pages_def)
  ultimately show ?thesis
    using loader_accepted(1) loader_window p bld
    by (simp add: exec_ready_def exec_kernel_tables(2,4) reuse_range_def old_program_def)
qed

theorem exec_bootstrap_prepared_witness:
  "\<exists>t bs. syscall_prepare_exec_bootstrap blank_build 0x05000000 128 (Some old_program) exec_kernel = Ret (Some bs) t
    \<and> user_entry bs = 0x40001004 \<and> space_byte t (address_space bs) 0x40001004 = Some 15 \<and> translate t (address_space bs) 0 = translate exec_kernel 0x02000000 0"
proof -
  obtain U ps where p: "rev (pool_pages 16) = U # ps" by (cases "rev (pool_pages 16)") (auto simp: pool_pages_def region_pages_def)
  have w: "(4096 :: u64) = 0x401000 - 0x400000" "1 = unat (4096 :: u64) div 4096" by simp_all
  have r: "reuse_range (Some old_program) = (0x02100000, 0x02200000)" by (simp add: reuse_range_def old_program_def)
  note m = exec_kernel_tables(4)
  have byte: "window_bytes (mem loader_state) 0x05000000 sample_phdrs 0x400000 4 = 15"
    by (simp add: window_bytes_def sample_phdrs_def segment_byte_def is_load_def elf_phdr_type_load_def loader_state_def windowed_def
        sample_byte_def sample_image_def)
  have bld: "arch_user_program_entry blank_build = 0" by (simp add: blank_build_def)
  from exec_bootstrap_prepared [OF exec_kernel_ready[OF p bld] w r] obtain t x where
    t: "syscall_prepare_exec_bootstrap blank_build 0x05000000 128 (Some old_program) exec_kernel
      = Ret (Some \<lparr>layout = first_user_layout, address_space = U, trampoline_entry = 0x40000000 + (arch_user_program_entry blank_build AND 4095),
          user_entry = 0x40001000 + (eh_entry (elf64_header_at (mem exec_kernel) 0x05000000) - 0x400000), image_physical_begin = elf_user_load_base,
          image_physical_end = elf_user_load_base + 4096, user_stack_page = x, user_stack_top = 0x40200000\<rparr>) t"
    "\<forall>off < 4096. space_byte t U (0x40001000 + off) = Some (window_bytes (mem exec_kernel) 0x05000000 sample_phdrs 0x400000 off)"
    "\<forall>v. (\<forall>off < 4096. \<not> same_page v (0x40001000 + off)) \<and> \<not> same_page v 0x401FF000 \<and> \<not> same_page v 0x40000000
        \<longrightarrow> translate t U v = translate exec_kernel 0x02000000 v" by blast
  have "\<not> same_page 0 (0x40001000 + off)" if "off < 4096" for off
  proof -
    have "unat off < 4096" using that by (simp add: word_less_nat_alt)
    then have "unat (0x40001000 + off) = 1073745920 + unat off" by (simp add: unat_word_ariths)
    then show ?thesis using same_page_low[of 0 "0x40001000 + off"] \<open>unat off < 4096\<close> by simp
  qed
  then have "translate t U 0 = translate exec_kernel 0x02000000 0" using t(3) by (simp add: same_page_def)
  moreover have "space_byte t U (0x40001000 + 4) = Some 15" using t(2)[rule_format, of 4] byte unfolding m by simp
  ultimately show ?thesis using t(1) loader_accepted(2) unfolding m by simp
qed

end
