(* ===== verification/ExecErrors.thy ===== *)
theory ExecErrors
  imports ExecSpec
begin

text \<open>The error paths of exec: an image that fails a check leaves nothing behind, and what a switch that fails gives back.\<close>

section \<open>Refused images\<close>

lemma load_refused:
  assumes "\<nexists>hs b e. accepted_image (mem s) img n hs b e"
  shows "elf_load_user_image img n l U rb re (Some old) s = Ret (False, Some cleared_image) s"
proof -
  let ?h = "elf64_header_at (mem s) img"
  let ?hs = "phdr_list (mem s) (img + eh_phoff ?h) (eh_phnum ?h)"
  show ?thesis
  proof (cases "compute_load_span ?hs")
    case None
    then show ?thesis by (simp add: elf_load_user_image_def clear_loaded_user_image_def Let_def)
  next
    case (Some be)
    obtain b e where be: "be = (b, e)" by (cases be)
    have "\<not> accepted_image (mem s) img n ?hs b e" using assms by blast
    then have "validate_header ?h n \<Longrightarrow> validate_program_headers ?hs (eh_phnum ?h) n \<Longrightarrow> entry_in_load_segment ?hs (eh_entry ?h)
        \<Longrightarrow> elf_user_load_size < e - b"
      using Some be by (auto simp: accepted_image_def Let_def)
    then show ?thesis by (auto simp: elf_load_user_image_def clear_loaded_user_image_def Let_def Some be)
  qed
qed

lemma load_window_taken:
  assumes acc: "accepted_image (mem s) img n hs b e" and w: "w = e - b" and lay: "layout_fits l w" and U: "U \<noteq> 0"
    and taken: "claim_window_pages elf_user_load_base (elf_user_load_base + w) rb re s = Ret False t"
  shows "elf_load_user_image img n l U rb re (Some old) s = Ret (False, Some cleared_image) t"
proof -
  let ?h = "elf64_header_at (mem s) img"
  note a = accepted_imageD[OF acc, folded w]
  have c: "validate_header ?h n" "validate_program_headers (phdr_list (mem s) (img + eh_phoff ?h) (eh_phnum ?h)) (eh_phnum ?h) n"
    "compute_load_span (phdr_list (mem s) (img + eh_phoff ?h) (eh_phnum ?h)) = Some (b, e)"
    "entry_in_load_segment (phdr_list (mem s) (img + eh_phoff ?h) (eh_phnum ?h)) (eh_entry ?h)" "\<not> elf_user_load_size < w"
    using acc by (auto simp: accepted_image_def Let_def not_less w)
  have nz: "image_base l \<noteq> 0" "stack_top l \<noteq> 0" "\<not> stack_top l \<le> 4096" using lay by (auto simp: layout_fits_def not_le)
  have "b < e" by (rule load_span_pages(2)[OF c(3)])
  then have k1: "1 \<le> unat w div 4096" using a(1) w by (cases "unat w div 4096") (auto simp: unat_eq_0)
  note f = layout_fitsD[OF lay a(1) k1]
  show ?thesis
    unfolding elf_load_user_image_def Let_def clear_loaded_user_image_def
    using c(1-4) nz U by (simp add: w[symmetric] leD[OF f(4)] leD[OF f(5)] c(5) taken)
qed

section \<open>The same on the address spaces\<close>

lemma rep_tables:
  assumes "paging_rep base s A F"
  obtains ow ps where "table_inv s (paging_kernel_pml4 s) ow ps" "F = set ps" "A = space_tables ow"
    "\<forall>x r p. ow x = Some (r, p) \<longrightarrow> r \<noteq> paging_kernel_pml4 s \<longrightarrow> (\<exists>q. indices base = p @ q)"
    "\<forall>r. ow r = Some (r, []) \<longrightarrow> (\<exists>v. pml4_index v = pml4_index base \<and> translate s r v \<noteq> None)"
  using assms unfolding paging_rep_def by blast

lemma claim_fails_rep:
  assumes rep: "paging_rep base s A F" and first: "page_aligned first" "unat first + 4096 * k < 18446744073709551616"
    and taken: "\<not> claimed first k rb re \<subseteq> F"
  shows "\<exists>t. claim_window_pages first (first + of_nat k * 4096) rb re s = Ret False t \<and> paging_rep base t A F
    \<and> paging_kernel_pml4 t = paging_kernel_pml4 s \<and> same_outside F s t \<and> (\<forall>x \<in> dom A. \<forall>v. translate t x v = translate s x v)"
proof -
  from rep obtain ow ps where o: "table_inv s (paging_kernel_pml4 s) ow ps" "F = set ps" "A = space_tables ow"
    "\<forall>x r p. ow x = Some (r, p) \<longrightarrow> r \<noteq> paging_kernel_pml4 s \<longrightarrow> (\<exists>q. indices base = p @ q)"
    "\<forall>r. ow r = Some (r, []) \<longrightarrow> (\<exists>v. pml4_index v = pml4_index base \<and> translate s r v \<noteq> None)" by (rule rep_tables) blast
  from claim_window_fails[OF o(1) first taken[unfolded o(2)]] obtain t qs where t: "claim_window_pages first (first + of_nat k * 4096) rb re s = Ret False t"
    "table_inv t (paging_kernel_pml4 s) ow qs" "set qs = set ps" "same_outside (set ps) s t"
    "\<forall>r v. ow r = Some (r, []) \<longrightarrow> translate t r v = translate s r v" by blast
  have k: "paging_kernel_pml4 t = paging_kernel_pml4 s" by (rule keeps_Ret[OF kernel_root.claim_window_pages[OF refl] t(1)])
  have "\<forall>r. ow r = Some (r, []) \<longrightarrow> (\<exists>v. pml4_index v = pml4_index base \<and> translate t r v \<noteq> None)" using o(5) t(5) by metis
  then have "paging_rep base t A F" unfolding paging_rep_def k using t(2,3) o(2-4) by metis
  then show ?thesis using t(1,4,5) k o(2,3) by (auto simp: space_tables_dom)
qed

lemma fold_free_outside: "\<forall>q \<in> set qs. page_aligned q \<and> q \<in> P \<Longrightarrow> same_outside P s (fold palloc_free qs s)"
proof (induction qs arbitrary: s)
  case (Cons q qs)
  have "same_outside P s (palloc_free q s)" by (rule palloc_free_outside) (use Cons.prems in auto)
  moreover have "same_outside P (palloc_free q s) (fold palloc_free qs (palloc_free q s))" by (rule Cons.IH) (use Cons.prems in auto)
  ultimately show ?case by (auto intro: same_outside_trans)
qed simp

lemma release_outside:
  fixes s :: "'a paging_state_scheme"
  assumes rep: "paging_rep (trampoline_base l) s A F" and U: "A U = Some T" "U \<noteq> paging_kernel_pml4 s"
  shows "same_outside T s (paging_release_user_address_space U (Some l) s)"
proof -
  from rep obtain ow ps where o: "table_inv s (paging_kernel_pml4 s) ow ps" "A = space_tables ow"
    "\<forall>x r p. ow x = Some (r, p) \<longrightarrow> r \<noteq> paging_kernel_pml4 s \<longrightarrow> (\<exists>q. indices (trampoline_base l) = p @ q)" by (rule rep_tables) blast
  have u: "ow U = Some (U, [])" "T = root_tables ow U" using U(1) o(2) by (simp_all add: space_tables_def split: if_splits)
  have "\<exists>qs. paging_release_user_address_space U (Some l) s = fold palloc_free qs s \<and> distinct qs \<and> set qs = root_tables ow U"
    by (rule release_spec[OF o(1) u(1) U(2) refl]) (use o(3) U(2) in blast)
  then obtain qs where q: "paging_release_user_address_space U (Some l) s = fold palloc_free qs s" "set qs = root_tables ow U" by blast
  have "page_aligned x" if "x \<in> set qs" for x using that q(2) ownedD[OF table_invD(3)[OF o(1)]] by (auto simp: root_tables_def)
  then show ?thesis unfolding q(1) u(2) q(2)[symmetric] by (intro fold_free_outside) blast
qed

lemma new_space_rep:
  fixes s :: "'a paging_state_scheme"
  assumes rep: "paging_rep base s A F" "F \<noteq> {}"
  shows "\<exists>U t. paging_create_user_address_space s = (U, t) \<and> U \<in> F \<and> U \<noteq> 0 \<and> U \<noteq> paging_kernel_pml4 s \<and> A U = None
    \<and> paging_address_space_valid U t \<and> paging_rep base t (A(U \<mapsto> {U})) (F - {U}) \<and> paging_kernel_pml4 t = paging_kernel_pml4 s
    \<and> same_outside F s t \<and> (\<forall>x \<in> dom A. \<forall>v. translate t x v = translate s x v)"
proof -
  let ?K = "paging_kernel_pml4 s"
  from rep(1) obtain ow ps where o: "table_inv s ?K ow ps" "F = set ps" "A = space_tables ow" by (rule rep_tables) blast
  obtain U ps' where ps: "ps = U # ps'" using rep(2) o(2) by (cases ps) auto
  note d = table_invD[OF o(1)[unfolded ps]]
  from create_user_address_space_spec[OF o(1) refl] ps obtain t where c: "paging_create_user_address_space s = (U, t)" "U \<noteq> 0"
      "pages_frame s t" "\<forall>i < 512. entry_at t U i = entry_at s ?K i \<and> entry_at t ?K i = entry_at s ?K i" by auto
  note k = pages_frame_kernel[OF c(3)]
  have "paging_address_space_valid U t" using c(2,4) k by (auto simp: paging_address_space_valid_def word_less_nat_alt index_nat)
  moreover have "same_outside F s t" by (rule same_outside_mono[OF create_outside[OF d(1) c(1)]]) (simp add: o(2) ps)
  moreover have "U \<noteq> ?K" using d(6) ownedD[OF d(3), of ?K] by auto
  ultimately show ?thesis using rep_create[OF rep] c(1,2) k by auto
qed

lemma refused_load:
  assumes rep: "paging_rep base s1 A F'" and U: "U \<noteq> 0" and img: "same_image (mem s1) m img n"
    and bad: "\<forall>hs b e. accepted_image m img n hs b e \<longrightarrow> \<not> claimed elf_user_load_base (unat (e - b) div 4096) rb re \<subseteq> F"
    and F: "F' \<subseteq> F"
  shows "\<exists>t. elf_load_user_image img n first_user_layout U rb re (Some cleared_image) s1 = Ret (False, Some cleared_image) t
    \<and> paging_rep base t A F' \<and> paging_kernel_pml4 t = paging_kernel_pml4 s1 \<and> same_outside F s1 t
    \<and> (\<forall>x \<in> dom A. \<forall>v. translate t x v = translate s1 x v)"
proof (cases "\<exists>hs b e. accepted_image (mem s1) img n hs b e")
  case True
  then obtain hs b e where acc: "accepted_image (mem s1) img n hs b e" by blast
  let ?k = "unat (e - b) div 4096"
  note a = accepted_imageD[OF acc]
  have "accepted_image m img n hs b e" by (rule accepted_image_cong[OF img acc])
  then have taken: "\<not> claimed elf_user_load_base ?k rb re \<subseteq> F'" using bad F by blast
  have top: "unat elf_user_load_base + 4096 * ?k < 18446744073709551616" using a(2) load_base(2) by linarith
  from claim_fails_rep[OF rep load_base(1) top taken] obtain t where t:
    "claim_window_pages elf_user_load_base (elf_user_load_base + (e - b)) rb re s1 = Ret False t" "paging_rep base t A F'"
    "paging_kernel_pml4 t = paging_kernel_pml4 s1" "same_outside F' s1 t" "\<forall>x \<in> dom A. \<forall>v. translate t x v = translate s1 x v"
    unfolding a(3)[symmetric] by blast
  have "layout_fits first_user_layout (e - b)" by (rule first_layout_fits) (use a(1,2) in linarith)
  from load_window_taken[OF acc refl this U t(1)] show ?thesis using t(2-5) same_outside_mono[OF t(4) F] by blast
next
  case False
  then show ?thesis using load_refused[of s1 img n first_user_layout U rb re cleared_image] rep by auto
qed

section \<open>Refused programs\<close>

text \<open>
  C7: Refusing a program. When no page is left for the root of the address space, or the image fails a check of the loader,
  or a page of the load window is neither free nor part of the image that is running, \<open>syscall_prepare_exec_bootstrap\<close>
  returns null, the set of free pages and the live address spaces are what they were, every space translates every address
  as before, and no byte outside the free pages has changed. The image itself must not lie in free pages.
\<close>

theorem refused_program_leaves_nothing:
  fixes s :: "'a kernel_state_scheme"
  assumes rep: "paging_rep 0x40000000 s A F" and r: "reuse_range cb = (rb, re)"
    and bad: "F = {} \<or> (\<forall>hs b e. accepted_image (mem s) img n hs b e \<longrightarrow> \<not> claimed elf_user_load_base (unat (e - b) div 4096) rb re \<subseteq> F)"
    and apart: "\<forall>i < unat n. (img + of_nat i) AND NOT 4095 \<notin> F"
  shows "\<exists>t. syscall_prepare_exec_bootstrap bld img n cb s = Ret None t \<and> paging_rep 0x40000000 t A F
    \<and> (\<forall>x \<in> dom A. \<forall>v. translate t x v = translate s x v) \<and> (\<forall>a. a AND NOT 4095 \<notin> F \<longrightarrow> mem t a = mem s a)"
proof (cases "F = {}")
  case True
  with rep obtain ow where "table_inv s (paging_kernel_pml4 s) ow []" by (auto elim: rep_tables)
  then have "paging_create_user_address_space s = (0, s)" using create_user_address_space_spec[OF _ refl, of s ow "[]"] by simp
  then show ?thesis using rep by (simp add: syscall_prepare_exec_bootstrap_def)
next
  case False
  let ?l = first_user_layout and ?B = "0x40000000 :: addr"
  have l: "trampoline_base ?l = ?B" by (simp add: first_user_layout_def)
  from new_space_rep[OF rep False] obtain U s1 where c: "paging_create_user_address_space s = (U, s1)" "U \<in> F" "U \<noteq> 0"
    "U \<noteq> paging_kernel_pml4 s" "A U = None" "paging_address_space_valid U s1" "paging_rep ?B s1 (A(U \<mapsto> {U})) (F - {U})"
    "paging_kernel_pml4 s1 = paging_kernel_pml4 s" "same_outside F s s1" "\<forall>x \<in> dom A. \<forall>v. translate s1 x v = translate s x v" by blast
  have img: "same_image (mem s1) (mem s) img n" using apart c(9) by (fastforce simp: same_image_def same_outside_def)
  have bad: "\<forall>hs b e. accepted_image (mem s) img n hs b e \<longrightarrow> \<not> claimed elf_user_load_base (unat (e - b) div 4096) rb re \<subseteq> F"
    using bad False by blast
  from refused_load[OF c(7,3) img bad Diff_subset] obtain t where t: "elf_load_user_image img n ?l U rb re (Some cleared_image) s1 = Ret (False, Some cleared_image) t"
    "paging_rep ?B t (A(U \<mapsto> {U})) (F - {U})" "paging_kernel_pml4 t = paging_kernel_pml4 s1" "same_outside F s1 t"
    "\<forall>x \<in> dom (A(U \<mapsto> {U})). \<forall>v. translate t x v = translate s1 x v" by blast
  let ?t = "paging_release_user_address_space U (Some ?l) t"
  have run: "syscall_prepare_exec_bootstrap bld img n cb s = Ret None ?t"
    using c(3,6) by (simp add: syscall_prepare_exec_bootstrap_def c(1) t(1) r[unfolded reuse_range_def])
  have K: "U \<noteq> paging_kernel_pml4 t" using c(4,8) t(3) by simp
  have rel: "paging_rep ?B ?t A F" "\<forall>x \<in> dom A. translate ?t x = translate t x"
    using user_spaces.release_law[of ?l t "A(U \<mapsto> {U})" "F - {U}" U "{U}"] t(2) K l c(2,5) by (auto simp: fun_upd_idem insert_absorb)
  have "same_outside {U} t ?t" using release_outside[of ?l t "A(U \<mapsto> {U})" "F - {U}" U "{U}"] t(2) K l by simp
  then have "same_outside F s1 ?t" using same_outside_trans[OF t(4)] c(2) by blast
  then have "same_outside F s ?t" by (rule same_outside_trans[OF c(9)]) simp
  then show ?thesis using run rel t(5) c(10) by (auto simp: same_outside_def)
qed

section \<open>A switch that fails\<close>

lemma region_pages_ok:
  assumes "page_aligned first" "first \<noteq> 0" "unat first + 4096 * k < 4503599627370496" "p \<in> set (region_pages first k)"
  shows "p \<noteq> 0 \<and> pointer_ok p"
proof -
  obtain i where i: "i < k" "p = first + of_nat i * 4096" using assms(4) by (auto simp: region_pages_def)
  have top: "unat first + 4096 * k < 18446744073709551616" using assms(3) by linarith
  note u = region_page_index[OF top less_imp_le[OF i(1)], folded i(2)] and al = region_page_aligned[OF assms(1) top less_imp_le[OF i(1)], folded i(2)]
  have "p \<noteq> 0" using u assms(2) by (metis add_is_0 unat_0 unat_eq_0)
  moreover have "pointer_ok p" by (rule pointer_low[OF al]) (use u assms(3) i(1) in linarith)
  ultimately show ?thesis by simp
qed

text \<open>Giving back a bootstrap: the stack page, the whole window, the tables.\<close>

lemma release_bootstrap_spec:
  fixes s :: "'a kernel_state_scheme"
  assumes inv: "table_inv s K ow ps" and K: "paging_kernel_pml4 s = K" and U: "ow U = Some (U, [])" "U \<noteq> K" "U = address_space bs"
    and path: "\<forall>y p. ow y = Some (U, p) \<longrightarrow> (\<exists>q. indices (trampoline_base (layout bs)) = p @ q)"
    and x: "x = user_stack_page bs" "page_aligned x" "x \<noteq> 0" "pointer_ok x" "x \<notin> dom ow \<union> set ps"
    and win: "image_physical_begin bs = first" "image_physical_end bs = first + of_nat k * 4096" "page_aligned first" "first \<noteq> 0"
      "unat first + 4096 * k < 4503599627370496" "set (region_pages first k) \<inter> insert x (dom ow \<union> set ps) = {}"
  shows "\<exists>b t qs. syscall_release_bootstrap (Some bs) s = Ret b t \<and> table_inv t K (without_root ow U) qs
    \<and> set qs = root_tables ow U \<union> set (region_pages first k) \<union> insert x (set ps)
    \<and> (\<forall>r v. ow r = Some (r, []) \<longrightarrow> r \<noteq> U \<longrightarrow> translate t r v = translate s r v)
    \<and> same_outside (root_tables ow U \<union> set (region_pages first k) \<union> insert x (set ps)) s t"
proof -
  let ?s1 = "palloc_free x s"
  note one = free_page_step[OF inv x(2-5)]
  have all: "claimed first k 0 0 = set (region_pages first k)" by (simp add: claimed_def page_in_range_def)
  have ok: "\<forall>p \<in> claimed first k 0 0. p \<noteq> 0 \<and> pointer_ok p \<and> p \<notin> dom ow \<union> set (x # ps)"
    using region_pages_ok[OF win(3-5)] win(6) unfolding all by auto
  have top: "unat first + 4096 * k < 18446744073709551616" using win(5) by linarith
  from free_pages_spec[OF one(1) win(3) top ok] obtain e s2 ps2 where s2: "free_pages_loop first (first + of_nat k * 4096) 0 0 ?s1 = Ret e s2"
    "table_inv s2 K ow ps2" "\<forall>r v. ow r = Some (r, []) \<longrightarrow> translate s2 r v = translate ?s1 r v"
    "set ps2 = set (region_pages first k) \<union> insert x (set ps)" "same_outside (set (region_pages first k)) ?s1 s2" unfolding all by auto
  have K2: "paging_kernel_pml4 s2 = K"
    using keeps_Ret[OF kernel_root.free_pages_loop s2(1)] pages_frame_kernel[OF palloc_free_frame[of s x]] K by simp
  let ?t = "paging_release_user_address_space U (Some (layout bs)) s2"
  have "\<exists>qs. ?t = fold palloc_free qs s2 \<and> distinct qs \<and> set qs = root_tables ow U"
    by (rule release_spec[OF s2(2) U(1,2) K2]) (use path in blast)
  then obtain qs where q: "?t = fold palloc_free qs s2" "distinct qs" "set qs = root_tables ow U" by blast
  note f = free_root[OF s2(2) U(2) q(2,3), folded q(1)]
  have "page_aligned y" if "y \<in> set qs" for y using that q(3) ownedD[OF table_invD(3)[OF inv]] by (auto simp: root_tables_def)
  then have o3: "same_outside (root_tables ow U) s2 ?t" unfolding q(1) q(3)[symmetric] by (intro fold_free_outside) blast
  have o1: "same_outside {x} s ?s1" by (rule palloc_free_outside[OF x(2)]) simp
  have "same_outside (root_tables ow U \<union> set (region_pages first k) \<union> insert x (set ps)) s ?t"
    by (rule same_outside_trans[OF same_outside_trans[OF same_outside_mono[OF o1] s2(5)] o3]) auto
  moreover have "\<exists>b. syscall_release_bootstrap (Some bs) s = Ret b ?t"
    using x(1,3) s2(1) U(3) win(1,2) by (simp add: syscall_release_bootstrap_def elf_release_user_image_def clear_loaded_user_image_def Let_def)
  moreover have "set (rev qs @ ps2) = root_tables ow U \<union> set (region_pages first k) \<union> insert x (set ps)"
    using q(3) s2(4) by auto
  moreover have "translate ?t r v = translate s r v" if "ow r = Some (r, [])" "r \<noteq> U" for r v
    using f(3)[OF that] s2(3) one(2)[OF that(1)] that(1) by simp
  ultimately show ?thesis using f(1) by blast
qed

lemma sched_exec_no_trampoline:
  "trampoline_entry bs = 0 \<Longrightarrow> sched_exec_current bs s = Ret 0 s"
  by (simp add: sched_exec_current_def split: option.splits)

text \<open>Without the new space the owners are the old ones, and its pages are those that had left the free list.\<close>

lemma without_new_space:
  assumes own: "owned ow (U # ps)" "parent_ok s ow" and le: "ow(U \<mapsto> (U, [])) \<subseteq>\<^sub>m ow'" and nt: "new_tables (ow(U \<mapsto> (U, []))) ow' U"
  shows "without_root ow' U = ow" "dom ow' = dom ow \<union> root_tables ow' U" "dom ow \<inter> root_tables ow' U = {}"
proof -
  have U: "ow U = None" using ownedD[OF own(1), of U] by (cases "ow U") auto
  have old: "ow' y = ow y \<and> (\<forall>p. ow y \<noteq> Some (U, p))" if "ow y \<noteq> None" for y
  proof -
    have "y \<noteq> U" using U that by auto
    moreover obtain z where "ow y = Some z" using \<open>ow y \<noteq> None\<close> by blast
    ultimately have z: "ow y = Some z" "(ow(U \<mapsto> (U, []))) y = Some z" by simp_all
    have "ow y \<noteq> Some (U, p)" for p using root_owner[OF own, of y U p] U by auto
    then show ?thesis using map_le_Some[OF le z(2)] z(1) by simp
  qed
  have new: "\<exists>p. ow' y = Some (U, p)" if "ow y = None" "ow' y \<noteq> None" for y
  proof (cases "y = U")
    case True
    then show ?thesis using map_le_Some[OF le, of U] by simp
  next
    case False
    then show ?thesis using nt that by (simp add: new_tables_def)
  qed
  show "without_root ow' U = ow"
  proof
    fix y
    show "without_root ow' U y = ow y"
    proof (cases "ow y")
      case None
      then show ?thesis using new[of y] by (cases "ow' y") (auto simp: without_root_def)
    next
      case (Some z)
      then have "ow' y = Some z" "fst z \<noteq> U" using old[of y] by (auto simp: prod_eq_iff)
      then show ?thesis using Some by (simp add: without_root_def case_prod_beta)
    qed
  qed
  show "dom ow' = dom ow \<union> root_tables ow' U"
  proof (intro set_eqI iffI)
    fix y assume "y \<in> dom ow'"
    then show "y \<in> dom ow \<union> root_tables ow' U" using new[of y] by (cases "ow y") (auto simp: root_tables_def)
  next
    fix y assume "y \<in> dom ow \<union> root_tables ow' U"
    then show "y \<in> dom ow'" using old[of y] by (auto simp: root_tables_def)
  qed
  show "dom ow \<inter> root_tables ow' U = {}"
  proof -
    have "ow' y \<noteq> Some (U, p)" if "y \<in> dom ow" for y p using old[of y] that by (auto simp: domIff)
    then show ?thesis by (auto simp: root_tables_def)
  qed
qed

text \<open>What the release frees, in terms of the pages that were free before.\<close>

lemma cancel_union: "D \<inter> X = {} \<Longrightarrow> D \<inter> Y = {} \<Longrightarrow> D \<union> X = D \<union> Y \<Longrightarrow> X = Y"
  by blast

lemma released_pages:
  assumes own: "owned ow (U # ps)" "owned ow' ps'" and new: "dom ow' = dom ow \<union> R" "dom ow \<inter> R = {}"
    and all: "insert x (dom ow' \<union> set ps') = insert U (dom ow) \<union> (set ps - C)" "x \<in> set ps" and C: "C \<subseteq> G"
  shows "R \<union> G \<union> insert x (set ps') = insert U (set ps) \<union> G"
proof -
  have free: "dom ow \<inter> insert U (set ps) = {}" "dom ow' \<inter> set ps' = {}" using ownedD[OF own(1)] ownedD[OF own(2)] by fastforce+
  have "R \<union> insert x (set ps') = insert U (set ps - C)"
  proof (rule cancel_union)
    show "dom ow \<inter> (R \<union> insert x (set ps')) = {}" using new free all(2) by auto
    show "dom ow \<inter> insert U (set ps - C) = {}" using free by auto
    show "dom ow \<union> (R \<union> insert x (set ps')) = dom ow \<union> insert U (set ps - C)" using all(1) unfolding new(1) by (simp add: Un_assoc)
  qed
  then show ?thesis using C by blast
qed

text \<open>
  C8: A switch that fails. In the build whose test makes the switch to the loaded program fail (it clears the trampoline
  entry), \<open>SYS_EXEC\<close> answers -1, every live address space translates every address as before, no byte has changed outside
  the page tables, the pages that were free and the load window, and the free pages are the old ones and all of the
  load window. So the pages of a calling program that lives in the window, which it still maps, were overwritten by the load and are
  now free.
\<close>

theorem failed_exec_frees_window:
  fixes s :: "'a kernel_state_scheme"
  assumes ready: "exec_ready s K ow ps U img n hs b e (Some cb) bld" and cur: "sched_current_user_bootstrap s = Some cb"
    and fail: "USER_TEST_EXEC_TRANSFER_FAIL bld"
  shows "\<exists>t qs. exec_image bld img n frame s = Ret frame (syscall_return frame (- 1) t) \<and> table_inv t K ow qs
    \<and> set qs = insert U (set ps) \<union> set (region_pages elf_user_load_base (unat (e - b) div 4096))
    \<and> (\<forall>y v. ow y = Some (y, []) \<longrightarrow> translate t y v = translate s y v)
    \<and> (\<forall>a. a AND NOT 4095 \<notin> dom ow \<union> insert U (set ps) \<union> set (region_pages elf_user_load_base (unat (e - b) div 4096))
         \<longrightarrow> mem t a = mem s a)"
proof -
  let ?F = elf_user_load_base and ?k = "unat (e - b) div 4096" and ?rb = "image_physical_begin cb" and ?re = "image_physical_end cb"
  have r: "reuse_range (Some cb) = (?rb, ?re)" by (simp add: reuse_range_def)
  have h: "table_inv s K ow (U # ps)" "window_free ow (U # ps) img n ?k ?rb ?re" "U \<notin> set (region_pages ?F ?k)"
    "accepted_image (mem s) img n hs b e"
    using ready unfolding exec_ready_def Let_def r by simp_all
  note d = table_invD[OF h(1)] and a = accepted_imageD[OF h(4)]
  from prepare_exec_spec[OF ready refl refl r] obtain t x ow' ps' where t: "syscall_prepare_exec_bootstrap bld img n (Some cb) s
      = Ret (Some (program_of U bld (e - b) (eh_entry (elf64_header_at (mem s) img) - b) x)) t"
    "table_inv t K ow' ps'" "paging_kernel_pml4 t = K" "ow(U \<mapsto> (U, [])) \<subseteq>\<^sub>m ow'" "new_tables (ow(U \<mapsto> (U, []))) ow' U"
    "\<forall>y p. ow' y = Some (U, p) \<longrightarrow> (\<exists>q. indices 0x40000000 = p @ q)"
    "insert x (dom ow' \<union> set ps') = insert U (dom ow) \<union> (set ps - claimed ?F ?k ?rb ?re)" "x \<notin> dom ow' \<union> set ps'" "x \<in> set ps"
    "\<forall>y v. ow y = Some (y, []) \<longrightarrow> translate t y v = translate s y v"
    "same_outside (dom ow \<union> insert U (set ps) \<union> set (region_pages ?F ?k)) s t" by blast
  note w = without_new_space[OF d(3,5) t(4,5)]
  define bs where "bs = \<lparr>layout = first_user_layout, address_space = U, trampoline_entry = 0,
          user_entry = image_base first_user_layout + (eh_entry (elf64_header_at (mem s) img) - b),
          image_physical_begin = ?F, image_physical_end = ?F + (e - b), user_stack_page = x, user_stack_top = stack_top first_user_layout\<rparr>"
  have U: "ow' U = Some (U, [])" "U \<noteq> K" using map_le_Some[OF t(4), of U] d(6) ownedD[OF d(3), of U] by auto
  have sub: "set (region_pages ?F ?k) \<inter> (insert U (dom ow) \<union> (set ps - claimed ?F ?k ?rb ?re)) = {}"
    using window_apart[OF h(2) d(3), unfolded set_filter] h(3) by auto
  have x: "page_aligned x" "x \<noteq> 0" "pointer_ok x" using palloc_inv_page[OF d(1), of x] d(2) t(9) by auto
  have path: "\<forall>y p. ow' y = Some (U, p) \<longrightarrow> (\<exists>q. indices (trampoline_base (layout bs)) = p @ q)"
    using t(6) by (simp add: bs_def first_user_layout_def)
  have top: "unat ?F + 4096 * ?k < 4503599627370496" using a(2) load_base(2) by linarith
  have "\<exists>b t2 qs. syscall_release_bootstrap (Some bs) t = Ret b t2 \<and> table_inv t2 K (without_root ow' U) qs
    \<and> set qs = root_tables ow' U \<union> set (region_pages ?F ?k) \<union> insert x (set ps')
    \<and> (\<forall>r v. ow' r = Some (r, []) \<longrightarrow> r \<noteq> U \<longrightarrow> translate t2 r v = translate t r v)
    \<and> same_outside (root_tables ow' U \<union> set (region_pages ?F ?k) \<union> insert x (set ps')) t t2"
    by (rule release_bootstrap_spec[OF t(2,3) U _ path _ x t(8) _ _ load_base(1) _ top])
      (use sub t(7) a(3) in \<open>simp_all add: bs_def elf_user_load_base_def\<close>)
  then obtain b' t2 qs where r2: "syscall_release_bootstrap (Some bs) t = Ret b' t2" "table_inv t2 K ow qs"
    "set qs = root_tables ow' U \<union> set (region_pages ?F ?k) \<union> insert x (set ps')"
    "\<forall>r v. ow' r = Some (r, []) \<longrightarrow> r \<noteq> U \<longrightarrow> translate t2 r v = translate t r v"
    "same_outside (root_tables ow' U \<union> set (region_pages ?F ?k) \<union> insert x (set ps')) t t2" unfolding w(1) by blast
  have "sched_exec_current bs t = Ret 0 t" by (rule sched_exec_no_trampoline) (simp add: bs_def)
  then have "exec_image bld img n frame s = Ret frame (syscall_return frame (- 1) t2)"
    using fail r2(1) by (simp add: exec_image_def cur t(1) Let_def bs_def syscall_result_def SYS_RESULT_ERROR_def)
  moreover have fr: "set qs = insert U (set ps) \<union> set (region_pages ?F ?k)"
    unfolding r2(3) by (rule released_pages[OF d(3) table_invD(3)[OF t(2)] w(2,3) t(7,9)]) (auto simp: claimed_def)
  moreover have "translate t2 y v = translate s y v" if "ow y = Some (y, [])" for y v
  proof -
    have "y \<noteq> U" using that ownedD[OF d(3), of U] by fastforce
    moreover have "ow' y = Some (y, [])" by (rule map_le_Some[OF t(4)]) (use that \<open>y \<noteq> U\<close> in simp)
    ultimately show ?thesis using r2(4) t(10) that by simp
  qed
  moreover have "same_outside (dom ow \<union> insert U (set ps) \<union> set (region_pages ?F ?k)) s t2"
    by (rule same_outside_trans[OF t(11) r2(5)]) (use fr r2(3) in auto)
  ultimately show ?thesis using r2(2) unfolding same_outside_def by blast
qed

section \<open>The properties on the small program\<close>

lemma exec_kernel_rep: "paging_rep 0x40000000 exec_kernel (space_tables two_owners) (set (pool_pages 16))"
proof -
  have root: "r = 0x02000000 \<or> r = 0x02001000" if "two_owners r = Some (r, [])" for r
    using that by (auto simp: two_owners_def split: if_splits)
  have "\<exists>v. pml4_index v = pml4_index 0x40000000 \<and> translate exec_kernel r v \<noteq> None" if "two_owners r = Some (r, [])" for r
    using exec_kernel_tables(3)[OF that, of 0] root[OF that] two_roots_zero by (intro exI[of _ 0]) (auto simp: pml4_index_def)
  moreover have "\<exists>q. indices 0x40000000 = p @ q" if "two_owners x = Some (r, p)" "r \<noteq> 0x02000000" for x r p
    using that by (auto simp: two_owners_def split: if_splits)
  ultimately show ?thesis unfolding paging_rep_def exec_kernel_tables(2) using exec_kernel_tables(1) set_rev by metis
qed

lemma sample_header:
  "eh_phoff (elf64_header_at (\<lambda>a. sample_byte (a - 0x05000000)) 0x05000000) = 64"
  "eh_phnum (elf64_header_at (\<lambda>a. sample_byte (a - 0x05000000)) 0x05000000) = 1"
  by code_simp+

theorem refused_program_leaves_nothing_witness:
  "\<exists>t. syscall_prepare_exec_bootstrap blank_build 0x05000000 100 (Some old_program) exec_kernel = Ret None t
    \<and> paging_rep 0x40000000 t (space_tables two_owners) (set (pool_pages 16)) \<and> translate t 0x02001000 0 = translate exec_kernel 0x02001000 0"
proof -
  have "mem exec_kernel (0x05000000 + of_nat i) = sample_byte (0x05000000 + of_nat i - 0x05000000)" if "i < unat (128 :: u64)" for i
    using that by (simp add: exec_kernel_tables(4) loader_state_def windowed_def word_less_nat_alt unat_of_nat)
  then have "same_image (\<lambda>a. sample_byte (a - 0x05000000)) (mem exec_kernel) 0x05000000 128" by (simp add: same_image_def)
  then have h: "elf64_header_at (mem exec_kernel) 0x05000000 = elf64_header_at (\<lambda>a. sample_byte (a - 0x05000000)) 0x05000000"
    by (rule same_image_header) simp
  have "\<not> validate_header (elf64_header_at (mem exec_kernel) 0x05000000) 100"
    using validate_headerD(2)[of "elf64_header_at (mem exec_kernel) 0x05000000" 100] sample_header unfolding h by auto
  then have bad: "\<forall>hs b e. accepted_image (mem exec_kernel) 0x05000000 100 hs b e
      \<longrightarrow> \<not> claimed elf_user_load_base (unat (e - b) div 4096) 0x02100000 0x02200000 \<subseteq> set (pool_pages 16)"
    by (simp add: accepted_image_def Let_def)
  have r: "reuse_range (Some old_program) = (0x02100000, 0x02200000)" by (simp add: reuse_range_def old_program_def)
  have "(0x05000000 + of_nat i) AND NOT 4095 \<notin> set (pool_pages 16)" if "i < unat (100 :: u64)" for i
  proof -
    have "(0x05000000 + of_nat i :: addr) AND NOT 4095 = 0x05000000"
      by (rule same_page_offset(1)) (use that in \<open>simp_all add: page_aligned_def\<close>)
    then show ?thesis using sample_pages[of "0x05000000"] by auto
  qed
  then have apart: "\<forall>i < unat (100 :: u64). (0x05000000 + of_nat i) AND NOT 4095 \<notin> set (pool_pages 16)" by blast
  have "0x02001000 \<in> dom (space_tables two_owners)" by (simp add: space_tables_dom two_owners_def)
  then show ?thesis
    using refused_program_leaves_nothing [OF exec_kernel_rep r disjI2[OF bad] apart, of blank_build] by auto
qed


theorem failed_exec_frees_window_witness:
  "\<exists>t qs. exec_image (blank_build\<lparr>USER_TEST_EXEC_TRANSFER_FAIL := True\<rparr>) 0x05000000 128 0x05010F60 exec_kernel
      = Ret 0x05010F60 (syscall_return 0x05010F60 (- 1) t) \<and> table_inv t 0x02000000 two_owners qs \<and> 0x02100000 \<in> set qs"
proof -
  let ?bld = "blank_build\<lparr>USER_TEST_EXEC_TRANSFER_FAIL := True\<rparr>"
  obtain U ps where p: "rev (pool_pages 16) = U # ps" by (cases "rev (pool_pages 16)") (auto simp: pool_pages_def region_pages_def)
  have ready: "exec_ready exec_kernel 0x02000000 two_owners ps U 0x05000000 128 sample_phdrs 0x400000 0x401000 (Some old_program) ?bld"
    by (rule exec_kernel_ready[OF p]) (simp add: blank_build_def)
  have cur: "sched_current_user_bootstrap exec_kernel = Some old_program"
    by (simp add: sched_current_user_bootstrap_def running_user_def exec_kernel_def user_kernel_def user_task_def old_program_def)
  have "USER_TEST_EXEC_TRANSFER_FAIL ?bld" by simp
  from failed_exec_frees_window [OF ready cur this, of "0x05010F60"] obtain t qs where
    "exec_image ?bld 0x05000000 128 0x05010F60 exec_kernel = Ret 0x05010F60 (syscall_return 0x05010F60 (- 1) t)"
    "table_inv t 0x02000000 two_owners qs" "set qs = insert U (set ps) \<union> set (region_pages elf_user_load_base (unat (0x401000 - 0x400000 :: u64) div 4096))"
    by blast
  then show ?thesis by (auto simp: region_pages_def elf_user_load_base_def)
qed

end
