(* ===== verification/Spec2Isabelle.thy ===== *)
theory Spec2Isabelle
  imports DeviceSpec ExecErrors
begin

text \<open>
  A model of the platinum kernel, a small x86-64 kernel that UEFI firmware starts, and of the user programs it runs. The
  paths below are relative to the repository's \<open>src\<close> directory.

  \<^bold>\<open>The program.\<close> The kernel takes the memory map from the firmware and leaves boot services (\<open>kernel/memmap.c\<close>), loads
  its descriptor tables (\<open>kernel/gdt.c\<close>, \<open>kernel/idt.c\<close>), collects the pages of the largest free region below 4 GiB (\<open>kernel/palloc.c\<close>), and puts
  a heap of blocks on top of them (\<open>kernel/heap.c\<close>). Nodes, open files and the name space \<open>/dev\<close>, \<open>/bin\<close> live on the heap
  (\<open>kernel/vfs.c\<close>), descriptor tables of sixteen entries refer to the open files (\<open>kernel/fd.c\<close>). Four-level page tables map
  physical memory to itself and hold a private window for each user address space (\<open>kernel/paging.c\<close>), which the loader
  fills from an ELF image (\<open>kernel/elf.c\<close>). Two tasks share the processor: the timer interrupt and the system calls enter
  the kernel on the stack of the running task and return with the stack pointer of the task to run
  (\<open>kernel/sched.c\<close>, \<open>kernel/core.c\<close>). \<open>kernel_main\<close> brings the parts up in this order and runs their self tests.

  \<^bold>\<open>The state\<close> is one extensible record that grows with the layers, each part next to its operations: \<open>machine\<close> (byte
  memory, console text, CR3), \<open>memmap_state\<close>, \<open>palloc_state\<close>, \<open>heap_state\<close>, \<open>paging_state\<close>, \<open>io_state\<close>, \<open>vfs_state\<close>,
  \<open>sched_state\<close>, \<open>kernel_state\<close>. The static variables of a file are the fields of its record. Free pages and page tables are
  bytes of memory as in the code; the headers of heap blocks, the nodes and the open files are typed stores keyed by their
  address. An operation on a null pointer that the code checks for takes an option.

  An operation returns \<open>Ret v s\<close>, ends in \<open>arch_halt_forever\<close> (\<open>Halt s\<close>) or in a loop that never stops (\<open>Diverge\<close>); \<open>chain\<close> is
  the sequence of statements. Integers are words of their C width, so that wrap-around is the code's.

  \<^bold>\<open>The theories\<close>, in the order of their imports:

    \<^item> \<open>Prelude\<close>: outcomes, C loops, little-endian memory. \<open>Console\<close>: \<open>drivers/serial.c\<close> and the printers.
    \<^item> \<open>Memmap\<close>, \<open>Palloc\<close>, \<open>Heap\<close>, \<open>Paging\<close>, \<open>Elf\<close>: the files of these names. \<open>Buffers\<close>: what happens when the kernel
      follows a pointer, through the active page tables, with the fault exit of \<open>arch/x86_64/boot.S\<close> and \<open>kernel_trap\<close>.
    \<^item> \<open>Vfs\<close>, \<open>VfsNs\<close>, \<open>VfsTest\<close>: \<open>kernel/vfs.c\<close>. \<open>Fd\<close>: \<open>kernel/fd.c\<close>. \<open>Sched\<close>: \<open>kernel/sched.c\<close>.
    \<^item> \<open>Devices\<close>: \<open>kernel/gdt.c\<close>, \<open>kernel/idt.c\<close>, \<open>drivers/pic.c\<close>, \<open>drivers/pit.c\<close>, \<open>drivers/serial.c\<close>.
    \<^item> \<open>Core\<close>, \<open>Boot\<close>: \<open>kernel/core.c\<close>. \<open>User\<close>: \<open>user/syscall.h\<close>, \<open>init.c\<close> with one definition for each program the build
      can select, \<open>pulse.c\<close>, \<open>pulse2.c\<close>, \<open>echo.c\<close>.

  and beside them the theories that prove:

    \<^item> \<open>Palloc\<close> also holds the invariant of the free list and its lemmas. \<open>HeapOps\<close>, \<open>HeapSpec\<close>: the heap invariant (blocks
      sorted, apart, no two free neighbours that touch), each operation on it, and the heap as an allocator.
    \<^item> \<open>PagingTree\<close>, \<open>PagingMap\<close>, \<open>PagingBoot\<close>, \<open>PagingRelease\<close>: tables as trees, the invariant of the forest of all tables
      (each table has one owner, and the rights of an entry on the upper levels never deny what the leaf below grants), what
      mapping does to it, the identity map, and release. \<open>Mmu\<close>: the processor's own walk, with canonical addresses and the
      write and user bits of all four levels, and its agreement with the leaf entries under the invariant. \<open>PagingSpec\<close>:
      address spaces as separate maps from addresses to entries, and what the operations mean to the processor.
    \<^item> \<open>ElfSpec\<close>: what the checks of the loader buy. \<open>LoadWindow\<close>, \<open>LoadMaps\<close>, \<open>LoadSpec\<close>: \<open>elf_load_user_image\<close> as a whole, on
      memory, on the mappings, and as the task reads it. \<open>ExecSpec\<close>: the same for \<open>syscall_prepare_exec_bootstrap\<close>, which
      composes the page allocator, the page tables, the loader and the trampoline. \<open>ExecErrors\<close>: its error paths, which pages
      a refused image and a failed switch give back.
    \<^item> \<open>Frames\<close>: which state an operation cannot touch. \<open>FileSpec\<close>, \<open>FdSpec\<close>, \<open>NameSpec\<close>: open files, descriptors, the path walk
      against a reference that works on lists of components.
    \<^item> \<open>SchedSpec\<close>, \<open>KernelSteps\<close>, \<open>StackSpec\<close>: the scheduler's invariant, the kernel as a transition system
      (\<open>kernel_step\<close>, \<open>kernel_run\<close>, \<open>scheduled\<close>), and the stack frames the interrupt entry pops.
    \<^item> \<open>TypeSpec\<close>: the type of descriptor tables along the runs of that system. \<open>BootSpec\<close>: the boot leaves the loaded
      descriptor tables alone. \<open>DeviceSpec\<close>: what the processor decodes from them when \<open>kernel_main\<close> is done.
    \<^item> \<open>SyscallSpec\<close>, \<open>Abi\<close>: which user pointers the system calls accept and what they do with them, and the programs on the
      kernel. \<open>Samples\<close>, \<open>AbiSamples\<close>: concrete states on which the properties are applied.

  \<^bold>\<open>The interfaces\<close> are locales, and every one is interpreted on the model itself:

    \<^item> \<open>page_pool\<close> (\<open>palloc_pool\<close>): allocation and release of pages against a set of free pages;
    \<^item> \<open>allocator\<close> (\<open>kernel_heap\<close>): \<open>kmalloc\<close> and \<open>kfree\<close> against a map from live addresses to sizes;
    \<^item> \<open>address_spaces\<close> (\<open>user_spaces\<close>): creating, mapping and releasing address spaces against their translations;
    \<^item> \<open>memory_part\<close> and \<open>file_part\<close> (\<open>tick_console\<close>, \<open>kernel_root\<close>, \<open>map_count\<close>, \<open>sched_files\<close>, \<open>table_files\<close>): an observation
      that lower layers do not touch; the second extends the first, and gives every lower operation's frame rule for the
      scheduler's part of the state and for the descriptor tables;
    \<^item> \<open>console_abi\<close> (\<open>kernel_abi\<close>): what the user programs rely on when they execute \<open>int 0x80\<close>. The interpretation goes
      through the frame \<open>arch_syscall_entry\<close> pushes and \<open>kernel_syscall_entry\<close>.

  \<^bold>\<open>Loops and bounds.\<close> There is no fuel: a C loop is \<open>c_while\<close>, whose result is \<open>Diverge\<close> when it does not stop, and a
  property that an operation returns says \<open>Ret\<close>. Loops over a fixed range are folds or recursion on the range. The bounds of
  the code stand where it has them: 16 descriptors, 64 bytes of path with the terminator, 15 characters per
  component, 512
  entries per table, 2 tasks. Hypotheses on room (free pages, heap blocks) say how much an operation needs: one
  mapping needs at most six free pages to be sure to return, and exec, which takes a root, three tables and a stack page beside
  the load window, asks for thirteen, so that six are left at its last mapping.

  \<^bold>\<open>Parameters.\<close> The record \<open>build\<close> holds the macros of the build and the link-time addresses, and with them the embedded
  programs that the build generates; \<open>static_objects\<close> the addresses of the static tables. The two firmware calls are functions from a
  firmware state. \<open>stack_garbage\<close> is what an uninitialised local variable holds. \<open>old_master\<close> is the mask the interrupt
  controller reports.

  \<^bold>\<open>Not modelled.\<close> The wait for the serial transmitter and the port reads (timing only); the instruction sequences of
  \<open>boot.S\<close> beyond the frame of the system call entry, the fault exit and the loads of CR3; the bodies of \<open>task_idle\<close> and
  \<open>task_worker\<close> as running code (a turn of the worker is the list of its system calls); \<open>task_delay\<close>; the tables of the firmware
  beyond the two calls; the Python and \<open>manage.py\<close> build scripts. Several kernel files hold a private copy of the same
  printer; the model has one. Instructions of user programs other than system calls and their stores are any change of
  memory (\<open>kernel_step.program\<close>); interrupts arrive between the steps, because the kernel's gates keep them off inside.
\<close>

end
